(* ===== verification/Prelude.thy ===== *)
theory Prelude
  imports Main "HOL-Library.Word"
begin

section \<open>Prelude: machine integers, results and loops\<close>

text \<open>
  What every component of the development shares:
  \<^item> Rust's fixed-width integers as words (\<^verbatim>\<open>u8\<close> to \<^verbatim>\<open>u64\<close>; \<^verbatim>\<open>usize\<close> is 64 bits wide, the
    platform the program is built for), with the checked and saturating operations of the
    standard library and their meaning on natural numbers (collection \<open>machine_arith\<close>);
  \<^item> \<^verbatim>\<open>Result<T, E>\<close> as a sum, \<open>Inl\<close> the error, with the two loop shapes the sources use:
    a \<^verbatim>\<open>for\<close> loop whose body may leave with \<^verbatim>\<open>?\<close> (\<open>res_fold\<close>) and
    \<^verbatim>\<open>collect::<Result<Vec<_>, _>>()\<close> (\<open>res_map\<close>);
  \<^item> generic list lemmas (collection \<open>list_prefix\<close>) used by the ledger, the tracker and the
    snapshot queue.
\<close>

unbundle bit_operations_syntax

named_theorems machine_arith "what checked and saturating word arithmetic computes"

named_theorems list_prefix "prefixes cut off the front of a list"

type_synonym u8 = "8 word"
type_synonym u16 = "16 word"
type_synonym u32 = "32 word"
type_synonym u64 = "64 word"
type_synonym u128 = "128 word"
type_synonym i64 = "64 word"
type_synonym usize = "64 word"
type_synonym ('e, 'a) res = "'e + 'a"

subsection \<open>Checked and saturating arithmetic\<close>

definition checked_add :: "'a::len word \<Rightarrow> 'a word \<Rightarrow> 'a word option" where
  "checked_add a b = (if uint a + uint b < 2 ^ LENGTH('a) then Some (a + b) else None)"

definition checked_sub :: "'a::len word \<Rightarrow> 'a word \<Rightarrow> 'a word option" where
  "checked_sub a b = (if b \<le> a then Some (a - b) else None)"

definition saturating_add :: "'a::len word \<Rightarrow> 'a word \<Rightarrow> 'a word" where
  "saturating_add a b = (if uint a + uint b < 2 ^ LENGTH('a) then a + b else - 1)"

definition saturating_sub :: "'a::len word \<Rightarrow> 'a word \<Rightarrow> 'a word" where
  "saturating_sub a b = (if b \<le> a then a - b else 0)"

definition saturating_mul :: "'a::len word \<Rightarrow> 'a word \<Rightarrow> 'a word" where
  "saturating_mul a b = (if uint a * uint b < 2 ^ LENGTH('a) then a * b else - 1)"

lemma uint_bound_unat:
  "uint (a :: 'a::len word) + uint b < 2 ^ n \<longleftrightarrow> unat a + unat b < 2 ^ n"
  "uint a * uint b < 2 ^ n \<longleftrightarrow> unat a * unat b < 2 ^ n"
proof -
  have "uint a + uint b < 2 ^ n \<longleftrightarrow> int (unat a + unat b) < int (2 ^ n)" by simp
  then show "uint a + uint b < 2 ^ n \<longleftrightarrow> unat a + unat b < 2 ^ n"
    by (simp only: of_nat_less_iff)
  have "uint a * uint b < 2 ^ n \<longleftrightarrow> int (unat a * unat b) < int (2 ^ n)" by simp
  then show "uint a * uint b < 2 ^ n \<longleftrightarrow> unat a * unat b < 2 ^ n"
    by (simp only: of_nat_less_iff)
qed

lemma unat_add_exact [machine_arith]:
  fixes a b :: "'a::len word"
  assumes "unat a + unat b < 2 ^ LENGTH('a)"
  shows "unat (a + b) = unat a + unat b"
  using assms by (simp add: unat_word_ariths)

lemma unat_mult_exact [machine_arith]:
  fixes a b :: "'a::len word"
  assumes "unat a * unat b < 2 ^ LENGTH('a)"
  shows "unat (a * b) = unat a * unat b"
  using assms by (simp add: unat_word_ariths)

lemma unat_sub_exact [machine_arith]:
  fixes a b :: "'a::len word"
  assumes "unat b \<le> unat a"
  shows "unat (a - b) = unat a - unat b"
  using assms by (simp add: unat_sub word_le_nat_alt)

lemma unat_max_word [machine_arith]: "unat (- 1 :: 'a::len word) = 2 ^ LENGTH('a) - 1"
  by (simp add: unsigned_minus_1_eq_mask mask_eq_exp_minus_1)

lemma unat_less_pow [simp]: "unat (a :: 'a::len word) < 2 ^ LENGTH('a)"
  by (rule unsigned_less)

lemma unat_ucast_wider [machine_arith]:
  fixes w :: "'a::len word"
  assumes "LENGTH('a) \<le> LENGTH('b)"
  shows "unat (ucast w :: 'b::len word) = unat w"
proof -
  have "unat w < 2 ^ LENGTH('b)"
    using unat_less_pow[of w] assms by (meson less_le_trans one_le_numeral power_increasing)
  then show ?thesis by (simp add: unsigned_ucast_eq take_bit_nat_eq_self)
qed

lemma unat_ucast_narrower [machine_arith]:
  fixes w :: "'a::len word"
  assumes "unat w < 2 ^ LENGTH('b)"
  shows "unat (ucast w :: 'b::len word) = unat w"
  using assms by (simp add: unsigned_ucast_eq take_bit_nat_eq_self)

lemma checked_add_eq_Some:
  "checked_add a b = Some c \<longleftrightarrow> unat c = unat a + unat b"
proof -
  have "unat c = unat a + unat b \<Longrightarrow> c = a + b"
    by (metis unat_add_exact unat_less_pow word_unat_eq_iff)
  moreover have "unat c = unat a + unat b \<Longrightarrow> unat a + unat b < 2 ^ LENGTH('a)"
    by (metis unat_less_pow)
  ultimately show ?thesis
    by (auto simp: checked_add_def uint_bound_unat unat_add_exact)
qed

lemma checked_add_eq_None:
  "checked_add (a :: 'a::len word) b = None \<longleftrightarrow> 2 ^ LENGTH('a) \<le> unat a + unat b"
  by (auto simp: checked_add_def uint_bound_unat not_less)

lemma checked_add_total:
  "unat (a :: 'a::len word) + unat b < 2 ^ LENGTH('a) \<Longrightarrow> checked_add a b = Some (a + b)"
  by (simp add: checked_add_def uint_bound_unat)

lemma checked_sub_eq_Some:
  "checked_sub a b = Some c \<longleftrightarrow> unat a = unat b + unat c"
proof -
  have "unat a = unat b + unat c \<Longrightarrow> c = a - b"
    by (metis add_diff_cancel_left' le_add1 unat_sub_exact word_unat_eq_iff)
  then show ?thesis
    by (auto simp: checked_sub_def word_le_nat_alt unat_sub_exact)
qed

lemma checked_sub_eq_None:
  "checked_sub a b = None \<longleftrightarrow> unat a < unat b"
  by (auto simp: checked_sub_def word_le_nat_alt not_le)

lemma unat_saturating_add [machine_arith]:
  "unat (saturating_add (a :: 'a::len word) b) = min (unat a + unat b) (2 ^ LENGTH('a) - 1)"
  by (auto simp: saturating_add_def uint_bound_unat unat_add_exact unat_max_word)

lemma unat_saturating_mul [machine_arith]:
  "unat (saturating_mul (a :: 'a::len word) b) = min (unat a * unat b) (2 ^ LENGTH('a) - 1)"
  by (auto simp: saturating_mul_def uint_bound_unat unat_mult_exact unat_max_word)

lemma unat_saturating_sub [machine_arith]:
  "unat (saturating_sub a b) = unat a - unat b"
  by (auto simp: saturating_sub_def word_le_nat_alt unat_sub_exact)

subsection \<open>Results\<close>

text \<open>A \<^verbatim>\<open>for\<close> loop over a slice whose body may return early with an error.\<close>

fun res_fold :: "('a \<Rightarrow> 's \<Rightarrow> ('e, 's) res) \<Rightarrow> 'a list \<Rightarrow> 's \<Rightarrow> ('e, 's) res" where
  "res_fold f [] s = Inr s"
| "res_fold f (x # xs) s = (case f x s of Inl e \<Rightarrow> Inl e | Inr s' \<Rightarrow> res_fold f xs s')"

text \<open>\<^verbatim>\<open>iter().map(f).collect::<Result<Vec<_>, _>>()\<close>: the first error wins.\<close>

fun res_map :: "('a \<Rightarrow> ('e, 'b) res) \<Rightarrow> 'a list \<Rightarrow> ('e, 'b list) res" where
  "res_map f [] = Inr []"
| "res_map f (x # xs) =
     (case f x of
        Inl e \<Rightarrow> Inl e
      | Inr y \<Rightarrow> (case res_map f xs of Inl e \<Rightarrow> Inl e | Inr ys \<Rightarrow> Inr (y # ys)))"

definition res_bind :: "('e, 'a) res \<Rightarrow> ('a \<Rightarrow> ('e, 'b) res) \<Rightarrow> ('e, 'b) res" where
  "res_bind r f = (case r of Inl e \<Rightarrow> Inl e | Inr a \<Rightarrow> f a)"

definition is_ok :: "('e, 'a) res \<Rightarrow> bool" where
  "is_ok r = (case r of Inl _ \<Rightarrow> False | Inr _ \<Rightarrow> True)"

lemma is_ok_simps [simp]: "is_ok (Inr a)" "\<not> is_ok (Inl e)"
  by (simp_all add: is_ok_def)

lemma is_ok_iff: "is_ok r \<longleftrightarrow> (\<exists>a. r = Inr a)"
  by (cases r) auto

lemma res_bind_simps [simp]:
  "res_bind (Inl e) f = Inl e" "res_bind (Inr a) f = f a"
  by (simp_all add: res_bind_def)

lemma res_bind_Inr_iff: "res_bind r f = Inr b \<longleftrightarrow> (\<exists>a. r = Inr a \<and> f a = Inr b)"
  by (cases r) auto

lemma res_bind_Inl_iff:
  "res_bind r f = Inl e \<longleftrightarrow> r = Inl e \<or> (\<exists>a. r = Inr a \<and> f a = Inl e)"
  by (cases r) auto

lemma res_fold_append:
  "res_fold f (xs @ ys) s = res_bind (res_fold f xs s) (res_fold f ys)"
  by (induction xs arbitrary: s) (auto split: sum.splits)

lemma res_fold_invariant:
  assumes "res_fold f xs s = Inr s'" and "P s"
    and "\<And>x s s'. x \<in> set xs \<Longrightarrow> P s \<Longrightarrow> f x s = Inr s' \<Longrightarrow> P s'"
  shows "P s'"
  using assms
proof (induction xs arbitrary: s)
  case Nil
  then show ?case by simp
next
  case (Cons x xs)
  then obtain s1 where "f x s = Inr s1" "res_fold f xs s1 = Inr s'"
    by (auto split: sum.splits)
  with Cons show ?case by (metis list.set_intros)
qed

lemma res_map_length: "res_map f xs = Inr ys \<Longrightarrow> length ys = length xs"
  by (induction xs arbitrary: ys) (auto split: sum.splits)

lemma res_map_Inr_iff:
  "res_map f xs = Inr ys \<longleftrightarrow> list_all2 (\<lambda>x y. f x = Inr y) xs ys"
proof (induction xs arbitrary: ys)
  case (Cons x xs)
  show ?case
  proof (cases "res_map f xs")
    case (Inl e)
    then have "\<And>zs. \<not> list_all2 (\<lambda>x y. f x = Inr y) xs zs"
      by (metis Cons.IH sum.distinct(1))
    with Inl show ?thesis by (auto simp: list_all2_Cons1 split: sum.splits)
  next
    case (Inr zs)
    then have "\<And>ys. list_all2 (\<lambda>x y. f x = Inr y) xs ys \<longleftrightarrow> ys = zs"
      by (metis Cons.IH sum.inject(2))
    with Inr show ?thesis by (auto simp: list_all2_Cons1 split: sum.splits)
  qed
qed auto

lemma res_map_total: "(\<And>x. x \<in> set xs \<Longrightarrow> f x = Inr (g x)) \<Longrightarrow> res_map f xs = Inr (map g xs)"
  by (induction xs) auto

subsection \<open>Lists\<close>

lemma takeWhile_filter_sorted [list_prefix]:
  assumes "sorted_wrt (\<lambda>x y. key x < (key y :: 'k::linorder)) xs"
  shows "takeWhile (\<lambda>x. key x \<le> k) xs = filter (\<lambda>x. key x \<le> k) xs"
  using assms
proof (induction xs)
  case (Cons x xs)
  then show ?case
    by (fastforce simp: filter_empty_conv not_le intro!: sym[OF filter_False])
qed simp

lemma dropWhile_filter_sorted [list_prefix]:
  assumes "sorted_wrt (\<lambda>x y. key x < (key y :: 'k::linorder)) xs"
  shows "dropWhile (\<lambda>x. key x \<le> k) xs = filter (\<lambda>x. k < key x) xs"
  using assms
proof (induction xs)
  case (Cons x xs)
  then show ?case
    by (auto simp: filter_id_conv not_le intro!: sym[OF filter_True] intro: less_trans)
qed simp

lemma take_length_takeWhile [list_prefix, simp]:
  "take (length (takeWhile P xs)) xs = takeWhile P xs"
  by (metis takeWhile_eq_take)

lemma drop_length_takeWhile [list_prefix, simp]:
  "drop (length (takeWhile P xs)) xs = dropWhile P xs"
  by (metis dropWhile_eq_drop)

subsection \<open>Splitting text\<close>

text \<open>\<^verbatim>\<open>str::split(char)\<close> and the join it inverts.\<close>

fun split_on :: "char \<Rightarrow> string \<Rightarrow> string list" where
  "split_on c [] = [[]]"
| "split_on c (x # xs) =
     (if x = c then [] # split_on c xs
      else case split_on c xs of [] \<Rightarrow> [[x]] | p # ps \<Rightarrow> (x # p) # ps)"

fun join_with :: "char \<Rightarrow> string list \<Rightarrow> string" where
  "join_with c [] = []"
| "join_with c [p] = p"
| "join_with c (p # q # ps) = p @ c # join_with c (q # ps)"

lemma split_on_nonempty [simp]: "split_on c s \<noteq> []"
  by (cases s) (auto split: list.splits)

lemma split_on_free: "p \<in> set (split_on c s) \<Longrightarrow> c \<notin> set p"
  by (induction c s arbitrary: p rule: split_on.induct) (auto split: if_splits list.splits)

lemma join_with_Cons: "ps \<noteq> [] \<Longrightarrow> join_with c (p # ps) = p @ c # join_with c ps"
  by (cases ps) auto

lemma join_split_on [simp]: "join_with c (split_on c s) = s"
proof (induction s)
  case (Cons x xs)
  obtain p ps where "split_on c xs = p # ps" by (cases "split_on c xs") auto
  then show ?case using Cons by (cases ps) (auto simp: join_with_Cons)
qed simp

lemma split_on_append_free: "c \<notin> set p \<Longrightarrow> split_on c (p @ c # s) = p # split_on c s"
  by (induction p) auto

lemma split_on_no_sep: "c \<notin> set p \<Longrightarrow> split_on c p = [p]"
  by (induction p) auto

lemma split_join:
  "ps \<noteq> [] \<Longrightarrow> (\<And>p. p \<in> set ps \<Longrightarrow> c \<notin> set p) \<Longrightarrow> split_on c (join_with c ps) = ps"
proof (induction ps)
  case (Cons p ps)
  then show ?case
    by (cases "ps = []") (auto simp: join_with_Cons split_on_append_free split_on_no_sep)
qed simp

end
