(* ===== verification/Retry.thy ===== *)
theory Retry
  imports Prelude
begin

section \<open>Retry jitter\<close>

text \<open>
  \<^verbatim>\<open>transferia-delivery-contracts/src/retry.rs\<close>: the stable seed (FNV-1a) and the deterministic
  downward jitter of a retry delay, on machine words throughout. A \<^verbatim>\<open>Duration\<close> is its seconds and
  its sub-second nanoseconds.
\<close>

definition FNV_OFFSET_BASIS :: u64 where "FNV_OFFSET_BASIS = 14695981039346656037"
definition FNV_PRIME :: u64 where "FNV_PRIME = 1099511628211"
definition RETRY_MIX :: u64 where "RETRY_MIX = 0x9e3779b97f4a7c15"
definition MIN_JITTER_PERCENT :: u64 where "MIN_JITTER_PERCENT = 80"
definition JITTER_PERCENT_COUNT :: u64 where "JITTER_PERCENT_COUNT = 21"

record duration =
  secs :: u64
  nanos :: u32

definition as_nanos :: "duration \<Rightarrow> u128" where
  "as_nanos d = ucast (secs d) * 1000000000 + ucast (nanos d)"

definition DURATION_MAX :: duration where
  "DURATION_MAX = \<lparr>secs = - 1, nanos = 999999999\<rparr>"

definition stable_retry_seed :: "u8 list \<Rightarrow> u64" where
  "stable_retry_seed bs = fold (\<lambda>b state. (state XOR ucast b) * FNV_PRIME) bs FNV_OFFSET_BASIS"

definition jitter_mix :: "u32 \<Rightarrow> u64 \<Rightarrow> u64" where
  "jitter_mix attempt seed =
     (let mixed = seed + ucast attempt * RETRY_MIX + RETRY_MIX;
          mixed = (mixed XOR drop_bit 30 mixed) * 0xbf58476d1ce4e5b9;
          mixed = (mixed XOR drop_bit 27 mixed) * 0x94d049bb133111eb
      in mixed XOR drop_bit 31 mixed)"

definition jitter_percent :: "u32 \<Rightarrow> u64 \<Rightarrow> u64" where
  "jitter_percent attempt seed = MIN_JITTER_PERCENT + jitter_mix attempt seed mod JITTER_PERCENT_COUNT"

definition jittered_retry_delay :: "duration \<Rightarrow> u32 \<Rightarrow> u64 \<Rightarrow> duration" where
  "jittered_retry_delay delay attempt seed =
     (let n = saturating_mul (as_nanos delay) (ucast (jitter_percent attempt seed)) div 100 in
      if as_nanos DURATION_MAX \<le> n then DURATION_MAX
      else \<lparr>secs = (if n div 1000000000 < 2 ^ 64 then ucast (n div 1000000000) else - 1),
            nanos = (if n mod 1000000000 < 2 ^ 32 then ucast (n mod 1000000000) else 999999999)\<rparr>)"

text \<open>A valid duration has less than a second of nanoseconds; its length as a number.\<close>

definition duration_ok :: "duration \<Rightarrow> bool" where
  "duration_ok d \<longleftrightarrow> unat (nanos d) < 1000000000"

definition nanos_of :: "duration \<Rightarrow> nat" where
  "nanos_of d = unat (secs d) * 1000000000 + unat (nanos d)"

lemma unat_as_nanos: "unat (as_nanos d) = nanos_of d" "nanos_of d < 2 ^ 64 * 1000000000 + 2 ^ 32"
proof -
  have s: "unat (secs d) < 2 ^ 64" and n: "unat (nanos d) < 2 ^ 32"
    using unat_less_pow[of "secs d"] unat_less_pow[of "nanos d"] by simp_all
  have us: "unat (ucast (secs d) :: u128) = unat (secs d)" "unat (ucast (nanos d) :: u128) = unat (nanos d)"
    by (simp_all add: unat_ucast_wider)
  have m: "unat (ucast (secs d) * 1000000000 :: u128) = unat (secs d) * 1000000000"
    using s us(1) by (subst unat_mult_exact) auto
  have "unat (secs d) * 1000000000 + unat (nanos d) < 2 ^ 128"
    using s n by simp
  then show "unat (as_nanos d) = nanos_of d"
    unfolding as_nanos_def nanos_of_def by (subst unat_add_exact) (simp_all add: m us)
  show "nanos_of d < 2 ^ 64 * 1000000000 + 2 ^ 32"
    using s n by (simp add: nanos_of_def)
qed

lemma jitter_percent_range:
  "80 \<le> unat (jitter_percent a s)" "unat (jitter_percent a s) \<le> 100"
proof -
  have "unat (jitter_mix a s mod JITTER_PERCENT_COUNT) \<le> 20"
    by (simp add: JITTER_PERCENT_COUNT_def unat_mod) 
  then have "unat (jitter_percent a s) = 80 + unat (jitter_mix a s mod JITTER_PERCENT_COUNT)"
    unfolding jitter_percent_def MIN_JITTER_PERCENT_def by (subst unat_add_exact) auto
  then show "80 \<le> unat (jitter_percent a s)" "unat (jitter_percent a s) \<le> 100"
    using \<open>unat (jitter_mix a s mod JITTER_PERCENT_COUNT) \<le> 20\<close> by simp_all
qed

lemma nanos_of_jittered:
  assumes "duration_ok d"
  shows "nanos_of (jittered_retry_delay d a s) = nanos_of d * unat (jitter_percent a s) div 100"
proof -
  let ?p = "unat (jitter_percent a s)"
  let ?n = "saturating_mul (as_nanos d) (ucast (jitter_percent a s)) div 100 :: u128"
  have p: "unat (ucast (jitter_percent a s) :: u128) = ?p" by (simp add: unat_ucast_wider)
  have le100: "nanos_of d * ?p \<le> nanos_of d * 100" using jitter_percent_range(2) by simp
  then have "nanos_of d * ?p < 2 ^ 128"
    by (rule le_less_trans) (use unat_as_nanos(2)[of d] in simp)
  then have n: "unat ?n = nanos_of d * ?p div 100"
    by (simp add: unat_div unat_saturating_mul p unat_as_nanos)
  have dmax: "nanos_of d \<le> nanos_of DURATION_MAX"
  proof -
    have "unat (secs d) \<le> 2 ^ 64 - 1" using unat_less_pow[of "secs d"] by simp
    then show ?thesis
      using assms by (simp add: nanos_of_def DURATION_MAX_def duration_ok_def unat_max_word)
  qed
  have le: "nanos_of d * ?p div 100 \<le> nanos_of d"
    using div_le_mono[OF le100, of 100] by simp
  show ?thesis
  proof (cases "as_nanos DURATION_MAX \<le> ?n")
    case True
    then have "nanos_of DURATION_MAX \<le> nanos_of d * ?p div 100"
      by (simp add: word_le_nat_alt unat_as_nanos n)
    then show ?thesis
      using le dmax True by (simp add: jittered_retry_delay_def Let_def)
  next
    case False
    then have lt: "nanos_of d * ?p div 100 < nanos_of DURATION_MAX"
      by (simp add: word_le_nat_alt unat_as_nanos n)
    then have small: "unat (?n div 1000000000) < 2 ^ 64" "unat (?n mod 1000000000) < 1000000000"
      using n by (simp_all add: unat_div unat_mod nanos_of_def DURATION_MAX_def unat_max_word)
    then have "?n div 1000000000 < 2 ^ 64" "?n mod 1000000000 < 2 ^ 32"
      by (simp_all add: word_less_nat_alt)
    then have "nanos_of (jittered_retry_delay d a s) =
        unat (?n div 1000000000) * 1000000000 + unat (?n mod 1000000000)"
      using False small
      by (simp add: jittered_retry_delay_def Let_def nanos_of_def unat_ucast_narrower)
    then show ?thesis using n by (simp add: unat_div unat_mod)
  qed
qed

text \<open>
  C15 (bounded jitter). For every valid delay, attempt and seed the jittered delay is between 80\% and
  100\% of the configured one, rounded down to the nanosecond: it never exceeds the cap the caller
  configured and no saturation or overflow branch is ever taken with a different result.
\<close>

theorem jittered_retry_delay_bounds:
  assumes "duration_ok d"
  shows "nanos_of d * 80 div 100 \<le> nanos_of (jittered_retry_delay d attempt seed) \<and>
    nanos_of (jittered_retry_delay d attempt seed) \<le> nanos_of d"
proof -
  let ?p = "unat (jitter_percent attempt seed)"
  have "nanos_of d * 80 div 100 \<le> nanos_of d * ?p div 100"
    by (intro div_le_mono mult_le_mono2 jitter_percent_range)
  moreover have "nanos_of d * ?p div 100 \<le> nanos_of d * 100 div 100"
    by (intro div_le_mono mult_le_mono2 jitter_percent_range)
  ultimately show ?thesis by (simp add: nanos_of_jittered[OF assms])
qed

theorem jittered_retry_delay_bounds_witness:
  "nanos_of (jittered_retry_delay \<lparr>secs = 30, nanos = 0\<rparr> 3 (stable_retry_seed [1, 2, 3])) \<le> 30000000000"
  using jittered_retry_delay_bounds[of "\<lparr>secs = 30, nanos = 0\<rparr>" 3 "stable_retry_seed [1, 2, 3]"]
  by (simp add: duration_ok_def nanos_of_def)

end
