(* ===== verification/BTree_Map.thy ===== *)
theory BTree_Map
  imports Prelude "HOL-Library.Char_ord" "HOL-Library.List_Lexorder" "HOL-Library.Product_Lexorder"
begin

section \<open>Ordered maps\<close>

text \<open>
  Rust's \<^verbatim>\<open>std::collections::BTreeMap\<close> as a strictly sorted association list: iteration yields
  the entries in ascending key order, \<^verbatim>\<open>range(..=k)\<close> is a prefix and \<^verbatim>\<open>retain\<close> a filter.
  The locale \<open>ordered_map\<close> states the laws a client relies on (lookup after insert, removal,
  iteration order); the interpretation \<open>bt\<close> at the end discharges them for the model's own
  operations.
\<close>

type_synonym ('k, 'v) btree = "('k \<times> 'v) list"

definition bt_empty :: "('k, 'v) btree" where
  "bt_empty = []"

fun bt_get :: "('k, 'v) btree \<Rightarrow> 'k \<Rightarrow> 'v option" where
  "bt_get [] k = None"
| "bt_get ((k', v) # m) k = (if k = k' then Some v else bt_get m k)"

fun bt_insert :: "'k::linorder \<Rightarrow> 'v \<Rightarrow> ('k, 'v) btree \<Rightarrow> ('k, 'v) btree" where
  "bt_insert k v [] = [(k, v)]"
| "bt_insert k v ((k', v') # m) =
     (if k < k' then (k, v) # (k', v') # m
      else if k = k' then (k, v) # m
      else (k', v') # bt_insert k v m)"

fun bt_remove :: "'k \<Rightarrow> ('k, 'v) btree \<Rightarrow> ('k, 'v) btree" where
  "bt_remove k [] = []"
| "bt_remove k ((k', v') # m) = (if k = k' then m else (k', v') # bt_remove k m)"

definition bt_contains_key :: "('k, 'v) btree \<Rightarrow> 'k \<Rightarrow> bool" where
  "bt_contains_key m k = (bt_get m k \<noteq> None)"

definition bt_range_to :: "'k::linorder \<Rightarrow> ('k, 'v) btree \<Rightarrow> ('k, 'v) btree" where
  "bt_range_to k m = takeWhile (\<lambda>e. fst e \<le> k) m"

definition bt_retain :: "('k \<Rightarrow> 'v \<Rightarrow> bool) \<Rightarrow> ('k, 'v) btree \<Rightarrow> ('k, 'v) btree" where
  "bt_retain P m = filter (\<lambda>(k, v). P k v) m"

definition bt_wf :: "('k::linorder, 'v) btree \<Rightarrow> bool" where
  "bt_wf m \<longleftrightarrow> sorted_wrt (\<lambda>a b. fst a < fst b) m"

definition bt_of_list :: "('k::linorder \<times> 'v) list \<Rightarrow> ('k, 'v) btree" where
  "bt_of_list es = fold (\<lambda>(k, v) m. bt_insert k v m) es []"

subsection \<open>Laws\<close>

lemma bt_wf_simps [simp]:
  "bt_wf []" "bt_wf (e # m) \<longleftrightarrow> (\<forall>e' \<in> set m. fst e < fst e') \<and> bt_wf m"
  by (simp_all add: bt_wf_def)

lemma bt_get_map_of: "bt_get m k = map_of m k"
  by (induction m k rule: bt_get.induct) auto

lemma bt_get_insert [simp]: "bt_get (bt_insert k v m) k' = (if k' = k then Some v else bt_get m k')"
  by (induction k v m rule: bt_insert.induct) auto

lemma bt_get_None: "bt_get m k = None \<longleftrightarrow> k \<notin> fst ` set m"
  by (induction m k rule: bt_get.induct) auto

lemma bt_get_Some_mem: "bt_get m k = Some v \<Longrightarrow> (k, v) \<in> set m"
  by (induction m k rule: bt_get.induct) (auto split: if_splits)

lemma bt_contains_key_iff: "bt_contains_key m k \<longleftrightarrow> k \<in> fst ` set m"
  by (simp add: bt_contains_key_def bt_get_None)

lemma bt_insert_keys [simp]: "fst ` set (bt_insert k v m) = insert k (fst ` set m)"
  by (induction k v m rule: bt_insert.induct) auto

lemma bt_insert_mem: "e \<in> set (bt_insert k v m) \<Longrightarrow> e = (k, v) \<or> e \<in> set m"
  by (induction k v m rule: bt_insert.induct) (auto split: if_splits)

lemma bt_wf_insert [simp]: "bt_wf m \<Longrightarrow> bt_wf (bt_insert k v m)"
proof (induction k v m rule: bt_insert.induct)
  case (2 k v k' v' m)
  then show ?case by (auto dest!: bt_insert_mem)
qed simp

lemma bt_remove_mem: "e \<in> set (bt_remove k m) \<Longrightarrow> e \<in> set m"
  by (induction k m rule: bt_remove.induct) (auto split: if_splits)

lemma bt_wf_remove [simp]: "bt_wf m \<Longrightarrow> bt_wf (bt_remove k m)"
  by (induction k m rule: bt_remove.induct) (auto dest!: bt_remove_mem)

lemma bt_get_remove [simp]:
  "bt_wf m \<Longrightarrow> bt_get (bt_remove k m) k' = (if k' = k then None else bt_get m k')"
  by (induction k m rule: bt_remove.induct) (force simp: bt_get_None)+

lemma length_bt_remove: "bt_contains_key m k \<Longrightarrow> length (bt_remove k m) < length m"
  by (induction k m rule: bt_remove.induct) (auto simp: bt_contains_key_def split: if_splits)

lemma bt_remove_head [simp]: "bt_remove k ((k, v) # m) = m"
  by simp

lemma bt_insert_append:
  "\<forall>e \<in> set m. fst e < k \<Longrightarrow> bt_insert k v m = m @ [(k, v)]"
  by (induction k v m rule: bt_insert.induct) auto

lemma bt_retain_wf [simp]: "bt_wf m \<Longrightarrow> bt_wf (bt_retain P m)"
  by (simp add: bt_wf_def bt_retain_def sorted_wrt_filter)

lemma bt_retain_mem: "e \<in> set (bt_retain P m) \<Longrightarrow> e \<in> set m"
  by (simp add: bt_retain_def)

lemma bt_insert_ball: "P (k, v) \<Longrightarrow> \<forall>e \<in> set m. P e \<Longrightarrow> \<forall>e \<in> set (bt_insert k v m). P e"
  by (auto dest!: bt_insert_mem)

lemma bt_wf_distinct: "bt_wf m \<Longrightarrow> distinct (map fst m)"
  by (induction m) auto

lemma bt_range_to_eq: "bt_wf m \<Longrightarrow> bt_range_to k m = filter (\<lambda>e. fst e \<le> k) m"
  by (simp add: bt_range_to_def bt_wf_def takeWhile_filter_sorted)

lemma bt_get_mem_iff: "bt_wf m \<Longrightarrow> (k, v) \<in> set m \<longleftrightarrow> bt_get m k = Some v"
  by (simp add: bt_get_map_of bt_wf_distinct)

lemma bt_range_retain:
  "bt_wf m \<Longrightarrow> bt_range_to k m @ bt_retain (\<lambda>id _. k < id) m = m"
proof (induction m)
  case (Cons e m)
  then show ?case
    by (cases e) (auto simp: bt_range_to_def bt_retain_def filter_id_conv)
qed (simp add: bt_range_to_def bt_retain_def)

lemma bt_wf_of_list [simp]: "bt_wf (bt_of_list es)"
proof -
  have "bt_wf m \<Longrightarrow> bt_wf (fold (\<lambda>(k, v) m. bt_insert k v m) es m)" for m
    by (induction es arbitrary: m) auto
  then show ?thesis by (simp add: bt_of_list_def)
qed

text \<open>Sums over the values of a map, for any commutative monoid.\<close>

definition bt_sum :: "('v \<Rightarrow> 'a::comm_monoid_add) \<Rightarrow> ('k, 'v) btree \<Rightarrow> 'a" where
  "bt_sum f m = sum_list (map (\<lambda>e. f (snd e)) m)"

lemma bt_sum_simps [simp]:
  "bt_sum f [] = 0" "bt_sum f (e # m) = f (snd e) + bt_sum f m"
  by (simp_all add: bt_sum_def)

lemma bt_sum_insert_new: "bt_get m k = None \<Longrightarrow> bt_sum f (bt_insert k v m) = f v + bt_sum f m"
  by (induction k v m rule: bt_insert.induct) (auto simp: ac_simps split: if_splits)

lemma bt_sum_insert_old:
  "bt_wf m \<Longrightarrow> bt_get m k = Some w \<Longrightarrow> bt_sum f (bt_insert k v m) + f w = f v + bt_sum f m"
proof (induction k v m rule: bt_insert.induct)
  case (2 k v k' v' m)
  show ?case
  proof (cases "k < k'")
    case True
    then have "bt_get ((k', v') # m) k = None"
      using "2.prems"(1) by (auto simp: bt_get_None)
    then show ?thesis using "2.prems"(2) by simp
  next
    case False
    then show ?thesis
      using 2 by (cases "k = k'") (auto simp: ac_simps)
  qed
qed simp

lemma bt_sum_remove: "bt_get m k = Some w \<Longrightarrow> bt_sum f m = f w + bt_sum f (bt_remove k m)"
  by (induction k m rule: bt_remove.induct) (auto simp: ac_simps split: if_splits)

text \<open>Two well-formed maps with the same lookups are the same list.\<close>

lemma bt_eqI:
  assumes "bt_wf m" "bt_wf m'" "\<And>k. bt_get m k = bt_get m' k"
  shows "m = m'"
proof -
  have "sorted_wrt (\<lambda>a b. fst a < fst b) m" "sorted_wrt (\<lambda>a b. fst a < fst b) m'"
    using assms by (simp_all add: bt_wf_def)
  moreover have "set m = set m'"
    using assms by (auto simp: bt_get_mem_iff)
  ultimately show ?thesis
  proof (induction m arbitrary: m')
    case (Cons e m)
    then obtain e' m1 where m': "m' = e' # m1"
      by (metis list.exhaust list.distinct(1) set_empty)
    have "e = e'"
      using Cons.prems unfolding m' by simp (metis insertE insertI1 less_asym)
    moreover have "e \<notin> set m" "e' \<notin> set m1"
      using Cons.prems unfolding m' by auto
    then have "set m = set m1"
      using Cons.prems(3) \<open>e = e'\<close> unfolding m' by (simp add: insert_ident)
    ultimately show ?case
      using Cons m' by auto
  qed simp
qed

subsection \<open>The interface\<close>

locale ordered_map =
  fixes empty_map :: 'm
    and get :: "'m \<Rightarrow> 'k::linorder \<Rightarrow> 'v option"
    and put :: "'k \<Rightarrow> 'v \<Rightarrow> 'm \<Rightarrow> 'm"
    and remove :: "'k \<Rightarrow> 'm \<Rightarrow> 'm"
    and iter :: "'m \<Rightarrow> ('k \<times> 'v) list"
    and wf :: "'m \<Rightarrow> bool"
  assumes get_empty: "get empty_map k = None"
    and get_put: "wf m \<Longrightarrow> get (put k v m) k' = (if k' = k then Some v else get m k')"
    and get_remove: "wf m \<Longrightarrow> get (remove k m) k' = (if k' = k then None else get m k')"
    and iter_sorted: "wf m \<Longrightarrow> sorted_wrt (\<lambda>a b. fst a < fst b) (iter m)"
    and iter_get: "wf m \<Longrightarrow> (k, v) \<in> set (iter m) \<longleftrightarrow> get m k = Some v"
    and wf_empty: "wf empty_map"
    and wf_put: "wf m \<Longrightarrow> wf (put k v m)"
    and wf_remove: "wf m \<Longrightarrow> wf (remove k m)"
begin

lemma put_put: "wf m \<Longrightarrow> get (put k v (put k w m)) k' = get (put k v m) k'"
  by (simp add: get_put wf_put)

lemma remove_put: "wf m \<Longrightarrow> get m k = None \<Longrightarrow> get (remove k (put k v m)) k' = get m k'"
  by (simp add: get_put get_remove wf_put)

lemma iter_map_of: "wf m \<Longrightarrow> map_of (iter m) = get m"
proof
  fix k
  assume wf: "wf m"
  then have "distinct (map fst (iter m))"
    using iter_sorted by (intro bt_wf_distinct) (simp add: bt_wf_def)
  then show "map_of (iter m) k = get m k"
    using iter_get[OF wf] by (metis map_of_eq_Some_iff not_Some_eq)
qed

lemma iter_unique:
  assumes "wf m" "wf m'" "\<And>k. get m k = get m' k"
  shows "iter m = iter m'"
proof (rule bt_eqI)
  show "bt_wf (iter m)" "bt_wf (iter m')"
    using assms iter_sorted by (simp_all add: bt_wf_def)
  show "bt_get (iter m) k = bt_get (iter m') k" for k
    using assms by (simp add: bt_get_map_of iter_map_of)
qed

end

interpretation bt: ordered_map bt_empty bt_get bt_insert bt_remove id bt_wf
  by unfold_locales (simp_all add: bt_empty_def bt_get_mem_iff bt_wf_def[symmetric])

end
