(* ===== verification/Decimal_Text.thy ===== *)
theory Decimal_Text
  imports Prelude
begin

section \<open>Decimal text of integers\<close>

text \<open>
  What the sources use of the standard library's number formatting: \<^verbatim>\<open>to_string\<close> of a
  non-negative integer (\<open>show_int\<close>) and \<^verbatim>\<open>str::parse\<close> of an unsigned one (\<open>parse_unsigned\<close>: an
  optional \<^verbatim>\<open>+\<close>, at least one ASCII digit, no overflow). The round trip is used by the schema
  metadata, the MySQL GTID text and the PostgreSQL numeric codec.
\<close>

definition digit_char :: "int \<Rightarrow> char" where
  "digit_char d = char_of (48 + d)"

definition digit_val :: "char \<Rightarrow> int option" where
  "digit_val c = (let v = of_char c in if 48 \<le> v \<and> v \<le> 57 then Some (v - 48) else None)"

definition is_ascii_digit :: "char \<Rightarrow> bool" where
  "is_ascii_digit c = (digit_val c \<noteq> None)"

function show_int :: "int \<Rightarrow> string" where
  "show_int n = (if n < 10 then [digit_char n] else show_int (n div 10) @ [digit_char (n mod 10)])"
  by pat_completeness auto
termination by (relation "measure nat") auto

declare show_int.simps [simp del]

fun parse_digits :: "int \<Rightarrow> string \<Rightarrow> int option" where
  "parse_digits acc [] = Some acc"
| "parse_digits acc (c # cs) =
     (case digit_val c of None \<Rightarrow> None | Some d \<Rightarrow> parse_digits (acc * 10 + d) cs)"

definition strip_plus :: "string \<Rightarrow> string" where
  "strip_plus s = (case s of [] \<Rightarrow> [] | c # r \<Rightarrow> if c = CHR ''+'' then r else s)"

definition parse_unsigned :: "int \<Rightarrow> string \<Rightarrow> int option" where
  "parse_unsigned bound s =
     (let ds = strip_plus s in
      if ds = [] then None
      else case parse_digits 0 ds of
             None \<Rightarrow> None
           | Some n \<Rightarrow> if n < bound then Some n else None)"

definition usize_to_string :: "usize \<Rightarrow> string" where
  "usize_to_string w = show_int (uint w)"

definition parse_usize :: "string \<Rightarrow> usize option" where
  "parse_usize s = map_option word_of_int (parse_unsigned (2 ^ 64) s)"

lemma digit_val_char [simp]: "0 \<le> d \<Longrightarrow> d < 10 \<Longrightarrow> digit_val (digit_char d) = Some d"
  by (simp add: digit_val_def digit_char_def)

lemma parse_digits_append:
  "parse_digits acc (s @ t) = Option.bind (parse_digits acc s) (\<lambda>n. parse_digits n t)"
  by (induction s arbitrary: acc) (auto split: option.splits)

lemma parse_digits_show: "0 \<le> n \<Longrightarrow> parse_digits 0 (show_int n) = Some n"
proof (induction n rule: show_int.induct)
  case (1 n)
  then show ?case
    by (cases "n < 10") (simp_all add: show_int.simps[of n] parse_digits_append)
qed

lemma show_int_nonempty [simp]: "show_int n \<noteq> []"
  by (simp add: show_int.simps[of n])

lemma show_int_hd_digit: "0 \<le> n \<Longrightarrow> \<exists>d. 0 \<le> d \<and> d < 10 \<and> hd (show_int n) = digit_char d"
proof (induction n rule: show_int.induct)
  case (1 n)
  show ?case
  proof (cases "n < 10")
    case True
    with "1.prems" show ?thesis by (auto simp: show_int.simps[of n])
  next
    case False
    then show ?thesis
      using 1 by (simp add: show_int.simps[of n] hd_append)
  qed
qed

lemma show_int_digits: "0 \<le> n \<Longrightarrow> c \<in> set (show_int n) \<Longrightarrow> is_ascii_digit c"
proof (induction n rule: show_int.induct)
  case (1 n)
  show ?case
  proof (cases "n < 10")
    case True
    with "1.prems" show ?thesis by (auto simp: show_int.simps[of n] is_ascii_digit_def)
  next
    case False
    then have "c \<in> set (show_int (n div 10)) \<or> c = digit_char (n mod 10)"
      using "1.prems"(2) by (auto simp: show_int.simps[of n])
    then show ?thesis
      using 1 False by (auto simp: is_ascii_digit_def)
  qed
qed

lemma show_int_inj: "0 \<le> m \<Longrightarrow> 0 \<le> n \<Longrightarrow> show_int m = show_int n \<Longrightarrow> m = n"
  by (metis option.inject parse_digits_show)

lemma strip_plus_show: "0 \<le> n \<Longrightarrow> strip_plus (show_int n) = show_int n"
proof -
  assume "0 \<le> n"
  then obtain d where d: "0 \<le> d" "d < 10" "hd (show_int n) = digit_char d"
    using show_int_hd_digit by blast
  have "digit_val (CHR ''+'') = None" by code_simp
  then have "digit_char d \<noteq> CHR ''+''" using digit_val_char[OF d(1,2)] by (metis option.distinct(1))
  then show ?thesis
    using d(3) by (cases "show_int n") (auto simp: strip_plus_def)
qed

lemma parse_unsigned_show [simp]:
  "0 \<le> n \<Longrightarrow> n < bound \<Longrightarrow> parse_unsigned bound (show_int n) = Some n"
  by (simp add: parse_unsigned_def strip_plus_show parse_digits_show)

lemma parse_usize_to_string [simp]: "parse_usize (usize_to_string w) = Some w"
  by (simp add: parse_usize_def usize_to_string_def uint_lt2p[of w, simplified])

lemma usize_to_string_inj [simp]: "usize_to_string a = usize_to_string b \<longleftrightarrow> a = b"
  by (metis option.inject parse_usize_to_string)

end
