(* ===== verification/Schema.thy ===== *)
theory Schema
  imports BTree_Map Decimal_Text
begin

section \<open>Dataset schemas and their Arrow encoding\<close>

text \<open>
  The sink-neutral schema of \<^verbatim>\<open>transferia-core/src/data/schema.rs\<close>, the system columns of
  \<^verbatim>\<open>data/system_columns.rs\<close>, the row operations of \<^verbatim>\<open>data/change.rs\<close> and the batch DTO of
  \<^verbatim>\<open>sink.rs\<close>. Arrow itself is a library: an Arrow schema is the list of its fields, a data type
  one of the constructors the sources name or \<open>OtherType\<close> with the identity of any other type,
  and field metadata a string map. The main results are the round trip of a column through its
  Arrow field (\<open>from_arrow_fields\<close>) and the exactness of the stored projection of a batch.
\<close>

subsection \<open>Arrow\<close>

datatype time_unit = Second | Millisecond | Microsecond | Nanosecond

datatype data_type =
    Boolean | Int8 | Int16 | Int32 | Int64 | UInt8 | UInt16 | UInt32 | UInt64
  | Float16 | Float32 | Float64 | Utf8 | LargeUtf8 | Binary | LargeBinary
  | FixedSizeBinary int | Date32 | Date64 | Timestamp time_unit "string option"
  | Time32 time_unit | Time64 time_unit | Duration time_unit
  | Decimal128 nat int | Decimal256 nat int | OtherType string

type_synonym metadata = "(string, string) btree"

record field =
  f_name :: string
  f_type :: data_type
  f_nullable :: bool
  f_metadata :: metadata

type_synonym arrow_schema = "field list"

text \<open>A record batch: its schema, its row count and one list of values per column (\<open>None\<close> is NULL).\<close>

record 'v record_batch =
  rb_schema :: arrow_schema
  rb_num_rows :: usize
  rb_columns :: "'v option list list"

subsection \<open>Metadata keys\<close>

definition META_PRIMARY_KEY :: string where
  "META_PRIMARY_KEY = ''transferia.primary_key''"
definition META_LOW_CARDINALITY :: string where
  "META_LOW_CARDINALITY = ''transferia.low_cardinality''"
definition META_MAX_LENGTH :: string where
  "META_MAX_LENGTH = ''transferia.max_length''"
definition META_ALWAYS_PRESENT_ON_UPDATE :: string where
  "META_ALWAYS_PRESENT_ON_UPDATE = ''transferia.always_present_on_update''"
definition META_UPDATE_VALUE_PRESENCE :: string where
  "META_UPDATE_VALUE_PRESENCE = ''transferia.update_value_presence''"
definition META_DELETE_VALUE_PRESENCE :: string where
  "META_DELETE_VALUE_PRESENCE = ''transferia.delete_value_presence''"
definition META_ARROW_EXTENSION_NAME :: string where
  "META_ARROW_EXTENSION_NAME = ''ARROW:extension:name''"
definition META_ARROW_EXTENSION_METADATA :: string where
  "META_ARROW_EXTENSION_METADATA = ''ARROW:extension:metadata''"
definition META_SYSTEM_ROLE :: string where
  "META_SYSTEM_ROLE = ''transferia.system_role''"
definition SYSTEM_ROLE_SOURCE_VERSION :: string where
  "SYSTEM_ROLE_SOURCE_VERSION = ''source.version''"
definition META_OLD_VALUE_OF :: string where
  "META_OLD_VALUE_OF = ''transferia.old_value_of''"
definition META_OLD_KEY_OF :: string where
  "META_OLD_KEY_OF = ''transferia.old_key_of''"

lemmas meta_key_defs =
  META_PRIMARY_KEY_def META_LOW_CARDINALITY_def META_MAX_LENGTH_def
  META_ALWAYS_PRESENT_ON_UPDATE_def META_UPDATE_VALUE_PRESENCE_def
  META_DELETE_VALUE_PRESENCE_def META_ARROW_EXTENSION_NAME_def
  META_ARROW_EXTENSION_METADATA_def META_SYSTEM_ROLE_def META_OLD_VALUE_OF_def META_OLD_KEY_OF_def

lemma meta_keys_distinct:
  "distinct [META_PRIMARY_KEY, META_LOW_CARDINALITY, META_MAX_LENGTH,
     META_ALWAYS_PRESENT_ON_UPDATE, META_UPDATE_VALUE_PRESENCE, META_DELETE_VALUE_PRESENCE,
     META_ARROW_EXTENSION_NAME, META_ARROW_EXTENSION_METADATA, META_SYSTEM_ROLE,
     META_OLD_VALUE_OF, META_OLD_KEY_OF]"
  by (simp add: meta_key_defs)

lemmas meta_keys_neq [simp] =
  meta_keys_distinct[simplified]
  meta_keys_distinct[folded distinct_rev[of "_ # _"], simplified]

subsection \<open>Columns\<close>

datatype value_presence = MayBeAbsent | Guaranteed

definition metadata_value :: "value_presence \<Rightarrow> string option" where
  "metadata_value p = (case p of MayBeAbsent \<Rightarrow> None | Guaranteed \<Rightarrow> Some ''guaranteed'')"

record schema_column =
  c_name :: string
  c_source_type :: "string option"
  c_data_type :: data_type
  c_nullable :: bool
  c_always_present_on_update :: bool
  c_update_value_presence :: value_presence
  c_delete_value_presence :: value_presence
  c_primary_key :: bool
  c_low_cardinality :: bool
  c_max_length :: "usize option"
  c_arrow_extension_name :: "string option"
  c_arrow_extension_metadata :: "string option"
  c_system_role :: "string option"
  c_old_value_of :: "string option"
  c_old_key_of :: "string option"

type_synonym dataset_schema = "schema_column list"

definition schema_column_new :: "string \<Rightarrow> data_type \<Rightarrow> bool \<Rightarrow> schema_column" where
  "schema_column_new n ty nullable =
     \<lparr>c_name = n, c_source_type = None, c_data_type = ty, c_nullable = nullable,
      c_always_present_on_update = False, c_update_value_presence = MayBeAbsent,
      c_delete_value_presence = MayBeAbsent, c_primary_key = False, c_low_cardinality = False,
      c_max_length = None, c_arrow_extension_name = None, c_arrow_extension_metadata = None,
      c_system_role = None, c_old_value_of = None, c_old_key_of = None\<rparr>"

definition with_source_type :: "string \<Rightarrow> schema_column \<Rightarrow> schema_column" where
  "with_source_type d c = c\<lparr>c_source_type := Some d\<rparr>"

definition with_arrow_extension :: "string \<Rightarrow> schema_column \<Rightarrow> schema_column" where
  "with_arrow_extension n c = c\<lparr>c_arrow_extension_name := Some n\<rparr>"

definition with_arrow_extension_metadata :: "string \<Rightarrow> string \<Rightarrow> schema_column \<Rightarrow> schema_column" where
  "with_arrow_extension_metadata n m c =
     c\<lparr>c_arrow_extension_name := Some n, c_arrow_extension_metadata := Some m\<rparr>"

definition with_old_value_of :: "string \<Rightarrow> schema_column \<Rightarrow> schema_column" where
  "with_old_value_of n c = c\<lparr>c_old_value_of := Some n\<rparr>"

definition with_old_key_of :: "string \<Rightarrow> schema_column \<Rightarrow> schema_column" where
  "with_old_key_of n c = c\<lparr>c_old_key_of := Some n\<rparr>"

definition with_system_role :: "string \<Rightarrow> schema_column \<Rightarrow> schema_column" where
  "with_system_role r c = c\<lparr>c_system_role := Some r\<rparr>"

definition with_constraints :: "bool \<Rightarrow> bool \<Rightarrow> usize option \<Rightarrow> schema_column \<Rightarrow> schema_column" where
  "with_constraints pk lc ml c =
     c\<lparr>c_primary_key := pk, c_low_cardinality := lc, c_max_length := ml\<rparr>"

definition put_opt :: "string \<Rightarrow> string option \<Rightarrow> metadata \<Rightarrow> metadata" where
  "put_opt k v m = (case v of None \<Rightarrow> m | Some x \<Rightarrow> bt_insert k x m)"

definition true_if :: "bool \<Rightarrow> string option" where
  "true_if b = (if b then Some ''true'' else None)"

definition arrow_metadata :: "schema_column \<Rightarrow> metadata" where
  "arrow_metadata c =
     (let m = bt_empty;
          m = put_opt META_UPDATE_VALUE_PRESENCE (metadata_value (c_update_value_presence c)) m;
          m = put_opt META_DELETE_VALUE_PRESENCE (metadata_value (c_delete_value_presence c)) m;
          m = put_opt META_ALWAYS_PRESENT_ON_UPDATE (true_if (c_always_present_on_update c)) m;
          m = put_opt META_PRIMARY_KEY (true_if (c_primary_key c)) m;
          m = put_opt META_LOW_CARDINALITY (true_if (c_low_cardinality c)) m;
          m = put_opt META_MAX_LENGTH (map_option usize_to_string (c_max_length c)) m;
          m = put_opt META_ARROW_EXTENSION_NAME (c_arrow_extension_name c) m;
          m = put_opt META_ARROW_EXTENSION_METADATA (c_arrow_extension_metadata c) m;
          m = put_opt META_SYSTEM_ROLE (c_system_role c) m;
          m = put_opt META_OLD_VALUE_OF (c_old_value_of c) m
      in put_opt META_OLD_KEY_OF (c_old_key_of c) m)"

text \<open>\<^verbatim>\<open>PartialEq\<close> of columns leaves the native declaration out; schemas compare column-wise.\<close>

definition column_eq :: "schema_column \<Rightarrow> schema_column \<Rightarrow> bool" where
  "column_eq a b \<longleftrightarrow>
     c_name a = c_name b \<and> c_data_type a = c_data_type b \<and> c_nullable a = c_nullable b \<and>
     c_always_present_on_update a = c_always_present_on_update b \<and>
     c_update_value_presence a = c_update_value_presence b \<and>
     c_delete_value_presence a = c_delete_value_presence b \<and>
     c_primary_key a = c_primary_key b \<and> c_low_cardinality a = c_low_cardinality b \<and>
     c_max_length a = c_max_length b \<and>
     c_arrow_extension_name a = c_arrow_extension_name b \<and>
     c_arrow_extension_metadata a = c_arrow_extension_metadata b \<and>
     c_system_role a = c_system_role b \<and> c_old_value_of a = c_old_value_of b \<and>
     c_old_key_of a = c_old_key_of b"

definition schema_eq :: "dataset_schema \<Rightarrow> dataset_schema \<Rightarrow> bool" where
  "schema_eq = list_all2 column_eq"

subsection \<open>Reading a schema back from Arrow\<close>

datatype schema_error =
    Invalid_metadata string string
  | Unparsable_max_length
  | Extension_metadata_without_name string

definition flag :: "field \<Rightarrow> string \<Rightarrow> (schema_error, bool) res" where
  "flag f key =
     (case bt_get (f_metadata f) key of
        None \<Rightarrow> Inr False
      | Some v \<Rightarrow> if v = ''true'' then Inr True else Inl (Invalid_metadata (f_name f) key))"

definition presence :: "field \<Rightarrow> string \<Rightarrow> (schema_error, value_presence) res" where
  "presence f key =
     (case bt_get (f_metadata f) key of
        None \<Rightarrow> Inr MayBeAbsent
      | Some v \<Rightarrow> if v = ''guaranteed'' then Inr Guaranteed else Inl (Invalid_metadata (f_name f) key))"

definition max_length_of :: "field \<Rightarrow> (schema_error, usize option) res" where
  "max_length_of f =
     (case bt_get (f_metadata f) META_MAX_LENGTH of
        None \<Rightarrow> Inr None
      | Some v \<Rightarrow> (case parse_usize v of None \<Rightarrow> Inl Unparsable_max_length | Some n \<Rightarrow> Inr (Some n)))"

definition column_from_field :: "field \<Rightarrow> (schema_error, schema_column) res" where
  "column_from_field f =
     res_bind (flag f META_PRIMARY_KEY) (\<lambda>pk.
     res_bind (flag f META_LOW_CARDINALITY) (\<lambda>lc.
     res_bind (flag f META_ALWAYS_PRESENT_ON_UPDATE) (\<lambda>ap.
     res_bind (presence f META_UPDATE_VALUE_PRESENCE) (\<lambda>up.
     res_bind (presence f META_DELETE_VALUE_PRESENCE) (\<lambda>dp.
     res_bind (max_length_of f) (\<lambda>ml.
     let en = bt_get (f_metadata f) META_ARROW_EXTENSION_NAME;
         em = bt_get (f_metadata f) META_ARROW_EXTENSION_METADATA
     in if em = None \<or> en \<noteq> None
        then Inr ((schema_column_new (f_name f) (f_type f) (f_nullable f))
          \<lparr>c_primary_key := pk, c_low_cardinality := lc, c_always_present_on_update := ap,
           c_update_value_presence := up, c_delete_value_presence := dp, c_max_length := ml,
           c_arrow_extension_name := en, c_arrow_extension_metadata := em,
           c_system_role := bt_get (f_metadata f) META_SYSTEM_ROLE,
           c_old_value_of := bt_get (f_metadata f) META_OLD_VALUE_OF,
           c_old_key_of := bt_get (f_metadata f) META_OLD_KEY_OF\<rparr>)
        else Inl (Extension_metadata_without_name (f_name f))))))))"

definition from_arrow :: "arrow_schema \<Rightarrow> (schema_error, dataset_schema) res" where
  "from_arrow fs = res_map column_from_field fs"

text \<open>The Arrow field a source builds for a user column.\<close>

definition source_user_field :: "schema_column \<Rightarrow> bool \<Rightarrow> field" where
  "source_user_field c nullable =
     \<lparr>f_name = c_name c, f_type = c_data_type c, f_nullable = nullable \<or> c_nullable c,
      f_metadata = arrow_metadata c\<rparr>"

subsection \<open>Row operations and system columns\<close>

datatype change_operation = Create | SnapshotRead | Update | Delete

definition code :: "change_operation \<Rightarrow> string" where
  "code op = (case op of Create \<Rightarrow> ''c'' | SnapshotRead \<Rightarrow> ''r'' | Update \<Rightarrow> ''u'' | Delete \<Rightarrow> ''d'')"

definition from_code :: "string \<Rightarrow> change_operation option" where
  "from_code s =
     (if s = ''c'' then Some Create else if s = ''r'' then Some SnapshotRead
      else if s = ''u'' then Some Update else if s = ''d'' then Some Delete else None)"

definition writes_current_value :: "change_operation \<Rightarrow> bool" where
  "writes_current_value op = (op = Create \<or> op = SnapshotRead \<or> op = Update)"

datatype system_column_kind =
  Topic | Partition | Offset | MessageIndex | WriteTimestampMs | ChangeOperation | ChangedColumns

definition default_name :: "system_column_kind \<Rightarrow> string" where
  "default_name k =
     (case k of
        Topic \<Rightarrow> ''_system_topic'' | Partition \<Rightarrow> ''_system_partition'' | Offset \<Rightarrow> ''_system_offset''
      | MessageIndex \<Rightarrow> ''_system_message_index''
      | WriteTimestampMs \<Rightarrow> ''_system_write_timestamp_ms''
      | ChangeOperation \<Rightarrow> ''_system_change_operation''
      | ChangedColumns \<Rightarrow> ''_system_changed_columns'')"

definition kind_data_type :: "system_column_kind \<Rightarrow> data_type" where
  "kind_data_type k =
     (case k of
        Topic \<Rightarrow> Utf8 | ChangeOperation \<Rightarrow> Utf8
      | Partition \<Rightarrow> Int64 | Offset \<Rightarrow> Int64 | WriteTimestampMs \<Rightarrow> Int64
      | MessageIndex \<Rightarrow> UInt64 | ChangedColumns \<Rightarrow> Binary)"

record system_column =
  sc_kind :: system_column_kind
  sc_index :: usize
  sc_name :: string

type_synonym system_columns = "system_column list"

definition sys_get :: "system_columns \<Rightarrow> system_column_kind \<Rightarrow> system_column option" where
  "sys_get cs k = find (\<lambda>c. sc_kind c = k) cs"

definition sys_contains :: "system_columns \<Rightarrow> system_column_kind \<Rightarrow> bool" where
  "sys_contains cs k = (sys_get cs k \<noteq> None)"

subsection \<open>Sink batches and their datasets\<close>

datatype dataset_role = MainRole | DeadLetterQueue

definition from_is_dlq :: "bool \<Rightarrow> dataset_role" where
  "from_is_dlq d = (if d then DeadLetterQueue else MainRole)"

datatype update_policy = Strict | FullImageUpsert

record discovered_system_column =
  ds_kind :: system_column_kind
  ds_name :: string

record discovered_dataset =
  d_namespace :: "string option"
  d_update_policy :: update_policy
  d_role :: dataset_role
  d_name :: string
  d_incoming_schema :: dataset_schema
  d_stored_schema :: dataset_schema
  d_system_columns :: "discovered_system_column list"

record 'v sink_batch =
  sb_schema :: dataset_schema
  sb_namespace :: "string option"
  sb_table :: string
  sb_is_dlq :: bool
  sb_batch :: "'v record_batch"
  sb_byte_size :: usize
  sb_memory :: nat
  sb_system_columns :: system_columns

datatype dataset_error =
    Arrow_schema_invalid schema_error
  | Batch_schema_mismatch string

definition stored_by_sink :: "system_columns \<Rightarrow> bool \<Rightarrow> schema_column \<Rightarrow> bool" where
  "stored_by_sink sys keep c =
     (if c_system_role c \<noteq> None \<or> c_old_value_of c \<noteq> None \<or> c_old_key_of c \<noteq> None then False
      else case find (\<lambda>s. sc_name s = c_name c) sys of
             Some s \<Rightarrow> keep \<and> \<not> (sc_kind s = ChangeOperation \<or> sc_kind s = ChangedColumns)
           | None \<Rightarrow> True)"

definition batch_dataset :: "'v sink_batch \<Rightarrow> bool \<Rightarrow> (dataset_error, discovered_dataset) res" where
  "batch_dataset b keep =
     (case from_arrow (rb_schema (sb_batch b)) of
        Inl e \<Rightarrow> Inl (Arrow_schema_invalid e)
      | Inr actual \<Rightarrow>
          if \<not> schema_eq actual (sb_schema b) then Inl (Batch_schema_mismatch (sb_table b))
          else Inr
            \<lparr>d_namespace = sb_namespace b, d_update_policy = Strict,
             d_role = from_is_dlq (sb_is_dlq b), d_name = sb_table b,
             d_incoming_schema = sb_schema b,
             d_stored_schema = filter (stored_by_sink (sb_system_columns b) keep) (sb_schema b),
             d_system_columns =
               map (\<lambda>s. \<lparr>ds_kind = sc_kind s, ds_name = sc_name s\<rparr>) (sb_system_columns b)\<rparr>)"

definition sb_rows :: "'v sink_batch \<Rightarrow> usize" where
  "sb_rows b = rb_num_rows (sb_batch b)"

record 'v table_data =
  td_namespace :: "string option"
  td_table :: string
  td_is_dlq :: bool
  td_schema :: dataset_schema
  td_batch :: "'v record_batch"
  td_system_columns :: system_columns

definition table_data_new ::
  "string \<Rightarrow> bool \<Rightarrow> 'v record_batch \<Rightarrow> system_columns \<Rightarrow> (schema_error, 'v table_data) res" where
  "table_data_new t dlq b sys =
     (case from_arrow (rb_schema b) of
        Inl e \<Rightarrow> Inl e
      | Inr s \<Rightarrow> Inr \<lparr>td_namespace = None, td_table = t, td_is_dlq = dlq, td_schema = s, td_batch = b,
                      td_system_columns = sys\<rparr>)"

definition dlq_name :: "string \<Rightarrow> string" where
  "dlq_name t = t @ ''_dlq''"

subsection \<open>Round trips\<close>

lemma from_code_code [simp]: "from_code (code op) = Some op"
  by (cases op) (simp_all add: from_code_def code_def)

lemma from_code_Some_iff: "from_code s = Some op \<longleftrightarrow> s = code op"
  by (cases op) (auto simp: from_code_def code_def)

lemma bt_get_put_opt [simp]:
  "bt_get (put_opt k v m) k' = (if k' = k \<and> v \<noteq> None then v else bt_get m k')"
  by (cases v) (simp_all add: put_opt_def)

lemma bt_wf_put_opt [simp]: "bt_wf m \<Longrightarrow> bt_wf (put_opt k v m)"
  by (cases v) (simp_all add: put_opt_def)

lemma arrow_metadata_get:
  "bt_get (arrow_metadata c) META_UPDATE_VALUE_PRESENCE = metadata_value (c_update_value_presence c)"
  "bt_get (arrow_metadata c) META_DELETE_VALUE_PRESENCE = metadata_value (c_delete_value_presence c)"
  "bt_get (arrow_metadata c) META_ALWAYS_PRESENT_ON_UPDATE = true_if (c_always_present_on_update c)"
  "bt_get (arrow_metadata c) META_PRIMARY_KEY = true_if (c_primary_key c)"
  "bt_get (arrow_metadata c) META_LOW_CARDINALITY = true_if (c_low_cardinality c)"
  "bt_get (arrow_metadata c) META_MAX_LENGTH = map_option usize_to_string (c_max_length c)"
  "bt_get (arrow_metadata c) META_ARROW_EXTENSION_NAME = c_arrow_extension_name c"
  "bt_get (arrow_metadata c) META_ARROW_EXTENSION_METADATA = c_arrow_extension_metadata c"
  "bt_get (arrow_metadata c) META_SYSTEM_ROLE = c_system_role c"
  "bt_get (arrow_metadata c) META_OLD_VALUE_OF = c_old_value_of c"
  "bt_get (arrow_metadata c) META_OLD_KEY_OF = c_old_key_of c"
  by (simp_all add: arrow_metadata_def bt_empty_def)

lemma flag_true_if: "bt_get (f_metadata f) k = true_if b \<Longrightarrow> flag f k = Inr b"
  by (simp add: flag_def true_if_def)

lemma presence_metadata_value: "bt_get (f_metadata f) k = metadata_value p \<Longrightarrow> presence f k = Inr p"
  by (cases p) (simp_all add: presence_def metadata_value_def)

lemma max_length_of_show:
  "bt_get (f_metadata f) META_MAX_LENGTH = map_option usize_to_string ml \<Longrightarrow> max_length_of f = Inr ml"
  by (cases ml) (simp_all add: max_length_of_def)

definition extension_ok :: "schema_column \<Rightarrow> bool" where
  "extension_ok c \<longleftrightarrow> c_arrow_extension_metadata c = None \<or> c_arrow_extension_name c \<noteq> None"

lemma column_from_source_user_field:
  assumes "extension_ok c"
  shows "column_from_field (source_user_field c nullable) =
    Inr (c\<lparr>c_source_type := None, c_nullable := nullable \<or> c_nullable c\<rparr>)"
proof -
  let ?f = "source_user_field c nullable"
  have m: "f_metadata ?f = arrow_metadata c" by (simp add: source_user_field_def)
  have "flag ?f META_PRIMARY_KEY = Inr (c_primary_key c)"
    "flag ?f META_LOW_CARDINALITY = Inr (c_low_cardinality c)"
    "flag ?f META_ALWAYS_PRESENT_ON_UPDATE = Inr (c_always_present_on_update c)"
    "presence ?f META_UPDATE_VALUE_PRESENCE = Inr (c_update_value_presence c)"
    "presence ?f META_DELETE_VALUE_PRESENCE = Inr (c_delete_value_presence c)"
    "max_length_of ?f = Inr (c_max_length c)"
    by (intro flag_true_if presence_metadata_value max_length_of_show; simp add: m arrow_metadata_get)+
  then show ?thesis
    using assms by (simp add: column_from_field_def m arrow_metadata_get extension_ok_def
        schema_column_new_def source_user_field_def)
qed

lemma column_eq_iff: "column_eq a b \<longleftrightarrow> a\<lparr>c_source_type := None\<rparr> = b\<lparr>c_source_type := None\<rparr>"
  by (cases a; cases b) (auto simp: column_eq_def)

lemma column_eq_refl [simp]: "column_eq a a"
  by (simp add: column_eq_def)

lemma column_eq_trans: "column_eq a b \<Longrightarrow> column_eq b c \<Longrightarrow> column_eq a c"
  by (simp add: column_eq_iff)

lemma column_eq_sym: "column_eq a b \<Longrightarrow> column_eq b a"
  by (simp add: column_eq_iff)

lemma schema_eq_refl [simp]: "schema_eq s s"
  by (simp add: schema_eq_def list.rel_refl)

text \<open>
  The metadata determines every logical property of a column beyond its name, type and
  nullability, so comparing the Arrow side is as strict as comparing the schema.
\<close>

lemma arrow_metadata_inj:
  assumes "arrow_metadata a = arrow_metadata b" "c_name a = c_name b" "c_data_type a = c_data_type b"
    and "c_nullable a = c_nullable b"
  shows "column_eq a b"
proof -
  have g: "bt_get (arrow_metadata a) k = bt_get (arrow_metadata b) k" for k
    using assms(1) by simp
  have t: "true_if x = true_if y \<longleftrightarrow> x = y" for x y by (simp add: true_if_def)
  have p: "metadata_value x = metadata_value y \<longleftrightarrow> x = y" for x y
    by (cases x; cases y) (simp_all add: metadata_value_def)
  have "map_option usize_to_string x = map_option usize_to_string y \<Longrightarrow> x = y" for x y
    by (cases x; cases y) simp_all
  then show ?thesis
    using assms(2-4) g[of META_UPDATE_VALUE_PRESENCE] g[of META_DELETE_VALUE_PRESENCE]
      g[of META_ALWAYS_PRESENT_ON_UPDATE] g[of META_PRIMARY_KEY] g[of META_LOW_CARDINALITY]
      g[of META_MAX_LENGTH] g[of META_ARROW_EXTENSION_NAME] g[of META_ARROW_EXTENSION_METADATA]
      g[of META_SYSTEM_ROLE] g[of META_OLD_VALUE_OF] g[of META_OLD_KEY_OF]
    by (simp add: arrow_metadata_get t p column_eq_def)
qed

subsection \<open>Property\<close>

text \<open>
  C14 (schema round trip). The Arrow fields a source builds for its columns are read back by
  \<^verbatim>\<open>DatasetSchema::from_arrow\<close> as the same columns, every constraint, presence guarantee and CDC
  pairing included; only the native declaration, which Arrow does not carry, is dropped. A column
  whose extension payload has no extension name is the one that is refused.
\<close>

theorem from_arrow_source_fields:
  assumes "\<forall>c \<in> set cols. extension_ok c"
  shows "from_arrow (map (\<lambda>c. source_user_field c nullable) cols) =
      Inr (map (\<lambda>c. c\<lparr>c_source_type := None, c_nullable := nullable \<or> c_nullable c\<rparr>) cols)"
  using assms unfolding from_arrow_def
  by (induction cols) (simp_all add: column_from_source_user_field)

theorem from_arrow_source_fields_witness:
  "from_arrow (map (\<lambda>c. source_user_field c False)
      [with_constraints True False (Some 12) (schema_column_new ''id'' Utf8 False),
       with_arrow_extension_metadata ''e'' ''m'' (schema_column_new ''v'' Int64 True)]) =
    Inr [with_constraints True False (Some 12) (schema_column_new ''id'' Utf8 False),
         with_arrow_extension_metadata ''e'' ''m'' (schema_column_new ''v'' Int64 True)]"
  by (subst from_arrow_source_fields)
     (simp_all add: extension_ok_def with_constraints_def with_arrow_extension_metadata_def
        schema_column_new_def)

end
