(* ===== verification/Delivery_Tracker.thy ===== *)
theory Delivery_Tracker
  imports BTree_Map
begin

section \<open>Ordered delivery completion\<close>

text \<open>
  The completion accounting shared by the durable sinks:
  \<^verbatim>\<open>transferia-delivery-contracts/src/delivery_tracker.rs\<close>, with \<^verbatim>\<open>DeliveryId\<close> of
  \<^verbatim>\<open>transferia-core/src/sink.rs\<close>. A sink accepts deliveries in order, completes their units in
  any order and reports the longest fully completed prefix. The tracker refines a queue of pending
  deliveries (\<open>spec_accept\<close>, \<open>spec_complete\<close>, \<open>spec_take\<close>); the locale \<open>completion_queue\<close> states
  that contract and proves the sink-side guarantees once, and \<open>tracker\<close> interprets it.
\<close>

type_synonym delivery_id = u64

definition delivery_id_next :: "delivery_id \<Rightarrow> delivery_id" where
  "delivery_id_next i = saturating_add i 1"

record delivery_state =
  remaining :: usize
  state_messages :: u64

record committed =
  through :: delivery_id
  source_messages :: u64

record delivery_tracker =
  entries :: "(delivery_id, delivery_state) btree"
  next_received :: delivery_id
  next_commit :: delivery_id

datatype tracker_error =
    Delivery_order_violation delivery_id delivery_id
  | Missing_delivery_progress delivery_id
  | Delivery_progress_underflow

definition tracker_new :: delivery_tracker where
  "tracker_new = \<lparr>entries = bt_empty, next_received = 1, next_commit = 1\<rparr>"

definition accept ::
  "delivery_id \<Rightarrow> usize \<Rightarrow> u64 \<Rightarrow> delivery_tracker \<Rightarrow> (tracker_error, delivery_tracker) res" where
  "accept i rem msgs t =
     (if i \<noteq> next_received t then Inl (Delivery_order_violation (next_received t) i)
      else Inr (t\<lparr>next_received := delivery_id_next (next_received t),
                  entries := bt_insert i \<lparr>remaining = rem, state_messages = msgs\<rparr> (entries t)\<rparr>))"

definition complete ::
  "delivery_id \<Rightarrow> usize \<Rightarrow> delivery_tracker \<Rightarrow> (tracker_error, delivery_tracker) res" where
  "complete i units t =
     (case bt_get (entries t) i of
        None \<Rightarrow> Inl (Missing_delivery_progress i)
      | Some st \<Rightarrow>
          (case checked_sub (remaining st) units of
             None \<Rightarrow> Inl Delivery_progress_underflow
           | Some r \<Rightarrow> Inr (t\<lparr>entries := bt_insert i (st\<lparr>remaining := r\<rparr>) (entries t)\<rparr>)))"

definition front_done :: "delivery_tracker \<Rightarrow> bool" where
  "front_done t =
     (case bt_get (entries t) (next_commit t) of None \<Rightarrow> False | Some st \<Rightarrow> remaining st = 0)"

function take_loop ::
  "delivery_tracker \<Rightarrow> delivery_id option \<Rightarrow> u64 \<Rightarrow> delivery_tracker \<times> delivery_id option \<times> u64" where
  "take_loop t thr msgs =
     (case bt_get (entries t) (next_commit t) of
        None \<Rightarrow> (t, thr, msgs)
      | Some st \<Rightarrow>
          if remaining st = 0
          then take_loop
                 (t\<lparr>entries := bt_remove (next_commit t) (entries t),
                    next_commit := delivery_id_next (next_commit t)\<rparr>)
                 (Some (next_commit t))
                 (saturating_add msgs (state_messages st))
          else (t, thr, msgs))"
  by pat_completeness auto
termination
  by (relation "measure (\<lambda>(t, _, _). length (entries t))")
     (auto simp: length_bt_remove bt_contains_key_def)

declare take_loop.simps [simp del]

definition take_committed :: "delivery_tracker \<Rightarrow> delivery_tracker \<times> committed option" where
  "take_committed t =
     (case take_loop t None 0 of
        (t', thr, msgs) \<Rightarrow>
          (t', map_option (\<lambda>thr. \<lparr>through = thr, source_messages = msgs\<rparr>) thr))"

definition tracker_is_empty :: "delivery_tracker \<Rightarrow> bool" where
  "tracker_is_empty t = (entries t = [])"

subsection \<open>Abstract specification: a queue of pending deliveries\<close>

text \<open>
  The abstract state is the id of the oldest pending delivery and the pending deliveries in order,
  each with its outstanding units and its source messages.
\<close>

type_synonym pending_queue = "nat \<times> (nat \<times> nat) list"

definition spec_accept :: "nat \<Rightarrow> nat \<Rightarrow> pending_queue \<Rightarrow> pending_queue" where
  "spec_accept rem msgs q = (fst q, snd q @ [(rem, msgs)])"

definition spec_complete :: "nat \<Rightarrow> nat \<Rightarrow> pending_queue \<Rightarrow> pending_queue" where
  "spec_complete i units q =
     (fst q, (snd q)[i - fst q := (fst (snd q ! (i - fst q)) - units, snd (snd q ! (i - fst q)))])"

definition spec_take :: "pending_queue \<Rightarrow> pending_queue" where
  "spec_take q =
     (fst q + length (takeWhile (\<lambda>d. fst d = 0) (snd q)), dropWhile (\<lambda>d. fst d = 0) (snd q))"

definition spec_taken :: "pending_queue \<Rightarrow> (nat \<times> nat) list" where
  "spec_taken q = takeWhile (\<lambda>d. fst d = 0) (snd q)"

definition tracker_abs :: "delivery_tracker \<Rightarrow> pending_queue" where
  "tracker_abs t =
     (unat (next_commit t),
      map (\<lambda>e. (unat (remaining (snd e)), unat (state_messages (snd e)))) (entries t))"

text \<open>
  Invariant: the entries are exactly the deliveries from \<open>next_commit\<close> up to but excluding
  \<open>next_received\<close>, in order.
\<close>

definition tracker_inv :: "delivery_tracker \<Rightarrow> bool" where
  "tracker_inv t \<longleftrightarrow>
     1 \<le> unat (next_commit t) \<and>
     unat (next_commit t) + length (entries t) = unat (next_received t) \<and>
     map (unat \<circ> fst) (entries t) = [unat (next_commit t) ..< unat (next_received t)]"

subsection \<open>Maps whose keys are consecutive ids\<close>

definition consecutive :: "nat \<Rightarrow> ('a::len word \<times> 'v) list \<Rightarrow> bool" where
  "consecutive a m \<longleftrightarrow> map (unat \<circ> fst) m = [a ..< a + length m]"

lemma consecutive_simps [simp]:
  "consecutive a []"
  "consecutive a (e # m) \<longleftrightarrow> unat (fst e) = a \<and> consecutive (Suc a) m"
  by (auto simp: consecutive_def upt_conv_Cons simp del: upt_Suc)

lemma consecutive_append [simp]:
  "consecutive a (m @ m') \<longleftrightarrow> consecutive a m \<and> consecutive (a + length m) m'"
  by (induction m arbitrary: a) auto

lemma consecutive_get:
  "consecutive a m \<Longrightarrow>
   bt_get m i = (if a \<le> unat i \<and> unat i < a + length m then Some (snd (m ! (unat i - a))) else None)"
proof (induction m arbitrary: a)
  case (Cons e m)
  show ?case
  proof (cases "i = fst e")
    case True
    with Cons.prems show ?thesis by (cases e) auto
  next
    case False
    with Cons.prems have "unat i \<noteq> a"
      by (auto simp: word_unat_eq_iff)
    moreover have "Suc a \<le> unat i \<Longrightarrow> (e # m) ! (unat i - a) = m ! (unat i - Suc a)"
      by (metis Suc_diff_le diff_Suc_Suc nth_Cons_Suc)
    ultimately show ?thesis
      using Cons False by (cases e) (auto simp: Cons.IH[of "Suc a"])
  qed
qed simp

lemma consecutive_insert:
  "consecutive a m \<Longrightarrow> a \<le> unat i \<Longrightarrow> unat i < a + length m \<Longrightarrow>
   bt_insert i v m = m[unat i - a := (i, v)]"
proof (induction m arbitrary: a)
  case (Cons e m)
  show ?case
  proof (cases "i = fst e")
    case True
    with Cons.prems show ?thesis by (cases e) auto
  next
    case False
    with Cons.prems have ne: "unat i \<noteq> a"
      by (auto simp: word_unat_eq_iff)
    then have "unat i - a = Suc (unat i - Suc a)" "\<not> i < fst e"
      using Cons.prems by (auto simp: word_less_nat_alt)
    then show ?thesis
      using Cons.IH[of "Suc a"] Cons.prems ne False by (cases e) auto
  qed
qed simp

lemma consecutive_less: "consecutive a m \<Longrightarrow> e \<in> set m \<Longrightarrow> unat (fst e) < a + length m"
  by (induction m arbitrary: a) fastforce+

lemma consecutive_ge: "consecutive a m \<Longrightarrow> e \<in> set m \<Longrightarrow> a \<le> unat (fst e)"
  by (induction m arbitrary: a) fastforce+

lemma consecutive_wf: "consecutive a m \<Longrightarrow> bt_wf m"
  by (induction m arbitrary: a) (auto simp: word_less_nat_alt dest!: consecutive_ge)

lemma consecutive_snoc:
  "consecutive a m \<Longrightarrow> unat i = a + length m \<Longrightarrow> bt_insert i v m = m @ [(i, v)]"
  by (rule bt_insert_append) (auto simp: word_less_nat_alt dest: consecutive_less)

lemma tracker_inv_alt:
  "tracker_inv t \<longleftrightarrow>
     1 \<le> unat (next_commit t) \<and>
     unat (next_commit t) + length (entries t) = unat (next_received t) \<and>
     consecutive (unat (next_commit t)) (entries t)"
  by (auto simp: tracker_inv_def consecutive_def)

subsection \<open>Every operation refines the queue\<close>

lemma delivery_id_next_unat: "i \<noteq> - 1 \<Longrightarrow> unat (delivery_id_next i) = Suc (unat i)"
proof -
  assume "i \<noteq> - 1"
  then have "unat i \<noteq> 2 ^ 64 - 1"
    using unat_max_word[where 'a = 64] by (auto simp: word_unat_eq_iff)
  then show ?thesis
    using unat_less_pow[of i] by (simp add: delivery_id_next_def unat_saturating_add)
qed

lemma tracker_new_inv: "tracker_inv tracker_new" "tracker_abs tracker_new = (1, [])"
  by (simp_all add: tracker_inv_alt tracker_new_def tracker_abs_def bt_empty_def)

lemma accept_refines:
  assumes "tracker_inv t" "accept i r m t = Inr t'" "i \<noteq> - 1"
  shows "tracker_inv t'" "tracker_abs t' = spec_accept (unat r) (unat m) (tracker_abs t)"
    and "unat i = fst (tracker_abs t) + length (snd (tracker_abs t))"
proof -
  have i: "i = next_received t"
    and t': "t' = t\<lparr>next_received := delivery_id_next i,
                   entries := bt_insert i \<lparr>remaining = r, state_messages = m\<rparr> (entries t)\<rparr>"
    using assms(2) by (auto simp: accept_def split: if_splits)
  have "entries t' = entries t @ [(i, \<lparr>remaining = r, state_messages = m\<rparr>)]"
    using assms(1) i unfolding t' by (auto simp: tracker_inv_alt intro: consecutive_snoc)
  then show "tracker_inv t'" "tracker_abs t' = spec_accept (unat r) (unat m) (tracker_abs t)"
    using assms(1,3) i by (auto simp: t' tracker_inv_alt tracker_abs_def spec_accept_def delivery_id_next_unat)
  show "unat i = fst (tracker_abs t) + length (snd (tracker_abs t))"
    using assms(1) i by (simp add: tracker_inv_alt tracker_abs_def)
qed

lemma complete_refines:
  assumes "tracker_inv t" "complete i u t = Inr t'"
  shows "tracker_inv t'" "tracker_abs t' = spec_complete (unat i) (unat u) (tracker_abs t)"
    and "fst (tracker_abs t) \<le> unat i"
    and "unat i - fst (tracker_abs t) < length (snd (tracker_abs t))"
    and "unat u \<le> fst (snd (tracker_abs t) ! (unat i - fst (tracker_abs t)))"
proof -
  let ?a = "unat (next_commit t)" and ?m = "entries t"
  have c: "consecutive ?a ?m" using assms(1) by (simp add: tracker_inv_alt)
  obtain st r where st: "bt_get ?m i = Some st" and r: "checked_sub (remaining st) u = Some r"
    and t': "t' = t\<lparr>entries := bt_insert i (st\<lparr>remaining := r\<rparr>) ?m\<rparr>"
    using assms(2) by (auto simp: complete_def split: option.splits)
  have i: "?a \<le> unat i" "unat i < ?a + length ?m" and ste: "st = snd (?m ! (unat i - ?a))"
    using st by (auto simp: consecutive_get[OF c] split: if_splits)
  then have e': "entries t' = ?m[unat i - ?a := (i, st\<lparr>remaining := r\<rparr>)]"
    using c by (simp add: t' consecutive_insert)
  have "map (unat \<circ> fst) ?m ! (unat i - ?a) = unat i"
    using c i by (simp add: consecutive_def)
  then have "consecutive ?a (entries t')"
    using c i unfolding e' consecutive_def by (simp add: map_update list_update_same_conv)
  then show "tracker_inv t'"
    using assms(1) e' by (simp add: tracker_inv_alt t')
  have "unat (remaining st) - unat u = unat r" "unat u \<le> unat (remaining st)"
    using r by (simp_all add: checked_sub_eq_Some)
  then show "tracker_abs t' = spec_complete (unat i) (unat u) (tracker_abs t)"
    and "unat u \<le> fst (snd (tracker_abs t) ! (unat i - fst (tracker_abs t)))"
    using i ste e' by (auto simp: tracker_abs_def spec_complete_def map_update t')
  show "fst (tracker_abs t) \<le> unat i" "unat i - fst (tracker_abs t) < length (snd (tracker_abs t))"
    using i by (auto simp: tracker_abs_def)
qed

lemma take_loop_refines:
  assumes "tracker_inv t"
  defines "taken \<equiv> spec_taken (tracker_abs t)"
  shows "tracker_inv (fst (take_loop t thr msgs)) \<and>
    tracker_abs (fst (take_loop t thr msgs)) = spec_take (tracker_abs t) \<and>
    map_option unat (fst (snd (take_loop t thr msgs))) =
      (if taken = [] then map_option unat thr
       else Some (fst (tracker_abs t) + length taken - 1)) \<and>
    unat (snd (snd (take_loop t thr msgs))) = min (unat msgs + sum_list (map snd taken)) (2 ^ 64 - 1)"
  using assms(1) unfolding taken_def
proof (induction t thr msgs rule: take_loop.induct)
  case (1 t thr msgs)
  let ?a = "unat (next_commit t)"
  have c: "consecutive ?a (entries t)" using "1.prems" by (simp add: tracker_inv_alt)
  show ?case
  proof (cases "entries t")
    case Nil
    then show ?thesis
      using "1.prems" unat_less_pow[of msgs]
      by (simp add: take_loop.simps tracker_abs_def spec_take_def spec_taken_def)
  next
    case (Cons e m)
    obtain i st where e: "e = (i, st)" by (cases e)
    have i: "i = next_commit t" using c Cons e by (simp add: word_unat_eq_iff)
    show ?thesis
    proof (cases "remaining st = 0")
      case False
      then show ?thesis
        using "1.prems" unat_less_pow[of msgs] Cons e i
        by (simp add: take_loop.simps tracker_abs_def spec_take_def spec_taken_def unat_eq_zero)
    next
      case True
      let ?t = "t\<lparr>entries := m, next_commit := delivery_id_next i\<rparr>"
      have step: "take_loop t thr msgs = take_loop ?t (Some i) (saturating_add msgs (state_messages st))"
        using Cons e i True by (subst take_loop.simps) simp
      have "?a < unat (next_received t)" using "1.prems" Cons by (simp add: tracker_inv_alt)
      then have "i \<noteq> - 1"
        using i unat_less_pow[of "next_received t"] unat_max_word[where 'a = 64] by auto
      then have nx: "unat (delivery_id_next i) = Suc ?a"
        by (simp add: delivery_id_next_unat i)
      then have inv: "tracker_inv ?t"
        using "1.prems" Cons e by (simp add: tracker_inv_alt)
      show ?thesis
        using "1.IH"[of st] inv True Cons e i nx
        by (auto simp: step tracker_abs_def spec_take_def spec_taken_def unat_saturating_add)
    qed
  qed
qed

lemma take_committed_refines:
  assumes "tracker_inv t" "take_committed t = (t', c)"
  defines "taken \<equiv> spec_taken (tracker_abs t)"
  shows "tracker_inv t'" "tracker_abs t' = spec_take (tracker_abs t)"
    and "c = None \<longleftrightarrow> taken = []"
    and "c = Some d \<Longrightarrow> Suc (unat (through d)) = fst (tracker_abs t) + length taken"
    and "c = Some d \<Longrightarrow> unat (source_messages d) = min (sum_list (map snd taken)) (2 ^ 64 - 1)"
  using take_loop_refines[OF assms(1), of None 0] assms(2)
  unfolding taken_def take_committed_def
  by (auto split: prod.splits if_splits)

subsection \<open>The contract a sink relies on\<close>

datatype tracker_op =
    Op_accept delivery_id usize u64
  | Op_complete delivery_id usize
  | Op_take

fun run_ops ::
  "(delivery_id \<Rightarrow> usize \<Rightarrow> u64 \<Rightarrow> 's \<Rightarrow> ('e, 's) res) \<Rightarrow>
   (delivery_id \<Rightarrow> usize \<Rightarrow> 's \<Rightarrow> ('e, 's) res) \<Rightarrow>
   ('s \<Rightarrow> 's \<times> committed option) \<Rightarrow>
   tracker_op list \<Rightarrow> 's \<Rightarrow> ('e, 's \<times> committed list) res" where
  "run_ops acc cmpl tk [] s = Inr (s, [])"
| "run_ops acc cmpl tk (Op_accept i r m # ops) s =
     res_bind (acc i r m s) (run_ops acc cmpl tk ops)"
| "run_ops acc cmpl tk (Op_complete i u # ops) s =
     res_bind (cmpl i u s) (run_ops acc cmpl tk ops)"
| "run_ops acc cmpl tk (Op_take # ops) s =
     (case tk s of (s', c) \<Rightarrow>
        res_bind (run_ops acc cmpl tk ops s')
          (\<lambda>(s'', log). Inr (s'', (case c of None \<Rightarrow> log | Some d \<Rightarrow> d # log))))"

fun ids_fresh :: "tracker_op list \<Rightarrow> bool" where
  "ids_fresh [] = True"
| "ids_fresh (Op_accept i r m # ops) = (i \<noteq> - 1 \<and> ids_fresh ops)"
| "ids_fresh (Op_complete i u # ops) = ids_fresh ops"
| "ids_fresh (Op_take # ops) = ids_fresh ops"

fun accepted_messages :: "tracker_op list \<Rightarrow> nat" where
  "accepted_messages [] = 0"
| "accepted_messages (Op_accept i r m # ops) = unat m + accepted_messages ops"
| "accepted_messages (op # ops) = accepted_messages ops"

fun accepted_units :: "nat \<Rightarrow> tracker_op list \<Rightarrow> nat" where
  "accepted_units j [] = 0"
| "accepted_units j (Op_accept i r m # ops) = (if unat i = j then unat r else 0) + accepted_units j ops"
| "accepted_units j (op # ops) = accepted_units j ops"

fun completed_units :: "nat \<Rightarrow> tracker_op list \<Rightarrow> nat" where
  "completed_units j [] = 0"
| "completed_units j (Op_complete i u # ops) = (if unat i = j then unat u else 0) + completed_units j ops"
| "completed_units j (op # ops) = completed_units j ops"

definition outstanding :: "pending_queue \<Rightarrow> nat \<Rightarrow> nat" where
  "outstanding q j =
     (if fst q \<le> j \<and> j < fst q + length (snd q) then fst (snd q ! (j - fst q)) else 0)"

definition pending_messages :: "pending_queue \<Rightarrow> nat" where
  "pending_messages q = sum_list (map snd (snd q))"

lemma outstanding_accept:
  "outstanding (spec_accept r m q) j = outstanding q j + (if fst q + length (snd q) = j then r else 0)"
  by (auto simp: outstanding_def spec_accept_def nth_append)

lemma outstanding_complete:
  assumes "fst q \<le> i" "i - fst q < length (snd q)" "u \<le> fst (snd q ! (i - fst q))"
  shows "outstanding q j = outstanding (spec_complete i u q) j + (if i = j then u else 0)"
  using assms by (auto simp: outstanding_def spec_complete_def nth_list_update)

lemma outstanding_drop:
  assumes "\<forall>d \<in> set xs. fst d = 0"
  shows "outstanding (b + length xs, ys) j = outstanding (b, xs @ ys) j"
proof -
  have "k < length xs \<Longrightarrow> fst (xs ! k) = 0" for k using assms by simp
  then show ?thesis by (auto simp: outstanding_def nth_append)
qed

lemma outstanding_take: "outstanding (spec_take q) j = outstanding q j"
proof -
  let ?P = "\<lambda>d. fst d = (0::nat)"
  have "outstanding (spec_take q) j =
      outstanding (fst q, takeWhile ?P (snd q) @ dropWhile ?P (snd q)) j"
    unfolding spec_take_def by (rule outstanding_drop) (auto dest: set_takeWhileD)
  then show ?thesis by simp
qed

lemma pending_messages_accept: "pending_messages (spec_accept r m q) = pending_messages q + m"
  by (simp add: pending_messages_def spec_accept_def)

lemma pending_messages_complete: "pending_messages (spec_complete i u q) = pending_messages q"
proof -
  have "map snd (xs[k := (c, snd (xs ! k))]) = map snd xs" for xs :: "(nat \<times> nat) list" and k c
    by (metis list_update_id map_update snd_conv)
  then show ?thesis by (simp add: pending_messages_def spec_complete_def)
qed

lemma pending_messages_take:
  "sum_list (map snd (spec_taken q)) + pending_messages (spec_take q) = pending_messages q"
  unfolding pending_messages_def spec_taken_def spec_take_def snd_conv
  by (metis map_append sum_list_append takeWhile_dropWhile_id)

locale completion_queue =
  fixes acc :: "delivery_id \<Rightarrow> usize \<Rightarrow> u64 \<Rightarrow> 's \<Rightarrow> ('e, 's) res"
    and cmpl :: "delivery_id \<Rightarrow> usize \<Rightarrow> 's \<Rightarrow> ('e, 's) res"
    and tk :: "'s \<Rightarrow> 's \<times> committed option"
    and inv :: "'s \<Rightarrow> bool"
    and abs :: "'s \<Rightarrow> pending_queue"
  assumes acc_law:
      "inv s \<Longrightarrow> acc i r m s = Inr s' \<Longrightarrow> i \<noteq> - 1 \<Longrightarrow>
       inv s' \<and> abs s' = spec_accept (unat r) (unat m) (abs s) \<and>
       unat i = fst (abs s) + length (snd (abs s))"
    and cmpl_law:
      "inv s \<Longrightarrow> cmpl i u s = Inr s' \<Longrightarrow>
       inv s' \<and> abs s' = spec_complete (unat i) (unat u) (abs s) \<and>
       fst (abs s) \<le> unat i \<and> unat i - fst (abs s) < length (snd (abs s)) \<and>
       unat u \<le> fst (snd (abs s) ! (unat i - fst (abs s)))"
    and tk_law:
      "inv s \<Longrightarrow> tk s = (s', c) \<Longrightarrow>
       inv s' \<and> abs s' = spec_take (abs s) \<and>
       (case c of
          None \<Rightarrow> spec_taken (abs s) = []
        | Some d \<Rightarrow> spec_taken (abs s) \<noteq> [] \<and>
            Suc (unat (through d)) = fst (abs s) + length (spec_taken (abs s)) \<and>
            unat (source_messages d) = min (sum_list (map snd (spec_taken (abs s)))) (2 ^ 64 - 1))"
begin

lemma run_inv:
  "run_ops acc cmpl tk ops s = Inr (s', log) \<Longrightarrow> inv s \<Longrightarrow> ids_fresh ops \<Longrightarrow> inv s'"
proof (induction ops arbitrary: s log rule: ids_fresh.induct)
  case (2 i r m ops)
  then show ?case by (auto simp: res_bind_Inr_iff dest: acc_law)
next
  case (3 i u ops)
  then show ?case by (auto simp: res_bind_Inr_iff dest: cmpl_law)
next
  case (4 ops)
  then show ?case by (auto simp: res_bind_Inr_iff split: prod.splits dest: tk_law)
qed simp

lemma run_units:
  "run_ops acc cmpl tk ops s = Inr (s', log) \<Longrightarrow> inv s \<Longrightarrow> ids_fresh ops \<Longrightarrow>
   outstanding (abs s) j + accepted_units j ops = completed_units j ops + outstanding (abs s') j"
proof (induction ops arbitrary: s log rule: ids_fresh.induct)
  case (2 i r m ops)
  then obtain s1 where s1: "acc i r m s = Inr s1" "run_ops acc cmpl tk ops s1 = Inr (s', log)"
    by (auto simp: res_bind_Inr_iff)
  have "outstanding (abs s1) j = outstanding (abs s) j + (if unat i = j then unat r else 0)"
    using acc_law[OF "2.prems"(2) s1(1)] "2.prems"(3) by (auto simp: outstanding_accept)
  then show ?case
    using "2.IH"[OF s1(2)] acc_law[OF "2.prems"(2) s1(1)] "2.prems"(3) by auto
next
  case (3 i u ops)
  then obtain s1 where s1: "cmpl i u s = Inr s1" "run_ops acc cmpl tk ops s1 = Inr (s', log)"
    by (auto simp: res_bind_Inr_iff)
  note law = cmpl_law[OF "3.prems"(2) s1(1)]
  have "outstanding (abs s) j = outstanding (abs s1) j + (if unat i = j then unat u else 0)"
    using law outstanding_complete[of "abs s" "unat i" "unat u" j] by simp
  then show ?case
    using "3.IH"[OF s1(2)] law "3.prems"(3) by auto
next
  case (4 ops)
  then obtain s1 c log' where s1: "tk s = (s1, c)" "run_ops acc cmpl tk ops s1 = Inr (s', log')"
    by (auto simp: res_bind_Inr_iff split: prod.splits)
  then show ?case
    using "4.IH"[OF s1(2)] tk_law[OF "4.prems"(2) s1(1)] "4.prems"(3)
    by (auto simp: outstanding_take)
qed simp

lemma run_throughs:
  "run_ops acc cmpl tk ops s = Inr (s', log) \<Longrightarrow> inv s \<Longrightarrow> ids_fresh ops \<Longrightarrow>
   sorted_wrt (<) (map (\<lambda>d. unat (through d)) log) \<and>
   (\<forall>d \<in> set log. fst (abs s) \<le> unat (through d)) \<and>
   (if log = [] then fst (abs s') = fst (abs s)
    else fst (abs s') = Suc (unat (through (last log))))"
proof (induction ops arbitrary: s log rule: ids_fresh.induct)
  case (2 i r m ops)
  then obtain s1 where s1: "acc i r m s = Inr s1" "run_ops acc cmpl tk ops s1 = Inr (s', log)"
    by (auto simp: res_bind_Inr_iff)
  then show ?case
    using "2.IH"[OF s1(2)] acc_law[OF "2.prems"(2) s1(1)] "2.prems"
    by (simp add: spec_accept_def)
next
  case (3 i u ops)
  then obtain s1 where s1: "cmpl i u s = Inr s1" "run_ops acc cmpl tk ops s1 = Inr (s', log)"
    by (auto simp: res_bind_Inr_iff)
  then show ?case
    using "3.IH"[OF s1(2)] cmpl_law[OF "3.prems"(2) s1(1)] "3.prems"
    by (simp add: spec_complete_def)
next
  case (4 ops)
  then obtain s1 c log' where s1: "tk s = (s1, c)" "run_ops acc cmpl tk ops s1 = Inr (s', log')"
    and log: "log = (case c of None \<Rightarrow> log' | Some d \<Rightarrow> d # log')"
    by (auto simp: res_bind_Inr_iff split: prod.splits)
  note law = tk_law[OF "4.prems"(2) s1(1)]
  have base: "fst (abs s1) = fst (abs s) + length (spec_taken (abs s))"
    using law by (simp add: spec_take_def spec_taken_def)
  have IH: "sorted_wrt (<) (map (\<lambda>d. unat (through d)) log')"
    "\<forall>d \<in> set log'. fst (abs s1) \<le> unat (through d)"
    "if log' = [] then fst (abs s') = fst (abs s1) else fst (abs s') = Suc (unat (through (last log')))"
    using "4.IH"[OF s1(2)] law "4.prems"(3) by (simp_all add: comp_def)
  show ?case
  proof (cases c)
    case None
    with law IH base log show ?thesis by simp
  next
    case (Some d)
    then have "Suc (unat (through d)) = fst (abs s1)" "fst (abs s) \<le> unat (through d)"
      using law base by (cases "spec_taken (abs s)"; simp)+
    then show ?thesis
      using IH Some log by (auto simp: Suc_le_eq split: if_splits)
  qed
qed simp

lemma run_received:
  "run_ops acc cmpl tk ops s = Inr (s', log) \<Longrightarrow> inv s \<Longrightarrow> ids_fresh ops \<Longrightarrow>
   fst (abs s) + length (snd (abs s)) \<le> fst (abs s') + length (snd (abs s')) \<and>
   (\<forall>i r m. Op_accept i r m \<in> set ops \<longrightarrow> unat i < fst (abs s') + length (snd (abs s')))"
proof (induction ops arbitrary: s log rule: ids_fresh.induct)
  case (2 i r m ops)
  then obtain s1 where s1: "acc i r m s = Inr s1" "run_ops acc cmpl tk ops s1 = Inr (s', log)"
    by (auto simp: res_bind_Inr_iff)
  then show ?case
    using "2.IH"[OF s1(2)] acc_law[OF "2.prems"(2) s1(1)] "2.prems"
    by (auto simp: spec_accept_def)
next
  case (3 i u ops)
  then obtain s1 where s1: "cmpl i u s = Inr s1" "run_ops acc cmpl tk ops s1 = Inr (s', log)"
    by (auto simp: res_bind_Inr_iff)
  then show ?case
    using "3.IH"[OF s1(2)] cmpl_law[OF "3.prems"(2) s1(1)] "3.prems"
    by (auto simp: spec_complete_def)
next
  case (4 ops)
  then obtain s1 c log' where s1: "tk s = (s1, c)" "run_ops acc cmpl tk ops s1 = Inr (s', log')"
    by (auto simp: res_bind_Inr_iff split: prod.splits)
  have "length (takeWhile P xs) + length (dropWhile P xs) = length xs" for P and xs :: "(nat \<times> nat) list"
    by (metis length_append takeWhile_dropWhile_id)
  note split = this[of "\<lambda>d. fst d = 0" "snd (abs s)"]
  show ?case
    using "4.IH"[OF s1(2)] tk_law[OF "4.prems"(2) s1(1)] "4.prems"(3) split by (auto simp: spec_take_def)
qed simp

lemma run_accepted_ids:
  "run_ops acc cmpl tk ops s = Inr (s', log) \<Longrightarrow> inv s \<Longrightarrow> ids_fresh ops \<Longrightarrow> Op_accept i r m \<in> set ops \<Longrightarrow>
   fst (abs s) \<le> unat i"
proof (induction ops arbitrary: s log rule: ids_fresh.induct)
  case (2 i' r' m' ops)
  then obtain s1 where s1: "acc i' r' m' s = Inr s1" "run_ops acc cmpl tk ops s1 = Inr (s', log)"
    by (auto simp: res_bind_Inr_iff)
  then show ?case
    using "2.IH"[OF s1(2)] acc_law[OF "2.prems"(2) s1(1)] "2.prems" by (auto simp: spec_accept_def)
next
  case (3 i' u ops)
  then obtain s1 where s1: "cmpl i' u s = Inr s1" "run_ops acc cmpl tk ops s1 = Inr (s', log)"
    by (auto simp: res_bind_Inr_iff)
  then show ?case
    using "3.IH"[OF s1(2)] cmpl_law[OF "3.prems"(2) s1(1)] "3.prems" by (auto simp: spec_complete_def)
next
  case (4 ops)
  then obtain s1 c log' where s1: "tk s = (s1, c)" "run_ops acc cmpl tk ops s1 = Inr (s', log')"
    by (auto simp: res_bind_Inr_iff split: prod.splits)
  then show ?case
    using "4.IH"[OF s1(2)] tk_law[OF "4.prems"(2) s1(1)] "4.prems"(3,4) by (auto simp: spec_take_def)
qed simp

lemma run_messages:
  "run_ops acc cmpl tk ops s = Inr (s', log) \<Longrightarrow> inv s \<Longrightarrow> ids_fresh ops \<Longrightarrow>
   pending_messages (abs s) + accepted_messages ops < 2 ^ 64 \<Longrightarrow>
   sum_list (map (unat \<circ> source_messages) log) + pending_messages (abs s') =
   pending_messages (abs s) + accepted_messages ops"
proof (induction ops arbitrary: s log rule: ids_fresh.induct)
  case (2 i r m ops)
  then obtain s1 where s1: "acc i r m s = Inr s1" "run_ops acc cmpl tk ops s1 = Inr (s', log)"
    by (auto simp: res_bind_Inr_iff)
  then show ?case
    using "2.IH"[OF s1(2)] acc_law[OF "2.prems"(2) s1(1)] "2.prems"
    by (simp add: pending_messages_accept)
next
  case (3 i u ops)
  then obtain s1 where s1: "cmpl i u s = Inr s1" "run_ops acc cmpl tk ops s1 = Inr (s', log)"
    by (auto simp: res_bind_Inr_iff)
  then show ?case
    using "3.IH"[OF s1(2)] cmpl_law[OF "3.prems"(2) s1(1)] "3.prems"
    by (simp add: pending_messages_complete)
next
  case (4 ops)
  then obtain s1 c log' where s1: "tk s = (s1, c)" "run_ops acc cmpl tk ops s1 = Inr (s', log')"
    and log: "log = (case c of None \<Rightarrow> log' | Some d \<Rightarrow> d # log')"
    by (auto simp: res_bind_Inr_iff split: prod.splits)
  note law = tk_law[OF "4.prems"(2) s1(1)]
  have split: "sum_list (map snd (spec_taken (abs s))) + pending_messages (abs s1) = pending_messages (abs s)"
    using law by (simp add: pending_messages_take)
  then show ?case
    using "4.IH"[OF s1(2)] law "4.prems"(3,4) log by (auto split: option.splits)
qed simp

end

interpretation tracker: completion_queue accept complete take_committed tracker_inv tracker_abs
proof
  fix s s' i r m
  assume "tracker_inv s" "accept i r m s = Inr s'" "i \<noteq> - 1"
  then show "tracker_inv s' \<and> tracker_abs s' = spec_accept (unat r) (unat m) (tracker_abs s) \<and>
    unat i = fst (tracker_abs s) + length (snd (tracker_abs s))"
    using accept_refines by blast
next
  fix s s' i u
  assume "tracker_inv s" "complete i u s = Inr s'"
  then show "tracker_inv s' \<and> tracker_abs s' = spec_complete (unat i) (unat u) (tracker_abs s) \<and>
    fst (tracker_abs s) \<le> unat i \<and> unat i - fst (tracker_abs s) < length (snd (tracker_abs s)) \<and>
    unat u \<le> fst (snd (tracker_abs s) ! (unat i - fst (tracker_abs s)))"
    using complete_refines by blast
next
  fix s s' c
  assume "tracker_inv s" "take_committed s = (s', c)"
  note take_committed_refines[OF this]
  then show "tracker_inv s' \<and> tracker_abs s' = spec_take (tracker_abs s) \<and>
    (case c of None \<Rightarrow> spec_taken (tracker_abs s) = []
     | Some d \<Rightarrow> spec_taken (tracker_abs s) \<noteq> [] \<and>
         Suc (unat (through d)) = fst (tracker_abs s) + length (spec_taken (tracker_abs s)) \<and>
         unat (source_messages d) =
           min (sum_list (map snd (spec_taken (tracker_abs s)))) (2 ^ 64 - 1))"
    by (auto split: option.splits)
qed

subsection \<open>Properties\<close>

lemma outstanding_new: "outstanding (tracker_abs tracker_new) j = 0"
  "pending_messages (tracker_abs tracker_new) = 0"
  by (simp_all add: tracker_new_inv outstanding_def pending_messages_def)

lemma sorted_le_last:
  assumes "sorted_wrt (<) (map f xs)" "x \<in> set xs"
  shows "(f x :: nat) \<le> f (last xs)"
  using assms by (induction xs) (auto intro: less_imp_le)

definition example_ops :: "tracker_op list" where
  "example_ops =
     [Op_accept 1 2 10, Op_accept 2 1 20, Op_complete 2 1, Op_take, Op_complete 1 1, Op_complete 1 1,
      Op_take, Op_accept 3 0 5, Op_take]"

text \<open>
  C6 (commit safety). In any history of a fresh tracker, whatever the order in which units complete,
  a delivery that a reported commit covers has had exactly as many units completed as it was
  accepted with: nothing is acknowledged early and nothing is completed twice. Ids stay below
  \<^verbatim>\<open>u64::MAX\<close>.
\<close>

theorem tracker_commit_safety:
  assumes "run_ops accept complete take_committed ops tracker_new = Inr (t, log)" "ids_fresh ops"
    and "d \<in> set log" "j \<le> unat (through d)"
  shows "completed_units j ops = accepted_units j ops"
proof -
  note run = assms(1) tracker_new_inv(1) assms(2)
  have "unat (through d) \<le> unat (through (last log))"
    using tracker.run_throughs[OF run] assms(3) sorted_le_last[of "\<lambda>d. unat (through d)" log d] by auto
  then have "j < fst (tracker_abs t)"
    using tracker.run_throughs[OF run] assms(3,4) by (auto split: if_splits)
  then have "outstanding (tracker_abs t) j = 0" by (simp add: outstanding_def)
  then show ?thesis
    using tracker.run_units[OF run, of j] by (simp add: outstanding_new)
qed

theorem tracker_commit_safety_witness:
  "completed_units 1 example_ops = accepted_units 1 example_ops \<and> accepted_units 1 example_ops = 2"
proof -
  have r: "run_ops accept complete take_committed example_ops tracker_new =
      Inr (\<lparr>entries = [], next_received = 4, next_commit = 4\<rparr>,
           [\<lparr>through = 2, source_messages = 30\<rparr>, \<lparr>through = 3, source_messages = 5\<rparr>])"
    by code_simp
  have "ids_fresh example_ops" "accepted_units 1 example_ops = 2" by code_simp+
  moreover have "completed_units 1 example_ops = accepted_units 1 example_ops"
    by (rule tracker_commit_safety[OF r, of "\<lparr>through = 2, source_messages = 30\<rparr>"])
       (simp_all add: calculation(1))
  ultimately show ?thesis by simp
qed

text \<open>
  C7 (ordered, exactly-once commits). In any history of a fresh tracker the reported positions are
  strictly increasing, and the source messages of all commits together with those of the deliveries
  still pending are exactly the messages accepted, as long as that total fits a \<^verbatim>\<open>u64\<close>.
\<close>

theorem tracker_exactly_once:
  assumes "run_ops accept complete take_committed ops tracker_new = Inr (t, log)" "ids_fresh ops"
    and "accepted_messages ops < 2 ^ 64"
  shows "sorted_wrt (<) (map through log) \<and>
    sum_list (map (unat \<circ> source_messages) log) +
      sum_list (map (unat \<circ> state_messages \<circ> snd) (entries t)) = accepted_messages ops"
proof -
  note run = assms(1) tracker_new_inv(1) assms(2)
  have "sorted_wrt (\<lambda>x y. through x < through y) log"
    using tracker.run_throughs[OF run] by (simp add: sorted_wrt_map word_less_nat_alt)
  then show ?thesis
    using tracker.run_messages[OF run, unfolded outstanding_new] assms(3)
    by (simp add: pending_messages_def tracker_abs_def sorted_wrt_map comp_def)
qed

theorem tracker_exactly_once_witness:
  "\<exists>t log. run_ops accept complete take_committed example_ops tracker_new = Inr (t, log) \<and>
     sorted_wrt (<) (map through log) \<and> accepted_messages example_ops = 35"
proof -
  have r: "run_ops accept complete take_committed example_ops tracker_new =
      Inr (\<lparr>entries = [], next_received = 4, next_commit = 4\<rparr>,
           [\<lparr>through = 2, source_messages = 30\<rparr>, \<lparr>through = 3, source_messages = 5\<rparr>])"
    by code_simp
  have "ids_fresh example_ops" and m: "accepted_messages example_ops = 35" by code_simp+
  then show ?thesis using tracker_exactly_once[OF r] r by auto
qed

text \<open>
  C8 (progress). When every unit of every accepted delivery has been completed, the next
  \<^verbatim>\<open>take_committed\<close> leaves the tracker empty, and its result completes the report: it is \<^verbatim>\<open>None\<close> only if nothing was
  pending, and otherwise a commit through the last id received, so that every accepted id is covered by a reported
  commit and the reported messages are all messages accepted, as long as that total fits a \<^verbatim>\<open>u64\<close>.
\<close>

theorem tracker_drains:
  assumes "run_ops accept complete take_committed ops tracker_new = Inr (t, log)" "ids_fresh ops"
    and "\<And>j. completed_units j ops = accepted_units j ops"
    and "take_committed t = (t', c)"
  defines "reported \<equiv> log @ (case c of None \<Rightarrow> [] | Some d \<Rightarrow> [d])"
  shows "tracker_is_empty t' \<and> next_commit t' = next_received t \<and>
    (c = None \<longleftrightarrow> tracker_is_empty t) \<and>
    (\<forall>d. c = Some d \<longrightarrow> Suc (unat (through d)) = unat (next_received t)) \<and>
    (\<forall>i r m. Op_accept i r m \<in> set ops \<longrightarrow> (\<exists>d \<in> set reported. i \<le> through d)) \<and>
    (accepted_messages ops < 2 ^ 64 \<longrightarrow> sum_list (map (unat \<circ> source_messages) reported) = accepted_messages ops)"
proof -
  note run = assms(1) tracker_new_inv(1) assms(2)
  let ?q = "tracker_abs t"
  have inv: "tracker_inv t" by (rule tracker.run_inv[OF run])
  note take = take_committed_refines[OF inv assms(4)]
  have total: "fst ?q + length (snd ?q) = unat (next_received t)" using inv by (simp add: tracker_abs_def tracker_inv_alt)
  have "outstanding ?q j = 0" for j
    using tracker.run_units[OF run, of j] assms(3) by (simp add: outstanding_new)
  then have "fst d = 0" if "d \<in> set (snd ?q)" for d
    using that by (metis add_diff_cancel_left' in_set_conv_nth le_add1 outstanding_def add_less_cancel_left)
  then have tw: "takeWhile (\<lambda>d. fst d = 0) (snd ?q) = snd ?q" "dropWhile (\<lambda>d. fst d = 0) (snd ?q) = []"
    by (simp_all add: takeWhile_eq_all_conv dropWhile_eq_Nil_conv)
  then have all: "spec_taken ?q = snd ?q" "tracker_abs t' = (unat (next_received t), [])"
    using take(2) total unfolding spec_taken_def spec_take_def tw by simp_all
  have empty: "tracker_is_empty t' \<and> next_commit t' = next_received t"
    using all(2) by (simp add: tracker_abs_def tracker_is_empty_def word_unat_eq_iff)
  have none: "c = None \<longleftrightarrow> tracker_is_empty t"
    using take(3) all(1) by (simp add: tracker_abs_def tracker_is_empty_def)
  have some: "Suc (unat (through d)) = unat (next_received t)" if "c = Some d" for d
    using take(4)[OF that] all(1) total by simp
  have covered: "\<exists>d \<in> set reported. i \<le> through d" if i: "Op_accept i r m \<in> set ops" for i r m
  proof -
    have lt: "unat i < unat (next_received t)" using tracker.run_received[OF run] i total by auto
    show ?thesis
    proof (cases c)
      case None
      then have "snd ?q = []" using none by (simp add: tracker_abs_def tracker_is_empty_def)
      then have "unat i < fst ?q" "1 \<le> unat i" using lt total tracker.run_accepted_ids[OF run i] by (simp_all add: tracker_new_inv)
      then have "log \<noteq> [] \<and> unat i \<le> unat (through (last log))"
        using tracker.run_throughs[OF run] by (auto simp: tracker_new_inv split: if_splits)
      then show ?thesis using None by (auto simp: reported_def word_le_nat_alt intro!: bexI[of _ "last log"])
    next
      case (Some d)
      then show ?thesis using some[OF Some] lt by (auto simp: reported_def word_le_nat_alt)
    qed
  qed
  have "sum_list (map (unat \<circ> source_messages) reported) = accepted_messages ops" if "accepted_messages ops < 2 ^ 64"
  proof -
    have m: "sum_list (map (unat \<circ> source_messages) log) + sum_list (map snd (snd ?q)) = accepted_messages ops"
      using tracker.run_messages[OF run, unfolded outstanding_new] that by (simp add: pending_messages_def)
    show ?thesis
    proof (cases c)
      case None
      then show ?thesis using m none by (simp add: reported_def tracker_abs_def tracker_is_empty_def)
    next
      case (Some d)
      then show ?thesis using m take(5)[OF Some] all(1) that by (simp add: reported_def)
    qed
  qed
  then show ?thesis using empty none some covered by blast
qed

theorem tracker_drains_witness:
  "\<exists>t log t'. run_ops accept complete take_committed (butlast example_ops) tracker_new = Inr (t, log) \<and>
     map (unat \<circ> source_messages) log = [30] \<and>
     take_committed t = (t', Some \<lparr>through = 3, source_messages = 5\<rparr>) \<and> tracker_is_empty t'"
proof -
  let ?t = "\<lparr>entries = [(3, \<lparr>remaining = 0, state_messages = 5\<rparr>)], next_received = 4, next_commit = 3\<rparr>"
  have r: "run_ops accept complete take_committed (butlast example_ops) tracker_new =
      Inr (?t, [\<lparr>through = 2, source_messages = 30\<rparr>])"
    and c: "take_committed ?t = (\<lparr>entries = [], next_received = 4, next_commit = 4\<rparr>, Some \<lparr>through = 3, source_messages = 5\<rparr>)"
    by code_simp+
  have "ids_fresh (butlast example_ops)" by code_simp
  moreover have "completed_units j (butlast example_ops) = accepted_units j (butlast example_ops)" for j
    by (simp add: example_ops_def)
  ultimately have "tracker_is_empty \<lparr>entries = [], next_received = 4, next_commit = 4\<rparr>"
    using tracker_drains[OF r _ _ c] by blast
  then show ?thesis using r c by auto
qed

end
