(* ===== verification/Row_Counts.thy ===== *)
theory Row_Counts
  imports Schema Delivery_Tracker
begin

section \<open>Exact output row counts\<close>

text \<open>
  \<^verbatim>\<open>transferia-pipeline/src/row_count.rs\<close>: per-dataset row totals of a finite pipeline attempt.
  Parsed deliveries stay pending until the source has committed them; totals of failed attempts are
  merged. The mutex is not modelled: every operation holds it for its whole body, so an operation is
  a function of the protected state (a poisoned lock aborts the attempt).
\<close>

type_synonym dataset_key = "bool \<times> string"
type_synonym row_totals = "(dataset_key, u64) btree"

record output_dataset_row_count =
  rc_table :: string
  rc_is_dlq :: bool
  rc_rows :: u64

record output_row_counts =
  rc_committed :: row_totals
  rc_pending :: "(delivery_id, row_totals) btree"

datatype row_count_error =
    Repeated_dataset dataset_key
  | Observed_twice delivery_id
  | Undiscovered_dataset dataset_key
  | Row_count_overflow dataset_key
  | Unknown_delivery delivery_id
  | Lost_dataset dataset_key
  | Unknown_merge_dataset dataset_key

definition new_step ::
  "string \<times> bool \<Rightarrow> row_totals \<Rightarrow> (row_count_error, row_totals) res" where
  "new_step d rows =
     (case d of (table, dlq) \<Rightarrow>
        if bt_contains_key rows (dlq, table) then Inl (Repeated_dataset (dlq, table))
        else Inr (bt_insert (dlq, table) 0 rows))"

definition row_counts_new :: "(string \<times> bool) list \<Rightarrow> (row_count_error, output_row_counts) res" where
  "row_counts_new ds =
     res_bind (res_fold new_step ds bt_empty)
       (\<lambda>rows. Inr \<lparr>rc_committed = rows, rc_pending = bt_empty\<rparr>)"

definition admit_datasets :: "(string \<times> bool) list \<Rightarrow> output_row_counts \<Rightarrow> output_row_counts" where
  "admit_datasets ds s =
     s\<lparr>rc_committed :=
         fold (\<lambda>(table, dlq) m.
                 if bt_contains_key m (dlq, table) then m else bt_insert (dlq, table) 0 m)
              ds (rc_committed s)\<rparr>"

text \<open>One output of an observed delivery is added to the delivery's own totals.\<close>

definition observe_step ::
  "row_totals \<Rightarrow> 'v sink_batch \<Rightarrow> row_totals \<Rightarrow> (row_count_error, row_totals) res" where
  "observe_step known b delivery =
     (let key = (sb_is_dlq b, sb_table b) in
      if \<not> bt_contains_key known key then Inl (Undiscovered_dataset key)
      else let current = (case bt_get delivery key of None \<Rightarrow> 0 | Some n \<Rightarrow> n) in
        case checked_add current (sb_rows b) of
          None \<Rightarrow> Inl (Row_count_overflow key)
        | Some n \<Rightarrow> Inr (bt_insert key n delivery))"

definition observe_delivery ::
  "delivery_id \<Rightarrow> 'v sink_batch list \<Rightarrow> output_row_counts \<Rightarrow> (row_count_error, output_row_counts) res" where
  "observe_delivery i outputs s =
     (if bt_contains_key (rc_pending s) i then Inl (Observed_twice i)
      else res_bind (res_fold (observe_step (rc_committed s)) outputs bt_empty)
        (\<lambda>delivery. Inr (s\<lparr>rc_pending := bt_insert i delivery (rc_pending s)\<rparr>)))"

definition add_rows ::
  "(dataset_key \<Rightarrow> row_count_error) \<Rightarrow> dataset_key \<times> u64 \<Rightarrow> row_totals \<Rightarrow>
   (row_count_error, row_totals) res" where
  "add_rows missing kr next =
     (case kr of (key, rows) \<Rightarrow>
        case bt_get next key of
          None \<Rightarrow> Inl (missing key)
        | Some current \<Rightarrow>
            (case checked_add current rows of
               None \<Rightarrow> Inl (Row_count_overflow key)
             | Some n \<Rightarrow> Inr (bt_insert key n next)))"

definition validated_committed_counts ::
  "output_row_counts \<Rightarrow> delivery_id \<Rightarrow> (row_count_error, row_totals) res" where
  "validated_committed_counts s c =
     (if \<not> bt_contains_key (rc_pending s) c then Inl (Unknown_delivery c)
      else res_fold (\<lambda>d next. res_fold (add_rows Lost_dataset) (snd d) next)
             (bt_range_to c (rc_pending s)) (rc_committed s))"

definition row_commit_through ::
  "delivery_id \<Rightarrow> output_row_counts \<Rightarrow> (row_count_error, output_row_counts) res" where
  "row_commit_through c s =
     res_bind (validated_committed_counts s c)
       (\<lambda>next. Inr (s\<lparr>rc_committed := next,
                      rc_pending := bt_retain (\<lambda>i _. c < i) (rc_pending s)\<rparr>))"

definition validate_commit_through ::
  "delivery_id \<Rightarrow> output_row_counts \<Rightarrow> (row_count_error, unit) res" where
  "validate_commit_through c s = res_bind (validated_committed_counts s c) (\<lambda>_. Inr ())"

definition row_snapshot :: "output_row_counts \<Rightarrow> output_dataset_row_count list" where
  "row_snapshot s =
     map (\<lambda>((dlq, table), rows). \<lparr>rc_table = table, rc_is_dlq = dlq, rc_rows = rows\<rparr>) (rc_committed s)"

definition row_merge ::
  "output_row_counts \<Rightarrow> output_row_counts \<Rightarrow> (row_count_error, output_row_counts) res" where
  "row_merge s other =
     res_bind
       (res_fold (\<lambda>count. add_rows Unknown_merge_dataset ((rc_is_dlq count, rc_table count), rc_rows count))
          (row_snapshot other) (rc_committed s))
       (\<lambda>next. Inr (s\<lparr>rc_committed := next\<rparr>))"

subsection \<open>Totals as numbers\<close>

declare split_paired_All [simp del] split_paired_Ex [simp del]

text \<open>\<open>rows_of m k\<close> is the row total recorded for a dataset, zero when there is none.\<close>

definition rows_of :: "row_totals \<Rightarrow> dataset_key \<Rightarrow> nat" where
  "rows_of m k = (case bt_get m k of None \<Rightarrow> 0 | Some n \<Rightarrow> unat n)"

definition pending_total :: "(delivery_id, row_totals) btree \<Rightarrow> dataset_key \<Rightarrow> nat" where
  "pending_total p k = sum_list (map (\<lambda>d. rows_of (snd d) k) p)"

definition output_rows :: "'v sink_batch list \<Rightarrow> dataset_key \<Rightarrow> nat" where
  "output_rows outputs k =
     sum_list (map (\<lambda>b. if (sb_is_dlq b, sb_table b) = k then unat (sb_rows b) else 0) outputs)"

text \<open>Invariant: the maps are well formed and every pending dataset is a known one.\<close>

definition row_inv :: "output_row_counts \<Rightarrow> bool" where
  "row_inv s \<longleftrightarrow>
     bt_wf (rc_committed s) \<and> bt_wf (rc_pending s) \<and>
     (\<forall>d \<in> set (rc_pending s). bt_wf (snd d) \<and> fst ` set (snd d) \<subseteq> fst ` set (rc_committed s))"

lemma rows_of_insert [simp]: "rows_of (bt_insert k n m) j = (if j = k then unat n else rows_of m j)"
  by (simp add: rows_of_def)

lemma rows_of_empty [simp]: "rows_of [] j = 0" "rows_of bt_empty j = 0"
  by (simp_all add: rows_of_def bt_empty_def)

lemma pending_total_simps [simp]:
  "pending_total [] k = 0"
  "pending_total (d # p) k = rows_of (snd d) k + pending_total p k"
  "pending_total (p @ q) k = pending_total p k + pending_total q k"
  by (simp_all add: pending_total_def)

lemma rows_of_Cons:
  "bt_wf ((k, r) # m) \<Longrightarrow> rows_of ((k, r) # m) j = (if j = k then unat r else 0) + rows_of m j"
proof -
  assume "bt_wf ((k, r) # m)"
  then have "bt_get m k = None" by (force simp: bt_get_None)
  then show ?thesis by (simp add: rows_of_def)
qed

lemma pending_total_insert:
  assumes "bt_wf p" "bt_get p i = None"
  shows "pending_total (bt_insert i d p) k = rows_of d k + pending_total p k"
  using assms
proof (induction i d p rule: bt_insert.induct)
  case (2 i d i' d' p)
  then show ?case by (auto split: if_splits)
qed simp

lemma add_rows_Inr:
  assumes "add_rows e (k, r) m = Inr m'" "bt_wf m"
  shows "bt_wf m'" "fst ` set m' = fst ` set m"
    and "rows_of m' j = rows_of m j + (if j = k then unat r else 0)"
proof -
  obtain c n where c: "bt_get m k = Some c" and n: "checked_add c r = Some n"
    and m': "m' = bt_insert k n m"
    using assms(1) by (auto simp: add_rows_def split: option.splits)
  show "bt_wf m'" using assms(2) by (simp add: m')
  have "k \<in> fst ` set m" using c bt_get_None[of m k] by simp
  then show "fst ` set m' = fst ` set m" by (auto simp: m')
  show "rows_of m' j = rows_of m j + (if j = k then unat r else 0)"
    using c n by (simp add: m' rows_of_def checked_add_eq_Some)
qed

lemma add_all_Inr:
  assumes "res_fold (add_rows e) d m = Inr m'" "bt_wf m" "bt_wf d"
  shows "bt_wf m' \<and> fst ` set m' = fst ` set m \<and> rows_of m' j = rows_of m j + rows_of d j"
  using assms
proof (induction d arbitrary: m)
  case (Cons kr d)
  obtain k r where kr: "kr = (k, r)" by (cases kr)
  then obtain m1 where m1: "add_rows e (k, r) m = Inr m1" "res_fold (add_rows e) d m1 = Inr m'"
    using Cons.prems(1) by (auto split: sum.splits)
  show ?case
    using Cons.IH[OF m1(2)] add_rows_Inr[OF m1(1) Cons.prems(2)] Cons.prems(3)
    unfolding kr rows_of_Cons[OF Cons.prems(3)[unfolded kr]] by auto
qed simp

lemma add_all_total:
  assumes "bt_wf m" "bt_wf d" "fst ` set d \<subseteq> fst ` set m"
    and "\<And>j. rows_of m j + rows_of d j < 2 ^ 64"
  shows "\<exists>m'. res_fold (add_rows e) d m = Inr m'"
  using assms
proof (induction d arbitrary: m)
  case (Cons kr d)
  obtain k r where kr: "kr = (k, r)" by (cases kr)
  note rows = rows_of_Cons[OF Cons.prems(2)[unfolded kr]]
  obtain c where c: "bt_get m k = Some c"
    using Cons.prems(3) kr bt_get_None[of m k] by auto
  have "unat c + unat r < 2 ^ 64"
    using Cons.prems(4)[of k] c unfolding kr rows by (simp add: rows_of_def)
  then obtain m1 where m1: "add_rows e (k, r) m = Inr m1"
    using c checked_add_total[of c r] by (simp add: add_rows_def)
  note step = add_rows_Inr[OF m1 Cons.prems(1)]
  have "rows_of m1 j + rows_of d j < 2 ^ 64" for j
    using Cons.prems(4)[of j] step(3)[of j] unfolding kr rows by simp
  then show ?case
    using Cons.IH[OF step(1)] Cons.prems(2,3) m1 step(2) kr by auto
qed simp

lemma commit_fold_Inr:
  assumes "res_fold (\<lambda>d next. res_fold (add_rows e) (snd d) next) p m = Inr m'"
    and "bt_wf m" "\<forall>d \<in> set p. bt_wf (snd d)"
  shows "bt_wf m' \<and> fst ` set m' = fst ` set m \<and> rows_of m' j = rows_of m j + pending_total p j"
  using assms
proof (induction p arbitrary: m)
  case (Cons d p)
  then obtain m1 where m1: "res_fold (add_rows e) (snd d) m = Inr m1"
    "res_fold (\<lambda>d next. res_fold (add_rows e) (snd d) next) p m1 = Inr m'"
    by (auto split: sum.splits)
  show ?case
    using Cons.IH[OF m1(2)] add_all_Inr[OF m1(1) Cons.prems(2)] Cons.prems(3) by auto
qed simp

lemma commit_fold_total:
  assumes "bt_wf m" "\<forall>d \<in> set p. bt_wf (snd d) \<and> fst ` set (snd d) \<subseteq> fst ` set m"
    and "\<And>j. rows_of m j + pending_total p j < 2 ^ 64"
  shows "\<exists>m'. res_fold (\<lambda>d next. res_fold (add_rows e) (snd d) next) p m = Inr m'"
  using assms
proof (induction p arbitrary: m)
  case (Cons d p)
  have "rows_of m j + rows_of (snd d) j < 2 ^ 64" for j
    using Cons.prems(3)[of j] by simp
  then obtain m1 where m1: "res_fold (add_rows e) (snd d) m = Inr m1"
    using add_all_total[of m "snd d" e] Cons.prems(1,2) by auto
  have wf: "bt_wf (snd d)" using Cons.prems(2) by simp
  note step = add_all_Inr[OF m1 Cons.prems(1) wf]
  have "rows_of m1 j + pending_total p j < 2 ^ 64" for j
    using Cons.prems(3)[of j] step[of j] by simp
  then show ?case
    using Cons.IH[of m1] Cons.prems(2) step m1 by auto
qed simp

subsection \<open>Every operation keeps the invariant\<close>

lemma observe_fold_Inr:
  assumes "res_fold (observe_step known) outputs m = Inr m'" "bt_wf m"
    and "fst ` set m \<subseteq> fst ` set known"
  shows "bt_wf m' \<and> fst ` set m' \<subseteq> fst ` set known \<and>
    rows_of m' k = rows_of m k + output_rows outputs k"
  using assms
proof (induction outputs arbitrary: m)
  case (Cons b outputs)
  let ?key = "(sb_is_dlq b, sb_table b)"
  let ?cur = "case bt_get m ?key of None \<Rightarrow> 0 | Some n \<Rightarrow> n"
  obtain m1 where m1: "observe_step known b m = Inr m1"
    and rest: "res_fold (observe_step known) outputs m1 = Inr m'"
    using Cons.prems(1) by (auto split: sum.splits)
  obtain n where key: "?key \<in> fst ` set known" and n: "checked_add ?cur (sb_rows b) = Some n"
    and m1_eq: "m1 = bt_insert ?key n m"
    using m1 unfolding observe_step_def Let_def bt_contains_key_iff
    by (cases "checked_add ?cur (sb_rows b)") (simp_all split: if_splits)
  have "unat ?cur = rows_of m ?key" by (simp add: rows_of_def split: option.splits)
  then show ?case
    using Cons.IH[OF rest] Cons.prems(2,3) key n
    by (auto simp: m1_eq checked_add_eq_Some output_rows_def)
qed (simp add: output_rows_def)

lemma row_counts_new_inv:
  assumes "row_counts_new ds = Inr s"
  shows "row_inv s" "rows_of (rc_committed s) k = 0" "rc_pending s = []"
proof -
  obtain m where m: "res_fold new_step ds bt_empty = Inr m"
    and s: "s = \<lparr>rc_committed = m, rc_pending = bt_empty\<rparr>"
    using assms by (auto simp: row_counts_new_def res_bind_Inr_iff)
  have "bt_wf m \<and> rows_of m k = 0"
    by (rule res_fold_invariant[OF m]) (auto simp: new_step_def bt_empty_def split: prod.splits if_splits)
  then show "row_inv s" "rows_of (rc_committed s) k = 0" "rc_pending s = []"
    by (simp_all add: s row_inv_def bt_empty_def)
qed

lemma admit_datasets_inv:
  assumes "row_inv s"
  shows "row_inv (admit_datasets ds s)" "rows_of (rc_committed (admit_datasets ds s)) k = rows_of (rc_committed s) k"
    and "rc_pending (admit_datasets ds s) = rc_pending s"
proof -
  let ?f = "\<lambda>(table, dlq) m. if bt_contains_key m (dlq, table) then m else bt_insert (dlq, table) 0 m"
  have "bt_wf (fold ?f ds m) \<and> fst ` set m \<subseteq> fst ` set (fold ?f ds m) \<and>
      (\<forall>k. rows_of (fold ?f ds m) k = rows_of m k)" if "bt_wf m" for m :: row_totals
    using that
  proof (induction ds arbitrary: m)
    case (Cons d ds)
    obtain t q where d: "d = (t, q)" by (cases d)
    show ?case
    proof (cases "bt_contains_key m (q, t)")
      case True
      then show ?thesis using Cons d by simp
    next
      case False
      then have "rows_of m (q, t) = 0" by (simp add: rows_of_def bt_contains_key_def)
      then show ?thesis using Cons.IH[of "bt_insert (q, t) 0 m"] Cons.prems d False by auto
    qed
  qed simp
  moreover have "bt_wf (rc_committed s)" using assms by (simp add: row_inv_def)
  ultimately have f: "bt_wf (fold ?f ds (rc_committed s))"
    "fst ` set (rc_committed s) \<subseteq> fst ` set (fold ?f ds (rc_committed s))"
    "\<forall>k. rows_of (fold ?f ds (rc_committed s)) k = rows_of (rc_committed s) k"
    by blast+
  show "row_inv (admit_datasets ds s)"
    using assms f(1,2) unfolding admit_datasets_def row_inv_def by (simp del: fold_simps) (meson subset_trans)
  show "rows_of (rc_committed (admit_datasets ds s)) k = rows_of (rc_committed s) k"
    "rc_pending (admit_datasets ds s) = rc_pending s"
    using f(3) by (simp_all add: admit_datasets_def)
qed

lemma observe_delivery_inv:
  assumes "row_inv s" "observe_delivery i outputs s = Inr s'"
  shows "row_inv s'" "rc_committed s' = rc_committed s"
    and "pending_total (rc_pending s') k = pending_total (rc_pending s) k + output_rows outputs k"
    and "\<exists>d. rc_pending s' = bt_insert i d (rc_pending s) \<and> (\<forall>k. rows_of d k = output_rows outputs k)"
proof -
  obtain d where new: "bt_get (rc_pending s) i = None"
    and d: "res_fold (observe_step (rc_committed s)) outputs bt_empty = Inr d"
    and s': "s' = s\<lparr>rc_pending := bt_insert i d (rc_pending s)\<rparr>"
    using assms(2)
    by (auto simp: observe_delivery_def res_bind_Inr_iff bt_contains_key_def split: if_splits)
  have fold: "bt_wf d" "fst ` set d \<subseteq> fst ` set (rc_committed s)" "\<And>k. rows_of d k = output_rows outputs k"
    using observe_fold_Inr[OF d] by (auto simp: bt_empty_def)
  have "\<forall>e \<in> set (bt_insert i d (rc_pending s)).
      bt_wf (snd e) \<and> fst ` set (snd e) \<subseteq> fst ` set (rc_committed s)"
    by (rule bt_insert_ball) (use assms(1) fold(1,2) in \<open>simp_all add: row_inv_def\<close>)
  then show "row_inv s'"
    using assms(1) unfolding row_inv_def s' by simp
  show "rc_committed s' = rc_committed s" by (simp add: s')
  show "pending_total (rc_pending s') k = pending_total (rc_pending s) k + output_rows outputs k"
    using assms(1) new fold(3) by (simp add: s' row_inv_def pending_total_insert)
  show "\<exists>d. rc_pending s' = bt_insert i d (rc_pending s) \<and> (\<forall>k. rows_of d k = output_rows outputs k)"
    using fold(3) by (auto simp: s')
qed

lemma row_commit_inv:
  assumes "row_inv s" "row_commit_through c s = Inr s'"
  shows "row_inv s'"
    and "rows_of (rc_committed s') k = rows_of (rc_committed s) k + pending_total (bt_range_to c (rc_pending s)) k"
    and "rc_pending s = bt_range_to c (rc_pending s) @ rc_pending s'"
proof -
  obtain m where m: "res_fold (\<lambda>d next. res_fold (add_rows Lost_dataset) (snd d) next)
      (bt_range_to c (rc_pending s)) (rc_committed s) = Inr m"
    and s': "s' = s\<lparr>rc_committed := m, rc_pending := bt_retain (\<lambda>i _. c < i) (rc_pending s)\<rparr>"
    using assms(2)
    by (auto simp: row_commit_through_def validated_committed_counts_def res_bind_Inr_iff split: if_splits)
  have "\<forall>d \<in> set (bt_range_to c (rc_pending s)). bt_wf (snd d)"
    using assms(1) by (auto simp: row_inv_def bt_range_to_eq)
  note fold = commit_fold_Inr[OF m _ this]
  then show "rows_of (rc_committed s') k = rows_of (rc_committed s) k + pending_total (bt_range_to c (rc_pending s)) k"
    using assms(1) by (simp add: s' row_inv_def)
  show "row_inv s'"
    using assms(1) fold unfolding s' row_inv_def by (simp add: bt_retain_mem)
  show "rc_pending s = bt_range_to c (rc_pending s) @ rc_pending s'"
    using assms(1) by (simp add: s' row_inv_def bt_range_retain)
qed

lemma row_snapshot_fold:
  "res_fold (\<lambda>count. add_rows e ((rc_is_dlq count, rc_table count), rc_rows count)) (row_snapshot s) m =
   res_fold (add_rows e) (rc_committed s) m"
proof -
  have "res_fold (\<lambda>count. add_rows e ((rc_is_dlq count, rc_table count), rc_rows count))
      (map (\<lambda>((dlq, table), rows). \<lparr>rc_table = table, rc_is_dlq = dlq, rc_rows = rows\<rparr>) xs) m =
    res_fold (add_rows e) xs m" for xs
    by (induction xs arbitrary: m) (auto split: sum.splits)
  then show ?thesis by (simp add: row_snapshot_def)
qed

lemma row_merge_inv:
  assumes "row_inv s" "row_inv other" "row_merge s other = Inr s'"
  shows "row_inv s'" "rc_pending s' = rc_pending s"
    and "rows_of (rc_committed s') k = rows_of (rc_committed s) k + rows_of (rc_committed other) k"
proof -
  obtain m where m: "res_fold (add_rows Unknown_merge_dataset) (rc_committed other) (rc_committed s) = Inr m"
    and s': "s' = s\<lparr>rc_committed := m\<rparr>"
    using assms(3) by (auto simp: row_merge_def row_snapshot_fold res_bind_Inr_iff)
  note add_all_Inr[OF m]
  then show "row_inv s'" "rc_pending s' = rc_pending s"
    "rows_of (rc_committed s') k = rows_of (rc_committed s) k + rows_of (rc_committed other) k"
    using assms(1,2) by (simp_all add: s' row_inv_def)
qed

lemma row_commit_succeeds:
  assumes "row_inv s" "bt_contains_key (rc_pending s) c"
    and "\<And>k. rows_of (rc_committed s) k + pending_total (rc_pending s) k < 2 ^ 64"
  shows "is_ok (row_commit_through c s)"
proof -
  let ?r = "bt_range_to c (rc_pending s)"
  have "pending_total ?r k \<le> pending_total (rc_pending s) k" for k
    using bt_range_retain[of "rc_pending s" c] assms(1) pending_total_simps(3)
    by (metis le_add1 row_inv_def)
  then have "rows_of (rc_committed s) k + pending_total ?r k < 2 ^ 64" for k
    using assms(3)[of k] by (meson add_left_mono le_less_trans)
  moreover have "\<forall>d \<in> set ?r. bt_wf (snd d) \<and> fst ` set (snd d) \<subseteq> fst ` set (rc_committed s)"
    using assms(1) by (auto simp: row_inv_def bt_range_to_eq)
  ultimately obtain m where "res_fold (\<lambda>d next. res_fold (add_rows Lost_dataset) (snd d) next)
      ?r (rc_committed s) = Inr m"
    using commit_fold_total[of "rc_committed s" ?r Lost_dataset] assms(1) unfolding row_inv_def by blast
  then show ?thesis
    using assms(2) by (simp add: row_commit_through_def validated_committed_counts_def)
qed

subsection \<open>Histories of one attempt\<close>

datatype 'v row_op =
    Row_admit "(string \<times> bool) list"
  | Row_observe delivery_id "'v sink_batch list"
  | Row_commit delivery_id

fun row_step :: "'v row_op \<Rightarrow> output_row_counts \<Rightarrow> (row_count_error, output_row_counts) res" where
  "row_step (Row_admit ds) s = Inr (admit_datasets ds s)"
| "row_step (Row_observe i outputs) s = observe_delivery i outputs s"
| "row_step (Row_commit c) s = row_commit_through c s"

fun observed_rows :: "'v row_op list \<Rightarrow> dataset_key \<Rightarrow> nat" where
  "observed_rows [] k = 0"
| "observed_rows (Row_observe i outputs # ops) k = output_rows outputs k + observed_rows ops k"
| "observed_rows (op # ops) k = observed_rows ops k"

lemma row_step_inv:
  assumes "row_inv s" "row_step op s = Inr s'"
  shows "row_inv s' \<and>
    rows_of (rc_committed s') k + pending_total (rc_pending s') k =
    rows_of (rc_committed s) k + pending_total (rc_pending s) k + observed_rows [op] k"
proof (cases op)
  case (Row_admit ds)
  then show ?thesis
    using assms admit_datasets_inv(1,3)[OF assms(1), of ds] admit_datasets_inv(2)[OF assms(1), of ds k]
    by auto
next
  case (Row_observe i outputs)
  then have step: "observe_delivery i outputs s = Inr s'" using assms(2) by simp
  show ?thesis
    using observe_delivery_inv(1-3)[OF assms(1) step] Row_observe by simp
next
  case (Row_commit c)
  then have step: "row_commit_through c s = Inr s'" using assms(2) by simp
  have "pending_total (rc_pending s) k =
      pending_total (bt_range_to c (rc_pending s)) k + pending_total (rc_pending s') k"
    using row_commit_inv(3)[OF assms(1) step] pending_total_simps(3) by metis
  then show ?thesis
    using row_commit_inv(1,2)[OF assms(1) step] Row_commit by simp
qed

lemma observed_rows_Cons: "observed_rows (op # ops) k = observed_rows [op] k + observed_rows ops k"
  by (cases op) simp_all

lemma row_history_inv:
  assumes "res_fold row_step ops s = Inr s'" "row_inv s"
  shows "row_inv s' \<and>
    rows_of (rc_committed s') k + pending_total (rc_pending s') k =
    rows_of (rc_committed s) k + pending_total (rc_pending s) k + observed_rows ops k"
  using assms
proof (induction ops arbitrary: s)
  case (Cons op ops)
  then obtain s1 where s1: "row_step op s = Inr s1" "res_fold row_step ops s1 = Inr s'"
    by (auto split: sum.splits)
  show ?case
    using Cons.IH[OF s1(2)] row_step_inv[OF Cons.prems(2) s1(1), of k] observed_rows_Cons[of op ops k]
    by simp
qed simp

subsection \<open>Properties\<close>

definition example_batch :: "string \<Rightarrow> usize \<Rightarrow> unit sink_batch" where
  "example_batch t n =
     \<lparr>sb_schema = [], sb_namespace = None, sb_table = t, sb_is_dlq = False,
      sb_batch = \<lparr>rb_schema = [], rb_num_rows = n, rb_columns = []\<rparr>, sb_byte_size = 0, sb_memory = 0,
      sb_system_columns = []\<rparr>"

definition example_row_ops :: "unit row_op list" where
  "example_row_ops =
     [Row_observe 1 [example_batch ''a'' 3, example_batch ''b'' 2, example_batch ''a'' 1],
      Row_observe 2 [example_batch ''b'' 5], Row_commit 1]"

definition example_counts :: output_row_counts where
  "example_counts = \<lparr>rc_committed = [((False, ''a''), 0), ((False, ''b''), 0)], rc_pending = []\<rparr>"

definition example_counts' :: output_row_counts where
  "example_counts' =
     \<lparr>rc_committed = [((False, ''a''), 4), ((False, ''b''), 2)],
      rc_pending = [(2, [((False, ''b''), 5)])]\<rparr>"

text \<open>
  C12 (exact row accounting). In every successful history of one attempt, for each dataset the
  committed total plus the rows still pending equals the rows observed so far: no row is lost and
  none is counted twice, whatever the grouping of the source commits.
\<close>

theorem row_accounting_exact:
  assumes "row_counts_new ds = Inr s0" "res_fold row_step ops s0 = Inr s"
  shows "rows_of (rc_committed s) k + pending_total (rc_pending s) k = observed_rows ops k"
  using row_history_inv[OF assms(2) row_counts_new_inv(1)[OF assms(1)], of k] row_counts_new_inv[OF assms(1)]
  by simp

theorem row_accounting_exact_witness:
  "\<exists>s. res_fold row_step example_row_ops example_counts = Inr s \<and>
     rows_of (rc_committed s) (False, ''b'') = 2 \<and>
     rows_of (rc_committed s) (False, ''b'') + pending_total (rc_pending s) (False, ''b'') =
       observed_rows example_row_ops (False, ''b'')"
proof -
  have n: "row_counts_new [(''a'', False), (''b'', False)] = Inr example_counts" by code_simp
  have r: "res_fold row_step example_row_ops example_counts = Inr example_counts'" by code_simp
  have "rows_of (rc_committed example_counts') (False, ''b'') = 2" by code_simp
  then show ?thesis using r row_accounting_exact[OF n r] by blast
qed

text \<open>
  A commit moves a prefix. Committing through a delivery adds to the totals exactly the rows
  of the pending deliveries up to it and leaves every later delivery pending.
\<close>

theorem row_commit_moves_prefix:
  assumes "row_counts_new ds = Inr s0" "res_fold row_step ops s0 = Inr s"
    and "row_commit_through c s = Inr s'"
  shows "rows_of (rc_committed s') k =
      rows_of (rc_committed s) k + pending_total (filter (\<lambda>d. fst d \<le> c) (rc_pending s)) k \<and>
    rc_pending s' = filter (\<lambda>d. c < fst d) (rc_pending s)"
proof
  have inv: "row_inv s"
    using row_history_inv[OF assms(2) row_counts_new_inv(1)[OF assms(1)]] by blast
  then have wf: "bt_wf (rc_pending s)" by (simp add: row_inv_def)
  show "rows_of (rc_committed s') k =
      rows_of (rc_committed s) k + pending_total (filter (\<lambda>d. fst d \<le> c) (rc_pending s)) k"
    using row_commit_inv(2)[OF inv assms(3)] wf by (simp add: bt_range_to_eq)
  show "rc_pending s' = filter (\<lambda>d. c < fst d) (rc_pending s)"
    using assms(3)
    by (auto simp: row_commit_through_def res_bind_Inr_iff bt_retain_def case_prod_unfold)
qed

theorem row_commit_moves_prefix_witness:
  "\<exists>s. row_commit_through 2 example_counts' = Inr s \<and> rows_of (rc_committed s) (False, ''b'') = 7 \<and>
     rc_pending s = []"
proof -
  have n: "row_counts_new [(''a'', False), (''b'', False)] = Inr example_counts" by code_simp
  have r: "res_fold row_step example_row_ops example_counts = Inr example_counts'" by code_simp
  obtain s where s: "row_commit_through 2 example_counts' = Inr s"
    by (auto simp: row_commit_through_def validated_committed_counts_def example_counts'_def
        bt_contains_key_def bt_range_to_def add_rows_def checked_add_def)
  have "rows_of (rc_committed example_counts') (False, ''b'') +
      pending_total (filter (\<lambda>d. fst d \<le> 2) (rc_pending example_counts')) (False, ''b'') = 7"
    "filter (\<lambda>d. 2 < fst d) (rc_pending example_counts') = []"
    by code_simp+
  then show ?thesis using s row_commit_moves_prefix[OF n r s] by metis
qed

end
