(* ===== verification/Failure.thy ===== *)
theory Failure
  imports Prelude
begin

section \<open>Failures, component outcomes and retry delays\<close>

text \<open>
  \<^verbatim>\<open>transferia-core/src/failure.rs\<close> and \<^verbatim>\<open>transferia-delivery-contracts/src/retry.rs\<close>, and the choice of
  a pipeline's outcome among its three tasks (\<^verbatim>\<open>transferia-pipeline/src/lib.rs\<close>, lines 754 to 1053).
  An \<^verbatim>\<open>anyhow::Error\<close> is what downcasting can see of it: a message, a wrapped data-plane failure, a
  parser infrastructure failure, or one of these under a context. Message texts are a type parameter.
\<close>

subsection \<open>Failures\<close>

datatype failure_disposition = Retryable | Fatal

datatype 'm failure = Failure failure_disposition "'m anyhow"
  and 'm anyhow =
    Message 'm
  | Wraps "'m failure"
  | Infrastructure "'m anyhow"
  | Context string "'m anyhow"

definition retryable :: "'m anyhow \<Rightarrow> 'm failure" where
  "retryable e = Failure Retryable e"

definition fatal :: "'m anyhow \<Rightarrow> 'm failure" where
  "fatal e = Failure Fatal e"

fun disposition :: "'m failure \<Rightarrow> failure_disposition" where
  "disposition (Failure d e) = d"

fun into_source :: "'m failure \<Rightarrow> 'm anyhow" where
  "into_source (Failure d e) = e"

definition is_retryable :: "'m failure \<Rightarrow> bool" where
  "is_retryable f = (disposition f = Retryable)"

fun failure_context :: "string \<Rightarrow> 'm failure \<Rightarrow> 'm failure" where
  "failure_context c (Failure d e) = Failure d (Context c e)"

fun downcast_failure :: "'m anyhow \<Rightarrow> 'm failure option" where
  "downcast_failure (Message m) = None"
| "downcast_failure (Wraps f) = Some f"
| "downcast_failure (Infrastructure e) = None"
| "downcast_failure (Context c e) = downcast_failure e"

fun is_infrastructure :: "'m anyhow \<Rightarrow> bool" where
  "is_infrastructure (Infrastructure e) = True"
| "is_infrastructure (Context c e) = is_infrastructure e"
| "is_infrastructure _ = False"

definition with_fallback :: "failure_disposition \<Rightarrow> 'm anyhow \<Rightarrow> 'm failure" where
  "with_fallback fallback e =
     (case downcast_failure e of Some f \<Rightarrow> f | None \<Rightarrow> Failure fallback e)"

definition retryable_or_passthrough :: "'m anyhow \<Rightarrow> 'm failure" where
  "retryable_or_passthrough e = with_fallback Retryable e"

definition fatal_or_passthrough :: "'m anyhow \<Rightarrow> 'm failure" where
  "fatal_or_passthrough e = with_fallback Fatal e"

lemma disposition_context [simp]: "disposition (failure_context c f) = disposition f"
  by (cases f) simp

lemma is_retryable_context [simp]: "is_retryable (failure_context c f) = is_retryable f"
  by (simp add: is_retryable_def)

subsection \<open>Outcomes of the three tasks\<close>

text \<open>A joined task yields its result, or panicked (\<open>None\<close>).\<close>

record 'm component_outcome =
  co_result :: "('m failure, unit) res"
  co_infrastructure :: bool

datatype first_component = First_reader | First_sink | First_parser

definition data_plane_component_outcome ::
  "'m \<Rightarrow> string \<Rightarrow> ('m failure, unit) res option \<Rightarrow> 'm component_outcome" where
  "data_plane_component_outcome panicked name r =
     (case r of
        Some (Inr u) \<Rightarrow> \<lparr>co_result = Inr (), co_infrastructure = False\<rparr>
      | Some (Inl f) \<Rightarrow>
          \<lparr>co_result = Inl (failure_context (name @ '' failed'') f), co_infrastructure = False\<rparr>
      | None \<Rightarrow> \<lparr>co_result = Inl (retryable (Message panicked)), co_infrastructure = True\<rparr>)"

definition anyhow_component_outcome ::
  "'m \<Rightarrow> string \<Rightarrow> ('m anyhow, unit) res option \<Rightarrow> 'm component_outcome" where
  "anyhow_component_outcome panicked name r =
     data_plane_component_outcome panicked name
       (map_option
          (\<lambda>o'. case o' of
                  Inr u \<Rightarrow> Inr u
                | Inl e \<Rightarrow> Inl (failure_context (name @ '' failed'') (retryable_or_passthrough e)))
          r)"

definition parser_component_outcome ::
  "'m \<Rightarrow> ('m anyhow, unit) res option \<Rightarrow> 'm component_outcome" where
  "parser_component_outcome panicked r =
     (case r of
        Some (Inr u) \<Rightarrow> \<lparr>co_result = Inr (), co_infrastructure = False\<rparr>
      | Some (Inl e) \<Rightarrow>
          if is_infrastructure e
          then \<lparr>co_result = Inl (retryable e), co_infrastructure = True\<rparr>
          else \<lparr>co_result = Inl (fatal e), co_infrastructure = False\<rparr>
      | None \<Rightarrow> \<lparr>co_result = Inl (retryable (Message panicked)), co_infrastructure = True\<rparr>)"

fun prefer_loop :: "'m failure option \<Rightarrow> ('m failure, unit) res list \<Rightarrow> ('m failure, unit) res" where
  "prefer_loop first [] = (case first of None \<Rightarrow> Inr () | Some f \<Rightarrow> Inl f)"
| "prefer_loop first (Inr u # rs) = prefer_loop first rs"
| "prefer_loop first (Inl f # rs) =
     (if \<not> is_retryable f then Inl f
      else prefer_loop (case first of None \<Rightarrow> Some f | Some g \<Rightarrow> Some g) rs)"

definition prefer_component_failure :: "('m failure, unit) res list \<Rightarrow> ('m failure, unit) res" where
  "prefer_component_failure rs = prefer_loop None rs"

text \<open>
  The waiting loop: task completions arrive in some order until one decides the run. The reader's
  completion always decides, the sink's and the parser's only when they failed. Whatever has not
  completed by then is joined after cancellation.
\<close>

datatype 'm task_event =
    Cancelled_externally
  | Reader_done "'m component_outcome"
  | Sink_done "'m component_outcome"
  | Parser_done "'m component_outcome"

record 'm awaited =
  aw_reader :: "'m component_outcome option"
  aw_sink :: "'m component_outcome option"
  aw_parser :: "'m component_outcome option"
  aw_first :: "first_component option"
  aw_cancelled :: bool

definition failed :: "'m component_outcome \<Rightarrow> bool" where
  "failed c = (\<not> is_ok (co_result c))"

fun await_components :: "'m task_event list \<Rightarrow> 'm awaited \<Rightarrow> 'm awaited" where
  "await_components [] a = a"
| "await_components (e # es) a =
     (if aw_first a \<noteq> None \<or> aw_cancelled a then a
      else await_components es
        (case e of
           Cancelled_externally \<Rightarrow> a\<lparr>aw_cancelled := True\<rparr>
         | Reader_done c \<Rightarrow> a\<lparr>aw_first := Some First_reader, aw_reader := Some c\<rparr>
         | Sink_done c \<Rightarrow>
             a\<lparr>aw_first := (if failed c then Some First_sink else aw_first a), aw_sink := Some c\<rparr>
         | Parser_done c \<Rightarrow>
             a\<lparr>aw_first := (if failed c then Some First_parser else aw_first a), aw_parser := Some c\<rparr>))"

definition nothing_awaited :: "'m awaited" where
  "nothing_awaited =
     \<lparr>aw_reader = None, aw_sink = None, aw_parser = None, aw_first = None, aw_cancelled = False\<rparr>"

text \<open>The deciding component's outcome is considered first, then reader, sink and parser.\<close>

definition ordered_outcomes ::
  "'m awaited \<Rightarrow> 'm component_outcome \<Rightarrow> 'm component_outcome \<Rightarrow> 'm component_outcome \<Rightarrow>
   'm component_outcome list" where
  "ordered_outcomes a joined_reader joined_sink joined_parser =
     (let r = (case aw_reader a of Some c \<Rightarrow> c | None \<Rightarrow> joined_reader);
          s = (case aw_sink a of Some c \<Rightarrow> c | None \<Rightarrow> joined_sink);
          p = (case aw_parser a of Some c \<Rightarrow> c | None \<Rightarrow> joined_parser)
      in case aw_first a of
           Some First_sink \<Rightarrow> [s, r, p]
         | Some First_parser \<Rightarrow> [p, r, s]
         | _ \<Rightarrow> [r, s, p])"

definition partition_outcome :: "bool \<Rightarrow> 'm component_outcome list \<Rightarrow> ('m failure, unit) res" where
  "partition_outcome external_cancelled outcomes =
     (if external_cancelled
      then (case find co_infrastructure outcomes of None \<Rightarrow> Inr () | Some c \<Rightarrow> co_result c)
      else prefer_component_failure (map co_result outcomes))"

definition run_outcome ::
  "'m task_event list \<Rightarrow> 'm component_outcome \<Rightarrow> 'm component_outcome \<Rightarrow> 'm component_outcome \<Rightarrow>
   ('m failure, unit) res" where
  "run_outcome es jr js jp =
     (let a = await_components es nothing_awaited
      in partition_outcome (aw_cancelled a) (ordered_outcomes a jr js jp))"

subsection \<open>Which failure a run reports\<close>

lemma prefer_loop_spec:
  "prefer_loop first rs =
     (case find (\<lambda>r. case r of Inl f \<Rightarrow> \<not> is_retryable f | Inr _ \<Rightarrow> False) rs of
        Some r \<Rightarrow> r
      | None \<Rightarrow> (case first of
                 Some f \<Rightarrow> Inl f
               | None \<Rightarrow> (case find (\<lambda>r. \<not> is_ok r) rs of Some r \<Rightarrow> r | None \<Rightarrow> Inr ())))"
  by (induction first rs rule: prefer_loop.induct) (auto split: option.splits)

definition fatal_result :: "('m failure, unit) res \<Rightarrow> bool" where
  "fatal_result r = (case r of Inl f \<Rightarrow> \<not> is_retryable f | Inr _ \<Rightarrow> False)"

lemma prefer_component_failure_spec:
  "prefer_component_failure rs =
     (case find fatal_result rs of
        Some r \<Rightarrow> r
      | None \<Rightarrow> (case find (\<lambda>r. \<not> is_ok r) rs of Some r \<Rightarrow> r | None \<Rightarrow> Inr ()))"
  by (simp add: prefer_component_failure_def prefer_loop_spec fatal_result_def[abs_def] split: option.splits)

text \<open>
  What a run should report, without the loop. An event decides the run if it is the cancellation, the end of the reader, or a
  failure of sink or parser. A task that ended before or with the deciding event counts with that outcome, the others with
  the outcome they are joined with.
\<close>

definition decides :: "'m task_event \<Rightarrow> bool" where
  "decides e =
     (case e of Cancelled_externally \<Rightarrow> True | Reader_done _ \<Rightarrow> True | Sink_done c \<Rightarrow> failed c | Parser_done c \<Rightarrow> failed c)"

definition sink_event :: "'m task_event \<Rightarrow> 'm component_outcome option" where
  "sink_event e = (case e of Sink_done c \<Rightarrow> Some c | _ \<Rightarrow> None)"

definition parser_event :: "'m task_event \<Rightarrow> 'm component_outcome option" where
  "parser_event e = (case e of Parser_done c \<Rightarrow> Some c | _ \<Rightarrow> None)"

definition latest :: "('m task_event \<Rightarrow> 'm component_outcome option) \<Rightarrow> 'm task_event list \<Rightarrow> 'm component_outcome \<Rightarrow> 'm component_outcome" where
  "latest f es joined = (case List.map_filter f es of [] \<Rightarrow> joined | cs \<Rightarrow> last cs)"

text \<open>The first outcome of a list that satisfies a condition is the result.\<close>

definition first_result :: "('m component_outcome \<Rightarrow> bool) \<Rightarrow> 'm component_outcome list \<Rightarrow> ('m failure, unit) res \<Rightarrow> bool" where
  "first_result P cs r \<longleftrightarrow> (\<exists>k < length cs. P (cs ! k) \<and> (\<forall>j < k. \<not> P (cs ! j)) \<and> r = co_result (cs ! k))"

definition reports_failure :: "'m component_outcome list \<Rightarrow> ('m failure, unit) res \<Rightarrow> bool" where
  "reports_failure cs r \<longleftrightarrow>
     (if \<exists>c \<in> set cs. fatal_result (co_result c) then first_result (\<lambda>c. fatal_result (co_result c)) cs r
      else if \<exists>c \<in> set cs. failed c then first_result failed cs r
      else r = Inr ())"

definition reports_infrastructure :: "'m component_outcome list \<Rightarrow> ('m failure, unit) res \<Rightarrow> bool" where
  "reports_infrastructure cs r \<longleftrightarrow>
     (if \<exists>c \<in> set cs. co_infrastructure c then first_result co_infrastructure cs r else r = Inr ())"

lemma first_result_find:
  "first_result P cs r \<longleftrightarrow> (\<exists>c. find P cs = Some c \<and> r = co_result c)"
  by (auto simp: first_result_def find_Some_iff)

lemma reports_prefer: "reports_failure cs (prefer_component_failure (map co_result cs))"
proof -
  have f: "find P (map co_result cs) = map_option co_result (find (\<lambda>c. P (co_result c)) cs)" for P
    by (induction cs) auto
  have "\<not> (\<exists>c \<in> set cs. P c) \<longleftrightarrow> find P cs = None" for P by (auto simp: find_None_iff)
  note none = this[of "\<lambda>c. fatal_result (co_result c)"] this[of failed]
  show ?thesis
    unfolding reports_failure_def first_result_find prefer_component_failure_spec f
    using none by (auto simp: failed_def[abs_def] split: option.splits)
qed

lemma reports_cancelled: "reports_infrastructure cs (partition_outcome True cs)"
proof -
  have "\<not> (\<exists>c \<in> set cs. co_infrastructure c) \<longleftrightarrow> find co_infrastructure cs = None" by (auto simp: find_None_iff)
  then show ?thesis
    by (auto simp: reports_infrastructure_def first_result_find partition_outcome_def split: option.splits)
qed

lemma latest_simps [simp]:
  "latest f [] j = j" "latest f (e # es) j = latest f es (case f e of Some c \<Rightarrow> c | None \<Rightarrow> j)"
  by (auto simp: latest_def List.map_filter_def split: option.splits list.splits)

lemma await_before:
  assumes "\<forall>e \<in> set before. \<not> decides e" "aw_first a = None" "\<not> aw_cancelled a"
  shows "\<exists>a'. await_components (before @ es) a = await_components es a' \<and> aw_first a' = None \<and> \<not> aw_cancelled a' \<and>
    aw_reader a' = aw_reader a \<and>
    (\<forall>js. (case aw_sink a' of Some c \<Rightarrow> c | None \<Rightarrow> js) = latest sink_event before (case aw_sink a of Some c \<Rightarrow> c | None \<Rightarrow> js)) \<and>
    (\<forall>jp. (case aw_parser a' of Some c \<Rightarrow> c | None \<Rightarrow> jp) = latest parser_event before (case aw_parser a of Some c \<Rightarrow> c | None \<Rightarrow> jp))"
  using assms
proof (induction before arbitrary: a)
  case Nil
  then show ?case by auto
next
  case (Cons e before)
  let ?a = "case e of Sink_done c \<Rightarrow> a\<lparr>aw_sink := Some c\<rparr> | Parser_done c \<Rightarrow> a\<lparr>aw_parser := Some c\<rparr> | _ \<Rightarrow> a"
  have e: "\<not> decides e" using Cons.prems(1) by simp
  have same: "a\<lparr>aw_first := None\<rparr> = a" using Cons.prems(2) by (cases a) simp
  have step: "await_components ((e # before) @ es) a = await_components (before @ es) ?a"
    using e Cons.prems(2,3) by (cases e) (auto simp: decides_def same)
  have a: "aw_first ?a = None" "\<not> aw_cancelled ?a" "aw_reader ?a = aw_reader a" using Cons.prems(2,3) by (cases e; simp)+
  have "(case aw_sink ?a of Some c \<Rightarrow> c | None \<Rightarrow> js) =
      (case sink_event e of Some c \<Rightarrow> c | None \<Rightarrow> case aw_sink a of Some c \<Rightarrow> c | None \<Rightarrow> js)"
    "(case aw_parser ?a of Some c \<Rightarrow> c | None \<Rightarrow> jp) =
      (case parser_event e of Some c \<Rightarrow> c | None \<Rightarrow> case aw_parser a of Some c \<Rightarrow> c | None \<Rightarrow> jp)" for js jp
    by (cases e; simp add: sink_event_def parser_event_def)+
  then show ?case
    unfolding step latest_simps using Cons.IH[of ?a] Cons.prems(1) a by simp
qed

subsection \<open>Property\<close>

text \<open>
  C13 (which failure a run reports). Consider the first event that decides a run. If it is the cancellation from outside, the run
  reports the first panicked or infrastructure-failed task in the order reader, sink, parser, and success if there
  is none. Otherwise the task of that event comes first and the other two follow in that order; the run
  reports the first fatal failure of this list, without one the first failure, and success only if all three
  succeeded: a retryable failure never hides a fatal one, and among equals the deciding task wins.
\<close>

theorem run_outcome_precedence:
  fixes jr js jp :: "'m component_outcome"
  assumes "es = before @ e # rest" and "\<forall>x \<in> set before. \<not> decides x" and "decides e"
  defines "s \<equiv> latest sink_event before js" and "p \<equiv> latest parser_event before jp"
  shows "case e of
      Cancelled_externally \<Rightarrow> reports_infrastructure [jr, s, p] (run_outcome es jr js jp)
    | Reader_done c \<Rightarrow> reports_failure [c, s, p] (run_outcome es jr js jp)
    | Sink_done c \<Rightarrow> reports_failure [c, jr, p] (run_outcome es jr js jp)
    | Parser_done c \<Rightarrow> reports_failure [c, jr, s] (run_outcome es jr js jp)"
proof -
  obtain a where a: "await_components es nothing_awaited = await_components (e # rest) a" "aw_first a = None" "\<not> aw_cancelled a"
    "aw_reader a = None" "(case aw_sink a of Some c \<Rightarrow> c | None \<Rightarrow> js) = s" "(case aw_parser a of Some c \<Rightarrow> c | None \<Rightarrow> jp) = p"
    using await_before[OF assms(2), of nothing_awaited "e # rest"] assms(1)
    by (auto simp: nothing_awaited_def s_def p_def)
  have stop: "await_components rest b = b" if "aw_first b \<noteq> None \<or> aw_cancelled b" for b :: "'m awaited"
    using that by (cases rest) auto
  show ?thesis
  proof (cases e)
    case Cancelled_externally
    then have "run_outcome es jr js jp = partition_outcome True [jr, s, p]"
      using a by (simp add: run_outcome_def Let_def stop ordered_outcomes_def)
    then show ?thesis using Cancelled_externally reports_cancelled by simp
  next
    case (Reader_done c)
    then have "run_outcome es jr js jp = prefer_component_failure (map co_result [c, s, p])"
      using a by (simp add: run_outcome_def Let_def stop ordered_outcomes_def partition_outcome_def)
    then show ?thesis using Reader_done reports_prefer[of "[c, s, p]"] by simp
  next
    case (Sink_done c)
    then have "run_outcome es jr js jp = prefer_component_failure (map co_result [c, jr, p])"
      using a assms(3) by (simp add: run_outcome_def Let_def stop ordered_outcomes_def partition_outcome_def decides_def)
    then show ?thesis using Sink_done reports_prefer[of "[c, jr, p]"] by simp
  next
    case (Parser_done c)
    then have "run_outcome es jr js jp = prefer_component_failure (map co_result [c, jr, s])"
      using a assms(3) by (simp add: run_outcome_def Let_def stop ordered_outcomes_def partition_outcome_def decides_def)
    then show ?thesis using Parser_done reports_prefer[of "[c, jr, s]"] by simp
  qed
qed

definition example_outcome :: "(string failure, unit) res \<Rightarrow> string component_outcome" where
  "example_outcome r = \<lparr>co_result = r, co_infrastructure = False\<rparr>"

text \<open>The parser ends, the sink fails, and the reader fails when it is joined: the failure of the sink is reported.\<close>

theorem run_outcome_precedence_witness:
  "run_outcome
     [Parser_done (example_outcome (Inr ())), Sink_done (example_outcome (Inl (retryable (Message ''s''))))]
     (example_outcome (Inl (retryable (Message ''r'')))) (example_outcome (Inr ())) (example_outcome (Inr ())) =
   Inl (retryable (Message ''s''))"
proof -
  let ?ok = "example_outcome (Inr ())" and ?r = "example_outcome (Inl (retryable (Message ''r'')))"
  let ?s = "example_outcome (Inl (retryable (Message ''s'')))"
  have "\<not> decides (Parser_done ?ok)" "decides (Sink_done ?s)" by (simp_all add: decides_def failed_def example_outcome_def)
  moreover have "latest parser_event [Parser_done ?ok] ?ok = ?ok"
    by (simp add: latest_def List.map_filter_def parser_event_def)
  ultimately have "reports_failure [?s, ?r, ?ok] (run_outcome [Parser_done ?ok, Sink_done ?s] ?r ?ok ?ok)"
    using run_outcome_precedence[of "[Parser_done ?ok, Sink_done ?s]" "[Parser_done ?ok]" "Sink_done ?s" "[]" ?r ?ok ?ok] by simp
  moreover have "\<not> fatal_result (co_result c)" if "c \<in> {?s, ?r, ?ok}" for c
    using that by (auto simp: fatal_result_def example_outcome_def retryable_def is_retryable_def)
  moreover have "failed ?s" by (simp add: failed_def example_outcome_def)
  ultimately have "first_result failed [?s, ?r, ?ok] (run_outcome [Parser_done ?ok, Sink_done ?s] ?r ?ok ?ok)"
    by (auto simp: reports_failure_def)
  then show ?thesis using \<open>failed ?s\<close> by (auto simp: first_result_find example_outcome_def)
qed

end
