(* ===== verification/Pipeline_Memory.thy ===== *)
theory Pipeline_Memory
  imports BTree_Map
begin

section \<open>Pipeline memory accounting under concurrency\<close>

text \<open>
  \<^verbatim>\<open>transferia-core/src/memory.rs\<close>: the per-partition admission budget shared by reader, parser and
  sink through atomic counters. Every operation is the atomic action that decides it (\<open>begin_reserve\<close>,
  \<open>begin_finish\<close>, ...; \<open>None\<close> is \<^verbatim>\<open>changed.await\<close>) followed by the remaining atomic instructions in the
  order of the source, which interleave freely with those of the other threads (\<open>mem_step\<close>). An
  operation run without interference is \<open>run_op\<close> (no operation has more than four instructions). A load followed by a
  successful compare-exchange on the same cell is one atomic action; the loads that are not protected
  this way (\<^verbatim>\<open>retained\<close> in \<^verbatim>\<open>admit_active_transform\<close>) are separate. A panic or an accounting overflow
  sets \<open>ms_fault\<close> (the unwinding of a panicking \<^verbatim>\<open>finish\<close> drops the active reservation).

  Warnings are not modelled; \<open>mi_epoch\<close> counts \<^verbatim>\<open>notify_waiters\<close> calls. A lease is the shared
  \<^verbatim>\<open>MemoryLease\<close>: its clones are one lease, dropped with the last of them.
\<close>

datatype reservation_kind = Source | ProgressSource | Transform

record memory_inner =
  mi_limit :: usize
  mi_used :: usize
  mi_source_used :: usize
  mi_transform_used :: usize
  mi_progress_source_active :: usize
  mi_active_transform :: usize
  mi_epoch :: nat

record memory_lease =
  ml_bytes :: usize
  ml_locked :: bool
  ml_kind :: reservation_kind

type_synonym lease_id = nat

datatype instr =
    Add_used usize
  | Sub_used usize
  | Add_source usize
  | Checked_add_source usize "instr list"
  | Sub_source usize
  | Add_transform usize
  | Sub_transform usize
  | Cas_active usize
  | Clear_active
  | Clear_flag
  | Publish reservation_kind usize
  | Publish_active usize
  | Store_bytes lease_id usize usize
  | Unlock lease_id
  | Notify

record mem_sys =
  ms_inner :: memory_inner
  ms_leases :: "(lease_id, memory_lease) btree"
  ms_next :: lease_id
  ms_active :: "usize option"
  ms_threads :: "instr list list"
  ms_fault :: bool

definition memory_new :: "usize \<Rightarrow> mem_sys option" where
  "memory_new lim =
     (if 0 < lim
      then Some \<lparr>ms_inner = \<lparr>mi_limit = lim, mi_used = 0, mi_source_used = 0, mi_transform_used = 0,
                   mi_progress_source_active = 0, mi_active_transform = 0, mi_epoch = 0\<rparr>,
                 ms_leases = [], ms_next = 0, ms_active = None, ms_threads = [], ms_fault = False\<rparr>
      else None)"

definition is_transform_pressured :: "mem_sys \<Rightarrow> bool" where
  "is_transform_pressured s = (mi_limit (ms_inner s) \<le> mi_transform_used (ms_inner s))"

definition upd_inner :: "(memory_inner \<Rightarrow> memory_inner) \<Rightarrow> mem_sys \<Rightarrow> mem_sys" where
  "upd_inner f s = s\<lparr>ms_inner := f (ms_inner s)\<rparr>"

definition at_least_one :: "usize \<Rightarrow> usize" where
  "at_least_one b = max b 1"

subsection \<open>The deciding action of each operation\<close>

text \<open>\<^verbatim>\<open>reserve\<close>: fits, or an oversized allocation when nothing else is held.\<close>

definition reserve_fits :: "usize \<Rightarrow> memory_inner \<Rightarrow> bool" where
  "reserve_fits b m =
     (if mi_limit m < b then mi_used m = 0
      else case checked_add (mi_used m) b of None \<Rightarrow> False | Some next \<Rightarrow> next \<le> mi_limit m)"

definition begin_reserve :: "usize \<Rightarrow> mem_sys \<Rightarrow> (mem_sys \<times> instr list) option" where
  "begin_reserve bytes s =
     (let b = at_least_one bytes in
      if reserve_fits b (ms_inner s)
      then Some (upd_inner (\<lambda>m. m\<lparr>mi_used := saturating_add (mi_used m) b\<rparr>) s,
                 [Add_source b, Publish Source b])
      else None)"

definition begin_reserve_progress_source :: "usize \<Rightarrow> mem_sys \<Rightarrow> (mem_sys \<times> instr list) option" where
  "begin_reserve_progress_source bytes s =
     (let b = at_least_one bytes in
      if mi_progress_source_active (ms_inner s) = 0
      then Some (upd_inner (\<lambda>m. m\<lparr>mi_progress_source_active := 1\<rparr>) s,
                 [Add_used b, Add_source b, Publish ProgressSource b])
      else None)"

definition begin_reserve_transform :: "usize \<Rightarrow> mem_sys \<Rightarrow> (mem_sys \<times> instr list) option" where
  "begin_reserve_transform bytes s =
     (let b = at_least_one bytes in Some (s, [Add_used b, Add_transform b, Publish Transform b]))"

definition begin_admit_active_transform :: "usize \<Rightarrow> mem_sys \<Rightarrow> (mem_sys \<times> instr list) option" where
  "begin_admit_active_transform bytes s =
     (let b = at_least_one bytes in
      if mi_transform_used (ms_inner s) < mi_limit (ms_inner s)
      then Some (s, [Cas_active b, Add_used b, Publish_active b])
      else None)"

definition begin_finish :: "usize \<Rightarrow> mem_sys \<Rightarrow> (mem_sys \<times> instr list) option" where
  "begin_finish bytes s =
     (let b = at_least_one bytes in
      case ms_active s of
        None \<Rightarrow> None
      | Some a \<Rightarrow>
          if a \<le> b
          then (case checked_add (mi_used (ms_inner s)) (b - a) of
                  None \<Rightarrow>
                    Some ((upd_inner (\<lambda>m. m\<lparr>mi_used := mi_used m - a\<rparr>) s)
                            \<lparr>ms_active := None, ms_fault := True\<rparr>,
                          [Clear_active, Notify])
                | Some u \<Rightarrow>
                    Some ((upd_inner (\<lambda>m. m\<lparr>mi_used := u\<rparr>) s)\<lparr>ms_active := None\<rparr>,
                          [Add_transform b, Clear_active, Notify, Publish Transform b]))
          else Some ((upd_inner (\<lambda>m. m\<lparr>mi_used := mi_used m - (a - b)\<rparr>) s)\<lparr>ms_active := None\<rparr>,
                     [Add_transform b, Clear_active, Notify, Publish Transform b]))"

definition begin_drop_active :: "mem_sys \<Rightarrow> (mem_sys \<times> instr list) option" where
  "begin_drop_active s =
     (case ms_active s of
        None \<Rightarrow> None
      | Some a \<Rightarrow>
          Some ((upd_inner (\<lambda>m. m\<lparr>mi_used := mi_used m - a\<rparr>) s)\<lparr>ms_active := None\<rparr>,
                [Clear_active, Notify]))"

text \<open>Operations on a lease; the resize lock is held until \<open>Unlock\<close>.\<close>

definition begin_grow_progress_source_to ::
  "lease_id \<Rightarrow> usize \<Rightarrow> mem_sys \<Rightarrow> (mem_sys \<times> instr list) option" where
  "begin_grow_progress_source_to i bytes s =
     (case bt_get (ms_leases s) i of
        None \<Rightarrow> None
      | Some l \<Rightarrow>
          if ml_kind l \<noteq> ProgressSource then Some (s, [])
          else if ml_locked l then None
          else let b = at_least_one bytes in
            if b \<le> ml_bytes l then Some (s, [])
            else (case checked_add (mi_used (ms_inner s)) (b - ml_bytes l) of
                    None \<Rightarrow> Some (s, [])
                  | Some u \<Rightarrow>
                      Some ((upd_inner (\<lambda>m. m\<lparr>mi_used := u\<rparr>) s)
                              \<lparr>ms_leases := bt_insert i (l\<lparr>ml_locked := True\<rparr>) (ms_leases s)\<rparr>,
                            [Checked_add_source (b - ml_bytes l) [Unlock i],
                             Store_bytes i b (b - ml_bytes l), Unlock i])))"

definition begin_reserve_source_companion ::
  "lease_id \<Rightarrow> usize \<Rightarrow> mem_sys \<Rightarrow> (mem_sys \<times> instr list) option" where
  "begin_reserve_source_companion i bytes s =
     (case bt_get (ms_leases s) i of
        None \<Rightarrow> None
      | Some l \<Rightarrow>
          if ml_kind l \<noteq> ProgressSource then Some (s, [])
          else let b = at_least_one bytes in
            (case checked_add (mi_used (ms_inner s)) b of
               None \<Rightarrow> Some (s, [])
             | Some u \<Rightarrow>
                 Some (upd_inner (\<lambda>m. m\<lparr>mi_used := u\<rparr>) s,
                       [Checked_add_source b [Sub_used b], Publish Source b])))"

definition sub_kind :: "reservation_kind \<Rightarrow> usize \<Rightarrow> instr" where
  "sub_kind k b = (if k = Transform then Sub_transform b else Sub_source b)"

definition begin_shrink_to :: "lease_id \<Rightarrow> usize \<Rightarrow> mem_sys \<Rightarrow> (mem_sys \<times> instr list) option" where
  "begin_shrink_to i bytes s =
     (case bt_get (ms_leases s) i of
        None \<Rightarrow> None
      | Some l \<Rightarrow>
          if ml_locked l then None
          else let b = at_least_one bytes in
            if ml_bytes l \<le> b then Some (s, [])
            else Some (s\<lparr>ms_leases := bt_insert i (l\<lparr>ml_bytes := b, ml_locked := True\<rparr>) (ms_leases s)\<rparr>,
                       [Sub_used (ml_bytes l - b), sub_kind (ml_kind l) (ml_bytes l - b), Notify, Unlock i]))"

definition begin_drop_lease :: "lease_id \<Rightarrow> mem_sys \<Rightarrow> (mem_sys \<times> instr list) option" where
  "begin_drop_lease i s =
     (case bt_get (ms_leases s) i of
        None \<Rightarrow> None
      | Some l \<Rightarrow>
          if ml_locked l then None
          else Some ((upd_inner (\<lambda>m. m\<lparr>mi_used := mi_used m - ml_bytes l\<rparr>) s)
                       \<lparr>ms_leases := bt_remove i (ms_leases s)\<rparr>,
                     sub_kind (ml_kind l) (ml_bytes l) #
                     (if ml_kind l = ProgressSource then [Clear_flag] else []) @ [Notify]))"

subsection \<open>Atomic instructions\<close>

text \<open>
  \<open>exec i rest s\<close> runs one instruction and returns what the thread still has to run: nothing after a
  panic or a lost compare-exchange (the caller loops back to its first action), the error path of a
  checked addition that overflows, and \<open>rest\<close> otherwise.
\<close>

fun exec :: "instr \<Rightarrow> instr list \<Rightarrow> mem_sys \<Rightarrow> mem_sys \<times> instr list" where
  "exec (Add_used b) rest s =
     (case checked_add (mi_used (ms_inner s)) b of
        None \<Rightarrow> (s\<lparr>ms_fault := True\<rparr>, [])
      | Some u \<Rightarrow> (upd_inner (\<lambda>m. m\<lparr>mi_used := u\<rparr>) s, rest))"
| "exec (Sub_used b) rest s = (upd_inner (\<lambda>m. m\<lparr>mi_used := mi_used m - b\<rparr>) s, rest)"
| "exec (Add_source b) rest s = (upd_inner (\<lambda>m. m\<lparr>mi_source_used := mi_source_used m + b\<rparr>) s, rest)"
| "exec (Checked_add_source b fallback) rest s =
     (case checked_add (mi_source_used (ms_inner s)) b of
        None \<Rightarrow> (s\<lparr>ms_fault := True\<rparr>, fallback)
      | Some u \<Rightarrow> (upd_inner (\<lambda>m. m\<lparr>mi_source_used := u\<rparr>) s, rest))"
| "exec (Sub_source b) rest s = (upd_inner (\<lambda>m. m\<lparr>mi_source_used := mi_source_used m - b\<rparr>) s, rest)"
| "exec (Add_transform b) rest s =
     (upd_inner (\<lambda>m. m\<lparr>mi_transform_used := mi_transform_used m + b\<rparr>) s, rest)"
| "exec (Sub_transform b) rest s =
     (upd_inner (\<lambda>m. m\<lparr>mi_transform_used := mi_transform_used m - b\<rparr>) s, rest)"
| "exec (Cas_active b) rest s =
     (if mi_active_transform (ms_inner s) = 0
      then (upd_inner (\<lambda>m. m\<lparr>mi_active_transform := b\<rparr>) s, rest)
      else (s, []))"
| "exec Clear_active rest s = (upd_inner (\<lambda>m. m\<lparr>mi_active_transform := 0\<rparr>) s, rest)"
| "exec Clear_flag rest s = (upd_inner (\<lambda>m. m\<lparr>mi_progress_source_active := 0\<rparr>) s, rest)"
| "exec (Publish k b) rest s =
     (s\<lparr>ms_leases := bt_insert (ms_next s) \<lparr>ml_bytes = b, ml_locked = False, ml_kind = k\<rparr> (ms_leases s),
        ms_next := Suc (ms_next s)\<rparr>, rest)"
| "exec (Publish_active b) rest s = (s\<lparr>ms_active := Some b\<rparr>, rest)"
| "exec (Store_bytes i b added) rest s =
     (case bt_get (ms_leases s) i of
        None \<Rightarrow> (s, rest)
      | Some l \<Rightarrow> (s\<lparr>ms_leases := bt_insert i (l\<lparr>ml_bytes := b\<rparr>) (ms_leases s)\<rparr>, rest))"
| "exec (Unlock i) rest s =
     (case bt_get (ms_leases s) i of
        None \<Rightarrow> (s, rest)
      | Some l \<Rightarrow> (s\<lparr>ms_leases := bt_insert i (l\<lparr>ml_locked := False\<rparr>) (ms_leases s)\<rparr>, rest))"
| "exec Notify rest s = (upd_inner (\<lambda>m. m\<lparr>mi_epoch := Suc (mi_epoch m)\<rparr>) s, rest)"

text \<open>An operation that runs without interference; the lists are finite, so fuel is their length.\<close>

fun run_instrs :: "nat \<Rightarrow> instr list \<Rightarrow> mem_sys \<Rightarrow> mem_sys \<times> instr list" where
  "run_instrs (Suc n) (i # rest) s = (case exec i rest s of (s', rest') \<Rightarrow> run_instrs n rest' s')"
| "run_instrs n rest s = (s, rest)"

datatype mem_op =
    Reserve usize | Reserve_progress_source usize | Reserve_transform usize
  | Admit_active_transform usize | Finish usize | Drop_active
  | Grow_progress_source_to lease_id usize | Reserve_source_companion lease_id usize
  | Shrink_to lease_id usize | Drop_lease lease_id

fun begin_op :: "mem_op \<Rightarrow> mem_sys \<Rightarrow> (mem_sys \<times> instr list) option" where
  "begin_op (Reserve b) = begin_reserve b"
| "begin_op (Reserve_progress_source b) = begin_reserve_progress_source b"
| "begin_op (Reserve_transform b) = begin_reserve_transform b"
| "begin_op (Admit_active_transform b) = begin_admit_active_transform b"
| "begin_op (Finish b) = begin_finish b"
| "begin_op Drop_active = begin_drop_active"
| "begin_op (Grow_progress_source_to i b) = begin_grow_progress_source_to i b"
| "begin_op (Reserve_source_companion i b) = begin_reserve_source_companion i b"
| "begin_op (Shrink_to i b) = begin_shrink_to i b"
| "begin_op (Drop_lease i) = begin_drop_lease i"

definition run_op :: "mem_op \<Rightarrow> mem_sys \<Rightarrow> mem_sys option" where
  "run_op op s =
     (case begin_op op s of
        None \<Rightarrow> None
      | Some (s', is) \<Rightarrow>
          (case run_instrs 4 is s' of (t, rest) \<Rightarrow> Some (t\<lparr>ms_threads := rest # ms_threads t\<rparr>)))"

inductive mem_step :: "mem_sys \<Rightarrow> mem_sys \<Rightarrow> bool" where
  mem_begin:
    "begin_op op s = Some (s', is) \<Longrightarrow> mem_step s (s'\<lparr>ms_threads := is # ms_threads s'\<rparr>)"
| mem_exec:
    "ms_threads s = pre @ (i # rest) # post \<Longrightarrow> exec i rest s = (s', rest') \<Longrightarrow>
     mem_step s (s'\<lparr>ms_threads := pre @ rest' # post\<rparr>)"

inductive mem_reach :: "usize \<Rightarrow> mem_sys \<Rightarrow> bool" for lim where
  mem_init: "memory_new lim = Some s \<Longrightarrow> mem_reach lim s"
| mem_more: "mem_reach lim s \<Longrightarrow> mem_step s s' \<Longrightarrow> mem_reach lim s'"

subsection \<open>What the unfinished operations still owe\<close>

fun add_used :: "instr \<Rightarrow> nat" where
  "add_used (Add_used b) = unat b"
| "add_used _ = 0"

fun sub_used :: "instr \<Rightarrow> nat" where
  "sub_used (Sub_used b) = unat b"
| "sub_used _ = 0"

text \<open>Bytes of leases and active reservations that are still to be handed out.\<close>

fun owed :: "instr \<Rightarrow> nat" where
  "owed (Publish k b) = unat b"
| "owed (Publish_active b) = unat b"
| "owed (Store_bytes i b added) = unat added"
| "owed _ = 0"

fun add_source :: "instr \<Rightarrow> usize" where
  "add_source (Add_source b) = b"
| "add_source (Checked_add_source b f) = b"
| "add_source _ = 0"

fun sub_source :: "instr \<Rightarrow> usize" where
  "sub_source (Sub_source b) = b"
| "sub_source _ = 0"

fun owed_source :: "instr \<Rightarrow> usize" where
  "owed_source (Publish k b) = (if k = Transform then 0 else b)"
| "owed_source (Store_bytes i b added) = added"
| "owed_source _ = 0"

fun add_transform :: "instr \<Rightarrow> usize" where
  "add_transform (Add_transform b) = b"
| "add_transform _ = 0"

fun sub_transform :: "instr \<Rightarrow> usize" where
  "sub_transform (Sub_transform b) = b"
| "sub_transform _ = 0"

fun owed_transform :: "instr \<Rightarrow> usize" where
  "owed_transform (Publish k b) = (if k = Transform then b else 0)"
| "owed_transform _ = 0"

fun progress_tokens :: "instr \<Rightarrow> nat" where
  "progress_tokens (Publish k b) = (if k = ProgressSource then 1 else 0)"
| "progress_tokens Clear_flag = 1"
| "progress_tokens _ = 0"

fun active_tokens :: "instr \<Rightarrow> nat" where
  "active_tokens (Publish_active b) = 1"
| "active_tokens Clear_active = 1"
| "active_tokens _ = 0"

definition isum :: "(instr \<Rightarrow> 'a::comm_monoid_add) \<Rightarrow> instr list \<Rightarrow> 'a" where
  "isum f is = sum_list (map f is)"

text \<open>A transform that has not yet won the compare-exchange holds no token.\<close>

definition active_held :: "instr list \<Rightarrow> nat" where
  "active_held is = (case is of Cas_active b # rest \<Rightarrow> 0 | _ \<Rightarrow> isum active_tokens is)"

definition pend :: "(instr list \<Rightarrow> 'a::comm_monoid_add) \<Rightarrow> instr list list \<Rightarrow> 'a" where
  "pend f ts = sum_list (map f ts)"

lemma isum_simps [simp]:
  "isum f [] = 0" "isum f (i # is) = f i + isum f is" "isum f (is @ js) = isum f is + isum f js"
  by (simp_all add: isum_def)

lemma pend_simps [simp]:
  "pend f [] = 0" "pend f (c # ts) = f c + pend f ts" "pend f (ts @ us) = pend f ts + pend f us"
  by (simp_all add: pend_def)

subsection \<open>Well-formed continuations and locks\<close>

definition unlocks :: "lease_id \<Rightarrow> instr list \<Rightarrow> nat" where
  "unlocks k is = isum (\<lambda>i. if i = Unlock k then 1 else 0) is"

fun cont_ok :: "instr list \<Rightarrow> bool" where
  "cont_ok [] = True"
| "cont_ok (i # is) =
     (isum add_used (i # is) \<le> isum owed (i # is) \<and>
      (\<forall>b. Cas_active b \<notin> set is) \<and>
      (case i of
         Cas_active b \<Rightarrow> b \<noteq> 0 \<and> is = [Add_used b, Publish_active b]
       | Store_bytes k b added \<Rightarrow>
           Unlock k \<in> set is \<and> (\<forall>k' b' added'. Store_bytes k' b' added' \<notin> set is)
       | _ \<Rightarrow> True) \<and>
      cont_ok is)"

definition store_ok :: "mem_sys \<Rightarrow> instr list \<Rightarrow> bool" where
  "store_ok s is \<longleftrightarrow>
     (\<forall>k b added. Store_bytes k b added \<in> set is \<longrightarrow>
        (\<exists>l. bt_get (ms_leases s) k = Some l \<and> ml_locked l \<and> ml_kind l = ProgressSource \<and>
             unat b = unat (ml_bytes l) + unat added))"

definition locked :: "mem_sys \<Rightarrow> lease_id \<Rightarrow> bool" where
  "locked s k = (case bt_get (ms_leases s) k of None \<Rightarrow> False | Some l \<Rightarrow> ml_locked l)"

definition struct_inv :: "mem_sys \<Rightarrow> bool" where
  "struct_inv s \<longleftrightarrow>
     bt_wf (ms_leases s) \<and> (\<forall>k. bt_get (ms_leases s) k \<noteq> None \<longrightarrow> k < ms_next s) \<and>
     (\<forall>c \<in> set (ms_threads s). cont_ok c \<and> store_ok s c) \<and>
     (\<forall>k. pend (unlocks k) (ms_threads s) = (if locked s k then 1 else 0))"

lemma unat_at_least_one: "unat (at_least_one b) = max (unat b) 1"
  by (simp add: at_least_one_def max_def word_le_nat_alt)

lemma at_least_one_pos [simp]: "0 < unat (at_least_one b)" "at_least_one b \<noteq> 0"
proof -
  show pos: "0 < unat (at_least_one b)" by (simp add: unat_at_least_one)
  then show "at_least_one b \<noteq> 0" by (metis less_irrefl unat_0)
qed

lemma unlocks_simps [simp]:
  "unlocks k [] = 0"
  "unlocks k (i # is) = (if i = Unlock k then 1 else 0) + unlocks k is"
  by (simp_all add: unlocks_def)

lemma unlocks_pos: "Unlock k \<in> set is \<Longrightarrow> 0 < unlocks k is"
  by (induction "is") auto

lemma pend_pos: "c \<in> set ts \<Longrightarrow> (0::nat) < f c \<Longrightarrow> 0 < pend f ts"
  by (induction ts) auto

lemma store_unlocks: "cont_ok is \<Longrightarrow> Store_bytes k b added \<in> set is \<Longrightarrow> Unlock k \<in> set is"
  by (induction "is") (auto split: instr.splits)

lemma cont_ok_tl: "cont_ok (i # is) \<Longrightarrow> cont_ok is"
  by simp

lemma store_ok_update:
  assumes "store_ok s c" "ms_leases s' = bt_insert k l (ms_leases s)"
    and "\<forall>b added. Store_bytes k b added \<notin> set c"
  shows "store_ok s' c"
  using assms unfolding store_ok_def by (metis bt_get_insert)

lemma store_ok_same: "store_ok s c \<Longrightarrow> ms_leases s' = ms_leases s \<Longrightarrow> store_ok s' c"
  by (simp add: store_ok_def)

lemma store_ok_simps [simp]:
  "store_ok s []"
  "(\<forall>k b a. i \<noteq> Store_bytes k b a) \<Longrightarrow> store_ok s (i # is) = store_ok s is"
  by (auto simp: store_ok_def)

lemma store_ok_tl: "store_ok s (i # is) \<Longrightarrow> store_ok s is"
  by (simp add: store_ok_def)

text \<open>No thread holds the lock of a lease that is not locked.\<close>

lemma unlocked_no_store:
  assumes "struct_inv s" "\<not> locked s k" "c \<in> set (ms_threads s)"
  shows "Store_bytes k b added \<notin> set c" "Unlock k \<notin> set c"
proof -
  have "unlocks k c = 0"
    using assms pend_pos[of c "ms_threads s" "unlocks k"] by (fastforce simp: struct_inv_def)
  then show u: "Unlock k \<notin> set c" using unlocks_pos by fastforce
  show "Store_bytes k b added \<notin> set c"
    using assms(1,3) u store_unlocks by (auto simp: struct_inv_def)
qed

lemma locked_same: "ms_leases s' = ms_leases s \<Longrightarrow> locked s' k = locked s k"
  by (simp add: locked_def)

lemma locked_threads [simp]: "locked (s\<lparr>ms_threads := ts\<rparr>) k = locked s k"
  by (simp add: locked_def)

lemma store_ok_threads [simp]: "store_ok (s\<lparr>ms_threads := ts\<rparr>) c = store_ok s c"
  by (simp add: store_ok_def)

lemma struct_begin_same:
  assumes "struct_inv s" "ms_leases s' = ms_leases s" "ms_next s' = ms_next s"
    and "ms_threads s' = ms_threads s" "cont_ok is" "\<And>k. Unlock k \<notin> set is"
  shows "struct_inv (s'\<lparr>ms_threads := is # ms_threads s'\<rparr>)"
proof -
  have "unlocks k is = 0" for k
    using assms(6)[of k] by (induction "is") auto
  moreover have "store_ok s' is"
    using assms(5,6) store_unlocks unfolding store_ok_def by blast
  moreover have "store_ok s' c" if "c \<in> set (ms_threads s)" for c
    using that assms(1,2) by (metis store_ok_same struct_inv_def)
  ultimately show ?thesis
    using assms locked_same[OF assms(2)] by (simp add: struct_inv_def)
qed

lemma struct_begin_lock:
  assumes inv: "struct_inv s" and k: "bt_get (ms_leases s) k = Some l" "\<not> ml_locked l"
    and s': "ms_leases s' = bt_insert k l' (ms_leases s)" "ml_locked l'"
    "ms_next s' = ms_next s" "ms_threads s' = ms_threads s"
    and "is": "cont_ok is" "\<And>j. unlocks j is = (if j = k then 1 else 0)" "store_ok s' is"
  shows "struct_inv (s'\<lparr>ms_threads := is # ms_threads s'\<rparr>)"
proof -
  have nl: "\<not> locked s k" using k by (simp add: locked_def)
  have "store_ok s' c" if "c \<in> set (ms_threads s)" for c
    using inv that store_ok_update[OF _ s'(1)] unlocked_no_store[OF inv nl that]
    by (auto simp: struct_inv_def)
  moreover have "locked s' j = (if j = k then True else locked s j)" for j
    using s' by (simp add: locked_def)
  moreover have "k < ms_next s" using inv k by (auto simp: struct_inv_def)
  ultimately show ?thesis
    using inv s' "is" nl by (auto simp: struct_inv_def)
qed

lemma struct_begin_remove:
  assumes inv: "struct_inv s" and k: "bt_get (ms_leases s) k = Some l" "\<not> ml_locked l"
    and s': "ms_leases s' = bt_remove k (ms_leases s)" "ms_next s' = ms_next s" "ms_threads s' = ms_threads s"
    and "is": "cont_ok is" "\<And>j. Unlock j \<notin> set is"
  shows "struct_inv (s'\<lparr>ms_threads := is # ms_threads s'\<rparr>)"
proof -
  have nl: "\<not> locked s k" using k by (simp add: locked_def)
  have wf: "bt_wf (ms_leases s)" using inv by (simp add: struct_inv_def)
  have get: "bt_get (ms_leases s') j = (if j = k then None else bt_get (ms_leases s) j)" for j
    using s'(1) wf by simp
  have "store_ok s' c" if "c \<in> set (ms_threads s)" for c
    using inv that unlocked_no_store(1)[OF inv nl that] get
    unfolding struct_inv_def store_ok_def by metis
  moreover have "store_ok s' is"
    using "is" store_unlocks unfolding store_ok_def by blast
  moreover have "locked s' j = locked s j" for j
    using nl get by (simp add: locked_def)
  moreover have "unlocks j is = 0" for j
    using "is"(2)[of j] by (induction "is") auto
  ultimately show ?thesis
    using inv s' "is" wf get by (auto simp: struct_inv_def)
qed

lemmas begin_defs =
  begin_reserve_def begin_reserve_progress_source_def begin_reserve_transform_def
  begin_admit_active_transform_def begin_finish_def begin_drop_active_def
  begin_grow_progress_source_to_def begin_reserve_source_companion_def begin_shrink_to_def
  begin_drop_lease_def

lemma upd_inner_simps [simp]:
  "ms_inner (upd_inner f s) = f (ms_inner s)" "ms_leases (upd_inner f s) = ms_leases s"
  "ms_next (upd_inner f s) = ms_next s" "ms_active (upd_inner f s) = ms_active s"
  "ms_threads (upd_inner f s) = ms_threads s" "ms_fault (upd_inner f s) = ms_fault s"
  by (simp_all add: upd_inner_def)

lemma begin_struct_inv:
  assumes "struct_inv s" "begin_op op s = Some (s', is)"
  shows "struct_inv (s'\<lparr>ms_threads := is # ms_threads s'\<rparr>)"
proof (cases op)
  case (Grow_progress_source_to k bytes)
  then obtain l where l: "bt_get (ms_leases s) k = Some l"
    using assms(2) by (auto simp: begin_defs split: option.splits)
  let ?b = "at_least_one bytes"
  show ?thesis
  proof (cases "is = []")
    case True
    then have "s' = s"
      using assms(2) Grow_progress_source_to l by (auto simp: begin_defs Let_def split: if_splits option.splits)
    then show ?thesis using True assms(1) by (intro struct_begin_same) auto
  next
    case False
    then have g: "ml_kind l = ProgressSource" "\<not> ml_locked l" "ml_bytes l < ?b"
      "ms_leases s' = bt_insert k (l\<lparr>ml_locked := True\<rparr>) (ms_leases s)" "ms_next s' = ms_next s"
      "ms_threads s' = ms_threads s"
      "is = [Checked_add_source (?b - ml_bytes l) [Unlock k], Store_bytes k ?b (?b - ml_bytes l), Unlock k]"
      using assms(2) Grow_progress_source_to l
      by (auto simp: begin_defs Let_def not_le split: if_splits option.splits)
    have "unat ?b = unat (ml_bytes l) + unat (?b - ml_bytes l)"
      using g(3) by (simp add: unat_sub_exact word_less_nat_alt)
    then have "store_ok s' is" using g by (simp add: store_ok_def)
    then show ?thesis
      using g by (intro struct_begin_lock[OF assms(1) l]) auto
  qed
next
  case (Shrink_to k bytes)
  then obtain l where l: "bt_get (ms_leases s) k = Some l" "\<not> ml_locked l"
    using assms(2) by (auto simp: begin_defs split: option.splits if_splits)
  show ?thesis
  proof (cases "is = []")
    case True
    then have "s' = s"
      using assms(2) Shrink_to l by (auto simp: begin_defs Let_def split: if_splits)
    then show ?thesis using True assms(1) by (intro struct_begin_same) auto
  next
    case False
    then show ?thesis
      using assms(2) Shrink_to l
      by (intro struct_begin_lock[OF assms(1) l])
         (auto simp: begin_defs Let_def sub_kind_def store_ok_def split: if_splits)
  qed
next
  case (Drop_lease k)
  then obtain l where l: "bt_get (ms_leases s) k = Some l" "\<not> ml_locked l"
    using assms(2) by (auto simp: begin_defs split: option.splits if_splits)
  then show ?thesis
    using assms(2) Drop_lease
    by (intro struct_begin_remove[OF assms(1) l]) (auto simp: begin_defs sub_kind_def split: if_splits)
qed (insert assms, intro struct_begin_same[OF assms(1)];
     auto simp: begin_defs Let_def split: if_splits option.splits)+

lemma struct_exec_same:
  assumes inv: "struct_inv s" and ts: "ms_threads s = pre @ c # post"
    and s': "ms_leases s' = ms_leases s" "ms_next s' = ms_next s"
    and c': "cont_ok c'" "store_ok s c'" "\<And>k. unlocks k c' = unlocks k c"
  shows "struct_inv (s'\<lparr>ms_threads := pre @ c' # post\<rparr>)"
proof -
  have "store_ok s' d" if "d \<in> set pre \<union> set post \<union> {c'}" for d
  proof (rule store_ok_same[OF _ s'(1)])
    show "store_ok s d" using that inv ts c'(2) by (auto simp: struct_inv_def)
  qed
  then show ?thesis
    using inv ts s' c' locked_same[OF s'(1)] by (auto simp: struct_inv_def)
qed

lemma other_threads_unlocked:
  assumes inv: "struct_inv s" and ts: "ms_threads s = pre @ c # post" and k: "Unlock k \<in> set c"
    and d: "d \<in> set pre \<union> set post"
  shows "unlocks k d = 0" "Store_bytes k b added \<notin> set d"
proof -
  have "pend (unlocks k) (pre @ c # post) \<le> 1"
    using inv ts by (metis eq_iff struct_inv_def zero_le_one)
  then have "pend (unlocks k) pre = 0" "pend (unlocks k) post = 0"
    using unlocks_pos[OF k] by auto
  then show u: "unlocks k d = 0"
    using d pend_pos[of d pre "unlocks k"] pend_pos[of d post "unlocks k"] by (metis Un_iff neq0_conv)
  have "cont_ok d" using inv ts d by (auto simp: struct_inv_def)
  then show "Store_bytes k b added \<notin> set d"
    using u store_unlocks unlocks_pos by fastforce
qed

lemma struct_exec_lease:
  assumes inv: "struct_inv s" and ts: "ms_threads s = pre @ (i # rest) # post"
    and s': "ms_leases s' = bt_insert k l' (ms_leases s)" "ms_next s' = ms_next s"
    and k: "Unlock k \<in> set (i # rest)" "bt_get (ms_leases s) k = Some l"
    and no_store: "\<And>b a. Store_bytes k b a \<notin> set rest"
    and lock: "unlocks k rest = (if ml_locked l' then 1 else 0)"
    and other: "\<And>j. j \<noteq> k \<Longrightarrow> unlocks j rest = unlocks j (i # rest)"
  shows "struct_inv (s'\<lparr>ms_threads := pre @ rest # post\<rparr>)"
proof -
  have "store_ok s' d" if "d \<in> set pre \<union> set post \<union> {rest}" for d
  proof (rule store_ok_update[OF _ s'(1)])
    show "store_ok s d"
      using that inv ts by (auto simp: struct_inv_def dest: store_ok_tl)
    show "\<forall>b a. Store_bytes k b a \<notin> set d"
      using that no_store other_threads_unlocked(2)[OF inv ts k(1)] by blast
  qed
  moreover have "pend (unlocks j) (pre @ rest # post) = (if locked s' j then 1 else 0)" for j
  proof (cases "j = k")
    case True
    have "pend (unlocks k) pre = 0" "pend (unlocks k) post = 0"
      using other_threads_unlocked(1)[OF inv ts k(1)] by (auto simp: pend_def)
    then show ?thesis using True s'(1) lock by (simp add: locked_def)
  next
    case False
    then have "locked s' j = locked s j" using s'(1) by (simp add: locked_def)
    moreover have "pend (unlocks j) (pre @ rest # post) = pend (unlocks j) (ms_threads s)"
      using ts other[OF False] by simp
    ultimately show ?thesis
      using inv unfolding struct_inv_def by presburger
  qed
  moreover have "k < ms_next s" using inv k(2) by (auto simp: struct_inv_def)
  ultimately show ?thesis
    using inv ts s' by (auto simp: struct_inv_def)
qed

lemma struct_exec_publish:
  assumes inv: "struct_inv s" and ts: "ms_threads s = pre @ (i # rest) # post"
    and i: "\<And>k. i \<noteq> Unlock k"
    and s': "ms_leases s' = bt_insert (ms_next s) l (ms_leases s)" "ms_next s' = Suc (ms_next s)"
    and l: "\<not> ml_locked l"
  shows "struct_inv (s'\<lparr>ms_threads := pre @ rest # post\<rparr>)"
proof -
  have fresh: "bt_get (ms_leases s) (ms_next s) = None"
    using inv by (force simp: struct_inv_def)
  have "store_ok s' d" if "d \<in> set pre \<union> set post \<union> {rest}" for d
  proof (rule store_ok_update[OF _ s'(1)])
    show ok: "store_ok s d"
      using that inv ts by (auto simp: struct_inv_def dest: store_ok_tl)
    show "\<forall>b a. Store_bytes (ms_next s) b a \<notin> set d"
      using ok fresh unfolding store_ok_def by (metis option.distinct(1))
  qed
  moreover have "locked s' j = locked s j" for j
    using s'(1) fresh l by (simp add: locked_def)
  moreover have "unlocks j rest = unlocks j (i # rest)" for j using i by simp
  ultimately show ?thesis
    using inv ts s' by (auto simp: struct_inv_def less_Suc_eq)
qed

lemma exec_struct_inv:
  assumes inv: "struct_inv s" and ts: "ms_threads s = pre @ (i # rest) # post"
    and ex: "exec i rest s = (s', rest')" and nf: "\<not> ms_fault s'"
  shows "struct_inv (s'\<lparr>ms_threads := pre @ rest' # post\<rparr>)"
proof -
  have ok: "cont_ok (i # rest)" "store_ok s (i # rest)"
    using inv ts by (auto simp: struct_inv_def)
  have tl: "cont_ok rest" "store_ok s rest" using ok by (auto dest: store_ok_tl)
  show ?thesis
  proof (cases i)
    case (Publish k b)
    then have r: "rest' = rest" using ex by simp
    show ?thesis
      unfolding r using ex Publish by (intro struct_exec_publish[OF inv ts]) auto
  next
    case (Store_bytes k b added)
    then obtain l where l: "bt_get (ms_leases s) k = Some l" "ml_locked l"
      using ok(2) unfolding store_ok_def by (metis list.set_intros(1))
    have u: "Unlock k \<in> set (i # rest)" using ok(1) Store_bytes by simp
    have "pend (unlocks k) (ms_threads s) \<le> 1" using inv by (simp add: struct_inv_def)
    then have "unlocks k (i # rest) \<le> 1" unfolding ts pend_simps by linarith
    then have "unlocks k rest = 1"
      using u Store_bytes unlocks_pos[of k rest] by simp
    moreover have r: "rest' = rest" using ex Store_bytes l by simp
    ultimately show ?thesis
      unfolding r using ex ok(1) l Store_bytes u
      by (intro struct_exec_lease[OF inv ts, of s' k "l\<lparr>ml_bytes := b\<rparr>" l]) auto
  next
    case (Unlock k)
    have "pend (unlocks k) (ms_threads s) = (if locked s k then 1 else 0)"
      using inv by (simp add: struct_inv_def)
    then have "locked s k" and u0: "unlocks k rest = 0"
      using ts Unlock by (auto split: if_splits)
    then obtain l where l: "bt_get (ms_leases s) k = Some l"
      by (auto simp: locked_def split: option.splits)
    have "Unlock k \<notin> set rest" using u0 unlocks_pos by fastforce
    then have "\<And>b a. Store_bytes k b a \<notin> set rest" using tl(1) store_unlocks by blast
    moreover have r: "rest' = rest" using ex Unlock l by simp
    ultimately show ?thesis
      unfolding r using ex l Unlock u0
      by (intro struct_exec_lease[OF inv ts, of s' k "l\<lparr>ml_locked := False\<rparr>" l]) auto
  qed (use ex nf ok tl in \<open>intro struct_exec_same[OF inv ts]; auto split: option.splits if_splits\<close>)+
qed

subsection \<open>The accounting equations\<close>

definition lease_bytes :: "memory_lease \<Rightarrow> nat" where
  "lease_bytes l = unat (ml_bytes l)"

definition source_bytes :: "memory_lease \<Rightarrow> usize" where
  "source_bytes l = (if ml_kind l = Transform then 0 else ml_bytes l)"

definition transform_bytes :: "memory_lease \<Rightarrow> usize" where
  "transform_bytes l = (if ml_kind l = Transform then ml_bytes l else 0)"

definition is_progress :: "memory_lease \<Rightarrow> nat" where
  "is_progress l = (if ml_kind l = ProgressSource then 1 else 0)"

definition active_bytes :: "mem_sys \<Rightarrow> nat" where
  "active_bytes s = (case ms_active s of None \<Rightarrow> 0 | Some a \<Rightarrow> unat a)"

text \<open>
  Total usage is exact as a number: whatever is in flight, the counter plus the additions still to
  come equals the bytes held or promised plus the subtractions still to come.
\<close>

definition used_inv :: "mem_sys \<Rightarrow> bool" where
  "used_inv s \<longleftrightarrow>
     unat (mi_used (ms_inner s)) + pend (isum add_used) (ms_threads s) =
     bt_sum lease_bytes (ms_leases s) + active_bytes s +
       pend (isum owed) (ms_threads s) + pend (isum sub_used) (ms_threads s)"

text \<open>The two partial counters are exact modulo the word size while operations are in flight.\<close>

definition source_inv :: "mem_sys \<Rightarrow> bool" where
  "source_inv s \<longleftrightarrow>
     mi_source_used (ms_inner s) + pend (isum add_source) (ms_threads s) =
     bt_sum source_bytes (ms_leases s) + pend (isum owed_source) (ms_threads s) +
       pend (isum sub_source) (ms_threads s)"

definition transform_inv :: "mem_sys \<Rightarrow> bool" where
  "transform_inv s \<longleftrightarrow>
     mi_transform_used (ms_inner s) + pend (isum add_transform) (ms_threads s) =
     bt_sum transform_bytes (ms_leases s) + pend (isum owed_transform) (ms_threads s) +
       pend (isum sub_transform) (ms_threads s)"

definition flag_inv :: "mem_sys \<Rightarrow> bool" where
  "flag_inv s \<longleftrightarrow>
     bt_sum is_progress (ms_leases s) + pend (isum progress_tokens) (ms_threads s) =
     (if mi_progress_source_active (ms_inner s) = 0 then 0 else 1)"

definition active_inv :: "mem_sys \<Rightarrow> bool" where
  "active_inv s \<longleftrightarrow>
     (if ms_active s = None then 0 else 1) + pend active_held (ms_threads s) =
     (if mi_active_transform (ms_inner s) = 0 then 0 else (1::nat))"

definition mem_inv :: "mem_sys \<Rightarrow> bool" where
  "mem_inv s \<longleftrightarrow>
     struct_inv s \<and> used_inv s \<and> source_inv s \<and> transform_inv s \<and> flag_inv s \<and> active_inv s"

lemmas lease_measures = lease_bytes_def source_bytes_def transform_bytes_def is_progress_def

lemma pend_add_le_owed:
  "\<forall>c \<in> set ts. cont_ok c \<Longrightarrow> pend (isum add_used) ts \<le> pend (isum owed) ts"
proof (induction ts)
  case (Cons c ts)
  then have "isum add_used c \<le> isum owed c" by (cases c) auto
  then show ?case using Cons by simp
qed simp

lemma used_ge_held:
  assumes "struct_inv s" "used_inv s"
  shows "bt_sum lease_bytes (ms_leases s) + active_bytes s + pend (isum sub_used) (ms_threads s)
    \<le> unat (mi_used (ms_inner s))"
  using assms pend_add_le_owed[of "ms_threads s"] by (simp add: struct_inv_def used_inv_def)

lemma begin_used_inv:
  assumes "struct_inv s" "used_inv s" "begin_op op s = Some (s', is)" "\<not> ms_fault s'"
  shows "used_inv (s'\<lparr>ms_threads := is # ms_threads s'\<rparr>)"
proof (cases op)
  case (Reserve b)
  let ?b = "at_least_one b"
  have "unat (saturating_add (mi_used (ms_inner s)) ?b) = unat (mi_used (ms_inner s)) + unat ?b"
    if fits: "reserve_fits ?b (ms_inner s)"
  proof (cases "mi_limit (ms_inner s) < ?b")
    case True
    then show ?thesis
      using fits unat_less_pow[of ?b] by (simp add: reserve_fits_def unat_saturating_add)
  next
    case False
    then obtain n where "checked_add (mi_used (ms_inner s)) ?b = Some n"
      using fits by (cases "checked_add (mi_used (ms_inner s)) ?b") (auto simp: reserve_fits_def)
    then show ?thesis
      using unat_less_pow[of n] by (simp add: checked_add_eq_Some unat_saturating_add)
  qed
  then show ?thesis
    using assms(2,3) Reserve
    by (auto simp: used_inv_def begin_defs active_bytes_def Let_def split: if_splits)
next
  case (Finish b)
  let ?b = "at_least_one b"
  obtain a where a: "ms_active s = Some a"
    using assms(3) Finish by (auto simp: begin_defs Let_def split: option.splits)
  have held: "unat a \<le> unat (mi_used (ms_inner s))"
    using used_ge_held[OF assms(1,2)] a by (simp add: active_bytes_def)
  show ?thesis
  proof (cases "a \<le> ?b")
    case True
    then have "unat (?b - a) = unat ?b - unat a" "unat a \<le> unat ?b"
      by (simp_all add: unat_sub_exact word_le_nat_alt)
    then show ?thesis
      using assms(2,3,4) Finish a True
      by (auto simp: used_inv_def begin_defs active_bytes_def Let_def checked_add_eq_Some split: option.splits)
  next
    case False
    then have "unat (mi_used (ms_inner s) - (a - ?b)) = unat (mi_used (ms_inner s)) - (unat a - unat ?b)"
      "unat ?b \<le> unat a"
      using held by (simp_all add: unat_sub_exact word_le_nat_alt)
    then show ?thesis
      using assms(2,3) Finish a False held
      by (auto simp: used_inv_def begin_defs active_bytes_def Let_def)
  qed
next
  case Drop_active
  then obtain a where a: "ms_active s = Some a"
    using assms(3) by (auto simp: begin_defs split: option.splits)
  then have "unat a \<le> unat (mi_used (ms_inner s))"
    using used_ge_held[OF assms(1,2)] by (simp add: active_bytes_def)
  then show ?thesis
    using assms(2,3) Drop_active a by (auto simp: used_inv_def begin_defs active_bytes_def unat_sub_exact)
next
  case (Grow_progress_source_to k bytes)
  then obtain l where l: "bt_get (ms_leases s) k = Some l"
    using assms(3) by (auto simp: begin_defs split: option.splits)
  have "bt_sum lease_bytes (bt_insert k (l\<lparr>ml_locked := True\<rparr>) (ms_leases s)) = bt_sum lease_bytes (ms_leases s)"
    using bt_sum_insert_old[OF _ l, of lease_bytes "l\<lparr>ml_locked := True\<rparr>"] assms(1)
    by (simp add: struct_inv_def lease_bytes_def)
  then show ?thesis
    using assms(2,3) Grow_progress_source_to l
    by (auto simp: used_inv_def begin_defs active_bytes_def Let_def checked_add_eq_Some split: if_splits option.splits)
next
  case (Shrink_to k bytes)
  let ?b = "at_least_one bytes"
  obtain l where l: "bt_get (ms_leases s) k = Some l"
    using assms(3) Shrink_to by (auto simp: begin_defs split: option.splits)
  have "bt_sum lease_bytes (bt_insert k (l\<lparr>ml_bytes := ?b, ml_locked := True\<rparr>) (ms_leases s)) + unat (ml_bytes l)
      = unat ?b + bt_sum lease_bytes (ms_leases s)"
    using bt_sum_insert_old[OF _ l, of lease_bytes "l\<lparr>ml_bytes := ?b, ml_locked := True\<rparr>"] assms(1)
    by (simp add: struct_inv_def lease_bytes_def)
  moreover have "?b < ml_bytes l \<Longrightarrow> unat (ml_bytes l - ?b) = unat (ml_bytes l) - unat ?b"
    "?b < ml_bytes l \<Longrightarrow> unat ?b < unat (ml_bytes l)"
    by (simp_all add: unat_sub_exact word_less_nat_alt)
  ultimately show ?thesis
    using assms(2,3) Shrink_to l
    by (auto simp: used_inv_def begin_defs active_bytes_def Let_def sub_kind_def not_le split: if_splits)
next
  case (Drop_lease k)
  then obtain l where l: "bt_get (ms_leases s) k = Some l"
    using assms(3) by (auto simp: begin_defs split: option.splits)
  note sum = bt_sum_remove[OF l, of lease_bytes]
  then have "unat (ml_bytes l) \<le> unat (mi_used (ms_inner s))"
    using used_ge_held[OF assms(1,2)] by (simp add: lease_bytes_def)
  then have "unat (mi_used (ms_inner s) - ml_bytes l) = unat (mi_used (ms_inner s)) - unat (ml_bytes l)"
    by (rule unat_sub_exact)
  then show ?thesis
    using assms(2,3) Drop_lease l sum \<open>unat (ml_bytes l) \<le> _\<close>
    by (auto simp: used_inv_def begin_defs active_bytes_def sub_kind_def lease_bytes_def split: if_splits)
qed (use assms(2,3) in \<open>auto simp: used_inv_def begin_defs active_bytes_def Let_def checked_add_eq_Some
      split: if_splits option.splits\<close>)

text \<open>Replacing one lease by another in the lease table.\<close>

lemma lease_replace:
  assumes "struct_inv s" "bt_get (ms_leases s) k = Some l"
  shows "bt_sum f (bt_insert k l' (ms_leases s)) + f l = f l' + bt_sum f (ms_leases s)"
  using assms bt_sum_insert_old by (auto simp: struct_inv_def)

lemma lease_publish:
  assumes "struct_inv s"
  shows "bt_sum f (bt_insert (ms_next s) l (ms_leases s)) = f l + bt_sum f (ms_leases s)"
proof (rule bt_sum_insert_new)
  show "bt_get (ms_leases s) (ms_next s) = None"
    using assms by (force simp: struct_inv_def)
qed

lemma exec_store_lease:
  assumes "struct_inv s" "ms_threads s = pre @ (Store_bytes k b added # rest) # post"
  obtains l where "bt_get (ms_leases s) k = Some l" "ml_kind l = ProgressSource"
    "unat b = unat (ml_bytes l) + unat added" "b = ml_bytes l + added"
proof -
  have "store_ok s (Store_bytes k b added # rest)" using assms by (auto simp: struct_inv_def)
  then obtain l where l: "bt_get (ms_leases s) k = Some l" "ml_kind l = ProgressSource"
    "unat b = unat (ml_bytes l) + unat added"
    unfolding store_ok_def by (metis list.set_intros(1))
  moreover have "b = ml_bytes l + added"
    using l(3) by (metis unat_add_exact unat_less_pow word_unat_eq_iff)
  ultimately show ?thesis using that by blast
qed

lemma exec_unlock_lease:
  assumes "struct_inv s" "ms_threads s = pre @ (Unlock k # rest) # post"
  obtains l where "bt_get (ms_leases s) k = Some l"
proof -
  have "pend (unlocks k) (ms_threads s) = (if locked s k then 1 else 0)"
    using assms(1) by (simp add: struct_inv_def)
  then have "locked s k" using assms(2) by (simp split: if_splits)
  then show ?thesis using that by (auto simp: locked_def split: option.splits)
qed

lemma exec_cas_rest:
  "struct_inv s \<Longrightarrow> ms_threads s = pre @ (Cas_active b # rest) # post \<Longrightarrow>
   b \<noteq> 0 \<and> rest = [Add_used b, Publish_active b]"
  by (simp add: struct_inv_def)

text \<open>No active reservation is overwritten: the token discipline leaves room for one.\<close>

lemma exec_publish_active_free:
  assumes "active_inv s" "struct_inv s" "ms_threads s = pre @ (Publish_active b # rest) # post"
  shows "ms_active s = None"
  using assms(1) by (auto simp: active_inv_def assms(3) active_held_def split: if_splits)

lemma exec_used_inv:
  assumes st: "struct_inv s" and us: "used_inv s" and ac: "active_inv s"
    and ts: "ms_threads s = pre @ (i # rest) # post"
    and ex: "exec i rest s = (s', rest')" and nf: "\<not> ms_fault s'"
  shows "used_inv (s'\<lparr>ms_threads := pre @ rest' # post\<rparr>)"
proof (cases i)
  case (Sub_used b)
  have "unat b \<le> unat (mi_used (ms_inner s))"
    using used_ge_held[OF st us] ts Sub_used by simp
  then show ?thesis
    using us ts ex Sub_used by (auto simp: used_inv_def active_bytes_def unat_sub_exact)
next
  case (Cas_active b)
  then show ?thesis
    using us ts ex exec_cas_rest[OF st ts[unfolded Cas_active]]
    by (auto simp: used_inv_def active_bytes_def split: if_splits)
next
  case (Publish k b)
  then show ?thesis
    using us ts ex lease_publish[OF st, of lease_bytes]
    by (auto simp: used_inv_def active_bytes_def lease_bytes_def)
next
  case (Publish_active b)
  then show ?thesis
    using us ts ex exec_publish_active_free[OF ac st ts[unfolded Publish_active]]
    by (auto simp: used_inv_def active_bytes_def)
next
  case (Store_bytes k b added)
  obtain l where l: "bt_get (ms_leases s) k = Some l" "unat b = unat (ml_bytes l) + unat added"
    using exec_store_lease[OF st ts[unfolded Store_bytes]] by metis
  then show ?thesis
    using us ts ex Store_bytes lease_replace[OF st l(1), of lease_bytes "l\<lparr>ml_bytes := b\<rparr>"]
    by (auto simp: used_inv_def active_bytes_def lease_bytes_def)
next
  case (Unlock k)
  obtain l where l: "bt_get (ms_leases s) k = Some l"
    using exec_unlock_lease[OF st ts[unfolded Unlock]] .
  then show ?thesis
    using us ts ex Unlock lease_replace[OF st l, of lease_bytes "l\<lparr>ml_locked := False\<rparr>"]
    by (auto simp: used_inv_def active_bytes_def lease_bytes_def)
qed (use us ts ex nf in \<open>auto simp: used_inv_def active_bytes_def checked_add_eq_Some split: option.splits\<close>)

lemma checked_add_word: "checked_add a b = Some c \<Longrightarrow> c = a + b"
  by (simp add: checked_add_def split: if_splits)

lemma begin_source_inv:
  assumes st: "struct_inv s" and inv: "source_inv s" "transform_inv s" "flag_inv s"
    and op: "begin_op op s = Some (s', is)" and nf: "\<not> ms_fault s'"
  defines "t \<equiv> s'\<lparr>ms_threads := is # ms_threads s'\<rparr>"
  shows "source_inv t \<and> transform_inv t \<and> flag_inv t"
proof (cases op)
  case (Grow_progress_source_to k bytes)
  then obtain l where l: "bt_get (ms_leases s) k = Some l"
    using op by (auto simp: begin_defs split: option.splits)
  have "f (l\<lparr>ml_locked := True\<rparr>) = f l \<Longrightarrow>
      bt_sum f (bt_insert k (l\<lparr>ml_locked := True\<rparr>) (ms_leases s)) = bt_sum f (ms_leases s)"
    for f :: "memory_lease \<Rightarrow> 'b::cancel_comm_monoid_add"
    using lease_replace[OF st l, of f "l\<lparr>ml_locked := True\<rparr>"] by (simp add: add.commute)
  note this[of source_bytes] this[of transform_bytes] this[of is_progress]
  then show ?thesis
    using inv op Grow_progress_source_to l
    by (auto simp: t_def source_inv_def transform_inv_def flag_inv_def begin_defs Let_def lease_measures
        split: if_splits option.splits)
next
  case (Shrink_to k bytes)
  let ?b = "at_least_one bytes"
  obtain l where l: "bt_get (ms_leases s) k = Some l"
    using op Shrink_to by (auto simp: begin_defs split: option.splits)
  let ?l = "l\<lparr>ml_bytes := ?b, ml_locked := True\<rparr>"
  have eqs: "bt_sum source_bytes (bt_insert k ?l (ms_leases s)) =
        source_bytes ?l + bt_sum source_bytes (ms_leases s) - source_bytes l"
    "bt_sum transform_bytes (bt_insert k ?l (ms_leases s)) =
        transform_bytes ?l + bt_sum transform_bytes (ms_leases s) - transform_bytes l"
    "bt_sum is_progress (bt_insert k ?l (ms_leases s)) = bt_sum is_progress (ms_leases s)"
    using lease_replace[OF st l, of source_bytes ?l] lease_replace[OF st l, of transform_bytes ?l]
      lease_replace[OF st l, of is_progress ?l]
    by (simp_all add: is_progress_def algebra_simps)
  show ?thesis
    using inv op Shrink_to l eqs
    by (auto simp: t_def source_inv_def transform_inv_def flag_inv_def begin_defs Let_def sub_kind_def
        lease_measures algebra_simps split: if_splits)
next
  case (Drop_lease k)
  then obtain l where l: "bt_get (ms_leases s) k = Some l"
    using op by (auto simp: begin_defs split: option.splits)
  show ?thesis
    using inv op Drop_lease l bt_sum_remove[OF l, of source_bytes] bt_sum_remove[OF l, of transform_bytes]
      bt_sum_remove[OF l, of is_progress]
    by (auto simp: t_def source_inv_def transform_inv_def flag_inv_def begin_defs sub_kind_def
        lease_measures algebra_simps split: if_splits)
qed (use inv op nf in \<open>auto simp: t_def source_inv_def transform_inv_def flag_inv_def begin_defs Let_def
      algebra_simps split: if_splits option.splits\<close>)

lemma exec_source_inv:
  assumes st: "struct_inv s" and inv: "source_inv s" "transform_inv s" "flag_inv s"
    and ts: "ms_threads s = pre @ (i # rest) # post"
    and ex: "exec i rest s = (s', rest')" and nf: "\<not> ms_fault s'"
  defines "t \<equiv> s'\<lparr>ms_threads := pre @ rest' # post\<rparr>"
  shows "source_inv t \<and> transform_inv t \<and> flag_inv t"
proof (cases i)
  case (Cas_active b)
  then show ?thesis
    using inv ts ex exec_cas_rest[OF st ts[unfolded Cas_active]]
    by (auto simp: t_def source_inv_def transform_inv_def flag_inv_def split: if_splits)
next
  case (Publish k b)
  then show ?thesis
    using inv ts ex lease_publish[OF st, of source_bytes] lease_publish[OF st, of transform_bytes]
      lease_publish[OF st, of is_progress]
    by (auto simp: t_def source_inv_def transform_inv_def flag_inv_def lease_measures algebra_simps)
next
  case (Store_bytes k b added)
  obtain l where l: "bt_get (ms_leases s) k = Some l" "ml_kind l = ProgressSource" "b = ml_bytes l + added"
    using exec_store_lease[OF st ts[unfolded Store_bytes]] by metis
  let ?l = "l\<lparr>ml_bytes := b\<rparr>"
  have "bt_sum source_bytes (bt_insert k ?l (ms_leases s)) = added + bt_sum source_bytes (ms_leases s)"
    "bt_sum transform_bytes (bt_insert k ?l (ms_leases s)) = bt_sum transform_bytes (ms_leases s)"
    "bt_sum is_progress (bt_insert k ?l (ms_leases s)) = bt_sum is_progress (ms_leases s)"
    using lease_replace[OF st l(1), of source_bytes ?l] lease_replace[OF st l(1), of transform_bytes ?l]
      lease_replace[OF st l(1), of is_progress ?l] l(2,3)
    by (simp_all add: lease_measures algebra_simps)
  then show ?thesis
    using inv ts ex Store_bytes l(1)
    by (auto simp: t_def source_inv_def transform_inv_def flag_inv_def algebra_simps)
next
  case (Unlock k)
  obtain l where l: "bt_get (ms_leases s) k = Some l"
    using exec_unlock_lease[OF st ts[unfolded Unlock]] .
  let ?l = "l\<lparr>ml_locked := False\<rparr>"
  have "bt_sum source_bytes (bt_insert k ?l (ms_leases s)) = bt_sum source_bytes (ms_leases s)"
    "bt_sum transform_bytes (bt_insert k ?l (ms_leases s)) = bt_sum transform_bytes (ms_leases s)"
    "bt_sum is_progress (bt_insert k ?l (ms_leases s)) = bt_sum is_progress (ms_leases s)"
    using lease_replace[OF st l, of source_bytes ?l] lease_replace[OF st l, of transform_bytes ?l]
      lease_replace[OF st l, of is_progress ?l]
    by (auto simp: lease_measures split: if_splits)
  then show ?thesis
    using inv ts ex Unlock l by (auto simp: t_def source_inv_def transform_inv_def flag_inv_def)
next
  case Clear_flag
  then show ?thesis
    using inv ts ex by (auto simp: t_def source_inv_def transform_inv_def flag_inv_def split: if_splits)
qed (use inv ts ex nf in \<open>auto simp: t_def source_inv_def transform_inv_def flag_inv_def algebra_simps
      dest!: checked_add_word split: option.splits\<close>)

lemma active_held_rest: "cont_ok (i # rest) \<Longrightarrow> active_held rest = isum active_tokens rest"
  by (cases rest) (auto simp: active_held_def split: instr.splits)

lemma active_held_simps [simp]:
  "active_held [] = 0"
  "active_held (Cas_active b # rest) = 0"
  "(\<forall>b. i \<noteq> Cas_active b) \<Longrightarrow> active_held (i # rest) = isum active_tokens (i # rest)"
  by (auto simp: active_held_def split: instr.splits)

lemma begin_active_inv:
  assumes "active_inv s" "begin_op op s = Some (s', is)" "\<not> ms_fault s'"
  shows "active_inv (s'\<lparr>ms_threads := is # ms_threads s'\<rparr>)"
  using assms
  by (cases op) (auto simp: active_inv_def begin_defs Let_def sub_kind_def split: if_splits option.splits)

lemma exec_active_inv:
  assumes st: "struct_inv s" and inv: "active_inv s"
    and ts: "ms_threads s = pre @ (i # rest) # post"
    and ex: "exec i rest s = (s', rest')" and nf: "\<not> ms_fault s'"
  shows "active_inv (s'\<lparr>ms_threads := pre @ rest' # post\<rparr>)"
proof -
  have "cont_ok (i # rest)" using st ts by (auto simp: struct_inv_def simp del: cont_ok.simps)
  then have held: "active_held rest = isum active_tokens rest" by (rule active_held_rest)
  show ?thesis
  proof (cases i)
    case (Cas_active b)
    then show ?thesis
      using inv ts ex exec_cas_rest[OF st ts[unfolded Cas_active]]
      by (auto simp: active_inv_def split: if_splits)
  next
    case (Publish_active b)
    then show ?thesis
      using inv ts ex held exec_publish_active_free[OF inv st ts[unfolded Publish_active]]
      by (auto simp: active_inv_def split: if_splits)
  qed (use inv ts ex nf held in \<open>auto simp: active_inv_def split: if_splits option.splits\<close>)
qed

lemma fault_persists: "mem_step s s' \<Longrightarrow> ms_fault s \<Longrightarrow> ms_fault s'"
proof (induction rule: mem_step.induct)
  case (mem_begin op s s' "is")
  then show ?case
    by (cases op) (auto simp: begin_defs Let_def split: if_splits option.splits)
next
  case (mem_exec s pre i rest post s' rest')
  then show ?case
    by (cases i) (auto split: option.splits if_splits)
qed

lemma mem_step_inv: "mem_step s s' \<Longrightarrow> mem_inv s \<Longrightarrow> \<not> ms_fault s' \<Longrightarrow> mem_inv s'"
proof (induction rule: mem_step.induct)
  case (mem_begin op s s' "is")
  then have nf: "\<not> ms_fault s'" by simp
  have inv: "struct_inv s" "used_inv s" "source_inv s" "transform_inv s" "flag_inv s" "active_inv s"
    using mem_begin.prems(1) by (simp_all add: mem_inv_def)
  show ?case
    using begin_struct_inv[OF inv(1) mem_begin.hyps] begin_used_inv[OF inv(1,2) mem_begin.hyps nf]
      begin_source_inv[OF inv(1,3,4,5) mem_begin.hyps nf] begin_active_inv[OF inv(6) mem_begin.hyps nf]
    by (simp add: mem_inv_def)
next
  case (mem_exec s pre i rest post s' rest')
  then have nf: "\<not> ms_fault s'" by simp
  have inv: "struct_inv s" "used_inv s" "source_inv s" "transform_inv s" "flag_inv s" "active_inv s"
    using mem_exec.prems(1) by (simp_all add: mem_inv_def)
  show ?case
    using exec_struct_inv[OF inv(1) mem_exec.hyps nf] exec_used_inv[OF inv(1,2,6) mem_exec.hyps nf]
      exec_source_inv[OF inv(1,3,4,5) mem_exec.hyps nf] exec_active_inv[OF inv(1,6) mem_exec.hyps nf]
    by (simp add: mem_inv_def)
qed

lemma memory_new_inv: "memory_new lim = Some s \<Longrightarrow> mem_inv s"
  by (auto simp: memory_new_def mem_inv_def struct_inv_def used_inv_def source_inv_def transform_inv_def
      flag_inv_def active_inv_def active_bytes_def locked_def split: if_splits)

lemma mem_reach_inv: "mem_reach lim s \<Longrightarrow> \<not> ms_fault s \<Longrightarrow> mem_inv s"
  by (induction rule: mem_reach.induct) (auto simp: memory_new_inv dest: mem_step_inv fault_persists)

subsection \<open>Exact counters at rest\<close>

lemma bt_sum_word_nat:
  assumes "bt_sum (\<lambda>l. unat (f l)) m < 2 ^ 64"
  shows "unat (bt_sum f m :: usize) = bt_sum (\<lambda>l. unat (f l)) m"
  using assms
proof (induction m)
  case (Cons e m)
  then have "unat (bt_sum f m) = bt_sum (\<lambda>l. unat (f l)) m" by simp
  then show ?case using Cons.prems by (simp add: unat_add_exact)
qed simp

lemma bt_sum_mono: "(\<And>v. f v \<le> (g v :: nat)) \<Longrightarrow> bt_sum f m \<le> bt_sum g m"
  by (induction m) (auto intro: add_mono)

definition quiet :: "mem_sys \<Rightarrow> bool" where
  "quiet s \<longleftrightarrow> (\<forall>c \<in> set (ms_threads s). c = [])"

lemma pend_all_nil: "\<forall>c \<in> set ts. c = [] \<Longrightarrow> f [] = 0 \<Longrightarrow> pend f ts = 0"
  by (induction ts) auto

lemma quiet_pend: "quiet s \<Longrightarrow> f [] = 0 \<Longrightarrow> pend f (ms_threads s) = 0"
  unfolding quiet_def by (rule pend_all_nil)

subsection \<open>No lost wake-up\<close>

text \<open>Every instruction that releases capacity is followed by \<^verbatim>\<open>notify_waiters\<close> on its thread.\<close>

definition releases :: "instr \<Rightarrow> bool" where
  "releases i \<longleftrightarrow>
     (case i of Sub_used _ \<Rightarrow> True | Sub_source _ \<Rightarrow> True | Sub_transform _ \<Rightarrow> True
      | Clear_active \<Rightarrow> True | Clear_flag \<Rightarrow> True | _ \<Rightarrow> False)"

fun notify_ok :: "instr list \<Rightarrow> bool" where
  "notify_ok [] = True"
| "notify_ok (i # is) = ((releases i \<longrightarrow> Notify \<in> set is) \<and> notify_ok is)"

definition notify_pending :: "mem_sys \<Rightarrow> bool" where
  "notify_pending s \<longleftrightarrow> (\<exists>c \<in> set (ms_threads s). Notify \<in> set c)"

lemma begin_notify_ok:
  "begin_op op s = Some (s', is) \<Longrightarrow> \<not> ms_fault s' \<Longrightarrow> notify_ok is \<and> ms_threads s' = ms_threads s"
  by (cases op) (auto simp: begin_defs Let_def sub_kind_def releases_def split: if_splits option.splits)

lemma exec_rest:
  "exec i rest s = (s', rest') \<Longrightarrow> \<not> ms_fault s' \<Longrightarrow> (rest' = rest \<or> (\<exists>b. i = Cas_active b) \<and> rest' = []) \<and>
   ms_threads s' = ms_threads s"
  by (cases i) (auto split: option.splits if_splits)

lemma mem_reach_notify_ok:
  "mem_reach lim s \<Longrightarrow> \<not> ms_fault s \<Longrightarrow> c \<in> set (ms_threads s) \<Longrightarrow> notify_ok c"
proof (induction arbitrary: c rule: mem_reach.induct)
  case (mem_init s)
  then show ?case by (auto simp: memory_new_def split: if_splits)
next
  case (mem_more s s')
  have nf: "\<not> ms_fault s" using mem_more.hyps(2) mem_more.prems(1) fault_persists by blast
  from mem_more.hyps(2) mem_more.IH[OF nf] mem_more.prems show ?case
  proof (induction rule: mem_step.induct)
    case (mem_begin op s s' "is")
    then show ?case using begin_notify_ok[of op s s' "is"] by auto
  next
    case (mem_exec s pre i rest post s' rest')
    then show ?case using exec_rest[of i rest s s' rest'] by fastforce
  qed
qed

text \<open>What a blocked \<^verbatim>\<open>reserve\<close> or \<^verbatim>\<open>reserve_progress_source\<close> waits for has not happened yet.\<close>

definition no_release :: "mem_sys \<Rightarrow> mem_sys \<Rightarrow> bool" where
  "no_release s t \<longleftrightarrow>
     mi_used (ms_inner s) \<le> mi_used (ms_inner t) \<and>
     (mi_progress_source_active (ms_inner s) \<noteq> 0 \<longrightarrow> mi_progress_source_active (ms_inner t) \<noteq> 0)"

lemma no_release_trans: "no_release s t \<Longrightarrow> no_release t u \<Longrightarrow> no_release s u"
  by (auto simp: no_release_def)

lemma mem_step_wakes:
  assumes "mem_step s s'" "mem_inv s" "\<forall>c \<in> set (ms_threads s). notify_ok c" "\<not> ms_fault s'"
  shows "mi_limit (ms_inner s') = mi_limit (ms_inner s) \<and>
    mi_epoch (ms_inner s) \<le> mi_epoch (ms_inner s') \<and>
    (notify_pending s \<longrightarrow> notify_pending s' \<or> mi_epoch (ms_inner s) < mi_epoch (ms_inner s')) \<and>
    (notify_pending s' \<or> no_release s s')"
  using assms
proof (induction rule: mem_step.induct)
  case (mem_begin op s s' "is")
  let ?t = "s'\<lparr>ms_threads := is # ms_threads s'\<rparr>"
  have "mi_limit (ms_inner s') = mi_limit (ms_inner s)" "mi_epoch (ms_inner s') = mi_epoch (ms_inner s)"
    "ms_threads s' = ms_threads s"
    using mem_begin by (cases op; auto simp: begin_defs Let_def split: if_splits option.splits)+
  moreover have "Notify \<in> set is \<or> no_release s ?t"
  proof -
    have "mi_used (ms_inner s) \<le> saturating_add (mi_used (ms_inner s)) b" for b
      using unat_less_pow[of "mi_used (ms_inner s)"]
      by (simp add: word_le_nat_alt unat_saturating_add)
    moreover have "checked_add (mi_used (ms_inner s)) b = Some u \<Longrightarrow> mi_used (ms_inner s) \<le> u" for b u
      by (simp add: checked_add_eq_Some word_le_nat_alt)
    ultimately show ?thesis
      using mem_begin.hyps
      by (cases op) (auto simp: begin_defs Let_def no_release_def split: if_splits option.splits)
  qed
  ultimately show ?case by (auto simp: notify_pending_def)
next
  case (mem_exec s pre i rest post s' rest')
  let ?t = "s'\<lparr>ms_threads := pre @ rest' # post\<rparr>"
  have ok: "notify_ok (i # rest)" using mem_exec.prems(2) mem_exec.hyps(1) by simp
  have st: "struct_inv s" using mem_exec.prems(1) by (simp add: mem_inv_def)
  have cas: "rest = [Add_used b, Publish_active b]" if "i = Cas_active b" for b
    using exec_cas_rest[OF st] mem_exec.hyps(1) that by blast
  have "checked_add (mi_used (ms_inner s)) b = Some u \<Longrightarrow> mi_used (ms_inner s) \<le> u" for b u
    by (simp add: checked_add_eq_Some word_le_nat_alt)
  then have "Notify \<in> set rest' \<or> no_release s ?t"
    using mem_exec.hyps(2) mem_exec.prems(3) ok
    by (cases i) (auto simp: no_release_def releases_def split: option.splits if_splits)
  moreover have "Notify \<in> set (i # rest) \<Longrightarrow> Notify \<in> set rest' \<or> mi_epoch (ms_inner s) < mi_epoch (ms_inner s')"
    using mem_exec.hyps(2) mem_exec.prems(3) cas
    by (cases i) (auto split: option.splits if_splits)
  moreover have "mi_limit (ms_inner s') = mi_limit (ms_inner s)" "mi_epoch (ms_inner s) \<le> mi_epoch (ms_inner s')"
    using mem_exec.hyps(2) by (cases i; auto split: option.splits if_splits)+
  ultimately show ?case
    using mem_exec.hyps(1) by (auto simp: notify_pending_def)
qed

lemma mem_path_wakes:
  assumes "mem_step\<^sup>*\<^sup>* s t" "mem_reach lim s" "\<not> ms_fault t"
  shows "mem_reach lim t \<and> mi_limit (ms_inner t) = mi_limit (ms_inner s) \<and>
    mi_epoch (ms_inner s) \<le> mi_epoch (ms_inner t) \<and>
    (mi_epoch (ms_inner s) < mi_epoch (ms_inner t) \<or> notify_pending t \<or> no_release s t)"
  using assms
proof (induction rule: rtranclp_induct)
  case base
  then show ?case by (simp add: no_release_def)
next
  case (step t u)
  have nf: "\<not> ms_fault t" using step.hyps(2) step.prems(2) fault_persists by blast
  note IH = step.IH[OF step.prems(1) nf]
  then have reach: "mem_reach lim t" by blast
  have w: "mi_limit (ms_inner u) = mi_limit (ms_inner t)" "mi_epoch (ms_inner t) \<le> mi_epoch (ms_inner u)"
    "notify_pending t \<Longrightarrow> notify_pending u \<or> mi_epoch (ms_inner t) < mi_epoch (ms_inner u)"
    "notify_pending u \<or> no_release t u"
    using mem_step_wakes[OF step.hyps(2) mem_reach_inv[OF reach nf] _ step.prems(2)]
      mem_reach_notify_ok[OF reach nf] by blast+
  have "mem_reach lim u" using reach step.hyps(2) by (rule mem_more)
  moreover have "mi_epoch (ms_inner s) < mi_epoch (ms_inner u) \<or> notify_pending u \<or> no_release s u"
    using IH w(2-4) no_release_trans[of s t u] by auto
  ultimately show ?case
    using IH w(1,2) by auto
qed

lemma blocked_stays_blocked:
  assumes "begin_op op s = None" "no_release s t" "mi_limit (ms_inner t) = mi_limit (ms_inner s)"
    and "op = Reserve b \<or> op = Reserve_progress_source b"
  shows "begin_op op t = None"
proof -
  have "\<not> reserve_fits c (ms_inner t)" if "\<not> reserve_fits c (ms_inner s)" for c
  proof -
    have le: "unat (mi_used (ms_inner s)) \<le> unat (mi_used (ms_inner t))"
      using assms(2) by (simp add: no_release_def word_le_nat_alt)
    have nz: "mi_used (ms_inner s) \<noteq> 0 \<Longrightarrow> mi_used (ms_inner t) \<noteq> 0"
      using le by (auto simp: unat_eq_zero[symmetric])
    show ?thesis
      using that le nz assms(3) unat_less_pow[of "mi_limit (ms_inner s)"]
      by (auto simp: reserve_fits_def checked_add_eq_Some checked_add_eq_None word_le_nat_alt
          split: if_splits option.splits)
  qed
  then show ?thesis
    using assms by (auto simp: begin_defs Let_def no_release_def split: if_splits)
qed

subsection \<open>Properties\<close>

text \<open>
  C9 (exact memory accounting). Whatever the interleaving of reservations, transforms, resizes and
  drops on the atomic counters, and in every state between two atomic instructions, as long as no operation
  panicked or overflowed a counter: \<^verbatim>\<open>used\<close>, with the additions the running operations still have to make, equals the bytes
  of all leases and of the active transform, the bytes of the leases the running operations have yet to publish
  and the subtractions they still have to make. Whenever no operation is in flight, the counters are exactly
  the bytes held: \<^verbatim>\<open>used\<close> all leases and the active transform, \<^verbatim>\<open>source_used\<close> the source leases,
  \<^verbatim>\<open>transform_used\<close> the retained transform output.
\<close>

theorem memory_accounting_exact:
  assumes "mem_reach lim s" "\<not> ms_fault s"
  shows "unat (mi_used (ms_inner s)) + pend (isum add_used) (ms_threads s) =
      bt_sum lease_bytes (ms_leases s) + active_bytes s +
        pend (isum owed) (ms_threads s) + pend (isum sub_used) (ms_threads s) \<and>
    (quiet s \<longrightarrow>
      unat (mi_used (ms_inner s)) = bt_sum lease_bytes (ms_leases s) + active_bytes s \<and>
      unat (mi_source_used (ms_inner s)) = bt_sum (\<lambda>l. unat (source_bytes l)) (ms_leases s) \<and>
      unat (mi_transform_used (ms_inner s)) = bt_sum (\<lambda>l. unat (transform_bytes l)) (ms_leases s))"
proof (intro conjI[where P = "_ + _ = _"] impI)
  have inv: "used_inv s" "source_inv s" "transform_inv s"
    using mem_reach_inv[OF assms] by (simp_all add: mem_inv_def)
  then show "unat (mi_used (ms_inner s)) + pend (isum add_used) (ms_threads s) =
      bt_sum lease_bytes (ms_leases s) + active_bytes s +
        pend (isum owed) (ms_threads s) + pend (isum sub_used) (ms_threads s)"
    by (simp add: used_inv_def)
  assume "quiet s"
  note quiet = quiet_pend[OF this]
  have used: "unat (mi_used (ms_inner s)) = bt_sum lease_bytes (ms_leases s) + active_bytes s"
    using inv(1) by (simp add: used_inv_def quiet)
  then have "bt_sum lease_bytes (ms_leases s) < 2 ^ 64"
    using unat_less_pow[of "mi_used (ms_inner s)"] by simp
  moreover have "bt_sum (\<lambda>l. unat (source_bytes l)) (ms_leases s) \<le> bt_sum lease_bytes (ms_leases s)"
    "bt_sum (\<lambda>l. unat (transform_bytes l)) (ms_leases s) \<le> bt_sum lease_bytes (ms_leases s)"
    by (rule bt_sum_mono; simp add: lease_measures)+
  ultimately have "unat (bt_sum source_bytes (ms_leases s)) = bt_sum (\<lambda>l. unat (source_bytes l)) (ms_leases s)"
    "unat (bt_sum transform_bytes (ms_leases s)) = bt_sum (\<lambda>l. unat (transform_bytes l)) (ms_leases s)"
    by (auto intro!: bt_sum_word_nat)
  then show "unat (mi_used (ms_inner s)) = bt_sum lease_bytes (ms_leases s) + active_bytes s \<and>
      unat (mi_source_used (ms_inner s)) = bt_sum (\<lambda>l. unat (source_bytes l)) (ms_leases s) \<and>
      unat (mi_transform_used (ms_inner s)) = bt_sum (\<lambda>l. unat (transform_bytes l)) (ms_leases s)"
    using used inv(2,3) by (simp add: source_inv_def transform_inv_def quiet)
qed

text \<open>
  Exclusive progress exceptions. In every reachable state, mid-operation states included, at
  most one progress-source lease exists and at most one transform is active, and each is announced by
  its flag: the two ways of exceeding the budget cannot cascade.
\<close>

theorem memory_single_exception:
  assumes "mem_reach lim s" "\<not> ms_fault s"
  shows "bt_sum is_progress (ms_leases s) \<le> 1 \<and>
    (bt_sum is_progress (ms_leases s) = 1 \<longrightarrow> mi_progress_source_active (ms_inner s) \<noteq> 0) \<and>
    (if ms_active s = None then 0 else 1) + pend active_held (ms_threads s) \<le> (1::nat) \<and>
    (ms_active s \<noteq> None \<longrightarrow> mi_active_transform (ms_inner s) \<noteq> 0)"
  using mem_reach_inv[OF assms]
  by (auto simp: mem_inv_def flag_inv_def active_inv_def split: if_splits)

text \<open>
  C10 (no lost wake-up). If a reservation is refused in one state and would be granted in a later one,
  then \<^verbatim>\<open>notify_waiters\<close> has been called in between or some thread is about to call it: a waiter that
  registered before looking at the counters is always woken.
\<close>

theorem memory_no_lost_wakeup:
  assumes "mem_reach lim s" "mem_step\<^sup>*\<^sup>* s t" "\<not> ms_fault t"
    and "op = Reserve b \<or> op = Reserve_progress_source b"
    and "begin_op op s = None" "begin_op op t \<noteq> None"
  shows "mi_epoch (ms_inner s) < mi_epoch (ms_inner t) \<or> notify_pending t"
proof -
  note path = mem_path_wakes[OF assms(2,1,3)]
  have "\<not> no_release s t"
    using blocked_stays_blocked[OF assms(5) _ _ assms(4)] path assms(6) by auto
  then show ?thesis using path by simp
qed

subsection \<open>Witnesses\<close>

text \<open>An uninterrupted operation is a path of the interleaving semantics.\<close>

lemma exec_threads: "exec i rest s = (s', rest') \<Longrightarrow> ms_threads s' = ms_threads s"
  by (cases i) (auto split: option.splits if_splits)

lemma exec_ignores_threads:
  "exec i rest (s\<lparr>ms_threads := ts\<rparr>) = (case exec i rest s of (s', r) \<Rightarrow> (s'\<lparr>ms_threads := ts\<rparr>, r))"
  by (cases i) (auto simp: upd_inner_def split: option.splits)

lemma run_instrs_steps:
  "run_instrs n is s = (t, rest) \<Longrightarrow>
   mem_step\<^sup>*\<^sup>* (s\<lparr>ms_threads := is # ts\<rparr>) (t\<lparr>ms_threads := rest # ts\<rparr>) \<and> ms_threads t = ms_threads s"
proof (induction n "is" s rule: run_instrs.induct)
  case (1 n i "is" s)
  obtain s' r where e: "exec i is s = (s', r)" by fastforce
  have "mem_step (s\<lparr>ms_threads := (i # is) # ts\<rparr>) ((s'\<lparr>ms_threads := (i # is) # ts\<rparr>)\<lparr>ms_threads := [] @ r # ts\<rparr>)"
  proof (rule mem_exec[of _ "[]"])
    show "exec i is (s\<lparr>ms_threads := (i # is) # ts\<rparr>) = (s'\<lparr>ms_threads := (i # is) # ts\<rparr>, r)"
      unfolding exec_ignores_threads e by simp
  qed simp
  then show ?case
    using 1 e exec_threads[OF e] by (auto intro: converse_rtranclp_into_rtranclp)
qed auto

lemma begin_threads: "begin_op op s = Some (s', is) \<Longrightarrow> ms_threads s' = ms_threads s"
  by (cases op) (auto simp: begin_defs Let_def split: if_splits option.splits)

lemma run_op_steps: "run_op op s = Some t \<Longrightarrow> mem_step\<^sup>*\<^sup>* s t"
proof -
  assume t: "run_op op s = Some t"
  then obtain s' "is" u rest where b: "begin_op op s = Some (s', is)"
    and r: "run_instrs 4 is s' = (u, rest)" and t: "t = u\<lparr>ms_threads := rest # ms_threads u\<rparr>"
    by (auto simp: run_op_def split: option.splits prod.splits)
  show ?thesis
    using mem_begin[OF b] run_instrs_steps[OF r, of "ms_threads s'"] t
    by (auto intro: converse_rtranclp_into_rtranclp)
qed

lemma mem_reach_path: "mem_reach lim s \<Longrightarrow> mem_step\<^sup>*\<^sup>* s t \<Longrightarrow> mem_reach lim t"
  by (rotate_tac, induction rule: rtranclp_induct) (auto intro: mem_more)

definition run_mem_ops :: "mem_op list \<Rightarrow> mem_sys \<Rightarrow> mem_sys option" where
  "run_mem_ops ops s = fold (\<lambda>op o'. Option.bind o' (run_op op)) ops (Some s)"

lemma run_mem_ops_steps: "run_mem_ops ops s = Some t \<Longrightarrow> mem_step\<^sup>*\<^sup>* s t"
proof (induction ops arbitrary: t rule: rev_induct)
  case (snoc op ops)
  then obtain u where "run_mem_ops ops s = Some u" "run_op op u = Some t"
    by (auto simp: run_mem_ops_def bind_eq_Some_conv)
  then show ?case using snoc.IH run_op_steps by (meson rtranclp_trans)
qed (simp add: run_mem_ops_def)

definition example_mem :: "mem_op list \<Rightarrow> mem_sys" where
  "example_mem ops =
     (case Option.bind (memory_new 100) (run_mem_ops ops) of Some s \<Rightarrow> s | None \<Rightarrow> the (memory_new 100))"

lemma example_mem_reach: "mem_reach 100 (example_mem ops)"
proof -
  obtain s0 where s0: "memory_new 100 = Some s0" by (simp add: memory_new_def)
  have init: "mem_reach 100 s0" by (rule mem_init[OF s0])
  then show ?thesis
    using mem_reach_path[OF init] run_mem_ops_steps[of ops s0] s0
    by (auto simp: example_mem_def split: option.splits)
qed

text \<open>A source lease, an active transform finished smaller than estimated, the source lease dropped.\<close>

theorem memory_accounting_exact_witness:
  "bt_sum lease_bytes (ms_leases (example_mem [Reserve 40, Admit_active_transform 90, Finish 30, Drop_lease 0])) = 30
   \<and> unat (mi_used (ms_inner (example_mem [Reserve 40, Admit_active_transform 90, Finish 30, Drop_lease 0]))) = 30"
proof -
  let ?s = "example_mem [Reserve 40, Admit_active_transform 90, Finish 30, Drop_lease 0]"
  have "\<not> ms_fault ?s" "quiet ?s" "bt_sum lease_bytes (ms_leases ?s) = 30" "active_bytes ?s = 0"
    by code_simp+
  then show ?thesis
    using memory_accounting_exact[OF example_mem_reach] by simp
qed

theorem memory_single_exception_witness:
  "bt_sum is_progress (ms_leases (example_mem [Reserve_progress_source 500])) = 1 \<and>
   mi_progress_source_active (ms_inner (example_mem [Reserve_progress_source 500])) \<noteq> 0"
proof -
  let ?s = "example_mem [Reserve_progress_source 500]"
  have "\<not> ms_fault ?s" "bt_sum is_progress (ms_leases ?s) = 1" by code_simp+
  then show ?thesis using memory_single_exception[OF example_mem_reach] by blast
qed

theorem memory_no_lost_wakeup_witness:
  "\<exists>s t. mem_step\<^sup>*\<^sup>* s t \<and> begin_op (Reserve 80) s = None \<and> begin_op (Reserve 80) t \<noteq> None \<and>
     (mi_epoch (ms_inner s) < mi_epoch (ms_inner t) \<or> notify_pending t)"
proof -
  let ?s = "example_mem [Reserve 40]"
  have "Option.is_none (begin_op (Reserve 80) ?s)" by code_simp
  then have blocked: "begin_op (Reserve 80) ?s = None" by (simp add: Option.is_none_def)
  have "\<not> Option.is_none (run_op (Drop_lease 0) ?s)" by code_simp
  then obtain t where t: "run_op (Drop_lease 0) ?s = Some t" by (auto simp: Option.is_none_def)
  have "\<not> ms_fault (the (run_op (Drop_lease 0) ?s))" by code_simp
  then have nf: "\<not> ms_fault t" by (simp add: t)
  have "\<not> Option.is_none (begin_op (Reserve 80) (the (run_op (Drop_lease 0) ?s)))" by code_simp
  then have ok: "begin_op (Reserve 80) t \<noteq> None" by (simp add: t Option.is_none_def)
  show ?thesis
    using memory_no_lost_wakeup[OF example_mem_reach run_op_steps[OF t] nf _ blocked ok]
      run_op_steps[OF t] blocked ok by blast
qed

end
