(* ===== verification/Pipeline.thy ===== *)
theory Pipeline
  imports Row_Counts Failure Pipeline_Memory "HOL-Library.Sublist"
begin

section \<open>The partition pipeline: reader, parser and commit ledger\<close>

text \<open>
  \<^verbatim>\<open>transferia-pipeline/src/lib.rs\<close>. The reader task (\<open>reader_step\<close>) reads source batches, numbers them,
  keeps a ledger of uncommitted deliveries and commits source markers when the sink reports a durable
  prefix (\<open>commit_through\<close>). Each \<^verbatim>\<open>await\<close> of the source is a phase; the arm of a \<^verbatim>\<open>select!\<close> that fires is
  an event chosen by the environment. The parser task (\<open>parser_process\<close>) turns one envelope into
  one delivery. The source, the parser session, the middlewares and Arrow's memory accounting are
  parameters; the effect of a successful \<^verbatim>\<open>commit_offsets\<close> on the source is recorded in \<open>rd_log\<close>.
\<close>

subsection \<open>Messages, batches and envelopes\<close>

record message_header =
  mh_key :: string
  mh_value :: "u8 list option"

record message_meta =
  mm_topic :: "string option"
  mm_partition :: "int option"
  mm_offset :: "int option"
  mm_write_timestamp_ms :: "int option"

record message =
  m_value :: "u8 list"
  m_tombstone :: bool
  m_key :: "u8 list option"
  m_headers :: "message_header list"
  m_meta :: message_meta

datatype ('v, 'mk) source_batch =
    SB_dataset discovered_dataset 'mk "lease_id list"
  | SB_raw "message list" "'mk option" "lease_id list"
  | SB_typed "'v table_data list" u64 "'mk option" "lease_id list"
  | SB_finished

datatype 'v read_payload =
    P_dataset discovered_dataset
  | P_raw "message list"
  | P_typed "'v table_data list"

record 'v read_envelope =
  re_id :: delivery_id
  re_payload :: "'v read_payload"
  re_memory :: "lease_id list"
  re_source_messages :: u64

record 'v delivery =
  dl_id :: delivery_id
  dl_outputs :: "'v sink_batch list"
  dl_source_messages :: u64

record 'mk commit_entry =
  ce_id :: delivery_id
  ce_marker :: "'mk option"

record pipeline_progress =
  committed_groups :: u64
  finite_source_drained :: bool

definition progress_new :: pipeline_progress where
  "progress_new = \<lparr>committed_groups = 0, finite_source_drained = False\<rparr>"

definition advanced_since :: "pipeline_progress \<Rightarrow> u64 \<Rightarrow> bool" where
  "advanced_since p checkpoint = (checkpoint < committed_groups p)"

definition INITIAL_BACKOFF_MS :: u64 where "INITIAL_BACKOFF_MS = 10"
definition MAX_BACKOFF_MS :: u64 where "MAX_BACKOFF_MS = 30000"
definition CHANNEL_CAPACITY :: nat where "CHANNEL_CAPACITY = 8"

text \<open>What the pipeline's own errors say; errors of the components are \<open>External\<close>.\<close>

datatype 'x pipe_msg =
    Sink_committed_unknown delivery_id
  | Row_count_failed row_count_error
  | Commit_ledger_underflow
  | Sink_event_stream_closed
  | Parser_input_closed
  | Dataset_without_admission
  | Parser_failed delivery_id 'x
  | Middleware_failed delivery_id 'x
  | Parser_task_panicked
  | External 'x

definition arrow_batch_bytes :: "('v record_batch \<Rightarrow> usize list) \<Rightarrow> 'v record_batch \<Rightarrow> usize" where
  "arrow_batch_bytes column_bytes b = sum_list (column_bytes b)"

subsection \<open>Committing through a delivery\<close>

record ('src, 'mk) reader_core =
  rd_source :: 'src
  rd_ledger :: "'mk commit_entry list"
  rd_progress :: pipeline_progress
  rd_rows :: "output_row_counts option"
  rd_log :: "'mk list list"

definition valid_range :: "'mk commit_entry list \<Rightarrow> delivery_id \<Rightarrow> bool" where
  "valid_range ledger c =
     (case ledger of [] \<Rightarrow> False | first # _ \<Rightarrow> ce_id first \<le> c \<and> c \<le> ce_id (last ledger))"

definition validate_rows ::
  "delivery_id \<Rightarrow> output_row_counts option \<Rightarrow> ('x pipe_msg anyhow, unit) res" where
  "validate_rows c rows =
     (case rows of
        None \<Rightarrow> Inr ()
      | Some rc \<Rightarrow> (case validate_commit_through c rc of
                    Inl e \<Rightarrow> Inl (Message (Row_count_failed e))
                  | Inr _ \<Rightarrow> Inr ()))"

definition commit_rows ::
  "delivery_id \<Rightarrow> output_row_counts option \<Rightarrow> ('x pipe_msg anyhow, output_row_counts option) res" where
  "commit_rows c rows =
     (case rows of
        None \<Rightarrow> Inr None
      | Some rc \<Rightarrow> (case row_commit_through c rc of
                    Inl e \<Rightarrow> Inl (Message (Row_count_failed e))
                  | Inr rc' \<Rightarrow> Inr (Some rc')))"

fun pop_entries :: "nat \<Rightarrow> 'a list \<Rightarrow> 'a list option" where
  "pop_entries 0 xs = Some xs"
| "pop_entries (Suc n) [] = None"
| "pop_entries (Suc n) (x # xs) = pop_entries n xs"

type_synonym ('src, 'mk, 'x) commit_fn =
  "'mk list \<Rightarrow> 'src \<Rightarrow> 'src \<times> ('x pipe_msg failure, unit) res"

definition commit_markers ::
  "('src, 'mk, 'x) commit_fn \<Rightarrow> 'mk list \<Rightarrow> ('src, 'mk) reader_core \<Rightarrow>
   ('src, 'mk) reader_core \<times> ('x pipe_msg anyhow, unit) res" where
  "commit_markers commit_offsets markers r =
     (if markers = [] then (r, Inr ())
      else case commit_offsets markers (rd_source r) of
             (src, Inl f) \<Rightarrow> (r\<lparr>rd_source := src\<rparr>, Inl (Context ''source commit failed'' (Wraps f)))
           | (src, Inr _) \<Rightarrow>
               (r\<lparr>rd_source := src, rd_log := rd_log r @ [markers],
                  rd_progress := (rd_progress r)\<lparr>committed_groups := committed_groups (rd_progress r) + 1\<rparr>\<rparr>,
                Inr ()))"

definition commit_through ::
  "('src, 'mk, 'x) commit_fn \<Rightarrow> delivery_id \<Rightarrow> ('src, 'mk) reader_core \<Rightarrow>
   ('src, 'mk) reader_core \<times> ('x pipe_msg anyhow, unit) res" where
  "commit_through commit_offsets c r =
     (if \<not> valid_range (rd_ledger r) c
      then (r, Inl (Wraps (fatal (Message (Sink_committed_unknown c)))))
      else
        let n = length (takeWhile (\<lambda>e. ce_id e \<le> c) (rd_ledger r));
            markers = List.map_filter ce_marker (take n (rd_ledger r))
        in case validate_rows c (rd_rows r) of
             Inl e \<Rightarrow> (r, Inl e)
           | Inr _ \<Rightarrow>
               (case commit_markers commit_offsets markers r of
                  (r', Inl e) \<Rightarrow> (r', Inl e)
                | (r', Inr _) \<Rightarrow>
                    (case commit_rows c (rd_rows r') of
                       Inl e \<Rightarrow> (r', Inl e)
                     | Inr rows \<Rightarrow>
                         (case pop_entries n (rd_ledger r') of
                            None \<Rightarrow> (r'\<lparr>rd_rows := rows\<rparr>, Inl (Message Commit_ledger_underflow))
                          | Some ledger \<Rightarrow> (r'\<lparr>rd_rows := rows, rd_ledger := ledger\<rparr>, Inr ())))))"

subsection \<open>The reader\<close>

datatype reader_completion = Cancelled | FiniteSourceDrained

datatype ('v, 'mk, 'x) reader_phase =
    Reading
  | Got "('v, 'mk) source_batch"
  | Draining
  | Idle
  | Reserving "'v read_payload" "'mk option" u64
  | Sending "'v read_envelope" bool
  | Barrier
  | Completed reader_completion
  | Reader_failed "'x pipe_msg anyhow"

record ('src, 'v, 'mk, 'x) reader =
  rd_core :: "('src, 'mk) reader_core"
  rd_phase :: "('v, 'mk, 'x) reader_phase"
  rd_next_id :: delivery_id
  rd_backoff :: u64

datatype reader_event =
    Ev_cancelled
  | Ev_read
  | Ev_sink delivery_id
  | Ev_empty
  | Ev_events_closed
  | Ev_slept
  | Ev_reserved lease_id
  | Ev_permit
  | Ev_output_closed

type_synonym ('src, 'v, 'mk, 'x) read_fn =
  "'src \<Rightarrow> 'src \<times> ('x pipe_msg failure, ('v, 'mk) source_batch) res"

text \<open>
  A run starts at a new \<^verbatim>\<open>PipelineProgress\<close>, as in \<^verbatim>\<open>run_partition_pipeline\<close>. The caller may instead share one
  across retries; the reader only counts in it and never reads it.
\<close>

definition reader_init :: "'src \<Rightarrow> output_row_counts option \<Rightarrow> ('src, 'v, 'mk, 'x) reader" where
  "reader_init src rows =
     \<lparr>rd_core = \<lparr>rd_source = src, rd_ledger = [], rd_progress = progress_new, rd_rows = rows, rd_log = []\<rparr>,
      rd_phase = Reading, rd_next_id = 1, rd_backoff = INITIAL_BACKOFF_MS\<rparr>"

text \<open>Handling a sink event: commit, then go to the phase \<open>next\<close> computes from the new core.\<close>

definition on_sink_event ::
  "('src, 'mk, 'x) commit_fn \<Rightarrow> delivery_id \<Rightarrow>
   (('src, 'v, 'mk, 'x) reader \<Rightarrow> ('src, 'v, 'mk, 'x) reader) \<Rightarrow>
   ('src, 'v, 'mk, 'x) reader \<Rightarrow> ('src, 'v, 'mk, 'x) reader" where
  "on_sink_event commit_offsets c next r =
     (case commit_through commit_offsets c (rd_core r) of
        (core, Inl e) \<Rightarrow> r\<lparr>rd_core := core, rd_phase := Reader_failed e\<rparr>
      | (core, Inr _) \<Rightarrow> next (r\<lparr>rd_core := core\<rparr>))"

definition drain_check :: "('src, 'v, 'mk, 'x) reader \<Rightarrow> ('src, 'v, 'mk, 'x) reader" where
  "drain_check r =
     (if rd_ledger (rd_core r) = []
      then r\<lparr>rd_phase := Completed FiniteSourceDrained,
             rd_core := (rd_core r)\<lparr>rd_progress := (rd_progress (rd_core r))\<lparr>finite_source_drained := True\<rparr>\<rparr>\<rparr>
      else r\<lparr>rd_phase := Draining\<rparr>)"

definition barrier_check :: "('src, 'v, 'mk, 'x) reader \<Rightarrow> ('src, 'v, 'mk, 'x) reader" where
  "barrier_check r = r\<lparr>rd_phase := (if rd_ledger (rd_core r) = [] then Reading else Barrier)\<rparr>"

definition back_off :: "('src, 'v, 'mk, 'x) reader \<Rightarrow> ('src, 'v, 'mk, 'x) reader" where
  "back_off r =
     r\<lparr>rd_backoff := min (saturating_mul (rd_backoff r) 2) MAX_BACKOFF_MS, rd_phase := Reading\<rparr>"

definition is_barrier :: "'v read_payload \<Rightarrow> bool" where
  "is_barrier p = (case p of P_dataset _ \<Rightarrow> True | _ \<Rightarrow> False)"

definition payload_is_empty :: "'v read_payload \<Rightarrow> bool" where
  "payload_is_empty p =
     (case p of
        P_dataset _ \<Rightarrow> False
      | P_raw ms \<Rightarrow> ms = []
      | P_typed ts \<Rightarrow> list_all (\<lambda>t. rb_num_rows (td_batch t) = 0) ts)"

definition enqueue ::
  "'v read_payload \<Rightarrow> 'mk option \<Rightarrow> lease_id list \<Rightarrow> u64 \<Rightarrow>
   ('src, 'v, 'mk, 'x) reader \<Rightarrow> ('src, 'v, 'mk, 'x) reader" where
  "enqueue payload marker memory messages r =
     r\<lparr>rd_core := (rd_core r)\<lparr>rd_ledger := rd_ledger (rd_core r) @ [\<lparr>ce_id = rd_next_id r, ce_marker = marker\<rparr>]\<rparr>,
       rd_phase := Sending \<lparr>re_id = rd_next_id r, re_payload = payload, re_memory = memory,
                            re_source_messages = messages\<rparr> (is_barrier payload),
       rd_next_id := delivery_id_next (rd_next_id r)\<rparr>"

text \<open>A batch once the pending sink events have been drained (lines 575 to 710).\<close>

definition admit_batch ::
  "('v record_batch \<Rightarrow> usize list) \<Rightarrow> 'v read_payload \<Rightarrow> lease_id list \<Rightarrow> 'mk option \<Rightarrow> u64 \<Rightarrow> u64 \<Rightarrow>
   ('src, 'v, 'mk, 'x) reader \<Rightarrow> ('src, 'v, 'mk, 'x) reader" where
  "admit_batch column_bytes payload memory marker payload_bytes messages r =
     (if payload_is_empty payload \<and> marker = None then r\<lparr>rd_phase := Idle\<rparr>
      else let r = r\<lparr>rd_backoff := INITIAL_BACKOFF_MS\<rparr> in
        if memory = [] \<and> 0 < payload_bytes then r\<lparr>rd_phase := Reserving payload marker messages\<rparr>
        else enqueue payload marker memory messages r)"

definition on_batch ::
  "('v record_batch \<Rightarrow> usize list) \<Rightarrow> ('v, 'mk) source_batch \<Rightarrow>
   ('src, 'v, 'mk, 'x) reader \<Rightarrow> ('src, 'v, 'mk, 'x) reader" where
  "on_batch column_bytes batch r =
     (case batch of
        SB_finished \<Rightarrow> drain_check r
      | SB_dataset d marker memory \<Rightarrow> admit_batch column_bytes (P_dataset d) memory (Some marker) 0 0 r
      | SB_raw ms marker memory \<Rightarrow>
          admit_batch column_bytes (P_raw ms) memory marker
            (sum_list (map (\<lambda>m. word_of_nat (length (m_value m))) ms)) (word_of_nat (length ms)) r
      | SB_typed ts rows marker memory \<Rightarrow>
          admit_batch column_bytes (P_typed ts) memory marker
            (sum_list (map (\<lambda>t. arrow_batch_bytes column_bytes (td_batch t)) ts)) rows r)"

text \<open>
  One event in one phase; the second component is the envelope handed to the parser, \<open>None\<close> as a whole
  means that the event cannot occur in this phase.
\<close>

definition reader_step ::
  "('src, 'v, 'mk, 'x) read_fn \<Rightarrow> ('src, 'mk, 'x) commit_fn \<Rightarrow> ('v record_batch \<Rightarrow> usize list) \<Rightarrow>
   reader_event \<Rightarrow> ('src, 'v, 'mk, 'x) reader \<Rightarrow>
   (('src, 'v, 'mk, 'x) reader \<times> 'v read_envelope option) option" where
  "reader_step read_batch commit_offsets column_bytes ev r =
     (let cancel = Some (r\<lparr>rd_phase := Completed Cancelled\<rparr>, None);
          closed = Some (r\<lparr>rd_phase := Reader_failed (Message Sink_event_stream_closed)\<rparr>, None)
      in case rd_phase r of
        Reading \<Rightarrow>
          (case ev of
             Ev_cancelled \<Rightarrow> cancel
           | Ev_read \<Rightarrow>
               (case read_batch (rd_source (rd_core r)) of
                  (src, Inl f) \<Rightarrow>
                    Some (r\<lparr>rd_core := (rd_core r)\<lparr>rd_source := src\<rparr>, rd_phase := Reader_failed (Wraps f)\<rparr>, None)
                | (src, Inr b) \<Rightarrow>
                    Some (r\<lparr>rd_core := (rd_core r)\<lparr>rd_source := src\<rparr>, rd_phase := Got b\<rparr>, None))
           | _ \<Rightarrow> None)
      | Got b \<Rightarrow>
          (case ev of
             Ev_sink c \<Rightarrow> Some (on_sink_event commit_offsets c id r, None)
           | Ev_empty \<Rightarrow> Some (on_batch column_bytes b r, None)
           | _ \<Rightarrow> None)
      | Draining \<Rightarrow>
          (case ev of
             Ev_cancelled \<Rightarrow> cancel
           | Ev_sink c \<Rightarrow> Some (on_sink_event commit_offsets c drain_check r, None)
           | Ev_events_closed \<Rightarrow> closed
           | _ \<Rightarrow> None)
      | Idle \<Rightarrow>
          (case ev of
             Ev_cancelled \<Rightarrow> cancel
           | Ev_sink c \<Rightarrow> Some (on_sink_event commit_offsets c back_off r, None)
           | Ev_events_closed \<Rightarrow> Some (back_off r, None)
           | Ev_slept \<Rightarrow> Some (back_off r, None)
           | _ \<Rightarrow> None)
      | Reserving payload marker messages \<Rightarrow>
          (case ev of
             Ev_cancelled \<Rightarrow> cancel
           | Ev_sink c \<Rightarrow> Some (on_sink_event commit_offsets c id r, None)
           | Ev_events_closed \<Rightarrow> closed
           | Ev_reserved l \<Rightarrow> Some (enqueue payload marker [l] messages r, None)
           | _ \<Rightarrow> None)
      | Sending env barrier \<Rightarrow>
          (case ev of
             Ev_cancelled \<Rightarrow> cancel
           | Ev_sink c \<Rightarrow> Some (on_sink_event commit_offsets c id r, None)
           | Ev_events_closed \<Rightarrow> closed
           | Ev_permit \<Rightarrow>
               Some (if barrier then barrier_check r else r\<lparr>rd_phase := Reading\<rparr>, Some env)
           | Ev_output_closed \<Rightarrow> Some (r\<lparr>rd_phase := Reader_failed (Message Parser_input_closed)\<rparr>, None)
           | _ \<Rightarrow> None)
      | Barrier \<Rightarrow>
          (case ev of
             Ev_cancelled \<Rightarrow> cancel
           | Ev_sink c \<Rightarrow> Some (on_sink_event commit_offsets c barrier_check r, None)
           | Ev_events_closed \<Rightarrow> closed
           | _ \<Rightarrow> None)
      | Completed _ \<Rightarrow> None
      | Reader_failed _ \<Rightarrow> None)"

text \<open>The whole task: whatever the inner loop decided survives a failing shutdown.\<close>

definition reader_result ::
  "('x pipe_msg anyhow, reader_completion) res \<Rightarrow> ('x pipe_msg failure, unit) res \<Rightarrow>
   ('x pipe_msg anyhow, unit) res" where
  "reader_result pipeline_result shutdown_result =
     (case pipeline_result of Inr _ \<Rightarrow> Inr () | Inl e \<Rightarrow> Inl e)"

subsection \<open>The parser\<close>

record parse_counters =
  pc_rows :: u64
  pc_arrow_bytes :: u64
  pc_source_messages :: u64
  pc_dlq_rows :: u64

record 'p parser_state =
  ps_session :: "'p option"
  ps_pressured :: bool
  ps_memory :: mem_sys
  ps_rows :: "output_row_counts option"
  ps_counters :: parse_counters

text \<open>What the environment provides: parser sessions, middlewares and Arrow's memory accounting.\<close>

record ('p, 'v, 'x) parser_env =
  pe_create_session :: "usize \<Rightarrow> 'p"
  pe_output_memory_bound :: "'p \<Rightarrow> message list \<Rightarrow> usize option"
  pe_parse_into ::
    "'p \<Rightarrow> message list \<Rightarrow> ('p \<times> ('x, 'v table_data list \<times> 'v table_data option) res) option"
  pe_middlewares :: "('v table_data \<Rightarrow> ('x, 'v table_data) res) list"
  pe_column_bytes :: "'v record_batch \<Rightarrow> usize list"
  pe_evolving :: bool

datatype 'v sink_input =
    In_data "'v delivery"
  | In_dataset delivery_id discovered_dataset

fun run_middlewares ::
  "('v table_data \<Rightarrow> ('x, 'v table_data) res) list \<Rightarrow> 'v table_data \<Rightarrow> ('x, 'v table_data) res" where
  "run_middlewares [] d = Inr d"
| "run_middlewares (m # ms) d = res_bind (m d) (run_middlewares ms)"

definition apply_middlewares ::
  "('v table_data \<Rightarrow> ('x, 'v table_data) res) list \<Rightarrow> 'v table_data \<Rightarrow> ('x, 'v table_data) res" where
  "apply_middlewares ms d = (if td_is_dlq d then Inr d else run_middlewares ms d)"

definition make_sink_batch ::
  "'v table_data \<Rightarrow> usize \<Rightarrow> lease_id \<Rightarrow> 'v sink_batch option" where
  "make_sink_batch d byte_size reservation =
     (if rb_num_rows (td_batch d) = 0 then None
      else Some \<lparr>sb_schema = td_schema d, sb_namespace = td_namespace d, sb_table = td_table d,
                 sb_is_dlq = td_is_dlq d, sb_batch = td_batch d, sb_byte_size = byte_size,
                 sb_memory = reservation, sb_system_columns = td_system_columns d\<rparr>)"

definition sized :: "('v record_batch \<Rightarrow> usize list) \<Rightarrow> 'v table_data list \<Rightarrow> ('v table_data \<times> usize) list" where
  "sized column_bytes ts = map (\<lambda>t. (t, arrow_batch_bytes column_bytes (td_batch t))) ts"

definition saturating_sum :: "'a::len word list \<Rightarrow> 'a word" where
  "saturating_sum ws = fold (\<lambda>w acc. saturating_add acc w) ws 0"

definition sink_batches :: "('v table_data \<times> usize) list \<Rightarrow> lease_id option \<Rightarrow> 'v sink_batch list" where
  "sink_batches ts reservation =
     (case reservation of
        None \<Rightarrow> []
      | Some l \<Rightarrow> List.map_filter (\<lambda>(t, bytes). make_sink_batch t bytes l) ts)"

text \<open>Memory: an active transform is admitted or waited for, finished into a lease, dropped.\<close>

definition admit_now :: "usize \<Rightarrow> mem_sys \<Rightarrow> mem_sys option" where
  "admit_now bytes m =
     (case run_op (Admit_active_transform bytes) m of
        None \<Rightarrow> None
      | Some m' \<Rightarrow> if ms_active m' = None then None else Some m')"

definition try_op :: "mem_op \<Rightarrow> mem_sys \<Rightarrow> mem_sys" where
  "try_op op m = (case run_op op m of None \<Rightarrow> m | Some m' \<Rightarrow> m')"

definition drop_leases :: "lease_id list \<Rightarrow> mem_sys \<Rightarrow> mem_sys" where
  "drop_leases ls m = fold (\<lambda>l. try_op (Drop_lease l)) ls m"

text \<open>Row counting of one delivery; evolving pipelines register their outputs first.\<close>

definition observe_outputs ::
  "bool \<Rightarrow> delivery_id \<Rightarrow> 'v sink_batch list \<Rightarrow> output_row_counts option \<Rightarrow>
   ('x pipe_msg anyhow, output_row_counts option) res" where
  "observe_outputs evolving i outputs rows =
     (case rows of
        None \<Rightarrow> Inr None
      | Some rc \<Rightarrow>
          let rc = (if evolving then admit_datasets (map (\<lambda>b. (sb_table b, sb_is_dlq b)) outputs) rc else rc)
          in case observe_delivery i outputs rc of
               Inl e \<Rightarrow> Inl (Message (Row_count_failed e))
             | Inr rc' \<Rightarrow> Inr (Some rc'))"

definition add_counts :: "u64 \<Rightarrow> u64 \<Rightarrow> u64 \<Rightarrow> u64 \<Rightarrow> parse_counters \<Rightarrow> parse_counters" where
  "add_counts rows bytes messages dlq c =
     c\<lparr>pc_rows := pc_rows c + rows, pc_arrow_bytes := pc_arrow_bytes c + bytes,
       pc_source_messages := pc_source_messages c + messages, pc_dlq_rows := pc_dlq_rows c + dlq\<rparr>"

text \<open>A finished delivery is counted, sent, and leaves the pressure flag for the next round.\<close>

definition emit_delivery ::
  "('p, 'v, 'x) parser_env \<Rightarrow> delivery_id \<Rightarrow> u64 \<Rightarrow> 'v sink_batch list \<Rightarrow> lease_id option \<Rightarrow>
   'p parser_state \<Rightarrow> 'p parser_state \<times> ('x pipe_msg anyhow, 'v sink_input) res" where
  "emit_delivery env i messages outputs reservation st =
     (let m = (case reservation of
                 Some l \<Rightarrow> if outputs = [] then try_op (Drop_lease l) (ps_memory st) else ps_memory st
               | None \<Rightarrow> ps_memory st);
          st = st\<lparr>ps_memory := m\<rparr>
      in case observe_outputs (pe_evolving env) i outputs (ps_rows st) of
           Inl e \<Rightarrow> (st, Inl e)
         | Inr rows \<Rightarrow>
             (st\<lparr>ps_rows := rows, ps_pressured := is_transform_pressured m\<rparr>,
              Inr (In_data \<lparr>dl_id = i, dl_outputs = outputs, dl_source_messages = messages\<rparr>)))"

definition process_typed ::
  "('p, 'v, 'x) parser_env \<Rightarrow> 'v read_envelope \<Rightarrow> 'v table_data list \<Rightarrow> 'p parser_state \<Rightarrow>
   ('p parser_state \<times> ('x pipe_msg anyhow, 'v sink_input) res) option" where
  "process_typed env e tables st =
     (case res_map (apply_middlewares (pe_middlewares env)) tables of
        Inl x \<Rightarrow>
          Some (st\<lparr>ps_memory := drop_leases (re_memory e) (ps_memory st)\<rparr>, Inl (Message (External x)))
      | Inr tables \<Rightarrow>
          let outputs = sized (pe_column_bytes env) tables;
              bytes = saturating_sum (map snd outputs);
              rows = saturating_sum (map (\<lambda>t. rb_num_rows (td_batch t)) tables);
              st' = st\<lparr>ps_counters := add_counts rows bytes (re_source_messages e) 0 (ps_counters st)\<rparr>
          in if outputs = []
             then Some (emit_delivery env (re_id e) (re_source_messages e) [] None
                          (st'\<lparr>ps_memory := drop_leases (re_memory e) (ps_memory st)\<rparr>))
             else case admit_now bytes (ps_memory st) of
                    None \<Rightarrow> None
                  | Some m \<Rightarrow>
                      let m = drop_leases (re_memory e) m;
                          l = ms_next m;
                          m = try_op (Finish bytes) m
                      in Some (emit_delivery env (re_id e) (re_source_messages e)
                                 (sink_batches outputs (Some l)) (Some l) (st'\<lparr>ps_memory := m\<rparr>)))"

definition process_raw ::
  "('p, 'v, 'x) parser_env \<Rightarrow> 'v read_envelope \<Rightarrow> message list \<Rightarrow> 'p parser_state \<Rightarrow>
   ('p parser_state \<times> ('x pipe_msg anyhow, 'v sink_input) res) option" where
  "process_raw env e messages st =
     (let session = (case ps_session st of
                       Some p \<Rightarrow> p
                     | None \<Rightarrow> pe_create_session env (mi_limit (ms_inner (ps_memory st))));
          panicked = (\<lambda>m. (st\<lparr>ps_session := None, ps_memory := drop_leases (re_memory e) m\<rparr>,
                            Inl (Infrastructure (Message Parser_task_panicked))));
          release = (\<lambda>m. if messages = [] then m else try_op Drop_active m)
      in case pe_output_memory_bound env session messages of
        None \<Rightarrow> Some (panicked (ps_memory st))
      | Some output_bound \<Rightarrow>
          (case (if messages = [] then Some (ps_memory st) else admit_now output_bound (ps_memory st)) of
             None \<Rightarrow> None
           | Some m \<Rightarrow>
               (case pe_parse_into env session messages of
                  None \<Rightarrow> Some (panicked (release m))
                | Some (session, Inl x) \<Rightarrow>
                    Some (st\<lparr>ps_session := Some session, ps_memory := drop_leases (re_memory e) (release m)\<rparr>,
                          Inl (Message (Parser_failed (re_id e) x)))
                | Some (session, Inr (valid, dlq)) \<Rightarrow>
                    let m = drop_leases (re_memory e) m;
                        st = st\<lparr>ps_session := Some session, ps_memory := m\<rparr>
                    in case res_map (apply_middlewares (pe_middlewares env)) valid of
                         Inl x \<Rightarrow>
                           Some (st\<lparr>ps_memory := release m\<rparr>,
                                 Inl (Message (Middleware_failed (re_id e) x)))
                       | Inr tables \<Rightarrow>
                           let transformed = sized (pe_column_bytes env) tables;
                               valid_bytes = saturating_sum (map snd transformed);
                               valid_rows = saturating_sum (map (\<lambda>t. rb_num_rows (td_batch t)) tables);
                               dlqs = sized (pe_column_bytes env) (case dlq of None \<Rightarrow> [] | Some d \<Rightarrow> [d]);
                               dlq_bytes = saturating_sum (map snd dlqs);
                               dlq_rows = saturating_sum (map (\<lambda>t. rb_num_rows (td_batch (fst t))) dlqs);
                               output_bytes = saturating_add valid_bytes dlq_bytes;
                               has_output = (0 < valid_rows \<or> 0 < dlq_rows);
                               (m, reservation) =
                                 (if has_output
                                  then (try_op (if messages = [] then Reserve_transform output_bytes
                                                else Finish output_bytes) m, Some (ms_next m))
                                  else (release m, None));
                               counters = add_counts valid_rows valid_bytes (re_source_messages e) dlq_rows
                                            (ps_counters st)
                           in Some (emit_delivery env (re_id e) (re_source_messages e)
                                      (sink_batches (transformed @ dlqs) reservation) reservation
                                      (st\<lparr>ps_memory := m, ps_counters := counters\<rparr>)))))"

text \<open>One envelope; \<open>None\<close> while the parser waits for memory.\<close>

definition parser_process ::
  "('p, 'v, 'x) parser_env \<Rightarrow> 'v read_envelope \<Rightarrow> 'p parser_state \<Rightarrow>
   ('p parser_state \<times> ('x pipe_msg anyhow, 'v sink_input) res) option" where
  "parser_process env e st =
     (if ps_pressured st \<and> is_transform_pressured (ps_memory st) then None
      else case re_payload e of
        P_dataset d \<Rightarrow>
          (case observe_outputs False (re_id e) ([] :: 'v sink_batch list) (ps_rows st) of
             Inl x \<Rightarrow> Some (st, Inl x)
           | Inr rows \<Rightarrow>
               if pe_evolving env then Some (st\<lparr>ps_rows := rows\<rparr>, Inr (In_dataset (re_id e) d))
               else Some (st\<lparr>ps_rows := rows\<rparr>, Inl (Message Dataset_without_admission)))
      | P_typed tables \<Rightarrow> process_typed env e tables st
      | P_raw messages \<Rightarrow> process_raw env e messages st)"

subsection \<open>The commit ledger\<close>

definition ledger_markers :: "'mk commit_entry list \<Rightarrow> 'mk list" where
  "ledger_markers ledger = List.map_filter ce_marker ledger"

lemma ledger_markers_simps [simp]:
  "ledger_markers [] = []"
  "ledger_markers (e # es) = (case ce_marker e of None \<Rightarrow> [] | Some m \<Rightarrow> [m]) @ ledger_markers es"
  "ledger_markers (es @ fs) = ledger_markers es @ ledger_markers fs"
  by (simp_all add: ledger_markers_def map_filter_def split: option.splits)

lemma pop_entries_drop: "n \<le> length xs \<Longrightarrow> pop_entries n xs = Some (drop n xs)"
  by (induction n xs rule: pop_entries.induct) auto

lemma validate_rows_commit:
  "validate_rows c rows = Inr u \<Longrightarrow> \<exists>rows'. commit_rows c rows = Inr rows'"
  by (auto simp: validate_rows_def commit_rows_def validate_commit_through_def row_commit_through_def
      res_bind_Inr_iff split: option.splits sum.splits)

lemma commit_markers_cases:
  assumes "commit_markers f ms r = (r', res)"
  shows "rd_ledger r' = rd_ledger r \<and> rd_rows r' = rd_rows r \<and>
    finite_source_drained (rd_progress r') = finite_source_drained (rd_progress r) \<and>
    concat (rd_log r') = concat (rd_log r) @ (if is_ok res then ms else [])"
  using assms by (auto simp: commit_markers_def split: if_splits prod.splits sum.splits)

text \<open>
  A commit either fails and leaves ledger and log as they were, or it hands exactly the markers of
  the entries up to the committed id to the source and removes exactly these entries.
\<close>

lemma commit_through_cases:
  fixes f :: "('src, 'mk, 'x) commit_fn"
  assumes "commit_through f c r = (r', res)"
  shows "finite_source_drained (rd_progress r') = finite_source_drained (rd_progress r) \<and>
    (if is_ok res
     then valid_range (rd_ledger r) c \<and>
       rd_ledger r' = dropWhile (\<lambda>e. ce_id e \<le> c) (rd_ledger r) \<and>
       concat (rd_log r') = concat (rd_log r) @ ledger_markers (takeWhile (\<lambda>e. ce_id e \<le> c) (rd_ledger r))
     else rd_ledger r' = rd_ledger r \<and> concat (rd_log r') = concat (rd_log r))"
proof (cases "valid_range (rd_ledger r) c")
  case False
  then show ?thesis using assms by (auto simp: commit_through_def)
next
  case vr: True
  let ?tw = "takeWhile (\<lambda>e. ce_id e \<le> c) (rd_ledger r)"
  have pop: "pop_entries (length ?tw) (rd_ledger r) = Some (dropWhile (\<lambda>e. ce_id e \<le> c) (rd_ledger r))"
    by (simp add: pop_entries_drop length_takeWhile_le)
  obtain r1 res1 where m: "commit_markers f (ledger_markers ?tw) r = (r1, res1)" by fastforce
  note mc = commit_markers_cases[OF m]
  show ?thesis
  proof (cases "validate_rows c (rd_rows r) :: ('x pipe_msg anyhow, unit) res")
    case (Inl e)
    then have "r' = r \<and> res = Inl e"
      using assms vr by (simp add: commit_through_def Let_def)
    then show ?thesis by simp
  next
    case (Inr u)
    then obtain rows where
      rows: "commit_rows c (rd_rows r) = (Inr rows :: ('x pipe_msg anyhow, output_row_counts option) res)"
      using validate_rows_commit by blast
    have "(r', res) = (case res1 of
        Inl e \<Rightarrow> (r1, Inl e)
      | Inr _ \<Rightarrow> (r1\<lparr>rd_rows := rows, rd_ledger := dropWhile (\<lambda>e. ce_id e \<le> c) (rd_ledger r)\<rparr>, Inr ()))"
      using assms vr m mc rows pop Inr
      by (simp add: commit_through_def Let_def ledger_markers_def[symmetric] split: sum.splits)
    then show ?thesis using vr mc by (cases res1) simp_all
  qed
qed

subsection \<open>Reachable readers\<close>

definition batch_markers :: "('v, 'mk) source_batch \<Rightarrow> 'mk list" where
  "batch_markers b =
     (case b of
        SB_finished \<Rightarrow> []
      | SB_dataset _ m _ \<Rightarrow> [m]
      | SB_raw _ m _ \<Rightarrow> (case m of None \<Rightarrow> [] | Some x \<Rightarrow> [x])
      | SB_typed _ _ m _ \<Rightarrow> (case m of None \<Rightarrow> [] | Some x \<Rightarrow> [x]))"

text \<open>The batch a read step has delivered.\<close>

definition batch_read :: "reader_event \<Rightarrow> ('src, 'v, 'mk, 'x) reader \<Rightarrow> ('v, 'mk) source_batch list" where
  "batch_read ev r = (case ev of Ev_read \<Rightarrow> (case rd_phase r of Got b \<Rightarrow> [b] | _ \<Rightarrow> []) | _ \<Rightarrow> [])"

text \<open>\<open>reader_reach r bs\<close>: a state reached after reading the batches \<open>bs\<close>, in order.\<close>

inductive reader_reach ::
  "('src, 'v, 'mk, 'x) read_fn \<Rightarrow> ('src, 'mk, 'x) commit_fn \<Rightarrow> ('v record_batch \<Rightarrow> usize list) \<Rightarrow>
   ('src, 'v, 'mk, 'x) reader \<Rightarrow> ('v, 'mk) source_batch list \<Rightarrow> bool"
  for read_batch commit_offsets column_bytes where
  reader_start: "reader_reach read_batch commit_offsets column_bytes (reader_init src rows) []"
| reader_next:
    "reader_reach read_batch commit_offsets column_bytes r bs \<Longrightarrow>
     reader_step read_batch commit_offsets column_bytes ev r = Some (r', out) \<Longrightarrow>
     reader_reach read_batch commit_offsets column_bytes r' (bs @ batch_read ev r')"

text \<open>The marker of a batch that has been read but not yet entered in the ledger.\<close>

definition in_hand :: "('v, 'mk, 'x) reader_phase \<Rightarrow> 'mk list" where
  "in_hand p =
     (case p of
        Got b \<Rightarrow> batch_markers b
      | Reserving _ m _ \<Rightarrow> (case m of None \<Rightarrow> [] | Some x \<Rightarrow> [x])
      | _ \<Rightarrow> [])"

definition reader_running :: "('v, 'mk, 'x) reader_phase \<Rightarrow> bool" where
  "reader_running p \<longleftrightarrow> (case p of Completed Cancelled \<Rightarrow> False | Reader_failed _ \<Rightarrow> False | _ \<Rightarrow> True)"

definition accounted :: "('src, 'v, 'mk, 'x) reader \<Rightarrow> 'mk list" where
  "accounted r = concat (rd_log (rd_core r)) @ ledger_markers (rd_ledger (rd_core r))"

definition marker_inv :: "('src, 'v, 'mk, 'x) reader \<Rightarrow> ('v, 'mk) source_batch list \<Rightarrow> bool" where
  "marker_inv r bs \<longleftrightarrow>
     (if reader_running (rd_phase r) then accounted r @ in_hand (rd_phase r) = concat (map batch_markers bs)
      else prefix (accounted r) (concat (map batch_markers bs))) \<and>
     (finite_source_drained (rd_progress (rd_core r)) \<longrightarrow> rd_phase r = Completed FiniteSourceDrained) \<and>
     (rd_phase r = Completed FiniteSourceDrained \<longrightarrow>
        rd_ledger (rd_core r) = [] \<and> finite_source_drained (rd_progress (rd_core r)))"

lemma on_sink_event_cases:
  fixes r :: "('src, 'v, 'mk, 'x) reader"
  shows "(\<exists>core. on_sink_event f c next r = next (r\<lparr>rd_core := core\<rparr>) \<and>
      accounted (r\<lparr>rd_core := core\<rparr>) = accounted r \<and>
      finite_source_drained (rd_progress core) = finite_source_drained (rd_progress (rd_core r)) \<and>
      valid_range (rd_ledger (rd_core r)) c \<and>
      rd_ledger core = dropWhile (\<lambda>e. ce_id e \<le> c) (rd_ledger (rd_core r))) \<or>
    (\<exists>core e. on_sink_event f c next r = r\<lparr>rd_core := core, rd_phase := Reader_failed e\<rparr> \<and>
      rd_ledger core = rd_ledger (rd_core r) \<and> concat (rd_log core) = concat (rd_log (rd_core r)) \<and>
      finite_source_drained (rd_progress core) = finite_source_drained (rd_progress (rd_core r)))"
proof -
  obtain core res where ct: "commit_through f c (rd_core r) = (core, res)" by fastforce
  note cases = commit_through_cases[OF ct]
  show ?thesis
  proof (cases res)
    case (Inl e)
    then show ?thesis using ct cases by (auto simp: on_sink_event_def)
  next
    case (Inr u)
    have "ledger_markers (takeWhile P l) @ ledger_markers (dropWhile P l) = ledger_markers l" for P l
      by (metis ledger_markers_simps(3) takeWhile_dropWhile_id)
    then have "accounted (r\<lparr>rd_core := core\<rparr>) = accounted r"
      using cases Inr by (simp add: accounted_def)
    then show ?thesis
      using ct cases Inr by (intro disjI1 exI[of _ core]) (simp add: on_sink_event_def)
  qed
qed

lemma accounted_simps [simp]:
  "accounted (r\<lparr>rd_phase := p\<rparr>) = accounted r"
  "accounted (r\<lparr>rd_backoff := b\<rparr>) = accounted r"
  "accounted (r\<lparr>rd_core := (rd_core r)\<lparr>rd_source := s\<rparr>\<rparr>) = accounted r"
  "accounted (r\<lparr>rd_core := (rd_core r)\<lparr>rd_progress := q\<rparr>\<rparr>) = accounted r"
  by (simp_all add: accounted_def)

lemma marker_inv_cong:
  assumes "marker_inv r bs" "reader_running (rd_phase r)"
    and "accounted r' @ in_hand p' = accounted r @ in_hand (rd_phase r)"
    and "rd_phase r' = p'" "p' \<noteq> Completed FiniteSourceDrained" "reader_running p'"
    and "\<not> finite_source_drained (rd_progress (rd_core r'))"
  shows "marker_inv r' bs"
  using assms by (auto simp: marker_inv_def)

lemma marker_inv_stop:
  assumes "marker_inv r bs" "reader_running (rd_phase r)"
    and "accounted r' = accounted r" "\<not> reader_running (rd_phase r')"
    and "\<not> finite_source_drained (rd_progress (rd_core r'))"
  shows "marker_inv r' bs"
proof -
  have "prefix (accounted r) (concat (map batch_markers bs))"
    using assms(1,2) by (metis marker_inv_def prefixI)
  moreover have "rd_phase r' \<noteq> Completed FiniteSourceDrained"
    using assms(4) by (auto simp: reader_running_def)
  ultimately show ?thesis using assms by (simp add: marker_inv_def)
qed

lemma marker_inv_drained:
  assumes "marker_inv r bs" "reader_running (rd_phase r)" "in_hand (rd_phase r) = []"
    and "\<not> finite_source_drained (rd_progress (rd_core r))"
  shows "marker_inv (drain_check r) bs" "marker_inv (barrier_check r) bs" "marker_inv (back_off r) bs"
  using assms
  by (auto simp: marker_inv_def drain_check_def barrier_check_def back_off_def in_hand_def reader_running_def
      accounted_def)

lemma marker_inv_not_drained:
  "marker_inv r bs \<Longrightarrow> rd_phase r \<noteq> Completed FiniteSourceDrained \<Longrightarrow>
   \<not> finite_source_drained (rd_progress (rd_core r))"
  by (auto simp: marker_inv_def)

lemma marker_inv_sink_event:
  assumes inv: "marker_inv r bs" and run: "reader_running (rd_phase r)"
    and nd: "rd_phase r \<noteq> Completed FiniteSourceDrained"
    and nxt: "\<And>r'. marker_inv r' bs \<Longrightarrow> rd_phase r' = rd_phase r \<Longrightarrow>
       \<not> finite_source_drained (rd_progress (rd_core r')) \<Longrightarrow> marker_inv (next r') bs"
  shows "marker_inv (on_sink_event f c next r) bs"
proof -
  have nf: "\<not> finite_source_drained (rd_progress (rd_core r))"
    using marker_inv_not_drained[OF inv nd] .
  from on_sink_event_cases[of f c "next" r] show ?thesis
  proof
    assume "\<exists>core. on_sink_event f c next r = next (r\<lparr>rd_core := core\<rparr>) \<and>
      accounted (r\<lparr>rd_core := core\<rparr>) = accounted r \<and>
      finite_source_drained (rd_progress core) = finite_source_drained (rd_progress (rd_core r)) \<and>
      valid_range (rd_ledger (rd_core r)) c \<and>
      rd_ledger core = dropWhile (\<lambda>e. ce_id e \<le> c) (rd_ledger (rd_core r))"
    then obtain core where core: "on_sink_event f c next r = next (r\<lparr>rd_core := core\<rparr>)"
      "accounted (r\<lparr>rd_core := core\<rparr>) = accounted r" "\<not> finite_source_drained (rd_progress core)"
      using nf by auto
    have "marker_inv (r\<lparr>rd_core := core\<rparr>) bs"
      by (rule marker_inv_cong[OF inv run _ refl]) (use core nd run in auto)
    then show ?thesis using nxt core by simp
  next
    assume "\<exists>core e. on_sink_event f c next r = r\<lparr>rd_core := core, rd_phase := Reader_failed e\<rparr> \<and>
      rd_ledger core = rd_ledger (rd_core r) \<and> concat (rd_log core) = concat (rd_log (rd_core r)) \<and>
      finite_source_drained (rd_progress core) = finite_source_drained (rd_progress (rd_core r))"
    then show ?thesis
      using nf by (auto intro!: marker_inv_stop[OF inv run] simp: accounted_def reader_running_def)
  qed
qed

lemma marker_inv_enqueue:
  assumes inv: "marker_inv r bs" and run: "reader_running (rd_phase r)"
    and nd: "rd_phase r \<noteq> Completed FiniteSourceDrained"
    and hand: "in_hand (rd_phase r) = (case marker of None \<Rightarrow> [] | Some m \<Rightarrow> [m])"
  shows "marker_inv (enqueue payload marker memory messages r) bs"
  by (rule marker_inv_cong[OF inv run])
     (use hand marker_inv_not_drained[OF inv nd] in
      \<open>auto simp: enqueue_def accounted_def in_hand_def reader_running_def split: option.splits\<close>)

lemma marker_inv_admit_batch:
  assumes inv: "marker_inv r bs" and ph: "rd_phase r = Got b"
    and hand: "batch_markers b = (case marker of None \<Rightarrow> [] | Some m \<Rightarrow> [m])"
  shows "marker_inv (admit_batch cb payload memory marker bytes messages r) bs"
proof -
  have run: "reader_running (rd_phase r)" and nd: "rd_phase r \<noteq> Completed FiniteSourceDrained"
    using ph by (simp_all add: reader_running_def)
  note nf = marker_inv_not_drained[OF inv nd]
  have inv': "marker_inv (r\<lparr>rd_backoff := INITIAL_BACKOFF_MS\<rparr>) bs"
    by (rule marker_inv_cong[OF inv run _ refl]) (use nf run nd in auto)
  have "marker_inv (r\<lparr>rd_phase := Idle\<rparr>) bs" if "marker = None"
    by (rule marker_inv_cong[OF inv run _ refl])
       (use nf ph hand that in \<open>auto simp: in_hand_def reader_running_def\<close>)
  moreover have "marker_inv (r\<lparr>rd_backoff := INITIAL_BACKOFF_MS, rd_phase := Reserving payload marker messages\<rparr>) bs"
    by (rule marker_inv_cong[OF inv run _ refl])
       (use nf ph hand in \<open>auto simp: in_hand_def reader_running_def\<close>)
  moreover have "marker_inv (enqueue payload marker memory messages (r\<lparr>rd_backoff := INITIAL_BACKOFF_MS\<rparr>)) bs"
    by (rule marker_inv_enqueue[OF inv']) (use ph hand in \<open>auto simp: in_hand_def reader_running_def\<close>)
  ultimately show ?thesis
    by (auto simp: admit_batch_def Let_def)
qed

lemma marker_inv_on_batch:
  assumes "marker_inv r bs" "rd_phase r = Got b"
  shows "marker_inv (on_batch cb b r) bs"
proof (cases b)
  case SB_finished
  then show ?thesis
    using assms marker_inv_drained(1)[OF assms(1)] marker_inv_not_drained[OF assms(1)]
    by (simp add: on_batch_def reader_running_def in_hand_def batch_markers_def)
qed (use assms in \<open>auto simp: on_batch_def batch_markers_def intro!: marker_inv_admit_batch\<close>)

lemma reader_step_marker_inv:
  assumes inv: "marker_inv r bs"
    and step: "reader_step read_batch commit_offsets cb ev r = Some (r', out)"
  shows "marker_inv r' (bs @ batch_read ev r')"
proof -
  have nd: "rd_phase r \<noteq> Completed FiniteSourceDrained" and run: "reader_running (rd_phase r)"
    using step by (auto simp: reader_step_def reader_running_def split: reader_phase.splits reader_completion.splits)
  note nf = marker_inv_not_drained[OF inv nd]
  have stop: "marker_inv (r\<lparr>rd_phase := p\<rparr>) bs" if "\<not> reader_running p" for p
    by (rule marker_inv_stop[OF inv run]) (use that nf in auto)
  have cancel: "marker_inv (r\<lparr>rd_phase := Completed Cancelled\<rparr>) bs"
    and failed: "\<And>e. marker_inv (r\<lparr>rd_phase := Reader_failed e\<rparr>) bs"
    by (rule stop; simp add: reader_running_def)+
  have event: "marker_inv (on_sink_event commit_offsets c id r) bs" for c
    by (rule marker_inv_sink_event[OF inv run nd]) simp
  have event_drain: "marker_inv (on_sink_event commit_offsets c drain_check r) bs"
    "marker_inv (on_sink_event commit_offsets c barrier_check r) bs"
    "marker_inv (on_sink_event commit_offsets c back_off r) bs" if "in_hand (rd_phase r) = []" for c
    by (rule marker_inv_sink_event[OF inv run nd], rule marker_inv_drained; use that run in simp)+
  show ?thesis
  proof (cases "rd_phase r")
    case Reading
    have "marker_inv (r\<lparr>rd_core := (rd_core r)\<lparr>rd_source := src\<rparr>, rd_phase := Reader_failed e\<rparr>) bs" for src e
      by (rule marker_inv_stop[OF inv run]) (use nf in \<open>auto simp: reader_running_def accounted_def\<close>)
    moreover have "marker_inv (r\<lparr>rd_core := (rd_core r)\<lparr>rd_source := src\<rparr>, rd_phase := Got b\<rparr>) (bs @ [b])" for src b
      using inv nf Reading by (simp add: marker_inv_def reader_running_def in_hand_def accounted_def)
    ultimately show ?thesis
      using step Reading cancel
      by (cases ev) (auto simp: reader_step_def batch_read_def split: prod.splits sum.splits)
  next
    case (Got b)
    then show ?thesis
      using step event marker_inv_on_batch[OF inv Got]
      by (cases ev) (auto simp: reader_step_def batch_read_def)
  next
    case Idle
    have "marker_inv (back_off r) bs"
      by (rule marker_inv_drained(3)[OF inv run]) (use nf Idle in \<open>auto simp: in_hand_def\<close>)
    then show ?thesis
      using step Idle cancel event_drain(3)
      by (cases ev) (auto simp: reader_step_def batch_read_def in_hand_def)
  next
    case (Reserving payload marker messages)
    have "marker_inv (enqueue payload marker [l] messages r) bs" for l
      by (rule marker_inv_enqueue[OF inv run nd]) (simp add: Reserving in_hand_def)
    then show ?thesis
      using step Reserving cancel failed event
      by (cases ev) (auto simp: reader_step_def batch_read_def)
  next
    case (Sending env barrier)
    have "marker_inv (barrier_check r) bs"
      by (rule marker_inv_drained(2)[OF inv run]) (use nf Sending in \<open>auto simp: in_hand_def\<close>)
    moreover have "marker_inv (r\<lparr>rd_phase := Reading\<rparr>) bs"
      by (rule marker_inv_cong[OF inv run _ refl]) (use nf Sending in \<open>auto simp: in_hand_def reader_running_def\<close>)
    ultimately show ?thesis
      using step Sending cancel failed event
      by (cases ev) (auto simp: reader_step_def batch_read_def)
  qed (use step cancel failed event_drain in
       \<open>cases ev; auto simp: reader_step_def batch_read_def in_hand_def\<close>)+
qed

lemma reader_reach_marker_inv:
  "reader_reach read_batch commit_offsets cb r bs \<Longrightarrow> marker_inv r bs"
proof (induction rule: reader_reach.induct)
  case (reader_start src rows)
  then show ?case
    by (simp add: reader_init_def marker_inv_def reader_running_def in_hand_def accounted_def progress_new_def)
next
  case (reader_next r bs ev r' out)
  then show ?case by (intro reader_step_marker_inv)
qed

subsection \<open>What the parser puts into a delivery\<close>

definition batch_table :: "'v sink_batch \<Rightarrow> 'v table_data" where
  "batch_table b =
     \<lparr>td_namespace = sb_namespace b, td_table = sb_table b, td_is_dlq = sb_is_dlq b, td_schema = sb_schema b,
      td_batch = sb_batch b, td_system_columns = sb_system_columns b\<rparr>"

definition nonempty_table :: "'v table_data \<Rightarrow> bool" where
  "nonempty_table t \<longleftrightarrow> rb_num_rows (td_batch t) \<noteq> 0"

text \<open>
  The tables an envelope stands for, before the middlewares: what its payload holds or parses to, and the dead letter table of the
  parser.
\<close>

definition payload_tables ::
  "('p, 'v, 'x) parser_env \<Rightarrow> 'v read_envelope \<Rightarrow> 'p parser_state \<Rightarrow> ('v table_data list \<times> 'v table_data list) option" where
  "payload_tables env e st =
     (case re_payload e of
        P_typed tables \<Rightarrow> Some (tables, [])
      | P_raw messages \<Rightarrow>
          (case pe_parse_into env
                  (case ps_session st of
                     Some p \<Rightarrow> p
                   | None \<Rightarrow> pe_create_session env (mi_limit (ms_inner (ps_memory st)))) messages of
             Some (_, Inr (valid, dlq)) \<Rightarrow> Some (valid, case dlq of None \<Rightarrow> [] | Some d \<Rightarrow> [d])
           | _ \<Rightarrow> None)
      | P_dataset _ \<Rightarrow> None)"

text \<open>
  A table that passes all middlewares in order is a chain of tables, each the result of the next middleware; a dead letter table
  passes none.
\<close>

definition passes_through ::
  "('v table_data \<Rightarrow> ('x, 'v table_data) res) list \<Rightarrow> 'v table_data \<Rightarrow> 'v table_data \<Rightarrow> bool" where
  "passes_through ms t u \<longleftrightarrow>
     (\<exists>ts. length ts = Suc (length ms) \<and> ts ! 0 = t \<and> ts ! length ms = u \<and>
        (\<forall>k < length ms. (ms ! k) (ts ! k) = Inr (ts ! Suc k)))"

definition delivered_as ::
  "('v table_data \<Rightarrow> ('x, 'v table_data) res) list \<Rightarrow> 'v table_data \<Rightarrow> 'v table_data \<Rightarrow> bool" where
  "delivered_as ms t u \<longleftrightarrow> (if td_is_dlq t then u = t else passes_through ms t u)"

lemma run_middlewares_passes: "run_middlewares ms t = Inr u \<Longrightarrow> passes_through ms t u"
proof (induction ms arbitrary: t)
  case Nil
  then show ?case by (auto simp: passes_through_def intro!: exI[of _ "[u]"])
next
  case (Cons m ms)
  then obtain v where v: "m t = Inr v" "run_middlewares ms v = Inr u" by (auto simp: res_bind_Inr_iff)
  then obtain ts where ts: "length ts = Suc (length ms)" "ts ! 0 = v" "ts ! length ms = u"
    "\<forall>k < length ms. (ms ! k) (ts ! k) = Inr (ts ! Suc k)" using Cons.IH by (auto simp: passes_through_def)
  have "((m # ms) ! k) ((t # ts) ! k) = Inr ((t # ts) ! Suc k)" if "k < length (m # ms)" for k
    using that v(1) ts by (cases k) auto
  then show ?case unfolding passes_through_def using ts by (intro exI[of _ "t # ts"]) auto
qed

lemma apply_middlewares_delivered:
  "res_map (apply_middlewares ms) tables = Inr ts \<Longrightarrow> list_all2 (delivered_as ms) tables ts"
  unfolding res_map_Inr_iff
  by (erule list_all2_mono) (auto simp: apply_middlewares_def delivered_as_def run_middlewares_passes split: if_splits)

lemma saturating_add_eq_0 [simp]:
  fixes a b :: "'a::len word"
  shows "saturating_add a b = 0 \<longleftrightarrow> a = 0 \<and> b = 0"
proof -
  have "unat (saturating_add a b) = 0 \<longleftrightarrow> unat a = 0 \<and> unat b = 0"
    using one_less_power[of "2 :: nat" "LENGTH('a)"] by (auto simp: unat_saturating_add min_def split: if_splits)
  then show ?thesis by (simp add: unat_eq_zero)
qed

lemma saturating_sum_eq_0 [simp]: "saturating_sum ws = 0 \<longleftrightarrow> (\<forall>w \<in> set ws. w = 0)"
proof -
  have "fold (\<lambda>w acc. saturating_add acc w) ws a = 0 \<longleftrightarrow> a = 0 \<and> (\<forall>w \<in> set ws. w = 0)" for a
    by (induction ws arbitrary: a) auto
  then show ?thesis by (simp add: saturating_sum_def)
qed

lemma sink_batches_tables:
  "map batch_table (sink_batches (sized cb ts) (Some l)) = filter nonempty_table ts"
  by (induction ts) (auto simp: sink_batches_def sized_def map_filter_def make_sink_batch_def nonempty_table_def
      batch_table_def)

lemma saturating_rows_pos:
  "0 < saturating_sum (map (\<lambda>t. rb_num_rows (td_batch t)) ts) \<longleftrightarrow> filter nonempty_table ts \<noteq> []"
  "0 < saturating_sum (map (\<lambda>t. rb_num_rows (td_batch (fst t))) (sized cb ts)) \<longleftrightarrow>
     filter nonempty_table ts \<noteq> []"
  by (auto simp: word_gt_0 sized_def nonempty_table_def filter_empty_conv)

lemma sized_append: "sized cb ts @ sized cb us = sized cb (ts @ us)"
  by (simp add: sized_def)

lemma emit_delivery_data:
  assumes "emit_delivery env i n outputs l st = (st', Inr (In_data d))"
  shows "d = \<lparr>dl_id = i, dl_outputs = outputs, dl_source_messages = n\<rparr>"
  using assms by (auto simp: emit_delivery_def Let_def split: sum.splits)

lemma process_typed_data:
  assumes "process_typed env e tables st = Some (st', Inr (In_data d))"
  shows "dl_id d = re_id e \<and> dl_source_messages d = re_source_messages e \<and>
    (\<exists>ts. res_map (apply_middlewares (pe_middlewares env)) tables = Inr ts \<and>
       map batch_table (dl_outputs d) = filter nonempty_table ts)"
proof (cases "res_map (apply_middlewares (pe_middlewares env)) tables")
  case (Inl x)
  then show ?thesis using assms by (simp add: process_typed_def)
next
  case (Inr ts)
  show ?thesis
  proof (cases "sized (pe_column_bytes env) ts = []")
    case True
    then have "ts = []" by (simp add: sized_def)
    then show ?thesis using assms Inr True
      by (auto simp: process_typed_def Let_def dest!: emit_delivery_data)
  next
    case False
    then show ?thesis using assms Inr
      by (auto simp: process_typed_def Let_def sink_batches_tables split: option.splits dest!: emit_delivery_data)
  qed
qed

lemma process_raw_data:
  assumes "process_raw env e messages st = Some (st', Inr (In_data d))" "re_payload e = P_raw messages"
  shows "dl_id d = re_id e \<and> dl_source_messages d = re_source_messages e \<and>
    (\<exists>tables dlq ts. payload_tables env e st = Some (tables, dlq) \<and> list_all2 (delivered_as (pe_middlewares env)) tables ts \<and>
       map batch_table (dl_outputs d) = filter nonempty_table (ts @ dlq))"
proof -
  let ?p = "case ps_session st of Some p \<Rightarrow> p | None \<Rightarrow> pe_create_session env (mi_limit (ms_inner (ps_memory st)))"
  obtain p valid dlq where parse: "pe_parse_into env ?p messages = Some (p, Inr (valid, dlq))"
    using assms(1) unfolding process_raw_def Let_def
    by (auto split: option.splits sum.splits prod.splits if_splits)
  obtain ts where mw: "res_map (apply_middlewares (pe_middlewares env)) valid = Inr ts"
    using assms(1) parse unfolding process_raw_def Let_def
    by (auto split: option.splits sum.splits prod.splits if_splits)
  let ?dlq = "case dlq of None \<Rightarrow> [] | Some d \<Rightarrow> [d]"
  let ?all = "sized (pe_column_bytes env) (ts @ ?dlq)"
  have "\<exists>l st1. emit_delivery env (re_id e) (re_source_messages e) (sink_batches ?all l) l st1 = (st', Inr (In_data d)) \<and>
     (l = None \<longrightarrow> filter nonempty_table (ts @ ?dlq) = [])"
  proof (cases "filter nonempty_table ts = [] \<and> filter nonempty_table ?dlq = []")
    case True
    then show ?thesis
      using assms(1) parse mw unfolding process_raw_def Let_def sized_append saturating_rows_pos
      by (intro exI[of _ None]) (auto split: option.splits if_splits)
  next
    case False
    then have has: "(filter nonempty_table ts \<noteq> [] \<or> filter nonempty_table ?dlq \<noteq> []) = True" by blast
    show ?thesis
      using assms(1) parse mw unfolding process_raw_def Let_def sized_append saturating_rows_pos has
      by (auto split: option.splits if_splits)
  qed
  then obtain l st1 where
    em: "emit_delivery env (re_id e) (re_source_messages e) (sink_batches ?all l) l st1 = (st', Inr (In_data d))"
    and l: "l = None \<longrightarrow> filter nonempty_table (ts @ ?dlq) = []" by blast
  have "map batch_table (sink_batches ?all l) = filter nonempty_table (ts @ ?dlq)"
    using l by (cases l) (simp_all add: sink_batches_tables, simp add: sink_batches_def)
  then show ?thesis
    using emit_delivery_data[OF em] assms(2) parse apply_middlewares_delivered[OF mw] by (auto simp: payload_tables_def)
qed

lemma parser_process_data:
  assumes "parser_process env e st = Some (st', Inr (In_data d))"
  shows "dl_id d = re_id e \<and> dl_source_messages d = re_source_messages e \<and>
    (\<exists>tables dlq ts. payload_tables env e st = Some (tables, dlq) \<and> list_all2 (delivered_as (pe_middlewares env)) tables ts \<and>
       map batch_table (dl_outputs d) = filter nonempty_table (ts @ dlq))"
proof (cases "re_payload e")
  case (P_dataset x)
  then show ?thesis using assms by (auto simp: parser_process_def split: sum.splits if_splits)
next
  case (P_raw messages)
  then show ?thesis
    using assms process_raw_data[OF _ P_raw] by (auto simp: parser_process_def split: if_splits)
next
  case (P_typed tables)
  then show ?thesis
    using assms process_typed_data[of env e tables st st' d]
    by (auto simp: parser_process_def payload_tables_def split: if_splits dest: apply_middlewares_delivered)
qed

subsection \<open>Properties of reader and parser\<close>

text \<open>A source with a list of batches that finishes when they are used up.\<close>

definition example_table :: "unit table_data" where
  "example_table =
     \<lparr>td_namespace = None, td_table = ''t'', td_is_dlq = False, td_schema = [],
      td_batch = \<lparr>rb_schema = [], rb_num_rows = 2, rb_columns = []\<rparr>, td_system_columns = []\<rparr>"

fun example_read ::
  "(unit, nat) source_batch list \<Rightarrow>
   (unit, nat) source_batch list \<times> (unit pipe_msg failure, (unit, nat) source_batch) res" where
  "example_read [] = ([], Inr SB_finished)"
| "example_read (b # bs) = (bs, Inr b)"

definition example_commit ::
  "nat list \<Rightarrow> (unit, nat) source_batch list \<Rightarrow>
   (unit, nat) source_batch list \<times> (unit pipe_msg failure, unit) res" where
  "example_commit ms src = (src, Inr ())"

definition example_env :: "(unit, unit, unit) parser_env" where
  "example_env =
     \<lparr>pe_create_session = (\<lambda>_. ()), pe_output_memory_bound = (\<lambda>_ _. Some 1),
      pe_parse_into = (\<lambda>_ _. None), pe_middlewares = [], pe_column_bytes = (\<lambda>_. [16]), pe_evolving = False\<rparr>"

fun reader_run ::
  "('src, 'v, 'mk, 'x) read_fn \<Rightarrow> ('src, 'mk, 'x) commit_fn \<Rightarrow> ('v record_batch \<Rightarrow> usize list) \<Rightarrow>
   reader_event list \<Rightarrow> ('src, 'v, 'mk, 'x) reader \<Rightarrow> ('v, 'mk) source_batch list \<Rightarrow>
   (('src, 'v, 'mk, 'x) reader \<times> ('v, 'mk) source_batch list) option" where
  "reader_run f g cb [] r bs = Some (r, bs)"
| "reader_run f g cb (ev # evs) r bs =
     (case reader_step f g cb ev r of
        None \<Rightarrow> None
      | Some (r', _) \<Rightarrow> reader_run f g cb evs r' (bs @ batch_read ev r'))"

lemma reader_run_reach:
  "reader_run f g cb evs r bs = Some (r', bs') \<Longrightarrow> reader_reach f g cb r bs \<Longrightarrow> reader_reach f g cb r' bs'"
  by (induction evs arbitrary: r bs) (auto split: option.splits intro: reader_next)

definition example_source_batch :: "nat \<Rightarrow> (unit, nat) source_batch" where
  "example_source_batch m = SB_typed [example_table] 2 (Some m) []"

definition example_reader ::
  "reader_event list \<Rightarrow>
   (((unit, nat) source_batch list, unit, nat, unit) reader \<times> (unit, nat) source_batch list) option" where
  "example_reader evs =
     reader_run example_read example_commit (\<lambda>_. [16]) evs
       (reader_init [example_source_batch 7, example_source_batch 8] None) []"

lemma example_reader_reach:
  "example_reader evs = Some (r, bs) \<Longrightarrow> reader_reach example_read example_commit (\<lambda>_. [16]) r bs"
  unfolding example_reader_def by (erule reader_run_reach) (rule reader_start)

text \<open>
  Reader accounting. Whatever happens to the reader task, the markers it has committed to the
  source followed by the markers still in its ledger are a prefix of the markers read, in order: no
  offset is skipped, repeated or invented. When the reader completes because the finite source is
  drained, every marker read has been committed.
\<close>

theorem reader_markers_in_order:
  assumes "reader_reach read_batch commit_offsets column_bytes r bs"
  shows "prefix (concat (rd_log (rd_core r)) @ ledger_markers (rd_ledger (rd_core r))) (concat (map batch_markers bs)) \<and>
    (finite_source_drained (rd_progress (rd_core r)) \<longrightarrow>
       rd_ledger (rd_core r) = [] \<and> concat (rd_log (rd_core r)) = concat (map batch_markers bs))"
proof -
  have inv: "marker_inv r bs" by (rule reader_reach_marker_inv[OF assms])
  then have "prefix (accounted r) (concat (map batch_markers bs))"
    by (auto simp: marker_inv_def split: if_splits dest: sym)
  moreover have "rd_ledger (rd_core r) = [] \<and> accounted r = concat (map batch_markers bs)"
    if "finite_source_drained (rd_progress (rd_core r))"
    using inv that by (auto simp: marker_inv_def reader_running_def in_hand_def)
  ultimately show ?thesis by (auto simp: accounted_def)
qed

definition example_events :: "reader_event list" where
  "example_events =
     [Ev_read, Ev_empty, Ev_reserved 0, Ev_permit, Ev_read, Ev_empty, Ev_reserved 1, Ev_permit, Ev_read,
      Ev_sink 1, Ev_empty, Ev_sink 2]"

theorem reader_markers_in_order_witness:
  "\<exists>r bs. example_reader example_events = Some (r, bs) \<and> bs = [example_source_batch 7, example_source_batch 8, SB_finished] \<and>
     finite_source_drained (rd_progress (rd_core r)) \<and> concat (rd_log (rd_core r)) = [7, 8] \<and>
     concat (rd_log (rd_core r)) = concat (map batch_markers bs)"
proof -
  have "map_option (\<lambda>(r, bs). (bs, finite_source_drained (rd_progress (rd_core r)), concat (rd_log (rd_core r))))
      (example_reader example_events) = Some ([example_source_batch 7, example_source_batch 8, SB_finished], True, [7, 8])"
    by code_simp
  then obtain r bs where "example_reader example_events = Some (r, bs)"
    "bs = [example_source_batch 7, example_source_batch 8, SB_finished]" "finite_source_drained (rd_progress (rd_core r))"
    "concat (rd_log (rd_core r)) = [7, 8]"
    by auto
  moreover from this have "concat (rd_log (rd_core r)) = concat (map batch_markers bs)"
    using reader_markers_in_order[OF example_reader_reach] by blast
  ultimately show ?thesis by blast
qed

text \<open>
  C11 (parser outputs). A delivery the parser emits carries the id and the message count of its
  envelope, and its outputs are exactly the non-empty ones of the following tables, in order: each typed or
  parsed table as it comes out of the whole chain of middlewares, or unchanged if it is a dead letter table, and then the dead
  letter table of the parser, unchanged.
\<close>

theorem parser_delivery_outputs:
  assumes "parser_process env e st = Some (st', Inr (In_data d))"
  shows "dl_id d = re_id e \<and> dl_source_messages d = re_source_messages e \<and>
    (\<exists>tables dlq ts. payload_tables env e st = Some (tables, dlq) \<and> list_all2 (delivered_as (pe_middlewares env)) tables ts \<and>
       map batch_table (dl_outputs d) = filter nonempty_table (ts @ dlq))"
  by (rule parser_process_data[OF assms])

definition example_parser :: "unit parser_state" where
  "example_parser =
     \<lparr>ps_session = None, ps_pressured = False, ps_memory = example_mem [Reserve 16],
      ps_rows = Some \<lparr>rc_committed = [((False, ''t''), 0)], rc_pending = []\<rparr>,
      ps_counters = \<lparr>pc_rows = 0, pc_arrow_bytes = 0, pc_source_messages = 0, pc_dlq_rows = 0\<rparr>\<rparr>"

text \<open>A middleware that renames tables, a payload with a dead letter table and one with an empty table.\<close>

definition example_rename :: "unit table_data \<Rightarrow> (unit, unit table_data) res" where
  "example_rename t = Inr (t\<lparr>td_table := td_table t @ ''_new''\<rparr>)"

definition example_middleware_env :: "(unit, unit, unit) parser_env" where
  "example_middleware_env = example_env\<lparr>pe_middlewares := [example_rename, example_rename]\<rparr>"

definition example_middleware_parser :: "unit parser_state" where
  "example_middleware_parser =
     example_parser\<lparr>ps_rows := Some \<lparr>rc_committed = [((False, ''t_new_new''), 0), ((True, ''t''), 0)], rc_pending = []\<rparr>\<rparr>"

definition example_envelope :: "unit read_envelope" where
  "example_envelope =
     \<lparr>re_id = 1,
      re_payload =
        P_typed [example_table, example_table\<lparr>td_is_dlq := True\<rparr>,
                 example_table\<lparr>td_batch := (td_batch example_table)\<lparr>rb_num_rows := 0\<rparr>\<rparr>],
      re_memory = [0], re_source_messages = 2\<rparr>"

definition delivery_of ::
  "('p parser_state \<times> ('x pipe_msg anyhow, 'v sink_input) res) option \<Rightarrow> 'v delivery option" where
  "delivery_of out = (case out of Some (_, Inr (In_data d)) \<Rightarrow> Some d | _ \<Rightarrow> None)"

lemma delivery_of_SomeD: "delivery_of out = Some d \<Longrightarrow> \<exists>st'. out = Some (st', Inr (In_data d))"
  by (auto simp: delivery_of_def split: option.splits prod.splits sum.splits sink_input.splits)

theorem parser_delivery_outputs_witness:
  "\<exists>st' d ts. parser_process example_middleware_env example_envelope example_middleware_parser = Some (st', Inr (In_data d)) \<and>
     dl_id d = 1 \<and> dl_source_messages d = 2 \<and> map sb_table (dl_outputs d) = [''t_new_new'', ''t''] \<and>
     map batch_table (dl_outputs d) = filter nonempty_table ts \<and> ts ! 1 = example_table\<lparr>td_is_dlq := True\<rparr>"
proof -
  have "map_option (\<lambda>d. map sb_table (dl_outputs d))
      (delivery_of (parser_process example_middleware_env example_envelope example_middleware_parser)) = Some [''t_new_new'', ''t'']"
    by code_simp
  then obtain st' d where d: "parser_process example_middleware_env example_envelope example_middleware_parser = Some (st', Inr (In_data d))"
    "map sb_table (dl_outputs d) = [''t_new_new'', ''t'']"
    by (auto dest: delivery_of_SomeD)
  obtain tables dlq ts where ts: "dl_id d = 1" "dl_source_messages d = 2"
    "payload_tables example_middleware_env example_envelope example_middleware_parser = Some (tables, dlq)"
    "list_all2 (delivered_as (pe_middlewares example_middleware_env)) tables ts"
    "map batch_table (dl_outputs d) = filter nonempty_table (ts @ dlq)"
    using parser_delivery_outputs[OF d(1)] by (auto simp: example_envelope_def)
  have "tables = [example_table, example_table\<lparr>td_is_dlq := True\<rparr>,
      example_table\<lparr>td_batch := (td_batch example_table)\<lparr>rb_num_rows := 0\<rparr>\<rparr>]" "dlq = []"
    using ts(3) by (auto simp: payload_tables_def example_envelope_def)
  then have "delivered_as (pe_middlewares example_middleware_env) (example_table\<lparr>td_is_dlq := True\<rparr>) (ts ! 1)"
    using ts(4) list_all2_nthD[OF ts(4), of 1] by simp
  then have "ts ! 1 = example_table\<lparr>td_is_dlq := True\<rparr>" by (simp add: delivered_as_def)
  then show ?thesis using d ts \<open>dlq = []\<close> by auto
qed

end
