(* ===== verification/Pipeline_System.thy ===== *)
theory Pipeline_System
  imports Pipeline
begin

section \<open>The composed pipeline: end-to-end durability\<close>

text \<open>
  Reader, parser and sink of one partition connected by bounded channels, as
  \<^verbatim>\<open>run_partition_pipeline_with_progress_and_row_counts\<close> connects them for a fixed set of datasets. The
  sink is any sink that does its completion accounting with \<^verbatim>\<open>DeliveryTracker\<close>: it receives
  deliveries in channel order, decides how many units each has, completes units in any order and
  reports what \<^verbatim>\<open>take_committed\<close> returns. Delivery ids are assumed not to reach \<^verbatim>\<open>u64::MAX\<close>, where
  \<^verbatim>\<open>DeliveryId::next\<close> saturates. \<open>sy_ops\<close> and \<open>sy_hist\<close> record the history: the tracker calls of the
  sink and the ledger entries ever made by the reader.
\<close>

record ('src, 'v, 'mk, 'x, 'p) pipeline_sys =
  sy_reader :: "('src, 'v, 'mk, 'x) reader"
  sy_in :: "'v read_envelope list"
  sy_parser :: "'p parser_state"
  sy_out :: "'v delivery list"
  sy_tracker :: delivery_tracker
  sy_events :: "delivery_id list"
  sy_ops :: "tracker_op list"
  sy_hist :: "'mk commit_entry list"

definition share_rows ::
  "output_row_counts option \<Rightarrow> ('src, 'v, 'mk, 'x) reader \<Rightarrow> ('src, 'v, 'mk, 'x) reader" where
  "share_rows rows r = r\<lparr>rd_core := (rd_core r)\<lparr>rd_rows := rows\<rparr>\<rparr>"

text \<open>The entry a step has added to the ledger.\<close>

definition new_entries ::
  "('src, 'v, 'mk, 'x) reader \<Rightarrow> ('src, 'v, 'mk, 'x) reader \<Rightarrow> 'mk commit_entry list" where
  "new_entries r r' =
     (if rd_next_id r' = rd_next_id r then [] else [last (rd_ledger (rd_core r'))])"

text \<open>Which reader events the channels allow, and what they consume.\<close>

definition channel_allows :: "reader_event \<Rightarrow> delivery_id list \<Rightarrow> 'e list \<Rightarrow> bool" where
  "channel_allows ev events inq =
     (case ev of
        Ev_sink c \<Rightarrow> events \<noteq> [] \<and> hd events = c
      | Ev_empty \<Rightarrow> events = []
      | Ev_permit \<Rightarrow> length inq < CHANNEL_CAPACITY
      | _ \<Rightarrow> True)"

definition after_event :: "reader_event \<Rightarrow> delivery_id list \<Rightarrow> delivery_id list" where
  "after_event ev events = (case ev of Ev_sink _ \<Rightarrow> tl events | _ \<Rightarrow> events)"

inductive sys_step ::
  "('src, 'v, 'mk, 'x) read_fn \<Rightarrow> ('src, 'mk, 'x) commit_fn \<Rightarrow> ('p, 'v, 'x) parser_env \<Rightarrow>
   ('src, 'v, 'mk, 'x, 'p) pipeline_sys \<Rightarrow> ('src, 'v, 'mk, 'x, 'p) pipeline_sys \<Rightarrow> bool"
  for read_batch commit_offsets env where
  sys_reader:
    "channel_allows ev (sy_events s) (sy_in s) \<Longrightarrow> rd_next_id (sy_reader s) \<noteq> - 1 \<Longrightarrow>
     reader_step read_batch commit_offsets (pe_column_bytes env) ev (sy_reader s) = Some (r', out) \<Longrightarrow>
     sys_step read_batch commit_offsets env s
       (s\<lparr>sy_reader := r',
          sy_in := sy_in s @ (case out of None \<Rightarrow> [] | Some e \<Rightarrow> [e]),
          sy_events := after_event ev (sy_events s),
          sy_parser := (sy_parser s)\<lparr>ps_rows := rd_rows (rd_core r')\<rparr>,
          sy_hist := sy_hist s @ new_entries (sy_reader s) r'\<rparr>)"
| sys_parser:
    "sy_in s = e # rest \<Longrightarrow> length (sy_out s) < CHANNEL_CAPACITY \<Longrightarrow>
     parser_process env e (sy_parser s) = Some (st', Inr (In_data d)) \<Longrightarrow>
     sys_step read_batch commit_offsets env s
       (s\<lparr>sy_in := rest, sy_parser := st', sy_out := sy_out s @ [d],
          sy_reader := share_rows (ps_rows st') (sy_reader s)\<rparr>)"
| sys_receive:
    "sy_out s = d # rest \<Longrightarrow> accept (dl_id d) units (dl_source_messages d) (sy_tracker s) = Inr t' \<Longrightarrow>
     sys_step read_batch commit_offsets env s
       (s\<lparr>sy_out := rest, sy_tracker := t',
          sy_ops := sy_ops s @ [Op_accept (dl_id d) units (dl_source_messages d)]\<rparr>)"
| sys_complete:
    "complete i units (sy_tracker s) = Inr t' \<Longrightarrow>
     sys_step read_batch commit_offsets env s
       (s\<lparr>sy_tracker := t', sy_ops := sy_ops s @ [Op_complete i units]\<rparr>)"
| sys_report:
    "take_committed (sy_tracker s) = (t', Some c) \<Longrightarrow> length (sy_events s) < CHANNEL_CAPACITY \<Longrightarrow>
     sys_step read_batch commit_offsets env s
       (s\<lparr>sy_tracker := t', sy_events := sy_events s @ [through c], sy_ops := sy_ops s @ [Op_take]\<rparr>)"

definition sys_init ::
  "'src \<Rightarrow> 'p parser_state \<Rightarrow> ('src, 'v, 'mk, 'x, 'p) pipeline_sys" where
  "sys_init src ps =
     \<lparr>sy_reader = reader_init src (ps_rows ps), sy_in = [], sy_parser = ps, sy_out = [],
      sy_tracker = tracker_new, sy_events = [], sy_ops = [], sy_hist = []\<rparr>"

inductive sys_reach ::
  "('src, 'v, 'mk, 'x) read_fn \<Rightarrow> ('src, 'mk, 'x) commit_fn \<Rightarrow> ('p, 'v, 'x) parser_env \<Rightarrow>
   ('src, 'v, 'mk, 'x, 'p) pipeline_sys \<Rightarrow> bool"
  for read_batch commit_offsets env where
  sys_start: "sys_reach read_batch commit_offsets env (sys_init src ps)"
| sys_more:
    "sys_reach read_batch commit_offsets env s \<Longrightarrow> sys_step read_batch commit_offsets env s s' \<Longrightarrow>
     sys_reach read_batch commit_offsets env s'"

subsection \<open>What a reader step does to the ledger\<close>

definition sending_ids :: "('v, 'mk, 'x) reader_phase \<Rightarrow> delivery_id list" where
  "sending_ids p = (case p of Sending env _ \<Rightarrow> [re_id env] | _ \<Rightarrow> [])"

definition live :: "('v, 'mk, 'x) reader_phase \<Rightarrow> bool" where
  "live p \<longleftrightarrow> (case p of Completed _ \<Rightarrow> False | Reader_failed _ \<Rightarrow> False | _ \<Rightarrow> True)"

abbreviation ledger :: "('src, 'v, 'mk, 'x) reader \<Rightarrow> 'mk commit_entry list" where
  "ledger r \<equiv> rd_ledger (rd_core r)"

abbreviation committed_markers :: "('src, 'v, 'mk, 'x) reader \<Rightarrow> 'mk list" where
  "committed_markers r \<equiv> concat (rd_log (rd_core r))"

definition same_ledger :: "('src, 'v, 'mk, 'x) reader \<Rightarrow> ('src, 'v, 'mk, 'x) reader \<Rightarrow> bool" where
  "same_ledger r r' \<longleftrightarrow> ledger r' = ledger r \<and> committed_markers r' = committed_markers r"

text \<open>The five effects: nothing, stopping, entering a delivery, sending it, committing a prefix.\<close>

inductive reader_effect ::
  "('src, 'v, 'mk, 'x) reader \<Rightarrow> reader_event \<Rightarrow> ('src, 'v, 'mk, 'x) reader \<Rightarrow> 'v read_envelope option \<Rightarrow> bool"
  where
  eff_none:
    "same_ledger r r' \<Longrightarrow> rd_next_id r' = rd_next_id r \<Longrightarrow> \<forall>c. ev \<noteq> Ev_sink c \<Longrightarrow>
     sending_ids (rd_phase r') = sending_ids (rd_phase r) \<Longrightarrow>
     rd_phase r' = Completed FiniteSourceDrained \<longrightarrow> ledger r' = [] \<Longrightarrow>
     reader_effect r ev r' None"
| eff_stop:
    "same_ledger r r' \<Longrightarrow> rd_next_id r' = rd_next_id r \<Longrightarrow> \<not> live (rd_phase r') \<Longrightarrow>
     rd_phase r' \<noteq> Completed FiniteSourceDrained \<Longrightarrow>
     (\<forall>c. ev = Ev_sink c \<longrightarrow> (\<exists>e. rd_phase r' = Reader_failed e)) \<Longrightarrow>
     reader_effect r ev r' None"
| eff_enqueue:
    "ledger r' = ledger r @ [e] \<Longrightarrow> ce_id e = rd_next_id r \<Longrightarrow>
     committed_markers r' = committed_markers r \<Longrightarrow> rd_next_id r' = delivery_id_next (rd_next_id r) \<Longrightarrow>
     sending_ids (rd_phase r) = [] \<Longrightarrow> sending_ids (rd_phase r') = [rd_next_id r] \<Longrightarrow> \<forall>c. ev \<noteq> Ev_sink c \<Longrightarrow>
     live (rd_phase r') \<Longrightarrow>
     reader_effect r ev r' None"
| eff_send:
    "same_ledger r r' \<Longrightarrow> rd_next_id r' = rd_next_id r \<Longrightarrow> sending_ids (rd_phase r) = [re_id env] \<Longrightarrow>
     sending_ids (rd_phase r') = [] \<Longrightarrow> \<forall>c. ev \<noteq> Ev_sink c \<Longrightarrow> live (rd_phase r') \<Longrightarrow>
     reader_effect r ev r' (Some env)"
| eff_commit:
    "valid_range (ledger r) c \<Longrightarrow> ledger r' = dropWhile (\<lambda>e. ce_id e \<le> c) (ledger r) \<Longrightarrow>
     committed_markers r' = committed_markers r @ ledger_markers (takeWhile (\<lambda>e. ce_id e \<le> c) (ledger r)) \<Longrightarrow>
     rd_next_id r' = rd_next_id r \<Longrightarrow> sending_ids (rd_phase r') = sending_ids (rd_phase r) \<Longrightarrow>
     rd_phase r' = Completed FiniteSourceDrained \<longrightarrow> ledger r' = [] \<Longrightarrow>
     (\<forall>e. rd_phase r' \<noteq> Reader_failed e) \<Longrightarrow> rd_phase r' \<noteq> Completed Cancelled \<Longrightarrow>
     reader_effect r (Ev_sink c) r' None"

inductive_cases reader_effectE: "reader_effect r ev r' out"

lemma on_sink_event_effect:
  assumes "live (rd_phase r)"
    and nxt: "\<And>core. let r1 = r\<lparr>rd_core := core\<rparr>; r2 = next r1 in
       same_ledger r1 r2 \<and> rd_next_id r2 = rd_next_id r \<and>
       sending_ids (rd_phase r2) = sending_ids (rd_phase r) \<and>
       (rd_phase r2 = Completed FiniteSourceDrained \<longrightarrow> rd_ledger core = []) \<and>
       (\<forall>e. rd_phase r2 \<noteq> Reader_failed e) \<and> rd_phase r2 \<noteq> Completed Cancelled"
  shows "reader_effect r (Ev_sink c) (on_sink_event f c next r) None"
proof -
  obtain core res where ct: "commit_through f c (rd_core r) = (core, res)" by fastforce
  note cases = commit_through_cases[OF ct]
  show ?thesis
  proof (cases res)
    case (Inl e)
    then show ?thesis
      using ct cases
      by (intro eff_stop) (auto simp: on_sink_event_def same_ledger_def live_def)
  next
    case (Inr u)
    then have r': "on_sink_event f c next r = next (r\<lparr>rd_core := core\<rparr>)"
      using ct by (simp add: on_sink_event_def)
    show ?thesis
      unfolding r' using cases Inr nxt[of core]
      by (intro eff_commit) (auto simp: Let_def same_ledger_def)
  qed
qed

lemma enqueue_effect:
  "sending_ids (rd_phase r) = [] \<Longrightarrow> \<forall>c. ev \<noteq> Ev_sink c \<Longrightarrow>
   reader_effect r ev (enqueue payload marker memory messages r) None"
  by (rule eff_enqueue[where e = "\<lparr>ce_id = rd_next_id r, ce_marker = marker\<rparr>"])
     (auto simp: enqueue_def sending_ids_def live_def)

lemma effect_backoff:
  assumes "reader_effect (r\<lparr>rd_backoff := b\<rparr>) ev r' out"
  shows "reader_effect r ev r' out"
  using assms
proof (cases rule: reader_effect.cases)
  case (eff_enqueue e)
  then show ?thesis by (simp add: reader_effect.eff_enqueue)
next
  case (eff_commit c)
  then show ?thesis by (simp add: reader_effect.eff_commit)
qed (auto simp: same_ledger_def intro: reader_effect.eff_none reader_effect.eff_stop reader_effect.eff_send)

lemma on_batch_effect:
  assumes "rd_phase r = Got b"
  shows "reader_effect r Ev_empty (on_batch cb b r) None"
proof -
  have snd: "sending_ids (rd_phase r) = []" using assms by (simp add: sending_ids_def)
  have idle: "reader_effect r Ev_empty (r\<lparr>rd_phase := Idle\<rparr>) None"
    "reader_effect r Ev_empty (r\<lparr>rd_backoff := x, rd_phase := Reserving p m n\<rparr>) None" for x p m n
    by (rule eff_none; auto simp: same_ledger_def sending_ids_def assms)+
  have enq: "reader_effect r Ev_empty (enqueue p m mem n (r\<lparr>rd_backoff := x\<rparr>)) None" for p m mem n x
    by (rule effect_backoff[where b = x], rule enqueue_effect) (auto simp: snd)
  have admit: "reader_effect r Ev_empty (admit_batch cb p mem m x n r) None" for p mem m x n
    using idle enq by (auto simp: admit_batch_def Let_def)
  have "reader_effect r Ev_empty (drain_check r) None"
    by (rule eff_none) (auto simp: drain_check_def same_ledger_def sending_ids_def assms)
  with admit show ?thesis by (cases b) (auto simp: on_batch_def)
qed

lemma reader_step_effect:
  assumes step: "reader_step read_batch commit_offsets cb ev r = Some (r', out)"
  shows "live (rd_phase r)" "reader_effect r ev r' out"
proof -
  show lv: "live (rd_phase r)"
    using step by (auto simp: reader_step_def live_def split: reader_phase.splits)
  have stop: "reader_effect r ev (r\<lparr>rd_phase := p\<rparr>) None"
    if "p = Completed Cancelled \<or> (\<exists>e. p = Reader_failed e)" "\<forall>c. ev \<noteq> Ev_sink c" for p
    by (rule eff_stop) (use that in \<open>auto simp: same_ledger_def live_def\<close>)
  have event: "reader_effect r (Ev_sink c) (on_sink_event commit_offsets c id r) None" for c
    by (rule on_sink_event_effect[OF lv]) (use lv in \<open>auto simp: Let_def same_ledger_def live_def\<close>)
  have drain: "reader_effect r (Ev_sink c) (on_sink_event commit_offsets c drain_check r) None"
    "reader_effect r (Ev_sink c) (on_sink_event commit_offsets c barrier_check r) None"
    "reader_effect r (Ev_sink c) (on_sink_event commit_offsets c back_off r) None"
    if "sending_ids (rd_phase r) = []" for c
    by (rule on_sink_event_effect[OF lv];
        use that in \<open>auto simp: Let_def same_ledger_def drain_check_def barrier_check_def back_off_def
          sending_ids_def\<close>)+
  show "reader_effect r ev r' out"
  proof (cases "rd_phase r")
    case Reading
    have "reader_effect r Ev_read (r\<lparr>rd_core := (rd_core r)\<lparr>rd_source := src\<rparr>, rd_phase := Reader_failed e\<rparr>) None"
      "reader_effect r Ev_read (r\<lparr>rd_core := (rd_core r)\<lparr>rd_source := src\<rparr>, rd_phase := Got b\<rparr>) None" for src e b
      by (rule eff_stop eff_none; auto simp: same_ledger_def live_def sending_ids_def Reading)+
    then show ?thesis
      using step Reading stop
      by (cases ev) (auto simp: reader_step_def split: prod.splits sum.splits)
  next
    case (Got b)
    then show ?thesis
      using step event on_batch_effect[OF Got] by (cases ev) (auto simp: reader_step_def)
  next
    case Idle
    have "\<forall>c. ev \<noteq> Ev_sink c \<Longrightarrow> reader_effect r ev (back_off r) None"
      by (rule eff_none) (auto simp: same_ledger_def back_off_def sending_ids_def Idle)
    then show ?thesis
      using step Idle stop drain(3) by (cases ev) (auto simp: reader_step_def sending_ids_def)
  next
    case (Reserving payload marker messages)
    have "reader_effect r (Ev_reserved l) (enqueue payload marker [l] messages r) None" for l
      by (rule enqueue_effect) (auto simp: sending_ids_def Reserving)
    then show ?thesis
      using step Reserving stop event by (cases ev) (auto simp: reader_step_def)
  next
    case (Sending env barrier)
    have "reader_effect r Ev_permit (barrier_check r) (Some env)"
      "reader_effect r Ev_permit (r\<lparr>rd_phase := Reading\<rparr>) (Some env)"
      by (rule eff_send; auto simp: same_ledger_def barrier_check_def sending_ids_def live_def Sending)+
    then show ?thesis
      using step Sending stop event by (cases ev) (auto simp: reader_step_def)
  qed (use step stop drain in \<open>cases ev; auto simp: reader_step_def sending_ids_def\<close>)+
qed

subsection \<open>Lists of consecutive ids\<close>

lemma upt_takeWhile:
  assumes "map f L = [a ..< b]" "a \<le> k" "k < b"
  shows "length (takeWhile (\<lambda>e. f e \<le> k) L) = Suc k - a \<and> map f (dropWhile (\<lambda>e. f e \<le> k) L) = [Suc k ..< b]"
  using assms
proof (induction L arbitrary: a)
  case (Cons e L)
  then have e: "f e = a" and L: "map f L = [Suc a ..< b]"
    by (auto simp: upt_conv_Cons simp del: upt_Suc)
  show ?case
  proof (cases "a = k")
    case True
    have "takeWhile (\<lambda>e. f e \<le> k) L = [] \<and> dropWhile (\<lambda>e. f e \<le> k) L = L"
    proof (cases L)
      case (Cons y ys)
      then have "f y = Suc a" using L upt_eq_Cons_conv[of "Suc a" b "f y" "map f ys"] by simp
      then show ?thesis using Cons True by simp
    qed simp
    then show ?thesis using e L True by simp
  next
    case False
    then show ?thesis
      using Cons.IH[OF L] Cons.prems e by auto
  qed
next
  case Nil
  then have "[a ..< b] = []" by simp
  then show ?case using Nil by simp
qed

lemma upt_Cons_map: "map f (x # xs) = [a ..< b] \<longleftrightarrow> f x = a \<and> a < b \<and> map f xs = [Suc a ..< b]"
  unfolding list.map(2) using upt_eq_Cons_conv[of a b "f x" "map f xs"] by (metis Suc_eq_plus1)

lemma upt_append_map:
  assumes "map f (xs @ ys) = [a ..< b]"
  shows "map f xs = [a ..< a + length xs]" "map f ys = [a + length xs ..< b]" "a \<le> b \<Longrightarrow> a + length xs \<le> b"
proof -
  have "length xs + length ys = b - a"
    using arg_cong[OF assms, of length] by simp
  then have le: "xs = [] \<or> a + length xs \<le> b" by (cases xs) auto
  then show "a \<le> b \<Longrightarrow> a + length xs \<le> b" by auto
  have "map f xs = take (length xs) [a ..< b]" "map f ys = drop (length xs) [a ..< b]"
    unfolding assms[symmetric] by simp_all
  then show "map f xs = [a ..< a + length xs]" "map f ys = [a + length xs ..< b]"
    using le by (auto simp: take_upt)
qed

lemma run_ops_append:
  "run_ops f g h (ops @ ops') s =
     res_bind (run_ops f g h ops s)
       (\<lambda>(s', log). res_bind (run_ops f g h ops' s') (\<lambda>(s'', log'). Inr (s'', log @ log')))"
proof (induction f g h ops s rule: run_ops.induct)
  case (1 acc cmpl tk s)
  then show ?case by (cases "run_ops acc cmpl tk ops' s") auto
next
  case (2 acc cmpl tk i r m ops s)
  then show ?case by (cases "acc i r m s") auto
next
  case (3 acc cmpl tk i u ops s)
  then show ?case by (cases "cmpl i u s") auto
next
  case (4 acc cmpl tk ops s)
  obtain s1 c where t: "tk s = (s1, c)" by fastforce
  show ?case
    using 4 t by (cases "run_ops acc cmpl tk ops s1"; cases c) (auto split: sum.splits simp: res_bind_def)
qed

lemma ids_fresh_append [simp]: "ids_fresh (ops @ ops') \<longleftrightarrow> ids_fresh ops \<and> ids_fresh ops'"
  by (induction ops rule: ids_fresh.induct) auto

subsection \<open>The system invariant\<close>

text \<open>
  \<open>done\<close> are the entries already committed to the source. The ids between the sink and the reader are
  consecutive, the reported positions lie in the ledger, and the tracker is where its history says.
\<close>

definition in_flight :: "('src, 'v, 'mk, 'x, 'p) pipeline_sys \<Rightarrow> delivery_id list" where
  "in_flight s = map dl_id (sy_out s) @ map re_id (sy_in s) @ sending_ids (rd_phase (sy_reader s))"

definition events_ok :: "nat \<Rightarrow> delivery_id list \<Rightarrow> nat \<Rightarrow> bool" where
  "events_ok a events nc \<longleftrightarrow>
     sorted_wrt (<) events \<and> (\<forall>e \<in> set events. a \<le> unat e) \<and>
     (if events = [] then a = nc else Suc (unat (last events)) = nc)"

definition sys_inv_at :: "('src, 'v, 'mk, 'x, 'p) pipeline_sys \<Rightarrow> 'mk commit_entry list \<Rightarrow> nat \<Rightarrow> bool" where
  "sys_inv_at s done m \<longleftrightarrow>
     (let r = sy_reader s; t = sy_tracker s; n = unat (rd_next_id r) in
      tracker_inv t \<and> ids_fresh (sy_ops s) \<and>
      (\<exists>log. run_ops accept complete take_committed (sy_ops s) tracker_new = Inr (t, log)) \<and>
      sy_hist s = done @ ledger r \<and> map (unat \<circ> ce_id) (done @ ledger r) = [1 ..< n] \<and> 1 \<le> n \<and>
      committed_markers r = ledger_markers done \<and>
      m \<le> n \<and> (live (rd_phase r) \<or> rd_phase r = Completed FiniteSourceDrained \<longrightarrow> m = n) \<and>
      unat (next_received t) \<le> m \<and> map unat (in_flight s) = [unat (next_received t) ..< m] \<and>
      Suc (length done) \<le> unat (next_commit t) \<and>
      ((\<forall>e. rd_phase r \<noteq> Reader_failed e) \<longrightarrow>
         events_ok (Suc (length done)) (sy_events s) (unat (next_commit t))) \<and>
      (rd_phase r = Completed FiniteSourceDrained \<longrightarrow> ledger r = []))"

definition sys_inv :: "('src, 'v, 'mk, 'x, 'p) pipeline_sys \<Rightarrow> bool" where
  "sys_inv s \<longleftrightarrow> (\<exists>done m. sys_inv_at s done m)"

lemma events_ok_report:
  assumes "events_ok a events nc" "nc \<le> unat c" "a \<le> nc"
  shows "events_ok a (events @ [c]) (Suc (unat c))"
proof -
  have "e < c" if "e \<in> set events" for e
  proof -
    have "sorted_wrt (<) (map unat events)"
      using assms(1) sorted_wrt_mono_rel[of events "(<)" "\<lambda>x y. unat x < unat y"]
      by (simp add: events_ok_def sorted_wrt_map word_less_nat_alt)
    then have "unat e \<le> unat (last events)"
      using sorted_le_last[of unat events e] that by simp
    moreover have "Suc (unat (last events)) = nc"
      using assms(1) that by (auto simp: events_ok_def split: if_splits)
    ultimately show ?thesis using assms(2) by (simp add: word_less_nat_alt)
  qed
  then show ?thesis
    using assms by (auto simp: events_ok_def sorted_wrt_append)
qed

lemma events_ok_commit:
  assumes "events_ok a (c # rest) nc"
  shows "events_ok (Suc (unat c)) rest nc"
  using assms by (auto simp: events_ok_def word_less_nat_alt split: if_splits)

lemma take_committed_next:
  assumes "tracker_inv t" "take_committed t = (t', Some c)"
  shows "unat (next_commit t) \<le> unat (through c)" "unat (next_commit t') = Suc (unat (through c))"
    and "next_received t' = next_received t"
proof -
  note ref = take_committed_refines[OF assms]
  have taken: "spec_taken (tracker_abs t) \<noteq> []" using ref(3) by simp
  then have len: "0 < length (spec_taken (tracker_abs t))" by simp
  have base: "fst (tracker_abs t) = unat (next_commit t)" "fst (tracker_abs t') = unat (next_commit t')"
    by (simp_all add: tracker_abs_def)
  show "unat (next_commit t) \<le> unat (through c)"
    using ref(4)[OF refl] len base by linarith
  have "fst (tracker_abs t') = fst (tracker_abs t) + length (spec_taken (tracker_abs t))"
    using ref(2) by (simp add: spec_take_def spec_taken_def)
  then show nc: "unat (next_commit t') = Suc (unat (through c))"
    using ref(4)[OF refl] base by simp
  have "length (snd (tracker_abs t)) =
      length (spec_taken (tracker_abs t)) + length (snd (tracker_abs t'))"
    using ref(2) unfolding spec_take_def spec_taken_def
    by (metis length_append snd_conv takeWhile_dropWhile_id)
  then have "length (entries t) = length (spec_taken (tracker_abs t)) + length (entries t')"
    by (simp add: tracker_abs_def)
  then have "unat (next_received t') = unat (next_received t)"
    using ref(1) assms(1) nc ref(4)[OF refl] base unfolding tracker_inv_alt by linarith
  then show "next_received t' = next_received t" by (simp add: word_unat_eq_iff)
qed

lemma run_ops_snoc:
  assumes "run_ops accept complete take_committed ops tracker_new = Inr (t, log)"
    and "run_ops accept complete take_committed [op] t = Inr (t', log')"
  shows "\<exists>log''. run_ops accept complete take_committed (ops @ [op]) tracker_new = Inr (t', log'')"
  using assms by (simp add: run_ops_append)

lemma sys_inv_sink:
  assumes inv: "sys_inv_at s done m" and t': "tracker_inv t'"
    and op: "run_ops accept complete take_committed [op] (sy_tracker s) = Inr (t', lg)" "ids_fresh [op]"
    and nc: "unat (next_commit t') = unat (next_commit (sy_tracker s)) \<and> sy_events s' = sy_events s \<or>
      (\<exists>c. sy_events s' = sy_events s @ [c] \<and> unat (next_commit (sy_tracker s)) \<le> unat c \<and>
           unat (next_commit t') = Suc (unat c))"
    and fl: "unat (next_received t') \<le> m" "map unat (in_flight s') = [unat (next_received t') ..< m]"
    and s': "sy_reader s' = sy_reader s" "sy_hist s' = sy_hist s" "sy_tracker s' = t'" "sy_ops s' = sy_ops s @ [op]"
  shows "sys_inv_at s' done m"
proof -
  have run: "\<exists>log. run_ops accept complete take_committed (sy_ops s') tracker_new = Inr (t', log)"
    using inv op(1) run_ops_snoc unfolding sys_inv_at_def s' Let_def by blast
  have le: "Suc (length done) \<le> unat (next_commit (sy_tracker s))"
    using inv by (simp add: sys_inv_at_def Let_def)
  have ev: "events_ok (Suc (length done)) (sy_events s) (unat (next_commit (sy_tracker s))) \<Longrightarrow>
      events_ok (Suc (length done)) (sy_events s') (unat (next_commit t'))"
    using nc events_ok_report[OF _ _ le] by auto
  have le': "Suc (length done) \<le> unat (next_commit t')"
    using nc le by auto
  show ?thesis
    using inv t' op(2) run ev le' fl unfolding sys_inv_at_def Let_def s' by simp
qed

lemma sys_inv_parser:
  assumes inv: "sys_inv_at s done m" and e: "sy_in s = e # rest"
    and p: "parser_process env e (sy_parser s) = Some (st', Inr (In_data d))"
  shows "sys_inv_at (s\<lparr>sy_in := rest, sy_parser := st', sy_out := sy_out s @ [d],
    sy_reader := share_rows (ps_rows st') (sy_reader s)\<rparr>) done m"
  using inv e parser_process_data[OF p]
  by (simp add: sys_inv_at_def Let_def share_rows_def in_flight_def)

lemma sys_inv_reader:
  assumes inv: "sys_inv_at s done m" and nm: "rd_next_id (sy_reader s) \<noteq> - 1"
    and ev: "channel_allows ev (sy_events s) (sy_in s)"
    and lv: "live (rd_phase (sy_reader s))" and eff: "reader_effect (sy_reader s) ev r' out"
    and s': "sy_reader s' = r'" "sy_in s' = sy_in s @ (case out of None \<Rightarrow> [] | Some e \<Rightarrow> [e])"
      "sy_events s' = after_event ev (sy_events s)" "sy_hist s' = sy_hist s @ new_entries (sy_reader s) r'"
      "sy_tracker s' = sy_tracker s" "sy_ops s' = sy_ops s" "sy_out s' = sy_out s"
  shows "sys_inv s'"
proof -
  let ?r = "sy_reader s" and ?n = "unat (rd_next_id (sy_reader s))"
  have base: "m = ?n" "\<forall>e. rd_phase ?r \<noteq> Reader_failed e" "rd_phase ?r \<noteq> Completed FiniteSourceDrained"
    using inv lv by (auto simp: sys_inv_at_def Let_def live_def)
  note I = inv[unfolded sys_inv_at_def Let_def]
  from eff show ?thesis
  proof (cases rule: reader_effect.cases)
    case eff_none
    then have "sys_inv_at s' done m"
      using I base s' by (auto simp: sys_inv_at_def Let_def same_ledger_def in_flight_def new_entries_def
          after_event_def split: reader_event.splits)
    then show ?thesis unfolding sys_inv_def by blast
  next
    case eff_stop
    have snd: "sending_ids (rd_phase r') = []"
      using eff_stop(4) by (auto simp: live_def sending_ids_def split: reader_phase.splits)
    let ?fl = "map dl_id (sy_out s) @ map re_id (sy_in s)"
    let ?k = "unat (next_received (sy_tracker s)) + length ?fl"
    have "map unat (?fl @ sending_ids (rd_phase ?r)) = [unat (next_received (sy_tracker s)) ..< ?n]"
      using I base(1) by (simp add: in_flight_def)
    note split = upt_append_map[OF this]
    have "sys_inv_at s' done ?k"
      using I base split(1,3) snd eff_stop s' lv unfolding sys_inv_at_def Let_def
      by (auto simp: same_ledger_def in_flight_def new_entries_def after_event_def
          split: reader_event.splits)
    then show ?thesis unfolding sys_inv_def by blast
  next
    case (eff_enqueue e)
    have n': "unat (rd_next_id r') = Suc ?n"
      using nm eff_enqueue(5) by (simp add: delivery_id_next_unat)
    then have "rd_next_id r' \<noteq> rd_next_id ?r" by auto
    then have "sys_inv_at s' done (Suc ?n)"
      using I base eff_enqueue s' n' unfolding sys_inv_at_def Let_def
      by (auto simp: in_flight_def new_entries_def after_event_def live_def split: reader_event.splits)
    then show ?thesis unfolding sys_inv_def by blast
  next
    case (eff_send env)
    then have "sys_inv_at s' done m"
      using I base s' unfolding sys_inv_at_def Let_def
      by (auto simp: same_ledger_def in_flight_def new_entries_def after_event_def live_def
          split: reader_event.splits)
    then show ?thesis unfolding sys_inv_def by blast
  next
    case (eff_commit c)
    let ?tw = "takeWhile (\<lambda>e. ce_id e \<le> c) (ledger ?r)" and ?a = "Suc (length done)"
    obtain rest where evs: "sy_events s = c # rest"
      using ev eff_commit(1) by (cases "sy_events s") (auto simp: channel_allows_def)
    have ok: "events_ok ?a (c # rest) (unat (next_commit (sy_tracker s)))"
      using I base(2) evs by simp
    have L: "map (unat \<circ> ce_id) (ledger ?r) = [?a ..< ?n]"
      using I upt_append_map(2)[of "unat \<circ> ce_id" "done" "ledger ?r" 1 ?n] by simp
    have "unat c < ?n"
    proof -
      have ne: "ledger ?r \<noteq> []" and le: "c \<le> ce_id (last (ledger ?r))"
        using eff_commit(3) by (auto simp: valid_range_def split: list.splits)
      have "unat (ce_id (last (ledger ?r))) \<in> set [?a ..< ?n]"
        unfolding L[symmetric] using ne by simp
      then show ?thesis using le by (simp add: word_le_nat_alt)
    qed
    moreover have "?a \<le> unat c" using ok by (simp add: events_ok_def)
    moreover have "?tw = takeWhile (\<lambda>e. (unat \<circ> ce_id) e \<le> unat c) (ledger ?r)"
      by (simp add: word_le_nat_alt)
    ultimately have tw: "length ?tw = Suc (unat c) - ?a"
      using upt_takeWhile[OF L, of "unat c"] by simp
    then have len: "Suc (length (done @ ?tw)) = Suc (unat c)"
      using \<open>?a \<le> unat c\<close> by simp
    have ok': "events_ok (Suc (unat c)) rest (unat (next_commit (sy_tracker s)))"
      by (rule events_ok_commit[OF ok])
    then have le: "Suc (unat c) \<le> unat (next_commit (sy_tracker s))"
      by (auto simp: events_ok_def split: if_splits dest!: bspec[of _ _ "last rest"])
    have whole: "done @ ?tw @ ledger r' = done @ ledger ?r"
      using eff_commit(4) by simp
    have "sys_inv_at s' (done @ ?tw) m"
      using I base eff_commit s' ok' le len whole evs unfolding sys_inv_at_def Let_def
      by (auto simp: in_flight_def new_entries_def after_event_def live_def)
    then show ?thesis unfolding sys_inv_def by blast
  qed
qed

lemma sys_step_inv:
  assumes "sys_step read_batch commit_offsets env s s'" "sys_inv s"
  shows "sys_inv s'"
  using assms
proof (induction rule: sys_step.induct)
  case (sys_reader ev s r' out)
  then obtain "done" m where inv: "sys_inv_at s done m" by (auto simp: sys_inv_def)
  note eff = reader_step_effect[OF sys_reader.hyps(3)]
  show ?case
    by (rule sys_inv_reader[OF inv sys_reader.hyps(2) sys_reader.hyps(1) eff]) simp_all
next
  case (sys_parser s e rest st' d)
  then obtain "done" m where inv: "sys_inv_at s done m" by (auto simp: sys_inv_def)
  show ?case
    using sys_inv_parser[OF inv sys_parser.hyps(1,3)] unfolding sys_inv_def by blast
next
  case (sys_receive s d rest units t')
  then obtain "done" m where inv: "sys_inv_at s done m" by (auto simp: sys_inv_def)
  let ?t = "sy_tracker s" and ?op = "Op_accept (dl_id d) units (dl_source_messages d)"
  have ti: "tracker_inv ?t" and fl: "map unat (in_flight s) = [unat (next_received ?t) ..< m]"
    and mn: "m \<le> unat (rd_next_id (sy_reader s))"
    using inv by (simp_all add: sys_inv_at_def Let_def)
  have "in_flight s = dl_id d # map dl_id rest @ map re_id (sy_in s) @ sending_ids (rd_phase (sy_reader s))"
    using sys_receive.hyps(1) by (simp add: in_flight_def)
  note hd = fl[unfolded this upt_Cons_map, THEN conjunct1]
    fl[unfolded this upt_Cons_map, THEN conjunct2, THEN conjunct1]
    fl[unfolded this upt_Cons_map, THEN conjunct2, THEN conjunct2]
  have fresh: "dl_id d \<noteq> - 1"
    using hd(1,2) mn unat_less_pow[of "rd_next_id (sy_reader s)"] unat_max_word[where 'a = 64] by auto
  have t': "t' = ?t\<lparr>next_received := delivery_id_next (dl_id d), entries := entries t'\<rparr>"
    using sys_receive.hyps(2) by (auto simp: accept_def split: if_splits)
  have nr: "unat (next_received t') = Suc (unat (next_received ?t))" "next_commit t' = next_commit ?t"
    using t' fresh hd(1) by (metis delivery_id_next_unat delivery_tracker.select_convs(2)
        delivery_tracker.surjective delivery_tracker.update_convs(1,2),
        metis delivery_tracker.select_convs(3) delivery_tracker.surjective delivery_tracker.update_convs(1,2))
  have "sys_inv_at (s\<lparr>sy_out := rest, sy_tracker := t', sy_ops := sy_ops s @ [?op]\<rparr>) done m"
    by (rule sys_inv_sink[OF inv accept_refines(1)[OF ti sys_receive.hyps(2) fresh], of ?op "[]"])
       (use sys_receive.hyps fresh nr hd in \<open>auto simp: in_flight_def\<close>)
  then show ?case by (auto simp: sys_inv_def)
next
  case (sys_complete i units s t')
  then obtain "done" m where inv: "sys_inv_at s done m" by (auto simp: sys_inv_def)
  have ti: "tracker_inv (sy_tracker s)" using inv by (simp add: sys_inv_at_def Let_def)
  have same: "next_received t' = next_received (sy_tracker s)" "next_commit t' = next_commit (sy_tracker s)"
    using sys_complete.hyps by (auto simp: complete_def split: option.splits)
  have "sys_inv_at (s\<lparr>sy_tracker := t', sy_ops := sy_ops s @ [Op_complete i units]\<rparr>) done m"
    by (rule sys_inv_sink[OF inv complete_refines(1)[OF ti sys_complete.hyps], of "Op_complete i units" "[]"])
       (use sys_complete.hyps same inv in \<open>auto simp: in_flight_def sys_inv_at_def Let_def\<close>)
  then show ?case by (auto simp: sys_inv_def)
next
  case (sys_report s t' c)
  then obtain "done" m where inv: "sys_inv_at s done m" by (auto simp: sys_inv_def)
  have ti: "tracker_inv (sy_tracker s)" using inv by (simp add: sys_inv_at_def Let_def)
  note nx = take_committed_next[OF ti sys_report.hyps(1)]
  have "sys_inv_at (s\<lparr>sy_tracker := t', sy_events := sy_events s @ [through c], sy_ops := sy_ops s @ [Op_take]\<rparr>) done m"
    by (rule sys_inv_sink[OF inv take_committed_refines(1)[OF ti sys_report.hyps(1)], of Op_take "[c]"])
       (use sys_report.hyps nx inv in \<open>auto simp: in_flight_def sys_inv_at_def Let_def\<close>)
  then show ?case by (auto simp: sys_inv_def)
qed

lemma sys_reach_inv: "sys_reach read_batch commit_offsets env s \<Longrightarrow> sys_inv s"
proof (induction rule: sys_reach.induct)
  case (sys_start src ps)
  have "sys_inv_at (sys_init src ps) [] 1"
    using tracker_new_inv(1)
    by (simp add: sys_inv_at_def sys_init_def reader_init_def in_flight_def sending_ids_def
        events_ok_def tracker_new_def Let_def)
  then show ?case unfolding sys_inv_def by blast
next
  case (sys_more s s')
  then show ?case using sys_step_inv by blast
qed

subsection \<open>What the tracker has seen\<close>

lemma accepted_ids:
  assumes "run_ops accept complete take_committed ops t = Inr (t', log)" "tracker_inv t" "ids_fresh ops"
    and "unat (next_received t) \<le> j" "j < unat (next_received t')"
  shows "\<exists>i u m. Op_accept i u m \<in> set ops \<and> unat i = j"
  using assms
proof (induction ops arbitrary: t log rule: ids_fresh.induct)
  case (2 i r m ops)
  then obtain t1 where t1: "accept i r m t = Inr t1" "run_ops accept complete take_committed ops t1 = Inr (t', log)"
    by (auto simp: res_bind_Inr_iff)
  have "next_received t = i" "unat (next_received t1) = Suc (unat i)"
    using t1(1) "2.prems"(3) by (auto simp: accept_def delivery_id_next_unat split: if_splits)
  then show ?case
    using "2.IH"[OF t1(2)] accept_refines(1)[OF "2.prems"(2) t1(1)] "2.prems"(3-5)
    by (cases "j = unat i") fastforce+
next
  case (3 i u ops)
  then obtain t1 where t1: "complete i u t = Inr t1" "run_ops accept complete take_committed ops t1 = Inr (t', log)"
    by (auto simp: res_bind_Inr_iff)
  have "next_received t1 = next_received t"
    using t1(1) by (auto simp: complete_def split: option.splits)
  then show ?case
    using "3.IH"[OF t1(2)] complete_refines(1)[OF "3.prems"(2) t1(1)] "3.prems"(3-5) by fastforce
next
  case (4 ops)
  obtain t1 c where tk: "take_committed t = (t1, c)" by fastforce
  then obtain log' where t1: "run_ops accept complete take_committed ops t1 = Inr (t', log')"
    using "4.prems"(1) by (auto simp: res_bind_Inr_iff)
  have inv1: "tracker_inv t1" by (rule take_committed_refines(1)[OF "4.prems"(2) tk])
  have "next_received t1 = next_received t"
  proof (cases c)
    case None
    then have "spec_taken (tracker_abs t) = []" using take_committed_refines(3)[OF "4.prems"(2) tk] by simp
    then have "tracker_abs t1 = tracker_abs t"
      using take_committed_refines(2)[OF "4.prems"(2) tk]
      by (metis add.right_neutral append_Nil list.size(3) prod.collapse spec_take_def spec_taken_def
          takeWhile_dropWhile_id)
    then have "unat (next_commit t1) = unat (next_commit t)" "length (entries t1) = length (entries t)"
      by (auto simp: tracker_abs_def dest: map_eq_imp_length_eq)
    then show ?thesis
      using inv1 "4.prems"(2) by (auto simp: tracker_inv_alt word_unat_eq_iff)
  next
    case (Some d)
    then show ?thesis using take_committed_next(3)[OF "4.prems"(2)] tk by simp
  qed
  then show ?case
    using "4.IH"[OF t1 inv1] "4.prems"(3-5) by fastforce
qed simp

lemma sys_done_durable:
  assumes inv: "sys_inv_at s done m" and e: "e \<in> set done"
  shows "(\<exists>u k. Op_accept (ce_id e) u k \<in> set (sy_ops s)) \<and>
    completed_units (unat (ce_id e)) (sy_ops s) = accepted_units (unat (ce_id e)) (sy_ops s)"
proof -
  let ?t = "sy_tracker s" and ?i = "unat (ce_id e)"
  obtain log where run: "run_ops accept complete take_committed (sy_ops s) tracker_new = Inr (?t, log)"
    and fresh: "ids_fresh (sy_ops s)" and ti: "tracker_inv ?t"
    and ids: "map (unat \<circ> ce_id) (done @ ledger (sy_reader s)) = [1 ..< unat (rd_next_id (sy_reader s))]"
    and nc: "Suc (length done) \<le> unat (next_commit ?t)"
    using inv by (auto simp: sys_inv_at_def Let_def)
  have "map (unat \<circ> ce_id) done = [1 ..< 1 + length done]" by (rule upt_append_map(1)[OF ids])
  then have "?i \<in> set [1 ..< 1 + length done]"
    using e by (metis comp_apply image_eqI list.set_map)
  then have i: "1 \<le> ?i" "?i < unat (next_commit ?t)" using nc by auto
  have "completed_units ?i (sy_ops s) = accepted_units ?i (sy_ops s)"
    using tracker.run_units[OF run tracker_new_inv(1) fresh, of ?i] i
    by (simp add: outstanding_new) (simp add: outstanding_def tracker_abs_def)
  moreover have "?i < unat (next_received ?t)"
    using i ti by (simp add: tracker_inv_alt)
  then have "\<exists>i u k. Op_accept i u k \<in> set (sy_ops s) \<and> unat i = ?i"
    using accepted_ids[OF run tracker_new_inv(1) fresh, of ?i] i by (simp add: tracker_new_def)
  then have "\<exists>u k. Op_accept (ce_id e) u k \<in> set (sy_ops s)"
    by (metis word_unat_eq_iff)
  ultimately show ?thesis by blast
qed

subsection \<open>The next event and the next delivery\<close>

lemma sys_inv_event_valid:
  assumes inv: "sys_inv_at s done m" and lv: "live (rd_phase (sy_reader s))" and ne: "sy_events s \<noteq> []"
  shows "valid_range (ledger (sy_reader s)) (hd (sy_events s))"
proof -
  let ?c = "hd (sy_events s)" and ?l = "ledger (sy_reader s)" and ?t = "sy_tracker s"
  have I: "events_ok (Suc (length done)) (sy_events s) (unat (next_commit ?t))" "tracker_inv ?t"
    "map (unat \<circ> ce_id) (done @ ?l) = [1 ..< m]" "unat (next_received ?t) \<le> m"
    using inv lv by (auto simp: sys_inv_at_def Let_def live_def)
  have "sorted_wrt (<) (map unat (sy_events s))"
    using I(1) sorted_wrt_mono_rel[of "sy_events s" "(<)" "\<lambda>x y. unat x < unat y"]
    by (simp add: events_ok_def sorted_wrt_map word_less_nat_alt)
  then have "unat ?c \<le> unat (last (sy_events s))"
    using sorted_le_last[of unat "sy_events s" ?c] ne by simp
  moreover have "Suc (length done) \<le> unat ?c" "Suc (unat (last (sy_events s))) = unat (next_commit ?t)"
    using I(1) ne by (auto simp: events_ok_def)
  moreover have "unat (next_commit ?t) \<le> unat (next_received ?t)"
    using I(2) by (simp add: tracker_inv_alt)
  ultimately have c: "Suc (length done) \<le> unat ?c" "unat ?c < m" using I(4) by auto
  have L: "map (unat \<circ> ce_id) ?l = [Suc (length done) ..< m]"
    using upt_append_map(2)[OF I(3)] by simp
  have "length ?l = m - Suc (length done)" using arg_cong[OF L, of length] by (simp del: upt_Suc)
  then have nel: "?l \<noteq> []" using c by auto
  have "unat (ce_id (hd ?l)) = Suc (length done)" "unat (ce_id (last ?l)) = m - 1"
    using arg_cong[OF L, of hd] arg_cong[OF L, of last] nel c
    by (simp_all add: hd_map last_map)
  then show ?thesis
    using nel c by (cases ?l) (auto simp: valid_range_def word_le_nat_alt)
qed

lemma sys_inv_next_delivery:
  assumes inv: "sys_inv_at s done m" and ne: "sy_out s \<noteq> []"
  shows "dl_id (hd (sy_out s)) = next_received (sy_tracker s)"
proof -
  obtain d rest where d: "sy_out s = d # rest" using ne by (cases "sy_out s") auto
  have "map unat (in_flight s) = [unat (next_received (sy_tracker s)) ..< m]"
    using inv by (simp add: sys_inv_at_def Let_def)
  then have "unat (dl_id d) = unat (next_received (sy_tracker s))"
    unfolding in_flight_def d by (metis append_Cons list.simps(9) upt_Cons_map)
  then show ?thesis using d by (simp add: word_unat_eq_iff)
qed

subsection \<open>Executing the system\<close>

datatype sys_action =
    Do_reader reader_event
  | Do_parser
  | Do_receive usize
  | Do_complete delivery_id usize
  | Do_report

definition sys_do ::
  "('src, 'v, 'mk, 'x) read_fn \<Rightarrow> ('src, 'mk, 'x) commit_fn \<Rightarrow> ('p, 'v, 'x) parser_env \<Rightarrow>
   sys_action \<Rightarrow> ('src, 'v, 'mk, 'x, 'p) pipeline_sys \<Rightarrow> ('src, 'v, 'mk, 'x, 'p) pipeline_sys option" where
  "sys_do read_batch commit_offsets env a s =
     (case a of
        Do_reader ev \<Rightarrow>
          if channel_allows ev (sy_events s) (sy_in s) \<and> rd_next_id (sy_reader s) \<noteq> - 1
          then (case reader_step read_batch commit_offsets (pe_column_bytes env) ev (sy_reader s) of
                  None \<Rightarrow> None
                | Some (r', out) \<Rightarrow>
                    Some (s\<lparr>sy_reader := r',
                            sy_in := sy_in s @ (case out of None \<Rightarrow> [] | Some e \<Rightarrow> [e]),
                            sy_events := after_event ev (sy_events s),
                            sy_parser := (sy_parser s)\<lparr>ps_rows := rd_rows (rd_core r')\<rparr>,
                            sy_hist := sy_hist s @ new_entries (sy_reader s) r'\<rparr>))
          else None
      | Do_parser \<Rightarrow>
          (case sy_in s of
             [] \<Rightarrow> None
           | e # rest \<Rightarrow>
               if length (sy_out s) < CHANNEL_CAPACITY
               then (case parser_process env e (sy_parser s) of
                       Some (st', Inr (In_data d)) \<Rightarrow>
                         Some (s\<lparr>sy_in := rest, sy_parser := st', sy_out := sy_out s @ [d],
                                 sy_reader := share_rows (ps_rows st') (sy_reader s)\<rparr>)
                     | _ \<Rightarrow> None)
               else None)
      | Do_receive units \<Rightarrow>
          (case sy_out s of
             [] \<Rightarrow> None
           | d # rest \<Rightarrow>
               (case accept (dl_id d) units (dl_source_messages d) (sy_tracker s) of
                  Inl _ \<Rightarrow> None
                | Inr t' \<Rightarrow>
                    Some (s\<lparr>sy_out := rest, sy_tracker := t',
                            sy_ops := sy_ops s @ [Op_accept (dl_id d) units (dl_source_messages d)]\<rparr>)))
      | Do_complete i units \<Rightarrow>
          (case complete i units (sy_tracker s) of
             Inl _ \<Rightarrow> None
           | Inr t' \<Rightarrow> Some (s\<lparr>sy_tracker := t', sy_ops := sy_ops s @ [Op_complete i units]\<rparr>))
      | Do_report \<Rightarrow>
          (case take_committed (sy_tracker s) of
             (t', Some c) \<Rightarrow>
               if length (sy_events s) < CHANNEL_CAPACITY
               then Some (s\<lparr>sy_tracker := t', sy_events := sy_events s @ [through c],
                             sy_ops := sy_ops s @ [Op_take]\<rparr>)
               else None
           | (_, None) \<Rightarrow> None))"

lemma sys_do_step:
  assumes "sys_do f g env a s = Some s'"
  shows "sys_step f g env s s'"
proof (cases a)
  case (Do_reader ev)
  then show ?thesis
    using assms by (auto simp: sys_do_def split: if_splits option.splits intro: sys_step.sys_reader)
next
  case Do_parser
  then show ?thesis
    using assms
    by (auto simp: sys_do_def split: if_splits option.splits list.splits sum.splits sink_input.splits
        intro: sys_step.sys_parser)
next
  case (Do_receive units)
  then show ?thesis
    using assms by (auto simp: sys_do_def split: list.splits sum.splits intro: sys_step.sys_receive)
next
  case (Do_complete i units)
  then show ?thesis
    using assms by (auto simp: sys_do_def split: sum.splits intro: sys_step.sys_complete)
next
  case Do_report
  then show ?thesis
    using assms by (auto simp: sys_do_def split: if_splits option.splits prod.splits intro: sys_step.sys_report)
qed

fun sys_run ::
  "('src, 'v, 'mk, 'x) read_fn \<Rightarrow> ('src, 'mk, 'x) commit_fn \<Rightarrow> ('p, 'v, 'x) parser_env \<Rightarrow>
   sys_action list \<Rightarrow> ('src, 'v, 'mk, 'x, 'p) pipeline_sys \<Rightarrow> ('src, 'v, 'mk, 'x, 'p) pipeline_sys option" where
  "sys_run f g env [] s = Some s"
| "sys_run f g env (a # as) s = Option.bind (sys_do f g env a s) (sys_run f g env as)"

lemma sys_run_reach: "sys_run f g env as s = Some s' \<Longrightarrow> sys_reach f g env s \<Longrightarrow> sys_reach f g env s'"
  by (induction as arbitrary: s) (auto simp: bind_eq_Some_conv intro: sys_more dest!: sys_do_step)

text \<open>A finite source with one two-row table and marker 7, run until it is drained.\<close>

definition example_actions :: "sys_action list" where
  "example_actions =
     [Do_reader Ev_read, Do_reader Ev_empty, Do_reader (Ev_reserved 0), Do_reader Ev_permit, Do_parser,
      Do_receive 2, Do_reader Ev_read, Do_reader Ev_empty, Do_complete 1 2, Do_report, Do_reader (Ev_sink 1)]"

definition example_sys ::
  "nat \<Rightarrow> ((unit, nat) source_batch list, unit, nat, unit, unit) pipeline_sys option" where
  "example_sys n =
     sys_run example_read example_commit example_env (take n example_actions)
       (sys_init [example_source_batch 7] example_parser)"

lemma example_sys_reach: "example_sys n = Some s \<Longrightarrow> sys_reach example_read example_commit example_env s"
  unfolding example_sys_def by (erule sys_run_reach) (rule sys_start)

lemma example_sys_result:
  "map_option (\<lambda>s. (rd_phase (sy_reader s), rd_log (rd_core (sy_reader s)), sy_hist s)) (example_sys 11) =
   Some (Completed FiniteSourceDrained, [[7]], [\<lparr>ce_id = 1, ce_marker = Some 7\<rparr>])"
  by code_simp

lemma example_sys_before_commit:
  "map_option (\<lambda>s. (sy_events s, live (rd_phase (sy_reader s)))) (example_sys 10) = Some ([1], True)"
  by code_simp

end
