(* ===== verification/Admission.thy ===== *)
theory Admission
  imports Pipeline
begin

section \<open>Admission of datasets at runtime\<close>

text \<open>
  \<^verbatim>\<open>transferia-pipeline/src/admission.rs\<close>: the task that stands between parser and sink when datasets may
  appear at runtime. It runs the sink in sessions. A dataset ends the session: the input of the sink is closed, the
  sink drains, the dataset is prepared, and a new session begins with the same sink. The announcement of a
  dataset by the source has a delivery id of its own, which this task acknowledges itself. The sink is any sink that
  does its completion accounting with \<^verbatim>\<open>DeliveryTracker\<close>, as in \<^verbatim>\<open>Pipeline_System\<close>; a session that is not
  cancelled ends without an error only when its channel and its tracker are empty. \<open>as_accepted\<close> records the deliveries
  the sink accepted.
\<close>

datatype dataset_stage = Stage_source | Stage_sink

record ('a, 'd, 'v, 'm) dataset_admission =
  da_pending_datasets :: "'a \<Rightarrow> 'v delivery \<Rightarrow> ('m failure, discovered_dataset list) res"
  da_prepare :: "'a \<Rightarrow> discovered_dataset \<Rightarrow> dataset_stage \<Rightarrow> 'a \<times> ('m failure, 'd) res"
  da_update_discovery :: "'d \<Rightarrow> ('m failure, unit) res"

datatype ('v, 'm) barrier =
    Rejected "'m failure"
  | Source_barrier delivery_id discovered_dataset
  | Data_barrier "'v delivery" "discovered_dataset list"

datatype 'x admission_msg =
    Sink_session_input_closed
  | Sink_stopped_before_input_closed
  | Sink_stopped_while_forwarding
  | Source_closed_before_admission_commit
  | Sink_refused tracker_error
  | Admission_external 'x

datatype ('v, 'm) admission_phase =
    Opening
  | Forwarding
  | Sending_on "'v delivery"
  | Draining "('v, 'm) barrier option"
  | Ended "('m failure, unit) res"

datatype admission_event = By_sink delivery_id | By_admission delivery_id

record ('a, 'd, 'v, 'x) admission_state =
  as_admission :: 'a
  as_discovery :: "'d option"
  as_pending :: "'v delivery option"
  as_phase :: "('v, 'x admission_msg) admission_phase"
  as_input :: "'v sink_input list"
  as_channel :: "'v delivery list"
  as_tracker :: delivery_tracker
  as_cancelled :: bool
  as_events :: "admission_event list"
  as_accepted :: "delivery_id list"

definition open_session :: "('a, 'd, 'v, 'x) admission_state \<Rightarrow> ('a, 'd, 'v, 'x) admission_state" where
  "open_session s =
     s\<lparr>as_channel := (case as_pending s of None \<Rightarrow> [] | Some d \<Rightarrow> [d]), as_pending := None, as_phase := Forwarding\<rparr>"

definition on_input ::
  "('a, 'd, 'v, 'm) dataset_admission \<Rightarrow> 'a \<Rightarrow> 'v sink_input option \<Rightarrow> ('v, 'm) admission_phase" where
  "on_input da a next_input =
     (case next_input of
        Some (In_data delivery) \<Rightarrow>
          (case da_pending_datasets da a delivery of
             Inl e \<Rightarrow> Draining (Some (Rejected e))
           | Inr datasets \<Rightarrow>
               if datasets \<noteq> [] then Draining (Some (Data_barrier delivery datasets)) else Sending_on delivery)
      | Some (In_dataset i dataset) \<Rightarrow> Draining (Some (Source_barrier i dataset))
      | None \<Rightarrow> Draining None)"

fun prepare_all ::
  "('a, 'd, 'v, 'm) dataset_admission \<Rightarrow> bool list \<Rightarrow> discovered_dataset list \<Rightarrow> 'a \<Rightarrow> 'd option \<Rightarrow>
   (('m failure, unit) res, 'a \<times> 'd option) res" where
  "prepare_all da cancelled [] a d = Inr (a, d)"
| "prepare_all da cancelled (dataset # datasets) a d =
     (case da_prepare da a dataset Stage_sink of
        (_, Inl e) \<Rightarrow> Inl (Inl e)
      | (a', Inr discovery) \<Rightarrow>
          if cancelled \<noteq> [] \<and> hd cancelled then Inl (Inr ())
          else (case da_update_discovery da discovery of
                  Inl e \<Rightarrow> Inl (Inl e)
                | Inr _ \<Rightarrow> prepare_all da (tl cancelled) datasets a' (Some discovery)))"

text \<open>
  What follows a drained session. \<open>cancelled\<close> says what each later look at the cancellation token sees,
  \<open>closed\<close> that the receiver of the events is gone.
\<close>

definition after_session ::
  "('a, 'd, 'v, 'x admission_msg) dataset_admission \<Rightarrow> bool list \<Rightarrow> bool \<Rightarrow>
   ('v, 'x admission_msg) barrier option \<Rightarrow> ('a, 'd, 'v, 'x) admission_state \<Rightarrow> ('a, 'd, 'v, 'x) admission_state" where
  "after_session da cancelled closed barrier s =
     (if as_cancelled s then s\<lparr>as_phase := Ended (Inr ())\<rparr>
      else case barrier of
        None \<Rightarrow> s\<lparr>as_phase := Ended (Inr ())\<rparr>
      | Some (Rejected e) \<Rightarrow> s\<lparr>as_phase := Ended (Inl e)\<rparr>
      | Some (Source_barrier i dataset) \<Rightarrow>
          (case da_prepare da (as_admission s) dataset Stage_source of
             (_, Inl e) \<Rightarrow> s\<lparr>as_phase := Ended (Inl e)\<rparr>
           | (a, Inr discovery) \<Rightarrow>
               (case da_update_discovery da discovery of
                  Inl e \<Rightarrow> s\<lparr>as_phase := Ended (Inl e)\<rparr>
                | Inr _ \<Rightarrow>
                    let s = s\<lparr>as_admission := a, as_discovery := Some discovery\<rparr> in
                    if cancelled \<noteq> [] \<and> hd cancelled then s\<lparr>as_phase := Ended (Inr ())\<rparr>
                    else if closed
                    then s\<lparr>as_phase := Ended (Inl (retryable (Message Source_closed_before_admission_commit)))\<rparr>
                    else s\<lparr>as_events := as_events s @ [By_admission i], as_phase := Opening\<rparr>))
      | Some (Data_barrier delivery datasets) \<Rightarrow>
          (case prepare_all da cancelled datasets (as_admission s) (as_discovery s) of
             Inl result \<Rightarrow> s\<lparr>as_phase := Ended result\<rparr>
           | Inr (a, d) \<Rightarrow>
               s\<lparr>as_admission := a, as_discovery := d, as_pending := Some delivery, as_phase := Opening\<rparr>))"

definition session_live :: "('v, 'm) admission_phase \<Rightarrow> bool" where
  "session_live p = (case p of Forwarding \<Rightarrow> True | Sending_on _ \<Rightarrow> True | Draining _ \<Rightarrow> True | _ \<Rightarrow> False)"

text \<open>The result of \<^verbatim>\<open>run\<close> when the session ends by itself, by phase.\<close>

definition session_result ::
  "('v, 'x admission_msg) admission_phase \<Rightarrow> ('x admission_msg failure, unit) res \<Rightarrow> ('x admission_msg failure, unit) res" where
  "session_result p result =
     (case result of
        Inl e \<Rightarrow> Inl e
      | Inr _ \<Rightarrow>
          (case p of
             Sending_on _ \<Rightarrow> Inl (retryable (Message Sink_stopped_while_forwarding))
           | _ \<Rightarrow> Inl (retryable (Message Sink_stopped_before_input_closed))))"

inductive admission_step ::
  "('a, 'd, 'v, 'x admission_msg) dataset_admission \<Rightarrow>
   ('a, 'd, 'v, 'x) admission_state \<Rightarrow> ('a, 'd, 'v, 'x) admission_state \<Rightarrow> bool"
  for da where
  adm_cancel: "admission_step da s (s\<lparr>as_cancelled := True\<rparr>)"
| adm_open: "as_phase s = Opening \<Longrightarrow> admission_step da s (open_session s)"
| adm_open_fails:
    "as_phase s = Opening \<Longrightarrow> as_pending s = Some d \<Longrightarrow>
     admission_step da s
       (s\<lparr>as_pending := None, as_phase := Ended (Inl (retryable (Message Sink_session_input_closed)))\<rparr>)"
| adm_recv:
    "as_phase s = Forwarding \<Longrightarrow> \<not> as_cancelled s \<Longrightarrow> as_input s = i # rest \<Longrightarrow>
     admission_step da s (s\<lparr>as_input := rest, as_phase := on_input da (as_admission s) (Some i)\<rparr>)"
| adm_closed:
    "as_phase s = Forwarding \<Longrightarrow> \<not> as_cancelled s \<Longrightarrow> as_input s = [] \<Longrightarrow>
     admission_step da s (s\<lparr>as_phase := on_input da (as_admission s) None\<rparr>)"
| adm_stop:
    "as_phase s = Forwarding \<or> as_phase s = Sending_on d \<Longrightarrow> as_cancelled s \<Longrightarrow>
     admission_step da s (s\<lparr>as_phase := Draining None\<rparr>)"
| adm_send:
    "as_phase s = Sending_on d \<Longrightarrow> length (as_channel s) < CHANNEL_CAPACITY \<Longrightarrow>
     admission_step da s (s\<lparr>as_channel := as_channel s @ [d], as_phase := Forwarding\<rparr>)"
| adm_send_fails: "as_phase s = Sending_on d \<Longrightarrow> admission_step da s (s\<lparr>as_phase := Draining None\<rparr>)"
| adm_session_ends:
    "as_phase s = Forwarding \<or> as_phase s = Sending_on d \<Longrightarrow>
     admission_step da s (s\<lparr>as_phase := Ended (session_result (as_phase s) result)\<rparr>)"
| adm_drained:
    "as_phase s = Draining barrier \<Longrightarrow> as_channel s = [] \<Longrightarrow> tracker_is_empty (as_tracker s) \<Longrightarrow>
     admission_step da s (after_session da cancelled closed barrier s)"
| adm_drain_cancelled:
    "as_phase s = Draining barrier \<Longrightarrow> as_cancelled s \<Longrightarrow>
     admission_step da s (after_session da cancelled closed barrier s)"
| adm_drain_fails:
    "as_phase s = Draining barrier \<Longrightarrow> admission_step da s (s\<lparr>as_phase := Ended (Inl e)\<rparr>)"
| sink_receives:
    "session_live (as_phase s) \<Longrightarrow> as_channel s = d # rest \<Longrightarrow> dl_id d \<noteq> - 1 \<Longrightarrow>
     accept (dl_id d) units (dl_source_messages d) (as_tracker s) = Inr t' \<Longrightarrow>
     admission_step da s (s\<lparr>as_channel := rest, as_tracker := t', as_accepted := as_accepted s @ [dl_id d]\<rparr>)"
| sink_refuses:
    "session_live (as_phase s) \<Longrightarrow> as_channel s = d # rest \<Longrightarrow>
     accept (dl_id d) units (dl_source_messages d) (as_tracker s) = Inl e \<Longrightarrow>
     admission_step da s (s\<lparr>as_phase := Ended (Inl (Failure k (Message (Sink_refused e))))\<rparr>)"
| sink_completes:
    "session_live (as_phase s) \<Longrightarrow> complete i units (as_tracker s) = Inr t' \<Longrightarrow>
     admission_step da s (s\<lparr>as_tracker := t'\<rparr>)"
| sink_reports:
    "session_live (as_phase s) \<Longrightarrow> take_committed (as_tracker s) = (t', Some c) \<Longrightarrow>
     admission_step da s (s\<lparr>as_tracker := t', as_events := as_events s @ [By_sink (through c)]\<rparr>)"

definition admission_init :: "'a \<Rightarrow> 'v sink_input list \<Rightarrow> ('a, 'd, 'v, 'x) admission_state" where
  "admission_init a input =
     \<lparr>as_admission = a, as_discovery = None, as_pending = None, as_phase = Opening, as_input = input, as_channel = [],
      as_tracker = tracker_new, as_cancelled = False, as_events = [], as_accepted = []\<rparr>"

definition admission_reach ::
  "('a, 'd, 'v, 'x admission_msg) dataset_admission \<Rightarrow> 'v sink_input list \<Rightarrow> ('a, 'd, 'v, 'x) admission_state \<Rightarrow> bool" where
  "admission_reach da input s \<longleftrightarrow> (\<exists>a. (admission_step da)\<^sup>*\<^sup>* (admission_init a input) s)"

definition input_id :: "'v sink_input \<Rightarrow> delivery_id" where
  "input_id i = (case i of In_data d \<Rightarrow> dl_id d | In_dataset n _ \<Rightarrow> n)"

subsection \<open>Invariant\<close>

text \<open>The ids that have not reached the sink, in the order in which they would.\<close>

definition held_ids :: "('v, 'm) admission_phase \<Rightarrow> delivery_id list" where
  "held_ids p =
     (case p of
        Sending_on d \<Rightarrow> [dl_id d]
      | Draining (Some (Source_barrier i _)) \<Rightarrow> [i]
      | Draining (Some (Data_barrier d _)) \<Rightarrow> [dl_id d]
      | _ \<Rightarrow> [])"

definition flow :: "('a, 'd, 'v, 'x) admission_state \<Rightarrow> delivery_id list" where
  "flow s =
     map dl_id (as_channel s) @ held_ids (as_phase s) @
     (case as_pending s of None \<Rightarrow> [] | Some d \<Rightarrow> [dl_id d]) @ map input_id (as_input s)"

definition flow_ok ::
  "delivery_id list \<Rightarrow> delivery_tracker \<Rightarrow> admission_event list \<Rightarrow> delivery_id list \<Rightarrow> bool" where
  "flow_ok ids t events accepted \<longleftrightarrow>
     tracker_inv t \<and> sorted_wrt (<) ids \<and> (\<forall>i \<in> set ids. next_received t \<le> i) \<and>
     (\<forall>i \<in> set accepted. i < next_received t) \<and>
     (\<forall>i \<in> set accepted. i < next_commit t \<longrightarrow> (\<exists>e. By_sink e \<in> set events \<and> i \<le> e)) \<and>
     (\<forall>b. By_admission b \<in> set events \<longrightarrow> next_received t \<le> b \<and> (\<forall>i \<in> set ids. b < i)) \<and>
     (\<forall>xs b ys. events = xs @ By_admission b # ys \<longrightarrow> (\<forall>i \<in> set accepted. \<exists>e. By_sink e \<in> set xs \<and> i \<le> e))"

lemma sorted_wrt_subseq: "subseq xs ys \<Longrightarrow> sorted_wrt P ys \<Longrightarrow> sorted_wrt P xs"
  by (induction rule: list_emb.induct) (auto dest: list_emb_set)

lemma flow_ok_subseq:
  assumes "flow_ok ids t events accepted" "subseq ids' ids"
  shows "flow_ok ids' t events accepted"
proof -
  have "set ids' \<subseteq> set ids" using assms(2) by (auto dest: list_emb_set)
  then show ?thesis
    using assms(1) sorted_wrt_subseq[OF assms(2)] unfolding flow_ok_def by blast
qed

lemma next_received_complete: "complete i u t = Inr t' \<Longrightarrow> next_received t' = next_received t \<and> next_commit t' = next_commit t"
  by (auto simp: complete_def split: option.splits)

lemma next_received_take:
  assumes "tracker_inv t" "take_committed t = (t', c)"
  shows "next_received t' = next_received t"
proof -
  have r: "unat (next_received t) = fst (tracker_abs t) + length (snd (tracker_abs t))" if "tracker_inv t" for t
    using that by (simp add: tracker_inv_alt tracker_abs_def)
  have "length (takeWhile P xs) + length (dropWhile P xs) = length xs" for P and xs :: "(nat \<times> nat) list"
    by (metis length_append takeWhile_dropWhile_id)
  then have "unat (next_received t') = unat (next_received t)"
    using take_committed_refines(1,2)[OF assms] r[OF assms(1)] r[of t'] by (simp add: spec_take_def)
  then show ?thesis by (simp add: word_unat_eq_iff)
qed

lemma flow_ok_accept:
  assumes "flow_ok (i # ids) t events accepted" "accept i u m t = Inr t'" "i \<noteq> - 1"
  shows "flow_ok ids t' events (accepted @ [i])"
proof -
  have f: "tracker_inv t" "sorted_wrt (<) (i # ids)" "\<forall>b. By_admission b \<notin> set events"
    using assms(1,2) by (auto simp: flow_ok_def accept_def split: if_splits)
  have t': "next_received t' = delivery_id_next i" "next_commit t' = next_commit t" "i = next_received t"
    using assms(2) by (auto simp: accept_def split: if_splits)
  have u: "unat (delivery_id_next i) = Suc (unat i)" using delivery_id_next_unat[OF assms(3)] .
  have lt: "x < delivery_id_next i" if "x \<le> i" for x using that u by (simp add: word_le_nat_alt word_less_nat_alt)
  have le: "delivery_id_next i \<le> x" if "i < x" for x using that u by (simp add: word_le_nat_alt word_less_nat_alt)
  have nc: "\<not> i < next_commit t"
    using f(1) t'(3) by (simp add: tracker_inv_alt word_less_nat_alt)
  have "tracker_inv t'" using accept_refines(1)[OF f(1) assms(2,3)] .
  then show ?thesis
    using assms(1) f t' lt le nc by (auto simp: flow_ok_def less_imp_le)
qed

lemma flow_ok_complete:
  assumes "flow_ok ids t events accepted" "complete i u t = Inr t'"
  shows "flow_ok ids t' events accepted"
  using assms complete_refines(1)[of t i u t'] next_received_complete[OF assms(2)] by (simp add: flow_ok_def)

lemma flow_ok_report:
  assumes "flow_ok ids t events accepted" "take_committed t = (t', Some c)"
  shows "flow_ok ids t' (events @ [By_sink (through c)]) accepted"
proof -
  have inv: "tracker_inv t" using assms(1) by (simp add: flow_ok_def)
  note r = take_committed_refines[OF inv assms(2)]
  have "i \<le> through c" if "i < next_commit t'" for i
    using that r(1,2) r(4)[of c] by (simp add: word_less_nat_alt word_le_nat_alt tracker_abs_def spec_take_def spec_taken_def)
  moreover have "\<exists>ys'. events = xs @ By_admission b # ys'" if "events @ [By_sink x] = xs @ By_admission b # ys" for xs b ys x
    using that by (cases ys rule: rev_cases) auto
  ultimately show ?thesis
    using assms(1) r(1) next_received_take[OF inv assms(2)] unfolding flow_ok_def by auto blast+
qed

lemma flow_ok_acknowledge:
  assumes "flow_ok (b # ids) t events accepted" "tracker_is_empty t"
  shows "flow_ok ids t (events @ [By_admission b]) accepted"
proof -
  have "next_commit t = next_received t"
    using assms by (simp add: flow_ok_def tracker_is_empty_def tracker_inv_alt word_unat_eq_iff)
  then have all: "\<forall>i \<in> set accepted. \<exists>e. By_sink e \<in> set events \<and> i \<le> e"
    using assms(1) by (auto simp: flow_ok_def)
  have "\<forall>i \<in> set accepted. \<exists>e. By_sink e \<in> set xs \<and> i \<le> e"
    if "events @ [By_admission b] = xs @ By_admission c # ys" for xs c ys
    using that all assms(1) by (cases ys rule: rev_cases) (auto simp: flow_ok_def)
  then show ?thesis using assms(1) all unfolding flow_ok_def by auto
qed

lemma flow_drop: "subseq (xs @ zs) (xs @ ys @ zs)" "subseq (xs @ zs) (xs @ y # zs)"
proof -
  show a: "subseq (xs @ zs) (xs @ ys @ zs)" for ys by (intro list_emb_append_mono subseq_drop_many) auto
  show "subseq (xs @ zs) (xs @ y # zs)" using a[of "[y]"] by simp
qed

definition admission_inv :: "('a, 'd, 'v, 'x) admission_state \<Rightarrow> bool" where
  "admission_inv s \<longleftrightarrow>
     flow_ok (flow s) (as_tracker s) (as_events s) (as_accepted s) \<and> (as_phase s \<noteq> Opening \<longrightarrow> as_pending s = None)"

lemma after_session_inv:
  assumes "admission_inv s" "as_phase s = Draining b" "as_cancelled s \<or> as_channel s = [] \<and> tracker_is_empty (as_tracker s)"
  shows "admission_inv (after_session da cancelled closed b s)"
proof -
  let ?rest = "map input_id (as_input s)"
  have f: "flow_ok (map dl_id (as_channel s) @ held_ids (Draining b) @ ?rest) (as_tracker s) (as_events s) (as_accepted s)"
    and p: "as_pending s = None"
    using assms(1,2) by (auto simp: admission_inv_def flow_def)
  have ended: "admission_inv (s\<lparr>as_phase := Ended r\<rparr>)" "admission_inv (s\<lparr>as_admission := a, as_discovery := d, as_phase := Ended r\<rparr>)" for r a d
    using p by (auto simp: admission_inv_def flow_def held_ids_def intro!: flow_ok_subseq[OF f] flow_drop)
  show ?thesis
  proof (cases "as_cancelled s")
    case False
    then have c: "as_channel s = []" "tracker_is_empty (as_tracker s)" using assms(3) by auto
    have ack: "flow_ok ?rest (as_tracker s) (as_events s @ [By_admission i]) (as_accepted s)"
      if "b = Some (Source_barrier i ds)" for i ds
      using flow_ok_acknowledge[OF _ c(2)] f c(1) that by (simp add: held_ids_def)
    show ?thesis
      using False ended ack c p f
      by (auto simp: after_session_def Let_def admission_inv_def flow_def held_ids_def
          split: option.splits barrier.splits prod.splits sum.splits)
  qed (simp add: after_session_def ended)
qed

lemma admission_step_inv: "admission_step da s s' \<Longrightarrow> admission_inv s \<Longrightarrow> admission_inv s'"
proof (induction rule: admission_step.induct)
  case (adm_open s)
  have "subseq (flow (open_session s)) (flow s)"
    using adm_open(1) by (auto simp: flow_def open_session_def held_ids_def split: option.splits)
  then show ?case
    using adm_open(2) flow_ok_subseq by (fastforce simp: admission_inv_def open_session_def)
next
  case (adm_recv s i rest)
  have p: "as_pending s = None" using adm_recv by (auto simp: admission_inv_def)
  have "subseq (held_ids (on_input da (as_admission s) (Some i))) [input_id i]"
    by (auto simp: on_input_def held_ids_def input_id_def split: sink_input.splits sum.splits)
  then have "subseq (map dl_id (as_channel s) @ held_ids (on_input da (as_admission s) (Some i)) @ map input_id rest)
      (map dl_id (as_channel s) @ [input_id i] @ map input_id rest)"
    by (intro list_emb_append_mono) auto
  then show ?case
    using adm_recv p flow_ok_subseq
    by (fastforce simp: admission_inv_def flow_def held_ids_def)
next
  case (adm_drained s barrier cancelled closed)
  then show ?case by (intro after_session_inv) auto
next
  case (adm_drain_cancelled s barrier cancelled closed)
  then show ?case by (intro after_session_inv) auto
next
  case (sink_receives s d rest units t')
  then show ?case
    using flow_ok_accept[of "dl_id d" _ "as_tracker s"] by (auto simp: admission_inv_def flow_def)
next
  case (sink_completes s i units t')
  then show ?case using flow_ok_complete by (fastforce simp: admission_inv_def flow_def)
next
  case (sink_reports s t' c)
  then show ?case using flow_ok_report by (fastforce simp: admission_inv_def flow_def)
next
  case (adm_closed s)
  then show ?case by (auto simp: admission_inv_def flow_def on_input_def held_ids_def)
next
  case (adm_send s d)
  then show ?case by (auto simp: admission_inv_def flow_def held_ids_def)
next
  case (adm_cancel s)
  then show ?case by (simp add: admission_inv_def flow_def)
qed (auto simp: admission_inv_def flow_def held_ids_def session_live_def elim!: flow_ok_subseq intro: flow_drop)

lemma admission_reach_inv:
  assumes "admission_reach da input s" "sorted_wrt (<) (map input_id input)" "0 \<notin> input_id ` set input"
  shows "admission_inv s"
proof -
  obtain a where a: "(admission_step da)\<^sup>*\<^sup>* (admission_init a input) s" using assms(1) by (auto simp: admission_reach_def)
  have "1 \<le> input_id i" if "i \<in> set input" for i
  proof -
    have "input_id i \<noteq> 0" using that assms(3) by (metis image_eqI)
    then show ?thesis by (simp add: word_le_nat_alt unat_gt_0 Suc_le_eq)
  qed
  then have "admission_inv (admission_init a input)"
    using assms(2) tracker_new_inv(1)
    by (auto simp: admission_inv_def admission_init_def flow_def held_ids_def flow_ok_def tracker_new_def)
  with a show ?thesis by (induction rule: rtranclp_induct) (auto intro: admission_step_inv)
qed

subsection \<open>Properties\<close>

text \<open>
  C16 (a new dataset waits for everything before it). The reader numbers deliveries and dataset
  announcements with increasing ids from 1. Whatever the interleaving of the admission task, the sink, cancellation
  and failures, an announcement is acknowledged only after the sink has committed every delivery it accepted before.
\<close>

theorem admission_barrier_after_drain:
  assumes "admission_reach da input s" and "sorted_wrt (<) (map input_id input)" and "0 \<notin> input_id ` set input"
    and "as_events s = before @ By_admission b # later" and "i \<in> set (as_accepted s)"
  shows "\<exists>e. By_sink e \<in> set before \<and> i \<le> e"
  using admission_reach_inv[OF assms(1-3)] assms(4,5) by (auto simp: admission_inv_def flow_ok_def)

text \<open>
  C17 (after a dataset announcement the sink refuses every delivery). The id of an announcement never
  reaches the sink, but its tracker accepts only the id after the last one it accepted. Once an announcement was
  acknowledged, no later delivery is ever accepted: the next one in the channel fails with an order violation.
\<close>

theorem admission_stalls_tracker_sink:
  assumes "admission_reach da input s" and "sorted_wrt (<) (map input_id input)" and "0 \<notin> input_id ` set input"
    and "By_admission b \<in> set (as_events s)"
  shows "(\<forall>i \<in> set (as_accepted s). i < b) \<and>
    (\<forall>d \<in> set (as_channel s). b < dl_id d \<and>
       accept (dl_id d) units messages (as_tracker s) =
         Inl (Delivery_order_violation (next_received (as_tracker s)) (dl_id d)))"
proof -
  have inv: "flow_ok (flow s) (as_tracker s) (as_events s) (as_accepted s)"
    using admission_reach_inv[OF assms(1-3)] by (simp add: admission_inv_def)
  have b: "next_received (as_tracker s) \<le> b" "\<forall>i \<in> set (flow s). b < i" using inv assms(4) by (auto simp: flow_ok_def)
  have "dl_id d \<in> set (flow s)" if "d \<in> set (as_channel s)" for d using that by (simp add: flow_def)
  then show ?thesis using inv b by (fastforce simp: flow_ok_def accept_def)
qed

text \<open>A delivery, the announcement of a dataset, and the first delivery of that dataset.\<close>

definition example_delivery :: "delivery_id \<Rightarrow> nat delivery" where
  "example_delivery i = \<lparr>dl_id = i, dl_outputs = [], dl_source_messages = 1\<rparr>"

definition example_new_table :: discovered_dataset where
  "example_new_table =
     \<lparr>d_namespace = Some ''db'', d_update_policy = FullImageUpsert, d_role = MainRole, d_name = ''new_table'',
      d_incoming_schema = [], d_stored_schema = [], d_system_columns = []\<rparr>"

definition example_input :: "nat sink_input list" where
  "example_input = [In_data (example_delivery 1), In_dataset 2 example_new_table, In_data (example_delivery 3)]"

definition example_admission :: "(unit, unit, nat, unit admission_msg) dataset_admission" where
  "example_admission =
     \<lparr>da_pending_datasets = \<lambda>_ _. Inr [], da_prepare = \<lambda>a _ _. (a, Inr ()), da_update_discovery = \<lambda>_. Inr ()\<rparr>"

definition example_admitted :: "(unit, unit, nat, unit) admission_state" where
  "example_admitted =
     \<lparr>as_admission = (), as_discovery = Some (), as_pending = None, as_phase = Forwarding, as_input = [],
      as_channel = [example_delivery 3], as_tracker = \<lparr>entries = [], next_received = 2, next_commit = 2\<rparr>,
      as_cancelled = False, as_events = [By_sink 1, By_admission 2], as_accepted = [1]\<rparr>"

lemma example_admission_reach: "admission_reach example_admission example_input example_admitted"
proof -
  let ?step = "admission_step example_admission"
  define t1 where "t1 = \<lparr>entries = [(1, \<lparr>remaining = 0, state_messages = 1\<rparr>)], next_received = 2, next_commit = 1\<rparr>"
  define s1 :: "(unit, unit, nat, unit) admission_state" where "s1 = open_session (admission_init () example_input)"
  define s2 where "s2 = s1\<lparr>as_input := tl example_input, as_phase := Sending_on (example_delivery 1)\<rparr>"
  define s3 where "s3 = s2\<lparr>as_channel := [example_delivery 1], as_phase := Forwarding\<rparr>"
  define s4 where "s4 = s3\<lparr>as_channel := [], as_tracker := t1, as_accepted := [1]\<rparr>"
  define s5 where "s5 = s4\<lparr>as_tracker := \<lparr>entries = [], next_received = 2, next_commit = 2\<rparr>, as_events := [By_sink 1]\<rparr>"
  define s6 where "s6 = s5\<lparr>as_input := [In_data (example_delivery 3)], as_phase := Draining (Some (Source_barrier 2 example_new_table))\<rparr>"
  define s7 where "s7 = s6\<lparr>as_discovery := Some (), as_events := [By_sink 1, By_admission 2], as_phase := Opening\<rparr>"
  define s8 where "s8 = open_session s7"
  define s9 where "s9 = s8\<lparr>as_input := [], as_phase := Sending_on (example_delivery 3)\<rparr>"
  note defs = s1_def s2_def s3_def s4_def s5_def s6_def s7_def s8_def s9_def t1_def open_session_def admission_init_def example_input_def
    example_delivery_def example_admission_def on_input_def
  have a: "?step (admission_init () example_input) s1" unfolding s1_def by (rule adm_open) (simp add: admission_init_def)
  have b: "?step s1 s2" using adm_recv[where s = s1 and da = example_admission] by (simp add: defs)
  have c: "?step s2 s3" using adm_send[where s = s2 and da = example_admission] by (simp add: defs CHANNEL_CAPACITY_def)
  have "accept 1 0 1 tracker_new = Inr t1" by (simp add: accept_def tracker_new_def bt_empty_def t1_def delivery_id_next_def saturating_add_def)
  then have d: "?step s3 s4"
    using sink_receives[where s = s3 and da = example_admission and units = 0 and t' = t1]
    by (simp add: defs session_live_def)
  have "take_committed t1 = (\<lparr>entries = [], next_received = 2, next_commit = 2\<rparr>, Some \<lparr>through = 1, source_messages = 1\<rparr>)"
    unfolding t1_def by code_simp
  then have e: "?step s4 s5"
    using sink_reports[where s = s4 and da = example_admission] by (simp add: defs session_live_def)
  have f: "?step s5 s6" using adm_recv[where s = s5 and da = example_admission] by (simp add: defs)
  have g: "?step s6 s7"
    using adm_drained[where s = s6 and da = example_admission and cancelled = "[]" and closed = False]
    by (simp add: defs after_session_def tracker_is_empty_def Let_def)
  have h: "?step s7 s8" unfolding s8_def by (rule adm_open) (simp add: defs)
  have i: "?step s8 s9" using adm_recv[where s = s8 and da = example_admission] by (simp add: defs)
  have j: "?step s9 example_admitted"
    using adm_send[where s = s9 and da = example_admission] by (simp add: defs CHANNEL_CAPACITY_def example_admitted_def)
  have "?step\<^sup>*\<^sup>* (admission_init () example_input) example_admitted"
    using a b c d e f g h i j by (meson converse_rtranclp_into_rtranclp rtranclp.rtrancl_refl)
  then show ?thesis by (auto simp: admission_reach_def)
qed

lemma example_input_ids: "sorted_wrt (<) (map input_id example_input)" "0 \<notin> input_id ` set example_input"
  by (simp_all add: example_input_def input_id_def example_delivery_def)

theorem admission_barrier_after_drain_witness:
  "\<exists>e. By_sink e \<in> set (as_events example_admitted) \<and> 1 \<le> e"
  using admission_barrier_after_drain[OF example_admission_reach example_input_ids, of "[By_sink 1]" 2 "[]" 1]
  by (auto simp: example_admitted_def)

theorem admission_stalls_tracker_sink_witness:
  "accept 3 0 1 (as_tracker example_admitted) = Inl (Delivery_order_violation 2 3)"
  using admission_stalls_tracker_sink[OF example_admission_reach example_input_ids, of 2 0 1]
  by (simp add: example_admitted_def example_delivery_def)

end
