(* ===== verification/Delivery_Discovery.thy ===== *)
theory Delivery_Discovery
  imports Schema
begin

section \<open>Delivery discovery: partitions, batches and stored projections\<close>

text \<open>
  The boundary contract of \<^verbatim>\<open>transferia-core/src/delivery.rs\<close>: how source partitions are dealt to
  workers, the check every runtime batch passes before a sink acts on it, and the check of the
  destination projection chosen during discovery. A failed \<^verbatim>\<open>ensure!\<close> is a constructor of the error
  type. A \<^verbatim>\<open>HashSet\<close> that is only inserted into, counted and compared is the list of what was
  inserted, without duplicates; the \<^verbatim>\<open>HashMap\<close> of current columns is an ordered map.
\<close>

subsection \<open>Source topology\<close>

datatype schema_origin = SourceNative | ParserProjection | ParserRuntime

datatype source_topology =
    StaticPartitions "i64 list"
  | CoLocatedStaticPartitions "i64 list"
  | DynamicWorkerLanes

datatype topology_error =
    No_partitions
  | Negative_partition i64
  | Repeated_partition i64
  | No_workers
  | Worker_out_of_range

definition static_partitions :: "source_topology \<Rightarrow> i64 list option" where
  "static_partitions t =
     (case t of
        StaticPartitions ps \<Rightarrow> Some ps
      | CoLocatedStaticPartitions ps \<Rightarrow> Some ps
      | DynamicWorkerLanes \<Rightarrow> None)"

fun validate_partitions :: "i64 list \<Rightarrow> i64 list \<Rightarrow> (topology_error, unit) res" where
  "validate_partitions unique [] = Inr ()"
| "validate_partitions unique (p # ps) =
     (if sint p < 0 then Inl (Negative_partition p)
      else if p \<in> set unique then Inl (Repeated_partition p)
      else validate_partitions (p # unique) ps)"

definition topology_validate :: "source_topology \<Rightarrow> (topology_error, unit) res" where
  "topology_validate t =
     (case static_partitions t of
        None \<Rightarrow> Inr ()
      | Some ps \<Rightarrow> if ps = [] then Inl No_partitions else validate_partitions [] ps)"

definition partitions_for_worker ::
  "source_topology \<Rightarrow> u32 \<Rightarrow> u32 \<Rightarrow> (topology_error, i64 list) res" where
  "partitions_for_worker t total_workers worker_index =
     (if \<not> 0 < total_workers then Inl No_workers
      else if \<not> worker_index < total_workers then Inl Worker_out_of_range
      else case topology_validate t of
        Inl e \<Rightarrow> Inl e
      | Inr _ \<Rightarrow>
          Inr (case t of
                 StaticPartitions ps \<Rightarrow>
                   filter (\<lambda>p. 0 \<le> sint p \<and> p mod ucast total_workers = ucast worker_index) ps
               | CoLocatedStaticPartitions ps \<Rightarrow> if worker_index = 0 then ps else []
               | DynamicWorkerLanes \<Rightarrow> [ucast worker_index]))"

subsection \<open>Discovered datasets\<close>

record delivery_discovery =
  dd_source_name :: string
  dd_source_topology :: source_topology
  dd_schema_origin :: schema_origin
  dd_keep_system_columns :: bool
  dd_datasets :: "discovered_dataset list"

datatype discovery_error =
    No_dataset dataset_role
  | Multiple_datasets dataset_role
  | No_dataset_named dataset_role string
  | Batch_dataset_failed dataset_error
  | Carried_schema_differs string
  | Dataset_name_differs string string
  | Column_count_differs usize usize
  | Column_differs usize
  | Column_metadata_differs string
  | Repeated_system_kind system_column_kind
  | Repeated_system_index usize
  | System_column_outside system_column_kind
  | System_column_field_differs system_column_kind
  | System_kinds_differ

definition dataset :: "delivery_discovery \<Rightarrow> dataset_role \<Rightarrow> (discovery_error, discovered_dataset) res" where
  "dataset d role =
     (case filter (\<lambda>ds. d_role ds = role) (dd_datasets d) of
        [] \<Rightarrow> Inl (No_dataset role)
      | [ds] \<Rightarrow> Inr ds
      | _ \<Rightarrow> Inl (Multiple_datasets role))"

definition dataset_named ::
  "delivery_discovery \<Rightarrow> dataset_role \<Rightarrow> string \<Rightarrow> (discovery_error, discovered_dataset) res" where
  "dataset_named d role n =
     (case find (\<lambda>ds. d_role ds = role \<and> d_name ds = n) (dd_datasets d) of
        None \<Rightarrow> Inl (No_dataset_named role n)
      | Some ds \<Rightarrow> Inr ds)"

subsection \<open>Runtime batches\<close>

definition field_shape_matches :: "field \<Rightarrow> schema_column \<Rightarrow> bool" where
  "field_shape_matches f c \<longleftrightarrow>
     f_name f = c_name c \<and> f_type f = c_data_type c \<and> f_nullable f = c_nullable c"

definition metadata_matches :: "metadata \<Rightarrow> schema_column \<Rightarrow> bool" where
  "metadata_matches m c \<longleftrightarrow>
     (bt_get m META_PRIMARY_KEY = Some ''true'') = c_primary_key c \<and>
     bt_get m META_ALWAYS_PRESENT_ON_UPDATE = true_if (c_always_present_on_update c) \<and>
     bt_get m META_UPDATE_VALUE_PRESENCE = metadata_value (c_update_value_presence c) \<and>
     bt_get m META_DELETE_VALUE_PRESENCE = metadata_value (c_delete_value_presence c) \<and>
     (bt_get m META_LOW_CARDINALITY = Some ''true'') = c_low_cardinality c \<and>
     bt_get m META_MAX_LENGTH = map_option usize_to_string (c_max_length c) \<and>
     bt_get m META_OLD_VALUE_OF = c_old_value_of c \<and>
     bt_get m META_OLD_KEY_OF = c_old_key_of c \<and>
     bt_get m META_SYSTEM_ROLE = c_system_role c \<and>
     bt_get m META_ARROW_EXTENSION_NAME = c_arrow_extension_name c \<and>
     bt_get m META_ARROW_EXTENSION_METADATA = c_arrow_extension_metadata c"

fun check_fields :: "usize \<Rightarrow> field list \<Rightarrow> schema_column list \<Rightarrow> (discovery_error, unit) res" where
  "check_fields position (f # fs) (c # cs) =
     (if \<not> field_shape_matches f c then Inl (Column_differs position)
      else if \<not> metadata_matches (f_metadata f) c then Inl (Column_metadata_differs (f_name f))
      else check_fields (position + 1) fs cs)"
| "check_fields position _ _ = Inr ()"

fun check_system_columns ::
  "arrow_schema \<Rightarrow> system_column_kind list \<Rightarrow> usize list \<Rightarrow> system_columns \<Rightarrow>
   (discovery_error, system_column_kind list) res" where
  "check_system_columns flds kinds indexes [] = Inr kinds"
| "check_system_columns flds kinds indexes (s # ss) =
     (if sc_kind s \<in> set kinds then Inl (Repeated_system_kind (sc_kind s))
      else if sc_index s \<in> set indexes then Inl (Repeated_system_index (sc_index s))
      else if \<not> unat (sc_index s) < length flds then Inl (System_column_outside (sc_kind s))
      else let f = flds ! unat (sc_index s)
           in if \<not> (f_name f = sc_name s \<and> f_type f = kind_data_type (sc_kind s))
              then Inl (System_column_field_differs (sc_kind s))
              else check_system_columns flds (sc_kind s # kinds) (sc_index s # indexes) ss)"

definition expected_dataset ::
  "delivery_discovery \<Rightarrow> 'v sink_batch \<Rightarrow> (discovery_error, discovered_dataset) res" where
  "expected_dataset d b =
     (let known = dataset_named d (from_is_dlq (sb_is_dlq b)) (sb_table b);
          own = (case batch_dataset b (dd_keep_system_columns d) of
                   Inl e \<Rightarrow> Inl (Batch_dataset_failed e)
                 | Inr ds \<Rightarrow> Inr ds)
      in if dd_schema_origin d = ParserRuntime
         then (case known of
                 Inr ds \<Rightarrow> if schema_eq (d_incoming_schema ds) (sb_schema b) then Inr ds else own
               | Inl _ \<Rightarrow> own)
         else known)"

definition validate_batch_against_discovery ::
  "delivery_discovery \<Rightarrow> 'v sink_batch \<Rightarrow> (discovery_error, discovered_dataset) res" where
  "validate_batch_against_discovery d b =
     res_bind (expected_dataset d b) (\<lambda>expected.
     let flds = rb_schema (sb_batch b); cols = d_incoming_schema expected
     in if \<not> schema_eq cols (sb_schema b) then Inl (Carried_schema_differs (sb_table b))
        else if sb_table b \<noteq> d_name expected then Inl (Dataset_name_differs (sb_table b) (d_name expected))
        else if length flds \<noteq> length cols
             then Inl (Column_count_differs (of_nat (length flds)) (of_nat (length cols)))
        else res_bind (check_fields 0 flds cols) (\<lambda>_.
             res_bind (check_system_columns flds [] [] (sb_system_columns b)) (\<lambda>kinds.
             if set kinds = set (map ds_kind (d_system_columns expected)) then Inr expected
             else Inl System_kinds_differ)))"

subsection \<open>Stored projections\<close>

datatype projection_error =
    Repeated_incoming_name
  | Repeated_stored_name
  | Repeated_system_column
  | Repeated_system_column_kind system_column_kind
  | System_column_mismatch string
  | Old_values_without_changelog
  | Old_value_count_differs
  | Old_value_of_unknown string string
  | Old_value_repeated string
  | Old_values_incomplete
  | Old_keys_not_allowed
  | Old_key_count_differs
  | Old_key_of_unknown string string
  | Old_key_not_unique string
  | Old_keys_incomplete
  | Control_column_malformed string
  | Upsert_without_keyed_changelog
  | Upsert_without_old_key string
  | Source_version_malformed
  | Multiple_source_versions
  | Stored_schema_not_projection

fun check_projection_systems ::
  "dataset_schema \<Rightarrow> system_column_kind list \<Rightarrow> discovered_system_column list \<Rightarrow>
   (projection_error, unit) res" where
  "check_projection_systems cols kinds [] = Inr ()"
| "check_projection_systems cols kinds (s # ss) =
     (if ds_kind s \<in> set kinds then Inl (Repeated_system_column_kind (ds_kind s))
      else (case filter (\<lambda>c. c_name c = ds_name s) cols of
              [c] \<Rightarrow> if c_data_type c = kind_data_type (ds_kind s) \<and> \<not> c_nullable c
                     then check_projection_systems cols (ds_kind s # kinds) ss
                     else Inl (System_column_mismatch (ds_name s))
            | _ \<Rightarrow> Inl (System_column_mismatch (ds_name s))))"

definition validate_projection_names_and_system_columns ::
  "discovered_dataset \<Rightarrow> (projection_error, string list) res" where
  "validate_projection_names_and_system_columns d =
     (let incoming_names = remdups (map c_name (d_incoming_schema d));
          stored_names = remdups (map c_name (d_stored_schema d));
          system_names = remdups (map ds_name (d_system_columns d))
      in if length incoming_names \<noteq> length (d_incoming_schema d) then Inl Repeated_incoming_name
         else if length stored_names \<noteq> length (d_stored_schema d) then Inl Repeated_stored_name
         else if length system_names \<noteq> length (d_system_columns d) then Inl Repeated_system_column
         else res_bind (check_projection_systems (d_incoming_schema d) [] (d_system_columns d))
                (\<lambda>_. Inr system_names))"

definition stored_column_matches :: "schema_column \<Rightarrow> schema_column \<Rightarrow> bool" where
  "stored_column_matches stored incoming \<longleftrightarrow>
     c_name stored = c_name incoming \<and> c_data_type stored = c_data_type incoming \<and>
     (c_nullable stored = c_nullable incoming \<or> \<not> c_nullable stored \<and> c_nullable incoming) \<and>
     c_primary_key stored = c_primary_key incoming \<and>
     c_always_present_on_update stored = c_always_present_on_update incoming \<and>
     c_update_value_presence stored = c_update_value_presence incoming \<and>
     c_delete_value_presence stored = c_delete_value_presence incoming \<and>
     c_low_cardinality stored = c_low_cardinality incoming \<and>
     c_max_length stored = c_max_length incoming \<and>
     c_arrow_extension_name stored = c_arrow_extension_name incoming \<and>
     c_arrow_extension_metadata stored = c_arrow_extension_metadata incoming \<and>
     c_old_value_of stored = None \<and> c_old_key_of stored = None \<and> c_system_role stored = None"

definition validate_cdc_control_column ::
  "schema_column \<Rightarrow> string \<Rightarrow> schema_column \<Rightarrow> (projection_error, unit) res" where
  "validate_cdc_control_column control current_name current =
     (if (c_old_value_of control \<noteq> None) \<noteq> (c_old_key_of control \<noteq> None) \<and>
         c_name control \<noteq> current_name \<and> c_data_type control = c_data_type current \<and>
         c_arrow_extension_name control = c_arrow_extension_name current \<and>
         c_arrow_extension_metadata control = c_arrow_extension_metadata current \<and>
         c_nullable control \<and> \<not> c_primary_key control \<and> \<not> c_low_cardinality control \<and>
         c_max_length control = None \<and> c_system_role control = None
      then Inr () else Inl (Control_column_malformed (c_name control)))"

definition is_current :: "string list \<Rightarrow> schema_column \<Rightarrow> bool" where
  "is_current system_names c \<longleftrightarrow>
     c_old_value_of c = None \<and> c_old_key_of c = None \<and> c_system_role c = None \<and>
     c_name c \<notin> set system_names"

definition current_columns :: "string list \<Rightarrow> dataset_schema \<Rightarrow> (string, schema_column) btree" where
  "current_columns system_names cols =
     bt_of_list (map (\<lambda>c. (c_name c, c)) (filter (is_current system_names) cols))"

fun old_value_loop ::
  "(string, schema_column) btree \<Rightarrow> string list \<Rightarrow> (string \<times> schema_column) list \<Rightarrow>
   (projection_error, string list) res" where
  "old_value_loop current paired [] = Inr paired"
| "old_value_loop current paired ((n, old) # rest) =
     (case bt_get current n of
        None \<Rightarrow> Inl (Old_value_of_unknown (c_name old) n)
      | Some c \<Rightarrow>
          if n \<in> set paired then Inl (Old_value_repeated n)
          else res_bind (validate_cdc_control_column old n c)
                 (\<lambda>_. old_value_loop current (n # paired) rest))"

fun old_key_loop ::
  "(string, schema_column) btree \<Rightarrow> string list \<Rightarrow> (string \<times> schema_column) list \<Rightarrow>
   (projection_error, string list) res" where
  "old_key_loop current paired [] = Inr paired"
| "old_key_loop current paired ((n, old) # rest) =
     (case bt_get current n of
        None \<Rightarrow> Inl (Old_key_of_unknown (c_name old) n)
      | Some c \<Rightarrow>
          if \<not> (c_primary_key c \<and> n \<notin> set paired) then Inl (Old_key_not_unique n)
          else res_bind (validate_cdc_control_column old n c)
                 (\<lambda>_. old_key_loop current (n # paired) rest))"

definition tagged :: "(schema_column \<Rightarrow> string option) \<Rightarrow> dataset_schema \<Rightarrow> (string \<times> schema_column) list" where
  "tagged tag cols = List.map_filter (\<lambda>c. map_option (\<lambda>n. (n, c)) (tag c)) cols"

definition check_old_values ::
  "bool \<Rightarrow> (string, schema_column) btree \<Rightarrow> (string \<times> schema_column) list \<Rightarrow> (projection_error, unit) res" where
  "check_old_values changelog_input current old =
     (if old = [] then Inr ()
      else if \<not> changelog_input then Inl Old_values_without_changelog
      else if length old \<noteq> length current then Inl Old_value_count_differs
      else res_bind (old_value_loop current [] old) (\<lambda>paired.
           if length paired = length current then Inr () else Inl Old_values_incomplete))"

definition check_old_keys ::
  "bool \<Rightarrow> bool \<Rightarrow> (string, schema_column) btree \<Rightarrow> (string \<times> schema_column) list \<Rightarrow>
   (projection_error, unit) res" where
  "check_old_keys changelog_input has_old_values current old_keys =
     (if old_keys = [] then Inr ()
      else if \<not> (changelog_input \<and> \<not> has_old_values) then Inl Old_keys_not_allowed
      else let primary_keys = remdups (map (\<lambda>e. c_name (snd e)) (filter (\<lambda>e. c_primary_key (snd e)) current))
           in if length old_keys \<noteq> length primary_keys then Inl Old_key_count_differs
              else res_bind (old_key_loop current [] old_keys) (\<lambda>paired.
                   if set paired = set primary_keys then Inr () else Inl Old_keys_incomplete))"

definition validate_cdc_control_columns ::
  "discovered_dataset \<Rightarrow> bool \<Rightarrow> string list \<Rightarrow> (projection_error, unit) res" where
  "validate_cdc_control_columns d changelog_input system_names =
     (let cols = d_incoming_schema d;
          current = current_columns system_names cols;
          old = tagged c_old_value_of cols
      in res_bind (check_old_values changelog_input current old) (\<lambda>_.
         check_old_keys changelog_input (old \<noteq> []) current (tagged c_old_key_of cols)))"

definition has_old_pair :: "dataset_schema \<Rightarrow> schema_column \<Rightarrow> bool" where
  "has_old_pair cols key \<longleftrightarrow>
     list_ex (\<lambda>c. c_old_value_of c = Some (c_name key) \<or> c_old_key_of c = Some (c_name key)) cols"

definition check_full_image ::
  "discovered_dataset \<Rightarrow> bool \<Rightarrow> (projection_error, unit) res" where
  "check_full_image d changelog_input =
     (if d_update_policy d \<noteq> FullImageUpsert then Inr ()
      else if \<not> (changelog_input \<and> list_ex c_primary_key (d_stored_schema d))
           then Inl Upsert_without_keyed_changelog
      else (case find (\<lambda>k. \<not> has_old_pair (d_incoming_schema d) k) (filter c_primary_key (d_stored_schema d)) of
              None \<Rightarrow> Inr ()
            | Some k \<Rightarrow> Inl (Upsert_without_old_key (c_name k))))"

definition check_source_version ::
  "discovered_dataset \<Rightarrow> bool \<Rightarrow> (projection_error, unit) res" where
  "check_source_version d changelog_input =
     (case filter (\<lambda>c. c_system_role c = Some SYSTEM_ROLE_SOURCE_VERSION) (d_incoming_schema d) of
        [] \<Rightarrow> Inr ()
      | c # rest \<Rightarrow>
          if \<not> (changelog_input \<and> c_data_type c = UInt64 \<and> \<not> c_nullable c) then Inl Source_version_malformed
          else if rest = [] then Inr () else Inl Multiple_source_versions)"

definition projected ::
  "bool \<Rightarrow> discovered_system_column list \<Rightarrow> string list \<Rightarrow> schema_column \<Rightarrow> bool" where
  "projected keep sys system_names c \<longleftrightarrow>
     c_old_value_of c = None \<and> c_old_key_of c = None \<and> c_system_role c = None \<and>
     \<not> (case find (\<lambda>s. ds_name s = c_name c) sys of
           Some s \<Rightarrow> ds_kind s = ChangeOperation \<or> ds_kind s = ChangedColumns
         | None \<Rightarrow> False) \<and>
     (keep \<or> c_name c \<notin> set system_names)"

definition validate_stored_projection ::
  "delivery_discovery \<Rightarrow> discovered_dataset \<Rightarrow> (projection_error, unit) res" where
  "validate_stored_projection disc d =
     res_bind (validate_projection_names_and_system_columns d) (\<lambda>system_names.
     let changelog_input = list_ex (\<lambda>s. ds_kind s = ChangeOperation) (d_system_columns d)
     in res_bind (validate_cdc_control_columns d changelog_input system_names) (\<lambda>_.
        res_bind (check_full_image d changelog_input) (\<lambda>_.
        res_bind (check_source_version d changelog_input) (\<lambda>_.
        let expected = filter (projected (dd_keep_system_columns disc) (d_system_columns d) system_names)
                         (d_incoming_schema d)
        in if length (d_stored_schema d) = length expected \<and>
              list_all (\<lambda>(s, i). stored_column_matches s i) (zip (d_stored_schema d) expected)
           then Inr () else Inl Stored_schema_not_projection))))"

subsection \<open>Dealing partitions\<close>

lemma validate_partitions_Inr:
  "validate_partitions unique ps = Inr () \<longleftrightarrow>
     (\<forall>p \<in> set ps. 0 \<le> sint p) \<and> distinct ps \<and> set ps \<inter> set unique = {}"
  by (induction unique ps rule: validate_partitions.induct) auto

lemma static_partitions_valid:
  assumes "topology_validate t = Inr ()" "static_partitions t = Some ps"
  shows "distinct ps \<and> (\<forall>p \<in> set ps. 0 \<le> sint p)"
  using assms by (auto simp: topology_validate_def validate_partitions_Inr split: if_splits)

lemma ucast_u32_u64_inj [simp]: "(ucast a :: u64) = ucast b \<longleftrightarrow> a = b" for a b :: u32
proof
  assume "(ucast a :: u64) = ucast b"
  then have "unat (ucast a :: u64) = unat (ucast b :: u64)" by simp
  then show "a = b" by (simp add: unat_ucast_wider word_unat_eq_iff)
qed simp

lemma mod_worker:
  fixes p :: u64 and w :: u32
  assumes "0 < w"
  shows "\<exists>i. i < w \<and> p mod ucast w = ucast i"
proof (intro exI conjI)
  let ?i = "ucast (p mod ucast w) :: u32"
  have w: "unat (ucast w :: u64) = unat w" by (simp add: unat_ucast_wider)
  have lt: "unat (p mod ucast w) < unat w"
    using assms by (simp add: unat_mod_distrib w word_less_nat_alt)
  then have i: "unat ?i = unat (p mod ucast w)"
    using unat_less_pow[of w] by (simp add: unat_ucast_narrower)
  show "?i < w" using lt i by (simp add: word_less_nat_alt)
  show "p mod ucast w = ucast ?i"
    using i by (simp add: word_unat_eq_iff unat_ucast_wider)
qed

subsection \<open>What an accepted batch guarantees\<close>

lemma check_fields_Inr:
  "length fs = length cs \<Longrightarrow>
   check_fields n fs cs = Inr () \<longleftrightarrow>
     list_all2 (\<lambda>f c. field_shape_matches f c \<and> metadata_matches (f_metadata f) c) fs cs"
  by (induction n fs cs rule: check_fields.induct) auto

lemma flag_Inr_iff: "flag f k = Inr b \<longleftrightarrow> bt_get (f_metadata f) k = true_if b"
  by (auto simp: flag_def true_if_def split: option.splits)

lemma presence_Inr_iff: "presence f k = Inr p \<longleftrightarrow> bt_get (f_metadata f) k = metadata_value p"
  by (cases p) (auto simp: presence_def metadata_value_def split: option.splits)

lemma max_length_of_Inr_eq:
  "bt_get (f_metadata f) META_MAX_LENGTH = map_option usize_to_string m \<Longrightarrow> max_length_of f = Inr n \<Longrightarrow> n = m"
  using max_length_of_show[of f m] by simp

lemma metadata_value_inj [simp]: "metadata_value p = metadata_value q \<longleftrightarrow> p = q"
  by (cases p; cases q) (simp_all add: metadata_value_def)

lemma matching_field_column:
  assumes "field_shape_matches f c" "metadata_matches (f_metadata f) c" "column_from_field f = Inr s"
  shows "column_eq s c"
proof -
  obtain pk lc ap up dp ml where r: "flag f META_PRIMARY_KEY = Inr pk" "flag f META_LOW_CARDINALITY = Inr lc"
      "flag f META_ALWAYS_PRESENT_ON_UPDATE = Inr ap" "presence f META_UPDATE_VALUE_PRESENCE = Inr up"
      "presence f META_DELETE_VALUE_PRESENCE = Inr dp" "max_length_of f = Inr ml"
    and s: "s = (schema_column_new (f_name f) (f_type f) (f_nullable f))
          \<lparr>c_primary_key := pk, c_low_cardinality := lc, c_always_present_on_update := ap,
           c_update_value_presence := up, c_delete_value_presence := dp, c_max_length := ml,
           c_arrow_extension_name := bt_get (f_metadata f) META_ARROW_EXTENSION_NAME,
           c_arrow_extension_metadata := bt_get (f_metadata f) META_ARROW_EXTENSION_METADATA,
           c_system_role := bt_get (f_metadata f) META_SYSTEM_ROLE,
           c_old_value_of := bt_get (f_metadata f) META_OLD_VALUE_OF,
           c_old_key_of := bt_get (f_metadata f) META_OLD_KEY_OF\<rparr>"
    using assms(3) by (auto simp: column_from_field_def res_bind_Inr_iff Let_def split: if_splits)
  have t: "true_if x = true_if y \<longleftrightarrow> x = y" "(true_if x = Some ''true'') = x" for x y
    by (auto simp: true_if_def)
  have "ml = c_max_length c"
    using max_length_of_Inr_eq[OF _ r(6)] assms(2) by (simp add: metadata_matches_def)
  then show ?thesis
    using assms(1,2) r(1-5) unfolding s flag_Inr_iff presence_Inr_iff
    by (simp add: field_shape_matches_def metadata_matches_def column_eq_def schema_column_new_def t)
qed

lemma source_field_matches:
  "field_shape_matches (source_user_field c False) d \<and> metadata_matches (f_metadata (source_user_field c False)) d \<longleftrightarrow>
   column_eq c d"
proof -
  have t: "true_if x = true_if y \<longleftrightarrow> x = y" "(true_if x = Some ''true'') = x" for x y
    by (auto simp: true_if_def)
  have m: "map_option usize_to_string x = map_option usize_to_string y \<longleftrightarrow> x = y" for x y
    by (cases x; cases y) auto
  show ?thesis
    unfolding field_shape_matches_def metadata_matches_def source_user_field_def field.simps arrow_metadata_get t m
      metadata_value_inj column_eq_def by auto
qed

definition system_columns_ok :: "arrow_schema \<Rightarrow> system_columns \<Rightarrow> bool" where
  "system_columns_ok flds ss \<longleftrightarrow>
     distinct (map sc_kind ss) \<and> distinct (map sc_index ss) \<and>
     (\<forall>s \<in> set ss. unat (sc_index s) < length flds \<and>
        f_name (flds ! unat (sc_index s)) = sc_name s \<and>
        f_type (flds ! unat (sc_index s)) = kind_data_type (sc_kind s))"

lemma check_system_columns_Inr:
  "check_system_columns flds ks is ss = Inr kinds \<longleftrightarrow>
     system_columns_ok flds ss \<and> set ks \<inter> sc_kind ` set ss = {} \<and> set is \<inter> sc_index ` set ss = {} \<and>
     kinds = rev (map sc_kind ss) @ ks"
  by (induction flds ks "is" ss rule: check_system_columns.induct)
     (auto simp: system_columns_ok_def Let_def)

lemma validate_batch_Inr_iff:
  "validate_batch_against_discovery d b = Inr e \<longleftrightarrow>
     expected_dataset d b = Inr e \<and> schema_eq (d_incoming_schema e) (sb_schema b) \<and> sb_table b = d_name e \<and>
     list_all2 (\<lambda>f c. field_shape_matches f c \<and> metadata_matches (f_metadata f) c)
       (rb_schema (sb_batch b)) (d_incoming_schema e) \<and>
     system_columns_ok (rb_schema (sb_batch b)) (sb_system_columns b) \<and>
     sc_kind ` set (sb_system_columns b) = ds_kind ` set (d_system_columns e)"
proof (cases "expected_dataset d b")
  case (Inr e')
  show ?thesis
  proof (cases "length (rb_schema (sb_batch b)) = length (d_incoming_schema e')")
    case True
    have "validate_batch_against_discovery d b = Inr e \<longleftrightarrow>
        schema_eq (d_incoming_schema e') (sb_schema b) \<and> sb_table b = d_name e' \<and>
        check_fields 0 (rb_schema (sb_batch b)) (d_incoming_schema e') = Inr () \<and>
        (\<exists>kinds. check_system_columns (rb_schema (sb_batch b)) [] [] (sb_system_columns b) = Inr kinds \<and>
           set kinds = set (map ds_kind (d_system_columns e'))) \<and> e = e'"
      using Inr True by (auto simp: validate_batch_against_discovery_def Let_def res_bind_Inr_iff)
    then show ?thesis
      using Inr True unfolding check_fields_Inr[OF True] check_system_columns_Inr by auto
  next
    case False
    then show ?thesis
      using Inr by (auto simp: validate_batch_against_discovery_def Let_def dest: list_all2_lengthD)
  qed
qed (simp add: validate_batch_against_discovery_def)

lemma expected_dataset_role:
  assumes "expected_dataset d b = Inr e"
  shows "d_role e = from_is_dlq (sb_is_dlq b) \<and> d_name e = sb_table b"
  using assms
  by (auto simp: expected_dataset_def dataset_named_def batch_dataset_def Let_def find_Some_iff
      split: if_splits sum.splits option.splits)

text \<open>The discovered dataset a batch belongs to: the first one of its role and name.\<close>

definition discovered_for :: "delivery_discovery \<Rightarrow> 'v sink_batch \<Rightarrow> discovered_dataset \<Rightarrow> bool" where
  "discovered_for d b e \<longleftrightarrow>
     (\<exists>k < length (dd_datasets d). dd_datasets d ! k = e \<and> d_role e = from_is_dlq (sb_is_dlq b) \<and> d_name e = sb_table b \<and>
        (\<forall>j < k. \<not> (d_role (dd_datasets d ! j) = from_is_dlq (sb_is_dlq b) \<and> d_name (dd_datasets d ! j) = sb_table b)))"

lemma dataset_named_iff: "dataset_named d (from_is_dlq (sb_is_dlq b)) (sb_table b) = Inr e \<longleftrightarrow> discovered_for d b e"
proof -
  have "dataset_named d (from_is_dlq (sb_is_dlq b)) (sb_table b) = Inr e \<longleftrightarrow>
      find (\<lambda>ds. d_role ds = from_is_dlq (sb_is_dlq b) \<and> d_name ds = sb_table b) (dd_datasets d) = Some e"
    by (simp add: dataset_named_def split: option.splits)
  then show ?thesis unfolding find_Some_iff discovered_for_def by blast
qed

lemma expected_dataset_discovered:
  assumes "expected_dataset d b = Inr e"
  shows "discovered_for d b e \<or>
    dd_schema_origin d = ParserRuntime \<and> batch_dataset b (dd_keep_system_columns d) = Inr e \<and>
    (\<forall>ds. discovered_for d b ds \<longrightarrow> \<not> schema_eq (d_incoming_schema ds) (sb_schema b))"
  using assms unfolding dataset_named_iff[symmetric]
  by (auto simp: expected_dataset_def Let_def split: if_splits sum.splits)

subsection \<open>What an accepted projection guarantees\<close>

lemma bt_get_of_list: "bt_get (bt_of_list es) k = map_of (rev es) k"
proof -
  have "bt_get (fold (\<lambda>(k, v) m. bt_insert k v m) es m) k =
      (case map_of (rev es) k of None \<Rightarrow> bt_get m k | Some v \<Rightarrow> Some v)" for m
    by (induction es arbitrary: m) (auto simp: map_add_def split: option.splits)
  then show ?thesis by (simp add: bt_of_list_def split: option.splits)
qed

lemma current_columns_get:
  assumes "distinct (map c_name cols)"
  shows "bt_get (current_columns sys cols) n = Some c \<longleftrightarrow> c \<in> set cols \<and> is_current sys c \<and> c_name c = n"
proof -
  let ?es = "map (\<lambda>c. (c_name c, c)) (filter (is_current sys) cols)"
  have "distinct (map fst ?es)"
    using assms by (simp add: comp_def distinct_map_filter)
  then have "distinct (map fst (rev ?es))" by (metis distinct_rev rev_map)
  from map_of_eq_Some_iff[OF this, of n c] show ?thesis unfolding current_columns_def bt_get_of_list by auto
qed

lemma old_value_loop_fresh:
  "old_value_loop current ps old = Inr qs \<Longrightarrow> set (map fst old) \<inter> set ps = {}"
  by (induction current ps old rule: old_value_loop.induct)
     (auto simp: res_bind_Inr_iff split: option.splits if_splits)

lemma old_value_loop_Inr:
  "old_value_loop current paired old = Inr paired' \<Longrightarrow>
     paired' = rev (map fst old) @ paired \<and> distinct (map fst old) \<and>
     (\<forall>(n, col) \<in> set old. \<exists>c. bt_get current n = Some c \<and> validate_cdc_control_column col n c = Inr ())"
proof (induction current paired old rule: old_value_loop.induct)
  case (2 current paired n old rest)
  then obtain c where c: "bt_get current n = Some c" "n \<notin> set paired"
      "validate_cdc_control_column old n c = Inr ()" "old_value_loop current (n # paired) rest = Inr paired'"
    by (auto simp: res_bind_Inr_iff split: option.splits if_splits)
  note IH = "2.IH"[OF c(1,2) c(4)]
  show ?case using IH c old_value_loop_fresh[OF c(4)] by auto
qed simp

lemma tagged_mem: "(n, c) \<in> set (tagged tag cols) \<longleftrightarrow> c \<in> set cols \<and> tag c = Some n"
  by (auto simp: tagged_def map_filter_def image_iff intro!: bexI[of _ c])

lemma old_values_paired:
  assumes ok: "check_old_values changelog (current_columns sys cols) (tagged c_old_value_of cols) = Inr ()"
    and names: "distinct (map c_name cols)" and old: "o' \<in> set cols" "c_old_value_of o' \<noteq> None"
    and c: "c \<in> set cols" "is_current sys c"
  shows "\<exists>!old. old \<in> set cols \<and> c_old_value_of old = Some (c_name c) \<and>
    validate_cdc_control_column old (c_name c) c = Inr ()"
proof -
  let ?cur = "current_columns sys cols" and ?old = "tagged c_old_value_of cols"
  have "?old \<noteq> []" using old tagged_mem[of _ o' c_old_value_of cols] by fastforce
  then obtain paired where lp: "old_value_loop ?cur [] ?old = Inr paired" and len: "length ?old = length ?cur"
    using ok by (auto simp: check_old_values_def res_bind_Inr_iff split: if_splits)
  note L = old_value_loop_Inr[OF lp]
  have wf: "distinct (map fst ?cur)" by (simp add: current_columns_def bt_wf_distinct)
  have sub: "set (map fst ?old) \<subseteq> set (map fst ?cur)"
    using L by (force dest: bt_get_Some_mem)
  have "card (set (map fst ?old)) = card (set (map fst ?cur))"
    using L wf len by (metis distinct_card length_map)
  then have eq: "set (map fst ?old) = set (map fst ?cur)"
    using sub by (simp add: card_subset_eq)
  have get: "bt_get ?cur (c_name c) = Some c" using current_columns_get[OF names] c by simp
  then have "c_name c \<in> set (map fst ?cur)" by (force dest: bt_get_Some_mem)
  then obtain old where m: "(c_name c, old) \<in> set ?old" unfolding eq[symmetric] by auto
  have "validate_cdc_control_column old (c_name c) c = Inr ()"
    using L m get by fastforce
  moreover have "old2 = old" if "old2 \<in> set cols" "c_old_value_of old2 = Some (c_name c)" for old2
  proof -
    have "(c_name c, old2) \<in> set ?old" using that by (simp add: tagged_mem)
    then show ?thesis using L m by (metis eq_key_imp_eq_value)
  qed
  ultimately show ?thesis using m by (auto simp: tagged_mem)
qed

lemma stored_projection_Inr:
  assumes "validate_stored_projection disc d = Inr ()"
  shows "distinct (map c_name (d_incoming_schema d)) \<and> distinct (map ds_name (d_system_columns d)) \<and>
    check_old_values (list_ex (\<lambda>s. ds_kind s = ChangeOperation) (d_system_columns d))
      (current_columns (map ds_name (d_system_columns d)) (d_incoming_schema d))
      (tagged c_old_value_of (d_incoming_schema d)) = Inr () \<and>
    list_all2 stored_column_matches (d_stored_schema d)
      (filter (projected (dd_keep_system_columns disc) (d_system_columns d) (map ds_name (d_system_columns d)))
         (d_incoming_schema d))"
proof -
  have dist: "length (remdups xs) = length xs \<longleftrightarrow> distinct xs" for xs :: "string list"
    by (metis distinct_remdups distinct_remdups_id length_remdups_eq)
  obtain sys where names: "validate_projection_names_and_system_columns d = Inr sys"
    using assms by (auto simp: validate_stored_projection_def res_bind_Inr_iff)
  then have d: "distinct (map c_name (d_incoming_schema d))" "distinct (map ds_name (d_system_columns d))"
    "sys = map ds_name (d_system_columns d)"
    using dist[of "map c_name (d_incoming_schema d)"] dist[of "map ds_name (d_system_columns d)"]
    by (auto simp: validate_projection_names_and_system_columns_def Let_def res_bind_Inr_iff
        distinct_remdups_id split: if_splits)
  show ?thesis
    using assms names d
    by (auto simp: validate_stored_projection_def validate_cdc_control_columns_def Let_def res_bind_Inr_iff
        list_all2_iff list_all_iff split: if_splits)
qed

lemma stored_by_sink_projected:
  "stored_by_sink sys keep c =
     projected keep (map (\<lambda>s. \<lparr>ds_kind = sc_kind s, ds_name = sc_name s\<rparr>) sys) (map sc_name sys) c"
proof -
  let ?d = "\<lambda>s. \<lparr>ds_kind = sc_kind s, ds_name = sc_name s\<rparr>"
  have f: "find (\<lambda>s. ds_name s = n) (map ?d sys) = map_option ?d (find (\<lambda>s. sc_name s = n) sys)" for n
    by (induction sys) auto
  have m: "n \<in> set (map sc_name sys) \<longleftrightarrow> find (\<lambda>s. sc_name s = n) sys \<noteq> None" for n
    by (auto simp: find_None_iff)
  show ?thesis
    unfolding stored_by_sink_def projected_def f m by (auto split: option.splits)
qed

subsection \<open>Properties\<close>

text \<open>
  C18 (partitions are dealt exactly once). For a valid topology, two different workers never get the
  same partition, every static partition is dealt to some worker, and a worker gets each of its
  partitions once and only partitions of the topology.
\<close>

theorem partitions_dealt_once:
  assumes "topology_validate t = Inr ()" "0 < total_workers"
  shows "(\<forall>w w' qs qs' p. partitions_for_worker t total_workers w = Inr qs \<longrightarrow> partitions_for_worker t total_workers w' = Inr qs' \<longrightarrow>
      p \<in> set qs \<longrightarrow> p \<in> set qs' \<longrightarrow> w = w') \<and>
    (\<forall>ps p. static_partitions t = Some ps \<longrightarrow> p \<in> set ps \<longrightarrow>
      (\<exists>w qs. partitions_for_worker t total_workers w = Inr qs \<and> p \<in> set qs)) \<and>
    (\<forall>w qs. partitions_for_worker t total_workers w = Inr qs \<longrightarrow>
      distinct qs \<and> (\<forall>ps. static_partitions t = Some ps \<longrightarrow> set qs \<subseteq> set ps))"
proof (intro conjI allI impI)
  fix w w' qs qs' p
  assume "partitions_for_worker t total_workers w = Inr qs" "partitions_for_worker t total_workers w' = Inr qs'"
    "p \<in> set qs" "p \<in> set qs'"
  then show "w = w'"
    by (cases t) (auto simp: partitions_for_worker_def split: if_splits sum.splits)
next
  fix ps p
  assume ps: "static_partitions t = Some ps" "p \<in> set ps"
  obtain i where i: "i < total_workers" "p mod ucast total_workers = ucast i" using mod_worker[OF assms(2)] by blast
  show "\<exists>w qs. partitions_for_worker t total_workers w = Inr qs \<and> p \<in> set qs"
  proof (cases t)
    case (StaticPartitions xs)
    then show ?thesis
      using assms ps i static_partitions_valid[OF assms(1) ps(1)]
      by (auto simp: partitions_for_worker_def static_partitions_def intro!: exI[of _ i])
  qed (use assms ps in \<open>auto simp: partitions_for_worker_def static_partitions_def intro!: exI[of _ 0]\<close>)
next
  fix w qs
  assume "partitions_for_worker t total_workers w = Inr qs"
  then show "distinct qs"
    using static_partitions_valid[OF assms(1)] assms
    by (cases t) (auto simp: partitions_for_worker_def static_partitions_def split: if_splits)
next
  fix w qs ps
  assume "partitions_for_worker t total_workers w = Inr qs" "static_partitions t = Some ps"
  then show "set qs \<subseteq> set ps"
    using assms by (cases t) (auto simp: partitions_for_worker_def static_partitions_def split: if_splits)
qed

theorem partitions_dealt_once_witness:
  "\<exists>w qs. partitions_for_worker (StaticPartitions [0, 1, 2, 5]) 3 w = Inr qs \<and> 5 \<in> set qs"
proof -
  have "topology_validate (StaticPartitions [0, 1, 2, 5]) = Inr ()"
    "static_partitions (StaticPartitions [0, 1, 2, 5]) = Some [0, 1, 2, 5]"
    by code_simp+
  then show ?thesis using partitions_dealt_once[of "StaticPartitions [0, 1, 2, 5]" 3] by auto
qed

text \<open>
  C19 (an accepted batch is what was discovered). The dataset a batch is accepted as is the first discovered one of its role and
  name; only when the schema comes from the parser at run time, and that dataset does not have the schema the batch carries, is it the
  dataset the batch itself describes. The batch has the role,
  name, logical schema and system columns of that dataset, every system column sits
  at its own field of its kind's type, and whatever schema its Arrow fields decode to is the
  incoming schema of the dataset, all constraints and CDC pairings included.
\<close>

theorem validated_batch_sound:
  assumes "validate_batch_against_discovery d b = Inr e"
  shows "(discovered_for d b e \<or>
      dd_schema_origin d = ParserRuntime \<and> batch_dataset b (dd_keep_system_columns d) = Inr e \<and>
      (\<forall>ds. discovered_for d b ds \<longrightarrow> \<not> schema_eq (d_incoming_schema ds) (sb_schema b))) \<and>
    d_role e = from_is_dlq (sb_is_dlq b) \<and> d_name e = sb_table b \<and>
    schema_eq (d_incoming_schema e) (sb_schema b) \<and>
    system_columns_ok (rb_schema (sb_batch b)) (sb_system_columns b) \<and>
    sc_kind ` set (sb_system_columns b) = ds_kind ` set (d_system_columns e) \<and>
    (\<forall>s. from_arrow (rb_schema (sb_batch b)) = Inr s \<longrightarrow> schema_eq s (d_incoming_schema e))"
proof -
  note V = assms[unfolded validate_batch_Inr_iff]
  have "schema_eq s (d_incoming_schema e)" if "from_arrow (rb_schema (sb_batch b)) = Inr s" for s
  proof -
    have "list_all2 (\<lambda>f c. column_from_field f = Inr c) (rb_schema (sb_batch b)) s"
      using that by (simp add: from_arrow_def res_map_Inr_iff)
    then show ?thesis
      using V matching_field_column unfolding schema_eq_def list_all2_conv_all_nth by metis
  qed
  then show ?thesis using V expected_dataset_role[of d b e] expected_dataset_discovered[of d b e] by blast
qed

definition example_columns :: "schema_column list" where
  "example_columns =
     [with_constraints True False (Some 12) (schema_column_new ''id'' Utf8 False),
      schema_column_new ''v'' Int64 True]"

definition example_sink_batch :: "unit sink_batch" where
  "example_sink_batch =
     \<lparr>sb_schema = example_columns, sb_namespace = None, sb_table = ''t'', sb_is_dlq = False,
      sb_batch = \<lparr>rb_schema = map (\<lambda>c. source_user_field c False) example_columns, rb_num_rows = 0, rb_columns = []\<rparr>,
      sb_byte_size = 0, sb_memory = 0, sb_system_columns = []\<rparr>"

definition example_discovery :: delivery_discovery where
  "example_discovery =
     \<lparr>dd_source_name = ''s'', dd_source_topology = DynamicWorkerLanes, dd_schema_origin = SourceNative,
      dd_keep_system_columns = False,
      dd_datasets =
        [\<lparr>d_namespace = None, d_update_policy = Strict, d_role = MainRole, d_name = ''t'',
          d_incoming_schema = example_columns, d_stored_schema = example_columns, d_system_columns = []\<rparr>]\<rparr>"

lemma example_batch_accepted:
  "validate_batch_against_discovery example_discovery example_sink_batch = Inr (hd (dd_datasets example_discovery))"
  by code_simp

theorem validated_batch_sound_witness:
  "discovered_for example_discovery example_sink_batch (hd (dd_datasets example_discovery)) \<and>
   schema_eq example_columns (d_incoming_schema (hd (dd_datasets example_discovery))) \<and>
   from_arrow (rb_schema (sb_batch example_sink_batch)) = Inr example_columns"
proof -
  have "from_arrow (rb_schema (sb_batch example_sink_batch)) = Inr example_columns" by code_simp
  moreover have "dd_schema_origin example_discovery \<noteq> ParserRuntime" by (simp add: example_discovery_def)
  ultimately show ?thesis using validated_batch_sound[OF example_batch_accepted] by blast
qed

text \<open>
  Source batches are accepted exactly when they agree. For a batch whose Arrow fields a source built
  from its columns, runtime validation succeeds with dataset \<open>e\<close> exactly when \<open>e\<close> is the dataset looked up for
  the batch, the carried schema and the source's columns equal the discovered columns, and the
  system columns are consistent: nothing else is rejected.
\<close>

theorem source_batch_accepted_iff:
  assumes "rb_schema (sb_batch b) = map (\<lambda>c. source_user_field c False) cols"
  shows "validate_batch_against_discovery d b = Inr e \<longleftrightarrow>
    expected_dataset d b = Inr e \<and> schema_eq (d_incoming_schema e) (sb_schema b) \<and>
    schema_eq cols (d_incoming_schema e) \<and>
    system_columns_ok (rb_schema (sb_batch b)) (sb_system_columns b) \<and>
    sc_kind ` set (sb_system_columns b) = ds_kind ` set (d_system_columns e)"
proof -
  have "list_all2 (\<lambda>f c. field_shape_matches f c \<and> metadata_matches (f_metadata f) c)
      (rb_schema (sb_batch b)) cs \<longleftrightarrow> schema_eq cols cs" for cs
    unfolding assms list.rel_map source_field_matches schema_eq_def by simp
  then show ?thesis
    unfolding validate_batch_Inr_iff using expected_dataset_role[of d b e] by auto
qed

theorem source_batch_accepted_iff_witness:
  "schema_eq example_columns (d_incoming_schema (hd (dd_datasets example_discovery))) \<and>
   system_columns_ok (rb_schema (sb_batch example_sink_batch)) (sb_system_columns example_sink_batch)"
proof -
  have "rb_schema (sb_batch example_sink_batch) = map (\<lambda>c. source_user_field c False) example_columns"
    by (simp add: example_sink_batch_def)
  from source_batch_accepted_iff[OF this, of example_discovery] show ?thesis
    using example_batch_accepted by blast
qed

text \<open>
  C20 (stored projections are exact). A dataset that passes \<^verbatim>\<open>validate_stored_projection\<close> stores exactly
  its incoming columns, in order, minus CDC control columns, source metadata, operation and
  changed-column markers and, unless kept, the other system columns. When it has old-value columns
  every current column is paired with exactly one of them, of the same Arrow type.
\<close>

theorem stored_projection_exact:
  assumes "validate_stored_projection disc d = Inr ()"
  shows "list_all2 stored_column_matches (d_stored_schema d)
      (filter (projected (dd_keep_system_columns disc) (d_system_columns d) (map ds_name (d_system_columns d)))
         (d_incoming_schema d)) \<and>
    ((\<exists>old \<in> set (d_incoming_schema d). c_old_value_of old \<noteq> None) \<longrightarrow>
       (\<forall>c \<in> set (d_incoming_schema d). is_current (map ds_name (d_system_columns d)) c \<longrightarrow>
          (\<exists>!old. old \<in> set (d_incoming_schema d) \<and> c_old_value_of old = Some (c_name c) \<and>
             validate_cdc_control_column old (c_name c) c = Inr ())))"
  using stored_projection_Inr[OF assms] old_values_paired by blast

definition example_changelog :: discovered_dataset where
  "example_changelog =
     \<lparr>d_namespace = None, d_update_policy = FullImageUpsert, d_role = MainRole, d_name = ''t'',
      d_incoming_schema =
        [with_constraints True False None (schema_column_new ''id'' Int64 False),
         with_old_value_of ''id'' (schema_column_new ''old_id'' Int64 True),
         schema_column_new ''op'' Utf8 False],
      d_stored_schema = [with_constraints True False None (schema_column_new ''id'' Int64 False)],
      d_system_columns = [\<lparr>ds_kind = ChangeOperation, ds_name = ''op''\<rparr>]\<rparr>"

theorem stored_projection_exact_witness:
  "\<exists>!old. old \<in> set (d_incoming_schema example_changelog) \<and> c_old_value_of old = Some ''id'' \<and>
     validate_cdc_control_column old ''id'' (hd (d_incoming_schema example_changelog)) = Inr ()"
proof -
  have ok: "validate_stored_projection example_discovery example_changelog = Inr ()"
    and cur: "is_current (map ds_name (d_system_columns example_changelog)) (hd (d_incoming_schema example_changelog))"
      "hd (d_incoming_schema example_changelog) \<in> set (d_incoming_schema example_changelog)"
      "c_name (hd (d_incoming_schema example_changelog)) = ''id''"
      "list_ex (\<lambda>c. c_old_value_of c \<noteq> None) (d_incoming_schema example_changelog)"
    by code_simp+
  have "\<exists>old \<in> set (d_incoming_schema example_changelog). c_old_value_of old \<noteq> None"
    using cur(4) by (simp add: list_ex_iff)
  from stored_projection_exact[OF ok, THEN conjunct2, rule_format, OF this cur(2,1)]
  show ?thesis unfolding cur(3) .
qed

lemma loops_not_projection [simp]:
  "check_projection_systems cols ks ss \<noteq> Inl Stored_schema_not_projection"
  "old_value_loop current ps old \<noteq> Inl Stored_schema_not_projection"
  "old_key_loop current ps old \<noteq> Inl Stored_schema_not_projection"
proof -
  show "check_projection_systems cols ks ss \<noteq> Inl Stored_schema_not_projection"
    by (induction cols ks ss rule: check_projection_systems.induct) (auto split: list.splits)
  show "old_value_loop current ps old \<noteq> Inl Stored_schema_not_projection"
    by (induction current ps old rule: old_value_loop.induct)
       (auto simp: res_bind_Inl_iff validate_cdc_control_column_def split: option.splits if_splits)
  show "old_key_loop current ps old \<noteq> Inl Stored_schema_not_projection"
    by (induction current ps old rule: old_key_loop.induct)
       (auto simp: res_bind_Inl_iff validate_cdc_control_column_def split: option.splits if_splits)
qed

lemma checks_not_projection [simp]:
  "validate_projection_names_and_system_columns d \<noteq> Inl Stored_schema_not_projection"
  "validate_cdc_control_columns d ch sys \<noteq> Inl Stored_schema_not_projection"
  "check_full_image d ch \<noteq> Inl Stored_schema_not_projection"
  "check_source_version d ch \<noteq> Inl Stored_schema_not_projection"
  by (auto simp: validate_projection_names_and_system_columns_def validate_cdc_control_columns_def
      check_old_values_def check_old_keys_def check_full_image_def check_source_version_def Let_def
      res_bind_Inl_iff split: if_splits option.splits list.splits)

text \<open>
  C21 (the projection of a sink batch is the validated one). The dataset a sink derives from a batch
  always stores the columns the discovery contract expects: whatever else may be wrong with it,
  validation never rejects its projection.
\<close>

theorem batch_dataset_projection_ok:
  assumes "batch_dataset b (dd_keep_system_columns disc) = Inr d"
  shows "validate_stored_projection disc d \<noteq> Inl Stored_schema_not_projection"
proof -
  let ?sys = "sb_system_columns b" and ?keep = "dd_keep_system_columns disc"
  have d: "d_stored_schema d = filter (stored_by_sink ?sys ?keep) (d_incoming_schema d)"
    "d_system_columns d = map (\<lambda>s. \<lparr>ds_kind = sc_kind s, ds_name = sc_name s\<rparr>) ?sys"
    using assms by (auto simp: batch_dataset_def split: sum.splits if_splits)
  have names: "set sys = set (map sc_name ?sys)" if "validate_projection_names_and_system_columns d = Inr sys" for sys
    using that d(2)
    by (auto simp: validate_projection_names_and_system_columns_def Let_def res_bind_Inr_iff split: if_splits)
  have st: "stored_by_sink ?sys ?keep = projected ?keep (d_system_columns d) sys"
    if "set sys = set (map sc_name ?sys)" for sys
    using that unfolding d(2) by (intro ext) (simp add: stored_by_sink_projected projected_def)
  have self: "list_all (\<lambda>(s, i). stored_column_matches s i) (zip xs xs)"
    if "xs = filter (projected k ss sys) cols" for xs k ss sys cols
    using that by (auto simp: list_all_iff in_set_zip stored_column_matches_def projected_def
        dest!: nth_mem simp del: nth_mem)
  show ?thesis
  proof
    assume bad: "validate_stored_projection disc d = Inl Stored_schema_not_projection"
    then obtain sys where sys: "validate_projection_names_and_system_columns d = Inr sys"
      "\<not> (length (d_stored_schema d) = length (filter (projected ?keep (d_system_columns d) sys) (d_incoming_schema d)) \<and>
         list_all (\<lambda>(s, i). stored_column_matches s i)
           (zip (d_stored_schema d) (filter (projected ?keep (d_system_columns d) sys) (d_incoming_schema d))))"
      unfolding validate_stored_projection_def Let_def by (auto simp: res_bind_Inl_iff split: if_splits)
    moreover have "d_stored_schema d = filter (projected ?keep (d_system_columns d) sys) (d_incoming_schema d)"
      using st[OF names[OF sys(1)]] d(1) by simp
    ultimately show False using self by simp
  qed
qed

theorem batch_dataset_projection_ok_witness:
  "\<exists>d. batch_dataset example_sink_batch False = Inr d \<and> d_stored_schema d = example_columns \<and>
     validate_stored_projection example_discovery d \<noteq> Inl Stored_schema_not_projection"
proof -
  obtain d where d: "batch_dataset example_sink_batch False = Inr d" "d_stored_schema d = example_columns"
  proof
    show "batch_dataset example_sink_batch False =
        Inr (hd (dd_datasets example_discovery))"
      "d_stored_schema (hd (dd_datasets example_discovery)) = example_columns"
      by code_simp+
  qed
  then show ?thesis
    using batch_dataset_projection_ok[of example_sink_batch example_discovery d]
    by (simp add: example_discovery_def)
qed

end
