(* ===== verification/Column_Mask.thy ===== *)
theory Column_Mask
  imports Schema
begin

section \<open>Changed-column masks\<close>

text \<open>
  Which columns a change event carries travels as a bit mask: one bit per user column, low bit
  first. The masks are built by the PostgreSQL and MySQL sources (\<^verbatim>\<open>changed_columns_mask\<close> and
  \<^verbatim>\<open>full_changed_columns_mask\<close> of both connectors) and decoded at the sink boundary
  (\<^verbatim>\<open>decode_changed_columns\<close> of \<^verbatim>\<open>data/changelog.rs\<close>).
\<close>

unbundle bit_operations_syntax

definition div_ceil8 :: "nat \<Rightarrow> nat" where
  "div_ceil8 n = (n + 7) div 8"

subsection \<open>Encoding\<close>

definition set_mask_bit :: "nat \<Rightarrow> u8 list \<Rightarrow> u8 list" where
  "set_mask_bit index bytes = bytes[index div 8 := (bytes ! (index div 8)) OR push_bit (index mod 8) 1]"

definition mask_step :: "nat \<times> bool \<Rightarrow> u8 list \<Rightarrow> u8 list" where
  "mask_step e bytes = (if snd e then set_mask_bit (fst e) bytes else bytes)"

definition build_mask :: "bool list \<Rightarrow> u8 list" where
  "build_mask changed = fold mask_step (enumerate 0 changed) (replicate (div_ceil8 (length changed)) 0)"

definition full_changed_columns_mask :: "nat \<Rightarrow> u8 list" where
  "full_changed_columns_mask columns =
     fold set_mask_bit [0 ..< columns] (replicate (div_ceil8 columns) 0)"

datatype mask_error =
    Insert_unchanged_toast string
  | Before_image_omits string
  | After_image_omits string

datatype logical_value =
    Logical_null
  | UnchangedToast
  | Logical_text "u8 list"
  | Logical_binary "u8 list"

text \<open>PostgreSQL: an unchanged TOAST value is the one an update leaves out.\<close>

definition pg_changed ::
  "bool \<Rightarrow> change_operation \<Rightarrow> schema_column \<times> logical_value \<Rightarrow> (mask_error, bool) res" where
  "pg_changed replica_identity_full op e =
     (case op of
        Update \<Rightarrow> Inr (replica_identity_full \<or> snd e \<noteq> UnchangedToast)
      | Delete \<Rightarrow> Inr (c_primary_key (fst e))
      | _ \<Rightarrow> if snd e = UnchangedToast then Inl (Insert_unchanged_toast (c_name (fst e))) else Inr True)"

definition pg_changed_columns_mask ::
  "bool \<Rightarrow> dataset_schema \<Rightarrow> change_operation \<Rightarrow> logical_value list \<Rightarrow> (mask_error, u8 list) res" where
  "pg_changed_columns_mask replica_identity_full cols op vals =
     res_bind (res_map (pg_changed replica_identity_full op) (zip cols vals)) (\<lambda>ch. Inr (build_mask ch))"

text \<open>MySQL: a column is changed when its images differ; \<open>values_equal\<close> is the comparison of values.\<close>

definition image_value :: "'v option list option \<Rightarrow> nat \<Rightarrow> 'v option" where
  "image_value img index =
     (case img of None \<Rightarrow> None | Some row \<Rightarrow> if index < length row then row ! index else None)"

definition mysql_changed ::
  "('v \<Rightarrow> 'v \<Rightarrow> bool) \<Rightarrow> change_operation \<Rightarrow> 'v option list option \<Rightarrow> 'v option list option \<Rightarrow>
   nat \<times> schema_column \<Rightarrow> (mask_error, bool) res" where
  "mysql_changed values_equal op before after e =
     (case op of
        Delete \<Rightarrow> Inr (c_primary_key (snd e))
      | Update \<Rightarrow>
          (case image_value before (fst e) of
             None \<Rightarrow> Inl (Before_image_omits (c_name (snd e)))
           | Some b \<Rightarrow>
               (case image_value after (fst e) of
                  None \<Rightarrow> Inl (After_image_omits (c_name (snd e)))
                | Some a \<Rightarrow> Inr (c_primary_key (snd e) \<or> \<not> values_equal b a)))
      | _ \<Rightarrow> Inr True)"

definition mysql_changed_columns_mask ::
  "('v \<Rightarrow> 'v \<Rightarrow> bool) \<Rightarrow> dataset_schema \<Rightarrow> change_operation \<Rightarrow>
   'v option list option \<Rightarrow> 'v option list option \<Rightarrow> (mask_error, u8 list) res" where
  "mysql_changed_columns_mask values_equal cols op before after =
     res_bind (res_map (mysql_changed values_equal op before after) (enumerate 0 cols))
       (\<lambda>ch. Inr (build_mask ch))"

subsection \<open>Decoding\<close>

datatype decode_error =
    Mask_length_differs nat nat
  | Mask_sets_unused_bits

definition decode_changed_columns :: "u8 list \<Rightarrow> nat \<Rightarrow> (decode_error, bool list) res" where
  "decode_changed_columns bytes columns =
     (let expected_bytes = div_ceil8 columns
      in if length bytes \<noteq> expected_bytes then Inl (Mask_length_differs (length bytes) expected_bytes)
         else if columns mod 8 \<noteq> 0 \<and>
                 (if bytes = [] then 0 else last bytes) AND NOT (push_bit (columns mod 8) 1 - 1) \<noteq> 0
              then Inl Mask_sets_unused_bits
         else Inr (map (\<lambda>c. (bytes ! (c div 8)) AND push_bit (c mod 8) 1 \<noteq> 0) [0 ..< columns]))"

subsection \<open>Bits of a mask\<close>

definition mask_bit :: "u8 list \<Rightarrow> nat \<Rightarrow> bool" where
  "mask_bit bytes i = bit (bytes ! (i div 8)) (i mod 8)"

lemma and_push_bit_1: "(w AND push_bit n 1 \<noteq> 0) = bit w n" for w :: "'a::len word"
proof
  assume "w AND push_bit n 1 \<noteq> 0"
  then obtain i where "bit (w AND push_bit n 1) i" by (metis bit_eq_iff bit_0_eq bot_apply bot_bool_def)
  then show "bit w n" by (auto simp: bit_simps)
next
  assume b: "bit w n"
  then have "bit (w AND push_bit n 1) n" by (auto simp: bit_simps dest: bit_imp_le_length)
  then show "w AND push_bit n 1 \<noteq> 0" by (metis bit_0_eq bot_apply bot_bool_def)
qed

lemma set_mask_bit:
  assumes "j < 8 * length bytes" "i < 8 * length bytes"
  shows "mask_bit (set_mask_bit i bytes) j = (mask_bit bytes j \<or> i = j)"
proof (cases "i div 8 = j div 8")
  case True
  have "i div 8 < length bytes" "j mod 8 < LENGTH(8)" using assms by auto
  moreover have "i mod 8 = j mod 8 \<longleftrightarrow> i = j" using True by (metis div_mod_decomp)
  ultimately show ?thesis
    using True by (auto simp: mask_bit_def set_mask_bit_def bit_simps)
qed (auto simp: mask_bit_def set_mask_bit_def)

lemma set_mask_bit_length [simp]: "length (set_mask_bit i bytes) = length bytes"
  by (simp add: set_mask_bit_def)

lemma mask_step_length [simp]: "length (fold mask_step es bytes) = length bytes"
  by (induction es arbitrary: bytes) (auto simp: mask_step_def)

lemma fold_mask_step:
  assumes "\<forall>e \<in> set es. fst e < 8 * length bytes" "j < 8 * length bytes"
  shows "mask_bit (fold mask_step es bytes) j = (mask_bit bytes j \<or> (j, True) \<in> set es)"
  using assms
proof (induction es arbitrary: bytes)
  case (Cons e es)
  then have "mask_bit (mask_step e bytes) j = (mask_bit bytes j \<or> e = (j, True))"
    by (cases e) (auto simp: mask_step_def set_mask_bit)
  moreover have "length (mask_step e bytes) = length bytes" by (simp add: mask_step_def)
  ultimately show ?case using Cons by auto
qed simp

lemma mask_bit_zero [simp]: "mask_bit (replicate n 0) j = False" if "j < 8 * n"
  using that by (simp add: mask_bit_def)

lemma div_ceil8_bound: "n \<le> 8 * div_ceil8 n" "8 * div_ceil8 n < n + 8"
  unfolding div_ceil8_def by linarith+

lemma div_ceil8_partial:
  assumes "n = 8 * q + r" "0 < r" "r < 8"
  shows "div_ceil8 n = Suc q"
  unfolding div_ceil8_def using assms by (intro div_nat_eqI) simp_all

lemma length_build_mask [simp]: "length (build_mask changed) = div_ceil8 (length changed)"
  by (simp add: build_mask_def)

lemma build_mask_bit:
  assumes "j < 8 * div_ceil8 (length changed)"
  shows "mask_bit (build_mask changed) j = (j < length changed \<and> changed ! j)"
proof -
  have "\<forall>e \<in> set (enumerate 0 changed). fst e < 8 * div_ceil8 (length changed)"
    using div_ceil8_bound(1)[of "length changed"] by (auto simp: in_set_enumerate_eq)
  then show ?thesis
    using fold_mask_step[of "enumerate 0 changed" "replicate (div_ceil8 (length changed)) 0" j] assms
    by (auto simp: build_mask_def in_set_enumerate_eq)
qed

lemma unused_bits:
  fixes w :: u8
  assumes "\<And>i. n \<le> i \<Longrightarrow> i < 8 \<Longrightarrow> \<not> bit w i"
  shows "w AND NOT (push_bit n 1 - 1) = 0"
proof (rule bit_word_eqI)
  fix i assume "i < LENGTH(8)"
  moreover have "push_bit n (1 :: u8) - 1 = mask n" by (simp add: mask_eq_exp_minus_1 push_bit_eq_mult)
  ultimately show "bit (w AND NOT (push_bit n 1 - 1)) i = bit 0 i"
    using assms[of i] by (auto simp: bit_simps not_le[symmetric])
qed

lemma decode_build_mask: "decode_changed_columns (build_mask changed) (length changed) = Inr changed"
proof -
  let ?m = "build_mask changed" and ?n = "length changed"
  have "last ?m AND NOT (push_bit (?n mod 8) 1 - 1) = 0" if ne: "?n mod 8 \<noteq> 0"
  proof (rule unused_bits)
    fix i :: nat assume i: "?n mod 8 \<le> i" "i < 8"
    let ?j = "8 * (?n div 8) + i"
    have len: "div_ceil8 ?n = Suc (?n div 8)"
      using ne by (intro div_ceil8_partial[of _ _ "?n mod 8"]) simp_all
    then have "last ?m = ?m ! (?n div 8)"
      by (metis length_build_mask diff_Suc_1 last_conv_nth list.size(3) nat.distinct(1))
    moreover have "\<not> mask_bit ?m ?j"
    proof -
      have "?j < 8 * div_ceil8 ?n" "\<not> ?j < ?n" using i len mult_div_mod_eq[of 8 ?n] by linarith+
      then show ?thesis using build_mask_bit[of ?j changed] by simp
    qed
    ultimately show "\<not> bit (last ?m) i" using i by (simp add: mask_bit_def)
  qed
  moreover have "map (\<lambda>c. ?m ! (c div 8) AND push_bit (c mod 8) 1 \<noteq> 0) [0 ..< ?n] = changed"
    unfolding and_push_bit_1
    using build_mask_bit[of _ changed] div_ceil8_bound(1)[of ?n]
    by (intro nth_equalityI) (auto simp: mask_bit_def)
  moreover have "?m \<noteq> []" if "?n mod 8 \<noteq> 0"
    using that div_ceil8_bound(1)[of ?n] length_build_mask[of changed] by (cases ?m) auto
  ultimately show ?thesis
    unfolding decode_changed_columns_def Let_def by auto
qed

lemma full_mask_build: "full_changed_columns_mask n = build_mask (replicate n True)"
proof -
  have "fold set_mask_bit xs m = fold mask_step (map (\<lambda>i. (i, True)) xs) m" for xs m
    by (induction xs arbitrary: m) (auto simp: mask_step_def)
  moreover have "enumerate 0 (replicate n True) = map (\<lambda>i. (i, True)) [0 ..< n]"
    by (rule nth_equalityI) (auto simp: nth_enumerate_eq)
  ultimately show ?thesis by (simp add: full_changed_columns_mask_def build_mask_def)
qed

subsection \<open>Property\<close>

text \<open>
  C23 (masks survive the boundary). The mask a PostgreSQL or MySQL source builds for a change is decoded at
  the sink as exactly the columns the source decided to send, one decision per column, and the full
  mask of a snapshot row as every column. So a sink never invents or loses a changed column.
\<close>

theorem changed_columns_roundtrip:
  assumes "length vals = length cols"
    and "pg_changed_columns_mask full cols op vals = Inr m"
    and "mysql_changed_columns_mask values_equal cols op before after = Inr m'"
  shows "(\<exists>ch. decode_changed_columns m (length cols) = Inr ch \<and>
      list_all2 (\<lambda>e c. pg_changed full op e = Inr c) (zip cols vals) ch) \<and>
    (\<exists>ch. decode_changed_columns m' (length cols) = Inr ch \<and>
      list_all2 (\<lambda>e c. mysql_changed values_equal op before after e = Inr c) (enumerate 0 cols) ch) \<and>
    decode_changed_columns (full_changed_columns_mask (length cols)) (length cols) =
      Inr (replicate (length cols) True)"
proof (intro conjI)
  obtain ch where ch: "m = build_mask ch" "list_all2 (\<lambda>e c. pg_changed full op e = Inr c) (zip cols vals) ch"
    using assms(2) by (auto simp: pg_changed_columns_mask_def res_bind_Inr_iff res_map_Inr_iff)
  moreover have "length ch = length cols" using list_all2_lengthD[OF ch(2)] assms(1) by simp
  ultimately show "\<exists>ch. decode_changed_columns m (length cols) = Inr ch \<and>
      list_all2 (\<lambda>e c. pg_changed full op e = Inr c) (zip cols vals) ch"
    using decode_build_mask[of ch] by auto
next
  obtain ch where ch: "m' = build_mask ch"
    "list_all2 (\<lambda>e c. mysql_changed values_equal op before after e = Inr c) (enumerate 0 cols) ch"
    using assms(3) by (auto simp: mysql_changed_columns_mask_def res_bind_Inr_iff res_map_Inr_iff)
  moreover have "length ch = length cols" using list_all2_lengthD[OF ch(2)] by simp
  ultimately show "\<exists>ch. decode_changed_columns m' (length cols) = Inr ch \<and>
      list_all2 (\<lambda>e c. mysql_changed values_equal op before after e = Inr c) (enumerate 0 cols) ch"
    using decode_build_mask[of ch] by auto
next
  show "decode_changed_columns (full_changed_columns_mask (length cols)) (length cols) =
      Inr (replicate (length cols) True)"
    using decode_build_mask[of "replicate (length cols) True"] by (simp add: full_mask_build)
qed

definition example_mask_columns :: dataset_schema where
  "example_mask_columns =
     [(schema_column_new ''id'' Int64 False)\<lparr>c_primary_key := True\<rparr>, schema_column_new ''v'' Utf8 True,
      schema_column_new ''w'' Utf8 True]"

theorem changed_columns_roundtrip_witness:
  "\<exists>m m'. pg_changed_columns_mask False example_mask_columns Update
       [Logical_text [49], UnchangedToast, Logical_null] = Inr m \<and>
     mysql_changed_columns_mask (=) example_mask_columns Update
       (Some [Some (1 :: int), Some 2, Some 3]) (Some [Some 1, Some 2, Some 4]) = Inr m' \<and>
     decode_changed_columns m 3 = Inr [True, False, True] \<and>
     decode_changed_columns m' 3 = Inr [True, False, True]"
proof -
  let ?v = "[Logical_text [49], UnchangedToast, Logical_null]"
  let ?b = "Some [Some (1 :: int), Some 2, Some 3]" and ?a = "Some [Some (1 :: int), Some 2, Some 4]"
  have p: "pg_changed_columns_mask False example_mask_columns Update ?v = Inr [5]"
    "mysql_changed_columns_mask (=) example_mask_columns Update ?b ?a = Inr [5]"
    "length ?v = length example_mask_columns" "length example_mask_columns = 3"
    by code_simp+
  have "list_all2 (\<lambda>e c. pg_changed False Update e = Inr c) (zip example_mask_columns ?v) ch \<Longrightarrow>
      ch = [True, False, True]" for ch
    by (auto simp: example_mask_columns_def list_all2_Cons1 pg_changed_def)
  moreover have "list_all2 (\<lambda>e c. mysql_changed (=) Update ?b ?a e = Inr c) (enumerate 0 example_mask_columns) ch \<Longrightarrow>
      ch = [True, False, True]" for ch
    by (auto simp: example_mask_columns_def list_all2_Cons1 mysql_changed_def image_value_def schema_column_new_def)
  ultimately show ?thesis
    using changed_columns_roundtrip[OF p(3,1,2)] p by auto
qed

end
