(* ===== verification/Changelog.thy ===== *)
theory Changelog
  imports Delivery_Discovery Column_Mask "HOL-Library.AList" "HOL-Library.Multiset"
begin

section \<open>Changelog projection and collapsing\<close>

text \<open>
  \<^verbatim>\<open>transferia-core/src/data/changelog.rs\<close>: a sink batch that carries change operations is checked and
  projected (\<^verbatim>\<open>project_sink_batch\<close>), then all changes of a primary key are collapsed to its last state
  and returned as operation-homogeneous runs (\<^verbatim>\<open>collapsed_runs\<close>). The main theorem is that applying
  the runs to a table gives what applying the events one by one gives.

  Arrow's kernels are a parameter (\<open>arrow\<close>): the row converter that turns key rows into comparable
  bytes, \<^verbatim>\<open>take\<close>, \<^verbatim>\<open>concat\<close>, \<^verbatim>\<open>project\<close>, \<^verbatim>\<open>RecordBatch::try_new\<close> and the reading of typed cells. What the
  proofs use of them is the predicate \<open>arrow_laws\<close>. A \<^verbatim>\<open>HashMap\<close> is an association list; its iteration order
  does not matter because the rows are sorted by their distinct final positions. Row numbers are
  natural numbers: they index vectors, so \<^verbatim>\<open>row * 2 + 1\<close> does not overflow.
\<close>

record ('v, 'k) arrow =
  ar_row_converter :: "data_type list \<Rightarrow> ('v option list \<Rightarrow> 'k) option"
  ar_take :: "'v option list \<Rightarrow> nat list \<Rightarrow> 'v option list option"
  ar_concat :: "'v option list \<Rightarrow> 'v option list \<Rightarrow> 'v option list option"
  ar_project :: "'v record_batch \<Rightarrow> nat list \<Rightarrow> 'v record_batch option"
  ar_try_new :: "arrow_schema \<Rightarrow> 'v option list list \<Rightarrow> 'v record_batch option"
  ar_string :: "'v \<Rightarrow> string"
  ar_i64 :: "'v \<Rightarrow> i64"
  ar_u64 :: "'v \<Rightarrow> u64"
  ar_binary :: "'v \<Rightarrow> u8 list"

subsection \<open>Changelog batches\<close>

record 'v changelog_batch =
  cb_rows :: "'v record_batch"
  cb_operations :: "change_operation list"
  cb_primary_key_indexes :: "nat list"
  cb_primary_keys :: "string list"
  cb_primary_key_columns :: "schema_column list"
  cb_stored_columns :: "schema_column list"
  cb_source_versions :: "u64 list"
  cb_changed_columns :: "bool list list"
  cb_old_primary_keys :: "'v record_batch option"

datatype 'v projected_sink_batch =
    AppendOnly "'v record_batch"
  | Changelog "'v changelog_batch"

datatype changelog_action = Upsert | Delete_rows

record 'v changelog_run =
  cr_action :: changelog_action
  cr_operation :: change_operation
  cr_batch :: "'v record_batch"
  cr_source_versions :: "u64 list"

datatype value_source = Current nat | OldPrimaryKey nat

record collapsed_row =
  final_position :: nat
  cl_operation :: change_operation
  value_rows :: "value_source option list"
  source_version :: u64

datatype changelog_error =
    Batch_rejected discovery_error
  | Stored_column_absent string
  | Arrow_failed
  | Null_in_non_nullable string
  | Operation_stored string
  | Operation_not_utf8
  | Multiple_versions
  | Version_stored
  | Version_not_u64
  | No_offset_column
  | Offset_not_i64
  | Mask_not_binary
  | No_primary_key
  | Null_operation nat
  | Unsupported_operation nat string
  | Null_version nat
  | Invalid_version nat
  | Null_mask nat
  | Bad_mask nat decode_error
  | Operation_omits_column nat
  | Null_primary_key string
  | Omits_primary_key nat string
  | Mixed_old_columns
  | No_old_pair string
  | Old_column_absent string
  | Old_key_presence nat string
  | Upsert_omits_column nat
  | Upsert_needs_old_keys
  | Upsert_changes_key nat
  | Mask_row_count_differs
  | Update_of_deleted_key
  | Partial_key_change
  | Column_source_missing
  | Row_index_too_large
  | Old_row_index_overflow
  | Key_projection_inconsistent

definition operation_action :: "change_operation \<Rightarrow> changelog_action" where
  "operation_action op = (if writes_current_value op then Upsert else Delete_rows)"

definition same_sink_operation :: "change_operation \<Rightarrow> change_operation \<Rightarrow> bool" where
  "same_sink_operation l r \<longleftrightarrow>
     (l = Create \<or> l = SnapshotRead) \<and> (r = Create \<or> r = SnapshotRead) \<or>
     l = Update \<and> r = Update \<or> l = Delete \<and> r = Delete"

subsection \<open>Collapsing\<close>

definition vacant_sources ::
  "change_operation \<Rightarrow> value_source \<Rightarrow> bool list \<Rightarrow> nat \<Rightarrow> nat list \<Rightarrow> value_source option list" where
  "vacant_sources op src changed columns pks =
     (if op = Delete then map (\<lambda>i. if i \<in> set pks then Some src else None) [0 ..< columns]
      else map (\<lambda>c. if c then Some src else None) changed)"

definition occupied_update ::
  "change_operation \<Rightarrow> value_source \<Rightarrow> bool list \<Rightarrow> nat list \<Rightarrow> nat \<Rightarrow> u64 \<Rightarrow> collapsed_row \<Rightarrow>
   (changelog_error, collapsed_row) res" where
  "occupied_update op src changed pks pos version c =
     res_bind
       (case op of
          Update \<Rightarrow>
            if cl_operation c = Delete then Inl Update_of_deleted_key
            else Inr (c\<lparr>cl_operation := (if cl_operation c = Create \<or> cl_operation c = SnapshotRead
                                        then cl_operation c else Update),
                        value_rows := map2 (\<lambda>s ch. if ch then Some src else s) (value_rows c) changed @
                                      drop (length changed) (value_rows c)\<rparr>)
        | Delete \<Rightarrow>
            Inr (c\<lparr>cl_operation := Delete,
                   value_rows := map (\<lambda>i. if i \<in> set pks then Some src else None) [0 ..< length (value_rows c)]\<rparr>)
        | _ \<Rightarrow>
            Inr (c\<lparr>cl_operation := op, value_rows := replicate (length (value_rows c)) (Some src)\<rparr>))
       (\<lambda>c. Inr (c\<lparr>final_position := pos, source_version := version\<rparr>))"

definition apply_collapsed_event ::
  "nat list \<Rightarrow> ('k \<times> nat \<times> change_operation \<times> value_source \<times> bool list \<times> u64) \<Rightarrow>
   ('k \<times> collapsed_row) list \<Rightarrow> (changelog_error, ('k \<times> collapsed_row) list) res" where
  "apply_collapsed_event pks ev latest =
     (case ev of (key, pos, op, src, changed, version) \<Rightarrow>
        (case map_of latest key of
           None \<Rightarrow>
             Inr (AList.update key
                    \<lparr>final_position = pos, cl_operation = op,
                     value_rows = vacant_sources op src changed (length changed) pks,
                     source_version = version\<rparr> latest)
         | Some c \<Rightarrow>
             (case occupied_update op src changed pks pos version c of
                Inl e \<Rightarrow> Inl e
              | Inr c' \<Rightarrow> Inr (AList.update key c' latest))))"

text \<open>The events of one row: what the body of the loop applies, in order.\<close>

definition row_events ::
  "'v changelog_batch \<Rightarrow> (nat \<Rightarrow> 'k) \<Rightarrow> (nat \<Rightarrow> 'k) \<Rightarrow> nat \<times> bool list \<Rightarrow>
   (changelog_error, ('k \<times> nat \<times> change_operation \<times> value_source \<times> bool list \<times> u64) list) res" where
  "row_events cb key old_key e =
     (case e of (row, changed) \<Rightarrow>
        let op = cb_operations cb ! row; version = cb_source_versions cb ! row
        in case op of
             Update \<Rightarrow>
               if old_key row = key row
               then Inr [(key row, row * 2 + 1, op, Current row, changed, version)]
               else if \<not> list_all id changed then Inl Partial_key_change
               else Inr [(old_key row, row * 2, Delete, OldPrimaryKey row, changed, version),
                         (key row, row * 2 + 1, Create, Current row, changed, version)]
           | Delete \<Rightarrow> Inr [(old_key row, row * 2, op, OldPrimaryKey row, changed, version)]
           | _ \<Rightarrow> Inr [(key row, row * 2 + 1, op, Current row, changed, version)])"

definition collapsed_rows_with_old_values ::
  "'v changelog_batch \<Rightarrow> (nat \<Rightarrow> 'k) \<Rightarrow> (nat \<Rightarrow> 'k) \<Rightarrow> bool list list \<Rightarrow>
   (changelog_error, collapsed_row list) res" where
  "collapsed_rows_with_old_values cb key old_key changed_columns =
     res_bind
       (res_fold
          (\<lambda>e latest. res_bind (row_events cb key old_key e)
             (\<lambda>evs. res_fold (apply_collapsed_event (cb_primary_key_indexes cb)) evs latest))
          (enumerate 0 changed_columns) [])
       (\<lambda>latest. Inr (map snd latest))"

definition collapse_row_without_old ::
  "'v changelog_batch \<Rightarrow> (nat \<Rightarrow> 'k) \<Rightarrow> nat \<times> bool list \<Rightarrow> ('k \<times> collapsed_row) list \<Rightarrow>
   (changelog_error, ('k \<times> collapsed_row) list) res" where
  "collapse_row_without_old cb key e latest =
     (case e of (row, changed) \<Rightarrow>
        let op = cb_operations cb ! row; version = cb_source_versions cb ! row; src = Current row;
            pks = cb_primary_key_indexes cb
        in case map_of latest (key row) of
             None \<Rightarrow>
               Inr (AList.update (key row)
                      \<lparr>final_position = row, cl_operation = op,
                       value_rows = vacant_sources op src changed (length (rb_columns (cb_rows cb))) pks,
                       source_version = version\<rparr> latest)
           | Some c \<Rightarrow>
               (case occupied_update op src changed pks row version c of
                  Inl e \<Rightarrow> Inl e
                | Inr c' \<Rightarrow> Inr (AList.update (key row) c' latest)))"

subsection \<open>Materialising runs\<close>

definition source_index :: "'v changelog_batch \<Rightarrow> value_source option \<Rightarrow> (changelog_error, nat) res" where
  "source_index cb src =
     (case src of
        None \<Rightarrow> Inl Column_source_missing
      | Some (Current row) \<Rightarrow> if int row < 2 ^ 32 then Inr row else Inl Row_index_too_large
      | Some (OldPrimaryKey row) \<Rightarrow>
          let i = unat (rb_num_rows (cb_rows cb)) + row
          in if \<not> int i < 2 ^ 64 then Inl Old_row_index_overflow
             else if int i < 2 ^ 32 then Inr i else Inl Row_index_too_large)"

fun position_of :: "'a \<Rightarrow> 'a list \<Rightarrow> nat option" where
  "position_of x [] = None"
| "position_of x (y # ys) = (if x = y then Some 0 else map_option Suc (position_of x ys))"

definition lift_arrow :: "'a option \<Rightarrow> (changelog_error, 'a) res" where
  "lift_arrow r = (case r of None \<Rightarrow> Inl Arrow_failed | Some x \<Rightarrow> Inr x)"

definition source_array ::
  "('v, 'k) arrow \<Rightarrow> 'v changelog_batch \<Rightarrow> nat \<Rightarrow> (changelog_error, 'v option list) res" where
  "source_array ar cb column_index =
     (let column = rb_columns (cb_rows cb) ! column_index
      in if column_index \<in> set (cb_primary_key_indexes cb)
         then (case position_of column_index (cb_primary_key_indexes cb) of
                 None \<Rightarrow> Inl Key_projection_inconsistent
               | Some old_index \<Rightarrow>
                   (case cb_old_primary_keys cb of
                      Some old \<Rightarrow> lift_arrow (ar_concat ar column (rb_columns old ! old_index))
                    | None \<Rightarrow> Inr column))
         else Inr column)"

definition run_column ::
  "('v, 'k) arrow \<Rightarrow> 'v changelog_batch \<Rightarrow> collapsed_row list \<Rightarrow> nat \<Rightarrow> (changelog_error, 'v option list) res" where
  "run_column ar cb sel column_index =
     res_bind (res_map (\<lambda>c. source_index cb (value_rows c ! column_index)) sel) (\<lambda>indexes.
     res_bind (source_array ar cb column_index) (\<lambda>src. lift_arrow (ar_take ar src indexes)))"

definition included :: "collapsed_row \<Rightarrow> bool list" where
  "included c = map (\<lambda>s. s \<noteq> None) (value_rows c)"

definition included_indexes :: "bool list \<Rightarrow> nat list" where
  "included_indexes inc = filter (\<lambda>i. inc ! i) [0 ..< length inc]"

definition materialize_run ::
  "('v, 'k) arrow \<Rightarrow> 'v changelog_batch \<Rightarrow> collapsed_row \<Rightarrow> collapsed_row list \<Rightarrow>
   (changelog_error, 'v changelog_run) res" where
  "materialize_run ar cb c sel =
     (let column_indexes = included_indexes (included c)
      in res_bind (res_map (run_column ar cb sel) column_indexes) (\<lambda>arrays.
         res_bind (lift_arrow (ar_try_new ar (map (\<lambda>i. rb_schema (cb_rows cb) ! i) column_indexes) arrays))
           (\<lambda>batch. Inr \<lparr>cr_action = operation_action (cl_operation c), cr_operation = cl_operation c,
                         cr_batch = batch, cr_source_versions = map source_version sel\<rparr>)))"

definition same_run :: "collapsed_row \<Rightarrow> collapsed_row \<Rightarrow> bool" where
  "same_run c d \<longleftrightarrow> same_sink_operation (cl_operation d) (cl_operation c) \<and> included d = included c"

function materialize_runs ::
  "('v, 'k) arrow \<Rightarrow> 'v changelog_batch \<Rightarrow> collapsed_row list \<Rightarrow> (changelog_error, 'v changelog_run list) res" where
  "materialize_runs ar cb [] = Inr []"
| "materialize_runs ar cb (c # cs) =
     res_bind (materialize_run ar cb c (c # takeWhile (same_run c) cs)) (\<lambda>run.
     res_bind (materialize_runs ar cb (dropWhile (same_run c) cs)) (\<lambda>runs. Inr (run # runs)))"
  by pat_completeness auto
termination
  by (relation "measure (\<lambda>(ar, cb, cs). length cs)") (auto simp: length_dropWhile_le le_imp_less_Suc)

definition collapsed_runs_without_old_values ::
  "('v, 'k) arrow \<Rightarrow> 'v changelog_batch \<Rightarrow> (nat \<Rightarrow> 'k) \<Rightarrow> bool list list \<Rightarrow>
   (changelog_error, 'v changelog_run list) res" where
  "collapsed_runs_without_old_values ar cb key changed_columns =
     res_bind (res_fold (collapse_row_without_old cb key) (enumerate 0 changed_columns) [])
       (\<lambda>latest. materialize_runs ar cb (sort_key final_position (map snd latest)))"

definition key_row :: "'v option list list \<Rightarrow> nat \<Rightarrow> 'v option list" where
  "key_row columns row = map (\<lambda>c. c ! row) columns"

definition key_columns :: "'v changelog_batch \<Rightarrow> 'v option list list" where
  "key_columns cb = map (\<lambda>i. rb_columns (cb_rows cb) ! i) (cb_primary_key_indexes cb)"

definition collapsed_runs_with_changed_columns ::
  "('v, 'k) arrow \<Rightarrow> 'v changelog_batch \<Rightarrow> bool list list \<Rightarrow> (changelog_error, 'v changelog_run list) res" where
  "collapsed_runs_with_changed_columns ar cb changed_columns =
     (if length changed_columns \<noteq> unat (rb_num_rows (cb_rows cb)) then Inl Mask_row_count_differs
      else case ar_row_converter ar (map (\<lambda>i. f_type (rb_schema (cb_rows cb) ! i)) (cb_primary_key_indexes cb)) of
        None \<Rightarrow> Inl Arrow_failed
      | Some conv \<Rightarrow>
          let key = (\<lambda>row. conv (key_row (key_columns cb) row))
          in case cb_old_primary_keys cb of
               None \<Rightarrow> collapsed_runs_without_old_values ar cb key changed_columns
             | Some old \<Rightarrow>
                 res_bind (collapsed_rows_with_old_values cb key (\<lambda>row. conv (key_row (rb_columns old) row)) changed_columns)
                   (\<lambda>sel. materialize_runs ar cb (sort_key final_position sel)))"

definition collapsed_runs ::
  "('v, 'k) arrow \<Rightarrow> 'v changelog_batch \<Rightarrow> (changelog_error, 'v changelog_run list) res" where
  "collapsed_runs ar cb = collapsed_runs_with_changed_columns ar cb (cb_changed_columns cb)"

definition collapsed_full_image_runs ::
  "('v, 'k) arrow \<Rightarrow> 'v changelog_batch \<Rightarrow> (changelog_error, 'v changelog_run list) res" where
  "collapsed_full_image_runs ar cb =
     collapsed_runs_with_changed_columns ar cb
       (replicate (unat (rb_num_rows (cb_rows cb))) (replicate (length (rb_columns (cb_rows cb))) True))"

subsection \<open>Projecting a sink batch\<close>

definition index_of :: "arrow_schema \<Rightarrow> string \<Rightarrow> nat option" where
  "index_of flds n = position_of n (map f_name flds)"

definition project_columns ::
  "('v, 'k) arrow \<Rightarrow> 'v record_batch \<Rightarrow> schema_column list \<Rightarrow> (changelog_error, 'v record_batch) res" where
  "project_columns ar b stored_columns =
     res_bind
       (res_map (\<lambda>c. case index_of (rb_schema b) (c_name c) of
                       None \<Rightarrow> Inl (Stored_column_absent (c_name c))
                     | Some i \<Rightarrow> Inr i) stored_columns)
       (\<lambda>indexes. lift_arrow (ar_project ar b indexes))"

text \<open>A typed view of a column: available when the column has the Arrow type of the view.\<close>

definition downcast :: "data_type \<Rightarrow> ('v \<Rightarrow> 'a) \<Rightarrow> 'v record_batch \<Rightarrow> nat \<Rightarrow> 'a option list option" where
  "downcast ty rd b i =
     (if f_type (rb_schema b ! i) = ty then Some (map (map_option rd) (rb_columns b ! i)) else None)"

definition old_column_map ::
  "(schema_column \<Rightarrow> string option) \<Rightarrow> discovered_dataset \<Rightarrow> (string, schema_column) btree" where
  "old_column_map tag d = bt_of_list (tagged tag (d_incoming_schema d))"

definition check_old_row ::
  "bool \<Rightarrow> nat \<Rightarrow> ('v option list \<times> schema_column) list \<Rightarrow> (changelog_error, unit) res" where
  "check_old_row requires_old row cols =
     (case find (\<lambda>(column, key). requires_old = (column ! row = None)) cols of
        Some (column, key) \<Rightarrow> Inl (Old_key_presence row (c_name key))
      | None \<Rightarrow> Inr ())"

definition old_primary_key_batch ::
  "('v, 'k) arrow \<Rightarrow> discovered_dataset \<Rightarrow> 'v sink_batch \<Rightarrow> schema_column list \<Rightarrow>
   (changelog_error, 'v record_batch option) res" where
  "old_primary_key_batch ar d b primary_keys =
     (let old_values = old_column_map c_old_value_of d; old_keys = old_column_map c_old_key_of d
      in if old_values = [] \<and> old_keys = [] then Inr None
         else if \<not> (old_values = [] \<or> old_keys = []) then Inl Mixed_old_columns
         else let old_columns = (if old_values = [] then old_keys else old_values)
              in res_bind
                   (res_map (\<lambda>key. case bt_get old_columns (c_name key) of
                                     None \<Rightarrow> Inl (No_old_pair (c_name key))
                                   | Some old \<Rightarrow>
                                       (case index_of (rb_schema (sb_batch b)) (c_name old) of
                                          None \<Rightarrow> Inl (Old_column_absent (c_name old))
                                        | Some i \<Rightarrow> Inr i)) primary_keys) (\<lambda>indexes.
                 res_bind
                   (lift_arrow (ar_try_new ar
                      (map (\<lambda>key. \<lparr>f_name = c_name key, f_type = c_data_type key, f_nullable = True,
                                    f_metadata = bt_empty\<rparr>) primary_keys)
                      (map (\<lambda>i. rb_columns (sb_batch b) ! i) indexes))) (\<lambda>old.
                 res_bind
                   (res_map (\<lambda>row.
                      case sys_get (sb_system_columns b) ChangeOperation of
                        None \<Rightarrow> Inl Operation_not_utf8
                      | Some oc \<Rightarrow>
                          (case downcast Utf8 (ar_string ar) (sb_batch b) (unat (sc_index oc)) of
                             None \<Rightarrow> Inl Operation_not_utf8
                           | Some ops \<Rightarrow>
                               check_old_row (ops ! row \<in> {Some ''u'', Some ''d''}) row
                                 (zip (rb_columns old) primary_keys)))
                      [0 ..< unat (sb_rows b)]) (\<lambda>_.
                 Inr (Some old)))))"

definition check_append_only ::
  "'v record_batch \<Rightarrow> nat \<times> schema_column \<Rightarrow> (changelog_error, unit) res" where
  "check_append_only stored e =
     (if c_nullable (snd e) \<or> None \<notin> set (rb_columns stored ! fst e) then Inr ()
      else Inl (Null_in_non_nullable (c_name (snd e))))"

definition explicit_versions ::
  "('v, 'k) arrow \<Rightarrow> discovered_dataset \<Rightarrow> 'v sink_batch \<Rightarrow> (changelog_error, u64 option list option) res" where
  "explicit_versions ar d b =
     (case filter (\<lambda>(_, c). c_system_role c = Some SYSTEM_ROLE_SOURCE_VERSION) (enumerate 0 (d_incoming_schema d)) of
        [] \<Rightarrow> Inr None
      | [(i, c)] \<Rightarrow>
          if c_name c \<in> c_name ` set (d_stored_schema d) then Inl Version_stored
          else (case downcast UInt64 (ar_u64 ar) (sb_batch b) i of
                  None \<Rightarrow> Inl Version_not_u64
                | Some vs \<Rightarrow> Inr (Some vs))
      | _ \<Rightarrow> Inl Multiple_versions)"

definition offset_versions ::
  "('v, 'k) arrow \<Rightarrow> 'v sink_batch \<Rightarrow> (changelog_error, i64 option list) res" where
  "offset_versions ar b =
     (case sys_get (sb_system_columns b) Offset of
        None \<Rightarrow> Inl No_offset_column
      | Some s \<Rightarrow>
          (case downcast Int64 (ar_i64 ar) (sb_batch b) (unat (sc_index s)) of
             None \<Rightarrow> Inl Offset_not_i64
           | Some vs \<Rightarrow> Inr vs))"

definition mask_column ::
  "('v, 'k) arrow \<Rightarrow> 'v sink_batch \<Rightarrow> (changelog_error, u8 list option list option) res" where
  "mask_column ar b =
     (case sys_get (sb_system_columns b) ChangedColumns of
        None \<Rightarrow> Inr None
      | Some s \<Rightarrow>
          (case downcast Binary (ar_binary ar) (sb_batch b) (unat (sc_index s)) of
             None \<Rightarrow> Inl Mask_not_binary
           | Some ms \<Rightarrow> Inr (Some ms)))"

definition row_version ::
  "u64 option list option \<Rightarrow> i64 option list \<Rightarrow> nat \<Rightarrow> (changelog_error, u64) res" where
  "row_version explicit offsets row =
     (case explicit of
        Some vs \<Rightarrow> (case vs ! row of None \<Rightarrow> Inl (Null_version row) | Some v \<Rightarrow> Inr v)
      | None \<Rightarrow>
          (case offsets ! row of
             None \<Rightarrow> Inl (Invalid_version row)
           | Some v \<Rightarrow> if 0 \<le> sint v then Inr v else Inl (Invalid_version row)))"

definition row_changed ::
  "u8 list option list option \<Rightarrow> schema_column list \<Rightarrow> string list \<Rightarrow> nat \<Rightarrow> (changelog_error, bool list) res" where
  "row_changed masks stored user_names row =
     (case masks of
        None \<Rightarrow> Inr (replicate (length stored) True)
      | Some ms \<Rightarrow>
          (case ms ! row of
             None \<Rightarrow> Inl (Null_mask row)
           | Some m \<Rightarrow>
               (case decode_changed_columns m (length user_names) of
                  Inl e \<Rightarrow> Inl (Bad_mask row e)
                | Inr user_changed \<Rightarrow>
                    Inr (map (\<lambda>c. case position_of (c_name c) user_names of
                                    None \<Rightarrow> True
                                  | Some i \<Rightarrow> user_changed ! i) stored))))"

definition parse_row ::
  "string option list \<Rightarrow> u64 option list option \<Rightarrow> i64 option list \<Rightarrow> u8 list option list option \<Rightarrow>
   schema_column list \<Rightarrow> string list \<Rightarrow> nat \<Rightarrow> (changelog_error, change_operation \<times> u64 \<times> bool list) res" where
  "parse_row ops explicit offsets masks stored user_names row =
     (case ops ! row of
        None \<Rightarrow> Inl (Null_operation row)
      | Some c \<Rightarrow>
          (case from_code c of
             None \<Rightarrow> Inl (Unsupported_operation row c)
           | Some op \<Rightarrow>
               res_bind (row_version explicit offsets row) (\<lambda>version.
               res_bind (row_changed masks stored user_names row) (\<lambda>changed.
               if (op = Create \<or> op = SnapshotRead) \<and> \<not> list_all id changed
               then Inl (Operation_omits_column row)
               else Inr (op, version, changed)))))"

definition check_key_column ::
  "'v record_batch \<Rightarrow> bool list list \<Rightarrow> nat \<Rightarrow> (changelog_error, unit) res" where
  "check_key_column stored changed index =
     (if None \<in> set (rb_columns stored ! index)
      then Inl (Null_primary_key (f_name (rb_schema stored ! index)))
      else (case find (\<lambda>(row, ch). \<not> ch ! index) (enumerate 0 changed) of
              Some (row, _) \<Rightarrow> Inl (Omits_primary_key row (f_name (rb_schema stored ! index)))
            | None \<Rightarrow> Inr ()))"

definition full_image_operation ::
  "'v record_batch \<Rightarrow> nat list \<Rightarrow> bool list list \<Rightarrow> 'v record_batch option \<Rightarrow> nat \<times> change_operation \<Rightarrow>
   (changelog_error, change_operation) res" where
  "full_image_operation stored pks changed old e =
     (if snd e \<noteq> Update then Inr (snd e)
      else if \<not> list_all id (changed ! fst e) then Inl (Upsert_omits_column (fst e))
      else case old of
        None \<Rightarrow> Inl Upsert_needs_old_keys
      | Some ob \<Rightarrow>
          if list_all (\<lambda>(oc, i). oc ! fst e = rb_columns stored ! i ! fst e) (zip (rb_columns ob) pks)
          then Inr Create else Inl (Upsert_changes_key (fst e)))"

definition project_changelog ::
  "('v, 'k) arrow \<Rightarrow> discovered_dataset \<Rightarrow> 'v sink_batch \<Rightarrow> 'v record_batch \<Rightarrow> string option list \<Rightarrow>
   (changelog_error, 'v changelog_batch) res" where
  "project_changelog ar d b stored ops =
     res_bind (explicit_versions ar d b) (\<lambda>explicit.
     res_bind (offset_versions ar b) (\<lambda>offsets.
     res_bind (mask_column ar b) (\<lambda>masks.
     let pks = filter (\<lambda>i. c_primary_key (d_stored_schema d ! i)) [0 ..< length (d_stored_schema d)];
         user_names = map c_name (filter (is_current (map ds_name (d_system_columns d))) (d_incoming_schema d))
     in if pks = [] then Inl No_primary_key
        else
          res_bind (res_map (parse_row ops explicit offsets masks (d_stored_schema d) user_names)
                      [0 ..< unat (sb_rows b)]) (\<lambda>parsed.
          let changed = map (\<lambda>p. snd (snd p)) parsed;
              pk_columns = map (\<lambda>i. d_stored_schema d ! i) pks
          in
          res_bind (res_map (check_key_column stored changed) pks) (\<lambda>_.
          res_bind (old_primary_key_batch ar d b pk_columns) (\<lambda>old.
          res_bind (if d_update_policy d = FullImageUpsert
                    then res_map (full_image_operation stored pks changed old) (enumerate 0 (map fst parsed))
                    else Inr (map fst parsed)) (\<lambda>operations.
          Inr \<lparr>cb_rows = stored, cb_operations = operations, cb_primary_key_indexes = pks,
               cb_primary_keys = map (\<lambda>i. f_name (rb_schema stored ! i)) pks,
               cb_primary_key_columns = pk_columns, cb_stored_columns = d_stored_schema d,
               cb_source_versions = map (\<lambda>p. fst (snd p)) parsed, cb_changed_columns = changed,
               cb_old_primary_keys = old\<rparr>)))))))"

definition project_sink_batch ::
  "('v, 'k) arrow \<Rightarrow> delivery_discovery \<Rightarrow> 'v sink_batch \<Rightarrow> (changelog_error, 'v projected_sink_batch) res" where
  "project_sink_batch ar disc b =
     (case validate_batch_against_discovery disc b of
        Inl e \<Rightarrow> Inl (Batch_rejected e)
      | Inr d \<Rightarrow>
          res_bind (project_columns ar (sb_batch b) (d_stored_schema d)) (\<lambda>stored.
          case sys_get (sb_system_columns b) ChangeOperation of
            None \<Rightarrow>
              res_bind (res_map (check_append_only stored) (enumerate 0 (d_stored_schema d)))
                (\<lambda>_. Inr (AppendOnly stored))
          | Some oc \<Rightarrow>
              if sc_name oc \<in> c_name ` set (d_stored_schema d) then Inl (Operation_stored (sc_name oc))
              else (case downcast Utf8 (ar_string ar) (sb_batch b) (unat (sc_index oc)) of
                      None \<Rightarrow> Inl Operation_not_utf8
                    | Some ops \<Rightarrow>
                        res_bind (project_changelog ar d b stored ops) (\<lambda>cb. Inr (Changelog cb)))))"

subsection \<open>What a changelog means\<close>

text \<open>
  The state of a keyed table: for each primary key the cells the table holds, by column name. A create
  or snapshot row replaces the row, an update overwrites the cells it carries, a delete removes it.
\<close>

type_synonym 'v cells = "string \<Rightarrow> 'v option option"
type_synonym 'v table_state = "'v option list \<Rightarrow> 'v cells option"

definition effect :: "change_operation \<Rightarrow> 'v cells \<Rightarrow> 'v cells option \<Rightarrow> 'v cells option" where
  "effect op cells old =
     (case op of
        Delete \<Rightarrow> None
      | Update \<Rightarrow> Some ((case old of None \<Rightarrow> Map.empty | Some r \<Rightarrow> r) ++ cells)
      | _ \<Rightarrow> Some cells)"

definition write_row ::
  "change_operation \<times> 'v option list \<times> 'v cells \<Rightarrow> 'v table_state \<Rightarrow> 'v table_state" where
  "write_row w st = (case w of (op, key, cells) \<Rightarrow> st(key := effect op cells (st key)))"

definition names :: "'v changelog_batch \<Rightarrow> string list" where
  "names cb = map f_name (rb_schema (cb_rows cb))"

text \<open>The reference: the changes row \<open>row\<close> of the batch stands for, in order.\<close>

definition carried :: "'v changelog_batch \<Rightarrow> bool list \<Rightarrow> nat \<Rightarrow> 'v cells" where
  "carried cb changed row =
     (\<lambda>n. case position_of n (names cb) of
            None \<Rightarrow> None
          | Some i \<Rightarrow> if changed ! i then Some (rb_columns (cb_rows cb) ! i ! row) else None)"

definition old_key_row :: "'v changelog_batch \<Rightarrow> nat \<Rightarrow> 'v option list" where
  "old_key_row cb row =
     (case cb_old_primary_keys cb of
        None \<Rightarrow> key_row (key_columns cb) row
      | Some old \<Rightarrow> key_row (rb_columns old) row)"

definition source_row_writes ::
  "'v changelog_batch \<Rightarrow> bool list list \<Rightarrow> nat \<Rightarrow> (change_operation \<times> 'v option list \<times> 'v cells) list" where
  "source_row_writes cb changed row =
     (let current = key_row (key_columns cb) row; old = old_key_row cb row;
          cells = carried cb (changed ! row) row
      in case cb_operations cb ! row of
           Update \<Rightarrow> if old = current then [(Update, current, cells)]
                      else [(Delete, old, Map.empty), (Create, current, cells)]
         | Delete \<Rightarrow> [(Delete, old, Map.empty)]
         | op \<Rightarrow> [(op, current, cells)])"

definition replay :: "'v changelog_batch \<Rightarrow> bool list list \<Rightarrow> 'v table_state \<Rightarrow> 'v table_state" where
  "replay cb changed = fold (\<lambda>row. fold write_row (source_row_writes cb changed row)) [0 ..< length changed]"

text \<open>What a sink does with a run: it writes the rows of the run's batch, keyed by the key columns.\<close>

definition run_cells :: "'v changelog_run \<Rightarrow> nat \<Rightarrow> 'v cells" where
  "run_cells r i =
     map_of (zip (map f_name (rb_schema (cr_batch r))) (map (\<lambda>c. c ! i) (rb_columns (cr_batch r))))"

definition run_key :: "string list \<Rightarrow> 'v changelog_run \<Rightarrow> nat \<Rightarrow> 'v option list" where
  "run_key pks r i = map (\<lambda>n. the (run_cells r i n)) pks"

definition run_writes ::
  "string list \<Rightarrow> 'v changelog_run \<Rightarrow> (change_operation \<times> 'v option list \<times> 'v cells) list" where
  "run_writes pks r =
     map (\<lambda>i. (cr_operation r, run_key pks r i, run_cells r i)) [0 ..< unat (rb_num_rows (cr_batch r))]"

definition apply_runs :: "string list \<Rightarrow> 'v changelog_run list \<Rightarrow> 'v table_state \<Rightarrow> 'v table_state" where
  "apply_runs pks runs = fold (\<lambda>r. fold write_row (run_writes pks r)) runs"

subsection \<open>Assumptions on Arrow and on the batch\<close>

definition rb_wf :: "'v record_batch \<Rightarrow> bool" where
  "rb_wf b \<longleftrightarrow> length (rb_columns b) = length (rb_schema b) \<and> (\<forall>c \<in> set (rb_columns b). length c = unat (rb_num_rows b))"

definition arrow_laws :: "('v, 'k) arrow \<Rightarrow> bool" where
  "arrow_laws ar \<longleftrightarrow>
     (\<forall>ts f. ar_row_converter ar ts = Some f \<longrightarrow> inj_on f {r. length r = length ts}) \<and>
     (\<forall>xs is ys. ar_take ar xs is = Some ys \<longrightarrow> (\<forall>i \<in> set is. i < length xs) \<and> ys = map (\<lambda>i. xs ! i) is) \<and>
     (\<forall>xs ys zs. ar_concat ar xs ys = Some zs \<longrightarrow> zs = xs @ ys) \<and>
     (\<forall>flds cs b. ar_try_new ar flds cs = Some b \<longrightarrow> rb_schema b = flds \<and> rb_columns b = cs \<and> rb_wf b) \<and>
     (\<forall>b is c. ar_project ar b is = Some c \<longrightarrow>
        rb_schema c = map (\<lambda>i. rb_schema b ! i) is \<and> rb_columns c = map (\<lambda>i. rb_columns b ! i) is \<and>
        rb_num_rows c = rb_num_rows b \<and> (\<forall>i \<in> set is. i < length (rb_schema b)))"

definition changelog_wf :: "'v changelog_batch \<Rightarrow> bool" where
  "changelog_wf cb \<longleftrightarrow>
     rb_wf (cb_rows cb) \<and> distinct (names cb) \<and>
     cb_primary_key_indexes cb \<noteq> [] \<and> distinct (cb_primary_key_indexes cb) \<and>
     (\<forall>i \<in> set (cb_primary_key_indexes cb). i < length (names cb)) \<and>
     cb_primary_keys cb = map (\<lambda>i. names cb ! i) (cb_primary_key_indexes cb) \<and>
     length (cb_operations cb) = unat (rb_num_rows (cb_rows cb)) \<and>
     length (cb_source_versions cb) = unat (rb_num_rows (cb_rows cb)) \<and>
     (\<forall>old. cb_old_primary_keys cb = Some old \<longrightarrow>
        rb_wf old \<and> length (rb_columns old) = length (cb_primary_key_indexes cb) \<and>
        unat (rb_num_rows old) = unat (rb_num_rows (cb_rows cb)))"

definition changed_wf :: "'v changelog_batch \<Rightarrow> bool list list \<Rightarrow> bool" where
  "changed_wf cb changed \<longleftrightarrow>
     length changed = unat (rb_num_rows (cb_rows cb)) \<and>
     (\<forall>row < length changed. length (changed ! row) = length (names cb) \<and>
        (\<forall>i \<in> set (cb_primary_key_indexes cb). changed ! row ! i) \<and>
        (cb_operations cb ! row = Create \<or> cb_operations cb ! row = SnapshotRead \<longrightarrow> list_all id (changed ! row)))"

subsection \<open>Collapsed rows\<close>

lemma position_of_Some: "position_of x xs = Some i \<Longrightarrow> i < length xs \<and> xs ! i = x"
  by (induction x xs arbitrary: i rule: position_of.induct) (auto split: if_splits)

lemma position_of_None: "position_of x xs = None \<longleftrightarrow> x \<notin> set xs"
  by (induction x xs rule: position_of.induct) auto

lemma position_of_nth: "distinct xs \<Longrightarrow> i < length xs \<Longrightarrow> position_of (xs ! i) xs = Some i"
proof (induction xs arbitrary: i)
  case (Cons y ys)
  then show ?case by (cases i) auto
qed simp

definition source_cell :: "'v changelog_batch \<Rightarrow> nat \<Rightarrow> value_source \<Rightarrow> 'v option" where
  "source_cell cb i src =
     (case src of
        Current row \<Rightarrow> rb_columns (cb_rows cb) ! i ! row
      | OldPrimaryKey row \<Rightarrow>
          (case (position_of i (cb_primary_key_indexes cb), cb_old_primary_keys cb) of
             (Some j, Some old) \<Rightarrow> rb_columns old ! j ! row
           | _ \<Rightarrow> None))"

definition row_cells :: "'v changelog_batch \<Rightarrow> value_source option list \<Rightarrow> 'v cells" where
  "row_cells cb vrs =
     (\<lambda>n. case position_of n (names cb) of
            None \<Rightarrow> None
          | Some i \<Rightarrow> map_option (source_cell cb i) (vrs ! i))"

definition collapsed_key :: "'v changelog_batch \<Rightarrow> collapsed_row \<Rightarrow> 'v option list" where
  "collapsed_key cb c = map (\<lambda>i. source_cell cb i (the (value_rows c ! i))) (cb_primary_key_indexes cb)"

definition source_ok :: "'v changelog_batch \<Rightarrow> value_source \<Rightarrow> bool" where
  "source_ok cb src =
     (case src of
        Current row \<Rightarrow> row < unat (rb_num_rows (cb_rows cb))
      | OldPrimaryKey row \<Rightarrow> row < unat (rb_num_rows (cb_rows cb)) \<and> cb_old_primary_keys cb \<noteq> None)"

definition row_ok :: "'v changelog_batch \<Rightarrow> collapsed_row \<Rightarrow> bool" where
  "row_ok cb c \<longleftrightarrow>
     length (value_rows c) = length (names cb) \<and>
     (\<forall>src. Some src \<in> set (value_rows c) \<longrightarrow> source_ok cb src) \<and>
     (\<forall>i \<in> set (cb_primary_key_indexes cb). value_rows c ! i \<noteq> None) \<and>
     (\<forall>i < length (names cb). \<forall>row. value_rows c ! i = Some (OldPrimaryKey row) \<longrightarrow>
        i \<in> set (cb_primary_key_indexes cb)) \<and>
     ((cl_operation c = Create \<or> cl_operation c = SnapshotRead) \<longrightarrow> None \<notin> set (value_rows c))"

definition collapsed_write ::
  "'v changelog_batch \<Rightarrow> collapsed_row \<Rightarrow> change_operation \<times> 'v option list \<times> 'v cells" where
  "collapsed_write cb c = (cl_operation c, collapsed_key cb c, row_cells cb (value_rows c))"

definition event_sources :: "value_source \<Rightarrow> bool list \<Rightarrow> value_source option list" where
  "event_sources src changed = map (\<lambda>c. if c then Some src else None) changed"

definition event_ok ::
  "'v changelog_batch \<Rightarrow> change_operation \<Rightarrow> value_source \<Rightarrow> bool list \<Rightarrow> bool" where
  "event_ok cb op src changed \<longleftrightarrow>
     length changed = length (names cb) \<and> source_ok cb src \<and>
     (\<forall>i \<in> set (cb_primary_key_indexes cb). i < length (names cb) \<and> changed ! i) \<and>
     (op = Create \<or> op = SnapshotRead \<longrightarrow> list_all id changed) \<and>
     (\<forall>row. src = OldPrimaryKey row \<longrightarrow> op = Delete)"

lemma nth_map2: "i < length xs \<Longrightarrow> i < length ys \<Longrightarrow> map2 f xs ys ! i = f (xs ! i) (ys ! i)"
  by simp

lemma all_changed: "list_all id changed \<Longrightarrow> i < length changed \<Longrightarrow> changed ! i"
  by (simp add: list_all_length)

lemma vacant_row:
  assumes ev: "event_ok cb op src changed"
    and c: "cl_operation c = op" "value_rows c = vacant_sources op src changed (length changed) (cb_primary_key_indexes cb)"
  shows "row_ok cb c \<and> (\<forall>i \<in> set (cb_primary_key_indexes cb). value_rows c ! i = Some src) \<and>
    effect op (row_cells cb (value_rows c)) old = effect op (row_cells cb (event_sources src changed)) old"
proof (cases "op = Delete")
  case True
  have "row_ok cb c"
    using ev c True by (auto simp: row_ok_def event_ok_def vacant_sources_def)
  then show ?thesis
    using ev c True by (auto simp: event_ok_def vacant_sources_def effect_def)
next
  case False
  have "i < length changed \<Longrightarrow> changed ! i \<Longrightarrow> value_rows c ! i = Some src" for i
    using c(2) False by (simp add: vacant_sources_def)
  moreover have "row_ok cb c"
    using ev c False by (auto simp: row_ok_def event_ok_def vacant_sources_def list_all_iff split: if_splits)
  ultimately show ?thesis
    using ev c False by (auto simp: event_ok_def vacant_sources_def event_sources_def)
qed

lemma occupied_cells:
  assumes "length vrs = length changed" "length changed = length (names cb)"
  shows "row_cells cb (map2 (\<lambda>s ch. if ch then Some src else s) vrs changed) =
    row_cells cb vrs ++ row_cells cb (event_sources src changed)"
proof
  fix n
  show "row_cells cb (map2 (\<lambda>s ch. if ch then Some src else s) vrs changed) n =
      (row_cells cb vrs ++ row_cells cb (event_sources src changed)) n"
    using assms position_of_Some[of n "names cb"]
    by (cases "position_of n (names cb)") (auto simp: row_cells_def event_sources_def map_add_def)
qed

lemma full_cells:
  assumes "list_all id changed" "length changed = length (names cb)"
  shows "row_cells cb (replicate (length (names cb)) (Some src)) = row_cells cb (event_sources src changed)"
proof
  fix n
  show "row_cells cb (replicate (length (names cb)) (Some src)) n = row_cells cb (event_sources src changed) n"
    using assms position_of_Some[of n "names cb"]
    by (cases "position_of n (names cb)") (auto simp: row_cells_def event_sources_def all_changed)
qed

lemma row_ok_nth:
  "row_ok cb c \<longleftrightarrow>
     length (value_rows c) = length (names cb) \<and>
     (\<forall>i < length (names cb). \<forall>src. value_rows c ! i = Some src \<longrightarrow> source_ok cb src) \<and>
     (\<forall>i \<in> set (cb_primary_key_indexes cb). value_rows c ! i \<noteq> None) \<and>
     (\<forall>i < length (names cb). \<forall>row. value_rows c ! i = Some (OldPrimaryKey row) \<longrightarrow>
        i \<in> set (cb_primary_key_indexes cb)) \<and>
     ((cl_operation c = Create \<or> cl_operation c = SnapshotRead) \<longrightarrow>
        (\<forall>i < length (names cb). value_rows c ! i \<noteq> None))"
proof -
  have "None \<notin> set xs \<longleftrightarrow> (\<forall>i < length xs. xs ! i \<noteq> None)" for xs :: "value_source option list"
    by (auto simp: in_set_conv_nth)
  moreover have "(\<forall>s. Some s \<in> set xs \<longrightarrow> P s) \<longleftrightarrow> (\<forall>i < length xs. \<forall>s. xs ! i = Some s \<longrightarrow> P s)"
    for xs :: "value_source option list" and P
    by (auto simp: in_set_conv_nth)
  ultimately show ?thesis unfolding row_ok_def by auto
qed

lemma occupied_row:
  assumes ev: "event_ok cb op src changed" and ok: "row_ok cb c"
    and up: "occupied_update op src changed (cb_primary_key_indexes cb) pos version c = Inr c'"
  shows "row_ok cb c' \<and> (\<forall>i \<in> set (cb_primary_key_indexes cb). value_rows c' ! i = Some src) \<and>
    effect (cl_operation c') (row_cells cb (value_rows c')) old =
      effect op (row_cells cb (event_sources src changed)) (effect (cl_operation c) (row_cells cb (value_rows c)) old)"
proof -
  have len: "length (value_rows c) = length changed" "length changed = length (names cb)"
    using ev ok by (auto simp: event_ok_def row_ok_def)
  consider (full) "op = Create \<or> op = SnapshotRead" | (patch) "op = Update" | (del) "op = Delete"
    by (cases op) auto
  then show ?thesis
  proof cases
    case full
    then have c': "cl_operation c' = op" "value_rows c' = replicate (length (names cb)) (Some src)"
      using up len by (auto simp: occupied_update_def)
    have all: "list_all id changed" using ev full by (simp add: event_ok_def)
    have "row_ok cb c'"
      using ev c' full by (auto simp: row_ok_def event_ok_def)
    then show ?thesis
      using c' ev full full_cells[OF all len(2)] by (auto simp: event_ok_def effect_def)
  next
    case patch
    let ?vrs = "map2 (\<lambda>s ch. if ch then Some src else s) (value_rows c) changed"
    have nd: "cl_operation c \<noteq> Delete" and c': "value_rows c' = ?vrs"
      "cl_operation c' = (if cl_operation c = Create \<or> cl_operation c = SnapshotRead then cl_operation c else Update)"
      using up patch len by (auto simp: occupied_update_def split: if_splits)
    have vr: "value_rows c' ! i = (if changed ! i then Some src else value_rows c ! i)"
      if "i < length (names cb)" for i
      using that len c'(1) by simp
    have "\<forall>row. src \<noteq> OldPrimaryKey row" "source_ok cb src" using ev patch by (auto simp: event_ok_def)
    then have "row_ok cb c'"
      using ev ok c' len vr unfolding row_ok_nth event_ok_def by (auto split: if_splits)
    then show ?thesis
      using c' ev patch nd len occupied_cells[OF len, of src]
      by (auto simp: event_ok_def effect_def split: change_operation.splits option.splits)
  next
    case del
    then have c': "cl_operation c' = Delete"
      "value_rows c' = map (\<lambda>i. if i \<in> set (cb_primary_key_indexes cb) then Some src else None) [0 ..< length (names cb)]"
      using up len by (auto simp: occupied_update_def)
    have "row_ok cb c'"
      using ev c' by (auto simp: row_ok_def event_ok_def)
    then show ?thesis using c' ev del by (auto simp: event_ok_def effect_def)
  qed
qed

subsection \<open>Collapsing is replaying\<close>

definition latest_inv ::
  "'v changelog_batch \<Rightarrow> ('v option list \<Rightarrow> 'k) \<Rightarrow> ('k \<times> collapsed_row) list \<Rightarrow>
   'v table_state \<Rightarrow> 'v table_state \<Rightarrow> bool" where
  "latest_inv cb conv latest st0 st \<longleftrightarrow>
     distinct (map fst latest) \<and>
     (\<forall>k c. map_of latest k = Some c \<longrightarrow> row_ok cb c \<and> conv (collapsed_key cb c) = k) \<and>
     (\<forall>K. st K =
        (if length K = length (cb_primary_key_indexes cb)
         then (case map_of latest (conv K) of
                 None \<Rightarrow> st0 K
               | Some c \<Rightarrow> effect (cl_operation c) (row_cells cb (value_rows c)) (st0 K))
         else st0 K))"

lemma apply_collapsed_event_inv:
  assumes inv: "latest_inv cb conv latest st0 st"
    and inj: "inj_on conv {r. length r = length (cb_primary_key_indexes cb)}"
    and ev: "event_ok cb op src changed" and key: "key = conv K0"
    and K0: "K0 = map (\<lambda>i. source_cell cb i src) (cb_primary_key_indexes cb)"
    and ap: "apply_collapsed_event (cb_primary_key_indexes cb) (key, pos, op, src, changed, version) latest = Inr latest'"
  shows "latest_inv cb conv latest' st0 (write_row (op, K0, row_cells cb (event_sources src changed)) st)"
proof -
  let ?pks = "cb_primary_key_indexes cb" and ?cells = "row_cells cb (event_sources src changed)"
  have len: "length K0 = length ?pks" by (simp add: K0)
  have stK: "st K0 = (case map_of latest key of None \<Rightarrow> st0 K0
      | Some c \<Rightarrow> effect (cl_operation c) (row_cells cb (value_rows c)) (st0 K0))"
    using inv len key by (simp add: latest_inv_def)
  obtain c' where l': "latest' = AList.update key c' latest" and ok: "row_ok cb c'"
    and pk: "\<forall>i \<in> set ?pks. value_rows c' ! i = Some src"
    and eff: "effect (cl_operation c') (row_cells cb (value_rows c')) (st0 K0) = effect op ?cells (st K0)"
  proof (cases "map_of latest key")
    case None
    let ?c = "\<lparr>final_position = pos, cl_operation = op,
      value_rows = vacant_sources op src changed (length changed) ?pks, source_version = version\<rparr>"
    show thesis
      using that[of ?c] ap None stK vacant_row[OF ev, of ?c "st0 K0"] by (simp add: apply_collapsed_event_def)
  next
    case (Some c)
    then obtain c' where c': "occupied_update op src changed ?pks pos version c = Inr c'"
      "latest' = AList.update key c' latest"
      using ap by (auto simp: apply_collapsed_event_def split: sum.splits)
    have "row_ok cb c" using inv Some by (auto simp: latest_inv_def)
    from occupied_row[OF ev this c'(1), of "st0 K0"] show thesis
      using that[of c'] c'(2) stK Some by simp
  qed
  have ck: "collapsed_key cb c' = K0" using pk by (simp add: collapsed_key_def K0)
  have "conv K \<noteq> key" if "length K = length ?pks" "K \<noteq> K0" for K
    using inj that len key by (auto simp: inj_on_def)
  then show ?thesis
    using inv l' ok eff ck key len
    unfolding latest_inv_def write_row_def
    by (auto simp: update_conv' distinct_update)
qed

lemma carried_cells:
  assumes "length changed = length (names cb)"
  shows "carried cb changed row = row_cells cb (event_sources (Current row) changed)"
proof
  fix n
  show "carried cb changed row n = row_cells cb (event_sources (Current row) changed) n"
    using assms position_of_Some[of n "names cb"]
    by (cases "position_of n (names cb)")
       (auto simp: carried_def row_cells_def event_sources_def source_cell_def)
qed

lemma current_key: "map (\<lambda>i. source_cell cb i (Current row)) (cb_primary_key_indexes cb) = key_row (key_columns cb) row"
  by (simp add: source_cell_def key_row_def key_columns_def)

lemma old_key:
  assumes "changelog_wf cb" "cb_old_primary_keys cb = Some old"
  shows "map (\<lambda>i. source_cell cb i (OldPrimaryKey row)) (cb_primary_key_indexes cb) = key_row (rb_columns old) row"
  using assms
  by (intro nth_equalityI) (auto simp: source_cell_def key_row_def changelog_wf_def position_of_nth)

lemma write_delete: "write_row (Delete, K, cells) = write_row (Delete, K, cells')"
  by (auto simp: write_row_def effect_def)

definition collapse_setup :: "'v changelog_batch \<Rightarrow> ('v option list \<Rightarrow> 'k) \<Rightarrow> bool list list \<Rightarrow> bool" where
  "collapse_setup cb conv changed \<longleftrightarrow>
     changelog_wf cb \<and> changed_wf cb changed \<and> inj_on conv {r. length r = length (cb_primary_key_indexes cb)}"

lemma collapse_event_ok:
  assumes "collapse_setup cb conv changed" "row < length changed"
    and "src = Current row \<or> src = OldPrimaryKey row \<and> op = Delete \<and> cb_old_primary_keys cb \<noteq> None"
    and "op = cb_operations cb ! row \<or> op = Delete \<or> op = Create \<and> list_all id (changed ! row)"
  shows "event_ok cb op src (changed ! row)"
  using assms
  by (auto simp: collapse_setup_def changelog_wf_def changed_wf_def event_ok_def source_ok_def)

lemmas collapse_event_inv = apply_collapsed_event_inv[OF _ _ collapse_event_ok]

lemma row_events_inv:
  assumes su: "collapse_setup cb conv changed" and row: "row < length changed"
    and old: "cb_old_primary_keys cb = Some old"
    and evs: "row_events cb (\<lambda>r. conv (key_row (key_columns cb) r)) (\<lambda>r. conv (key_row (rb_columns old) r))
      (row, changed ! row) = Inr evs"
    and ap: "res_fold (apply_collapsed_event (cb_primary_key_indexes cb)) evs latest = Inr latest'"
    and inv: "latest_inv cb conv latest st0 st"
  shows "latest_inv cb conv latest' st0 (fold write_row (source_row_writes cb changed row) st)"
proof -
  let ?cur = "key_row (key_columns cb) row" and ?old = "key_row (rb_columns old) row"
  let ?ver = "cb_source_versions cb ! row" and ?ch = "changed ! row"
  have wf: "changelog_wf cb" and inj: "inj_on conv {r. length r = length (cb_primary_key_indexes cb)}"
    and len: "length ?ch = length (names cb)"
    using su row by (auto simp: collapse_setup_def changed_wf_def)
  have lens: "length ?cur = length (cb_primary_key_indexes cb)" "length ?old = length (cb_primary_key_indexes cb)"
    using wf old by (auto simp: key_row_def key_columns_def changelog_wf_def)
  have same: "conv ?old = conv ?cur \<longleftrightarrow> ?old = ?cur" using inj lens by (auto simp: inj_on_def)
  have cur_step: "latest_inv cb conv l2 st0 (write_row (op, ?cur, carried cb ?ch row) s1)"
    if "apply_collapsed_event (cb_primary_key_indexes cb) (conv ?cur, pos, op, Current row, ?ch, ?ver) l1 = Inr l2"
      "latest_inv cb conv l1 st0 s1" "op = cb_operations cb ! row \<or> op = Create \<and> list_all id ?ch" for op pos l1 l2 s1
    using collapse_event_inv[OF that(2) inj su row _ _ refl current_key[symmetric] that(1)] that(3)
    by (auto simp: carried_cells[OF len])
  have old_step: "latest_inv cb conv l2 st0 (write_row (Delete, ?old, Map.empty) s1)"
    if "apply_collapsed_event (cb_primary_key_indexes cb) (conv ?old, pos, Delete, OldPrimaryKey row, ?ch, ?ver) l1 = Inr l2"
      "latest_inv cb conv l1 st0 s1" for pos l1 l2 s1
    using collapse_event_inv[OF that(2) inj su row _ _ refl old_key[OF wf old, symmetric] that(1)] old
    by (simp add: write_delete[of ?old "row_cells cb (event_sources (OldPrimaryKey row) ?ch)" Map.empty])
  show ?thesis
  proof (cases "cb_operations cb ! row")
    case Update
    show ?thesis
    proof (cases "?old = ?cur")
      case True
      then show ?thesis
        using evs ap inv Update old cur_step
        by (auto simp: row_events_def source_row_writes_def old_key_row_def Let_def split: sum.splits)
    next
      case False
      then obtain l1 where "list_all id ?ch"
        "apply_collapsed_event (cb_primary_key_indexes cb) (conv ?old, row * 2, Delete, OldPrimaryKey row, ?ch, ?ver) latest = Inr l1"
        "apply_collapsed_event (cb_primary_key_indexes cb) (conv ?cur, row * 2 + 1, Create, Current row, ?ch, ?ver) l1 = Inr latest'"
        using evs ap Update same by (auto simp: row_events_def Let_def split: if_splits sum.splits)
      then show ?thesis
        using cur_step[OF _ old_step[OF _ inv]] Update False old
        by (auto simp: source_row_writes_def old_key_row_def Let_def)
    qed
  qed (use evs ap inv old cur_step old_step in
       \<open>auto simp: row_events_def source_row_writes_def old_key_row_def Let_def split: sum.splits\<close>)
qed

lemma row_without_old_inv:
  assumes su: "collapse_setup cb conv changed" and row: "row < length changed"
    and old: "cb_old_primary_keys cb = None"
    and ap: "collapse_row_without_old cb (\<lambda>r. conv (key_row (key_columns cb) r)) (row, changed ! row) latest = Inr latest'"
    and inv: "latest_inv cb conv latest st0 st"
  shows "latest_inv cb conv latest' st0 (fold write_row (source_row_writes cb changed row) st)"
proof -
  let ?cur = "key_row (key_columns cb) row" and ?op = "cb_operations cb ! row"
  have inj: "inj_on conv {r. length r = length (cb_primary_key_indexes cb)}"
    and len: "length (changed ! row) = length (names cb)" "length (rb_columns (cb_rows cb)) = length (names cb)"
    using su row by (auto simp: collapse_setup_def changed_wf_def changelog_wf_def rb_wf_def names_def)
  have "apply_collapsed_event (cb_primary_key_indexes cb)
      (conv ?cur, row, ?op, Current row, changed ! row, cb_source_versions cb ! row) latest = Inr latest'"
    using ap unfolding collapse_row_without_old_def apply_collapsed_event_def Let_def prod.case len .
  note step = collapse_event_inv[OF inv inj su row _ _ refl current_key[symmetric] this]
  have "latest_inv cb conv latest' st0 (write_row (?op, ?cur, carried cb (changed ! row) row) st)"
    using step by (simp add: carried_cells[OF len(1)])
  then show ?thesis
    using old write_delete[of ?cur "carried cb (changed ! row) row" Map.empty]
    by (cases ?op) (simp_all add: source_row_writes_def old_key_row_def Let_def)
qed

lemma collapse_rows_inv:
  assumes step: "\<And>row l l' s. row < length changed \<Longrightarrow> f (row, changed ! row) l = Inr l' \<Longrightarrow>
      latest_inv cb conv l st0 s \<Longrightarrow> latest_inv cb conv l' st0 (g row s)"
  shows "res_fold f (enumerate n (drop n changed)) l = Inr l' \<Longrightarrow> latest_inv cb conv l st0 s \<Longrightarrow>
    latest_inv cb conv l' st0 (fold g [n ..< length changed] s)"
proof (induction "length changed - n" arbitrary: n l s)
  case (Suc d)
  then have n: "n < length changed" by simp
  then obtain l1 where "f (n, changed ! n) l = Inr l1" "res_fold f (enumerate (Suc n) (drop (Suc n) changed)) l1 = Inr l'"
    using Suc.prems(1) by (auto simp: Cons_nth_drop_Suc[symmetric] split: sum.splits)
  then show ?case
    using Suc.hyps(1)[of "Suc n" l1 "g n s"] step[OF n] Suc.hyps(2) Suc.prems(2) n
    by (simp add: upt_conv_Cons)
qed simp

lemma latest_inv_start: "latest_inv cb conv [] st st"
  by (simp add: latest_inv_def)

subsection \<open>Writing collapsed rows\<close>

lemma write_row_simp: "write_row (op, key, cells) st = st(key := effect op cells (st key))"
  by (simp add: write_row_def)

lemma fold_writes:
  assumes "distinct (map (\<lambda>w. fst (snd w)) ws)"
  shows "(op, K, cells) \<in> set ws \<Longrightarrow> fold write_row ws st K = effect op cells (st K)"
    and "K \<notin> (\<lambda>w. fst (snd w)) ` set ws \<Longrightarrow> fold write_row ws st K = st K"
  using assms
proof (induction ws arbitrary: st)
  case (Cons w ws)
  obtain op' K' cells' where w: "w = (op', K', cells')" by (cases w)
  { case 1
    show ?case
    proof (cases "(op, K, cells) = w")
      case True
      then have "K \<notin> (\<lambda>w. fst (snd w)) ` set ws" using 1 by (simp flip: True)
      then have "fold write_row ws (write_row w st) K = write_row w st K" using Cons.IH(2) 1 by simp
      then show ?thesis using True by (auto simp: write_row_simp)
    next
      case False
      then have "(op, K, cells) \<in> set ws" using 1 by simp
      moreover have "K \<noteq> K'" using 1 w calculation by force
      ultimately show ?thesis using Cons.IH(1) 1 w by (auto simp: write_row_simp)
    qed
  next
    case 2
    then show ?case using Cons.IH(2) w by (auto simp: write_row_simp)
  }
qed simp_all

lemma write_latest:
  assumes inv: "latest_inv cb conv latest st0 st"
    and inj: "inj_on conv {r. length r = length (cb_primary_key_indexes cb)}" and perm: "mset sel = mset (map snd latest)"
  shows "fold write_row (map (collapsed_write cb) sel) st0 = st" "distinct (map (collapsed_key cb) sel)"
proof -
  let ?ws = "map (collapsed_write cb) sel"
  have keys: "map (\<lambda>w. fst (snd w)) ?ws = map (collapsed_key cb) sel" by (simp add: collapsed_write_def)
  have mem: "row_ok cb c \<and> conv (collapsed_key cb c) = k" if "(k, c) \<in> set latest" for k c
    using inv that by (auto simp: latest_inv_def)
  have "map (\<lambda>c. conv (collapsed_key cb c)) (map snd latest) = map fst latest"
    using mem by auto
  then have "distinct (map (\<lambda>c. conv (collapsed_key cb c)) (map snd latest))"
    using inv unfolding latest_inv_def by metis
  then have "distinct (map (collapsed_key cb) (map snd latest))"
    by (auto simp: distinct_map inj_on_def)
  moreover have "mset (map (collapsed_key cb) sel) = mset (map (collapsed_key cb) (map snd latest))"
    using perm by (simp only: mset_map)
  ultimately show d: "distinct (map (collapsed_key cb) sel)"
    by (metis mset_eq_imp_distinct_iff)
  have dk: "distinct (map (\<lambda>w. fst (snd w)) ?ws)" unfolding keys by (rule d)
  have sel: "c \<in> set sel \<longleftrightarrow> c \<in> snd ` set latest" for c
    using mset_eq_setD[OF perm] by simp
  show "fold write_row ?ws st0 = st"
  proof
    fix K
    note stK = inv[unfolded latest_inv_def, THEN conjunct2, THEN conjunct2, rule_format, of K]
    have lenK: "length (collapsed_key cb c) = length (cb_primary_key_indexes cb)" for c
      by (simp add: collapsed_key_def)
    show "fold write_row ?ws st0 K = st K"
    proof (cases "\<exists>c \<in> set sel. collapsed_key cb c = K")
      case True
      then obtain c where sc: "c \<in> set sel" "collapsed_key cb c = K" by blast
      then obtain k where c: "(k, c) \<in> set latest" "c \<in> set sel" "collapsed_key cb c = K" using sel by force
      then have "map_of latest (conv K) = Some c" using mem inv by (auto simp: latest_inv_def)
      moreover have "(cl_operation c, K, row_cells cb (value_rows c)) \<in> set ?ws"
        using c by (force simp: collapsed_write_def)
      ultimately show ?thesis
        using stK lenK[of c] c(3) fold_writes(1)[OF dk] by simp
    next
      case False
      then have "K \<notin> (\<lambda>w. fst (snd w)) ` set ?ws" by (auto simp: collapsed_write_def)
      then have "fold write_row ?ws st0 K = st0 K" by (rule fold_writes(2)[OF dk])
      moreover have "st K = st0 K"
      proof (cases "map_of latest (conv K)")
        case (Some c)
        then have "conv (collapsed_key cb c) = conv K" "c \<in> set sel"
          using mem sel by (auto dest!: map_of_SomeD intro!: image_eqI)
        moreover from this have "length K \<noteq> length (cb_primary_key_indexes cb)"
          using inj lenK[of c] False by (auto simp: inj_on_def)
        ultimately show ?thesis using stK by simp
      qed (use stK in auto)
      ultimately show ?thesis by simp
    qed
  qed
qed

subsection \<open>Materialised runs write the collapsed rows\<close>

lemma same_sink_operation_refl [simp]: "same_sink_operation a a"
  by (cases a) (simp_all add: same_sink_operation_def)

lemma same_sink_operation_sym: "same_sink_operation a b \<Longrightarrow> same_sink_operation b a"
  by (auto simp: same_sink_operation_def)

lemma effect_same: "same_sink_operation a b \<Longrightarrow> effect a = effect b"
  by (intro ext) (auto simp: same_sink_operation_def effect_def)

lemma source_array_nth:
  assumes laws: "arrow_laws ar" and wf: "changelog_wf cb" and i: "i < length (names cb)"
    and arr: "source_array ar cb i = Inr xs" and idx: "source_index cb (Some src) = Inr k"
    and ok: "source_ok cb src" and old: "\<forall>row. src = OldPrimaryKey row \<longrightarrow> i \<in> set (cb_primary_key_indexes cb)"
  shows "xs ! k = source_cell cb i src"
proof -
  let ?col = "rb_columns (cb_rows cb) ! i"
  have len: "length ?col = unat (rb_num_rows (cb_rows cb))"
    using wf i by (simp add: changelog_wf_def rb_wf_def names_def)
  have cc: "ar_concat ar a b = Some c \<Longrightarrow> c = a @ b" for a b c using laws unfolding arrow_laws_def by blast
  show ?thesis
  proof (cases src)
    case (Current row)
    then have "k = row" "row < length ?col"
      using idx ok len by (auto simp: source_index_def source_ok_def split: if_splits)
    then show ?thesis
      using arr Current
      by (auto simp: source_array_def source_cell_def lift_arrow_def Let_def nth_append
          split: if_splits option.splits dest!: cc)
  next
    case (OldPrimaryKey row)
    then obtain ob where ob: "cb_old_primary_keys cb = Some ob" using ok by (auto simp: source_ok_def)
    obtain j where j: "position_of i (cb_primary_key_indexes cb) = Some j"
      using old OldPrimaryKey position_of_None by (metis option.exhaust)
    have "k = length ?col + row"
      using idx OldPrimaryKey len by (auto simp: source_index_def Let_def split: if_splits)
    then show ?thesis
      using arr OldPrimaryKey ob j old
      by (auto simp: source_array_def source_cell_def lift_arrow_def Let_def split: option.splits dest!: cc)
  qed
qed

lemma run_column_values:
  assumes laws: "arrow_laws ar" and wf: "changelog_wf cb" and i: "i < length (names cb)"
    and sel: "\<forall>d \<in> set sel. row_ok cb d \<and> value_rows d ! i \<noteq> None"
    and col: "run_column ar cb sel i = Inr ys"
  shows "ys = map (\<lambda>d. source_cell cb i (the (value_rows d ! i))) sel"
proof -
  obtain ks xs where ks: "list_all2 (\<lambda>d k. source_index cb (value_rows d ! i) = Inr k) sel ks"
    and xs: "source_array ar cb i = Inr xs" and tk: "ar_take ar xs ks = Some ys"
    using col by (auto simp: run_column_def res_bind_Inr_iff res_map_Inr_iff lift_arrow_def split: option.splits)
  have "xs ! k = source_cell cb i (the (value_rows d ! i))"
    if "d \<in> set sel" "source_index cb (value_rows d ! i) = Inr k" for d k
  proof -
    obtain src where src: "value_rows d ! i = Some src" using sel \<open>d \<in> set sel\<close> by auto
    have "row_ok cb d" using sel \<open>d \<in> set sel\<close> by blast
    then have "source_ok cb src" "\<forall>row. src = OldPrimaryKey row \<longrightarrow> i \<in> set (cb_primary_key_indexes cb)"
      using src i unfolding row_ok_nth by blast+
    then show ?thesis using source_array_nth[OF laws wf i xs] that(2) src by simp
  qed
  then have "list_all2 (\<lambda>d k. xs ! k = source_cell cb i (the (value_rows d ! i))) sel ks"
    using ks by (simp add: list_all2_conv_all_nth)
  moreover have "ys = map (\<lambda>k. xs ! k) ks" using laws tk unfolding arrow_laws_def by blast
  ultimately show ?thesis
    by (auto simp: list_all2_conv_all_nth intro!: nth_equalityI)
qed

lemma map_of_included:
  assumes "distinct ns" "length inc = length ns"
  shows "map_of (zip (map (\<lambda>i. ns ! i) (included_indexes inc)) (map f (included_indexes inc))) n =
    (case position_of n ns of None \<Rightarrow> None | Some i \<Rightarrow> if inc ! i then Some (f i) else None)"
proof -
  let ?es = "map (\<lambda>i. (ns ! i, f i)) (included_indexes inc)"
  have lt: "i \<in> set (included_indexes inc) \<longleftrightarrow> i < length ns \<and> inc ! i" for i
    using assms(2) by (auto simp: included_indexes_def)
  have z: "zip (map (\<lambda>i. ns ! i) is) (map f is) = map (\<lambda>i. (ns ! i, f i)) is" for "is"
    by (induction "is") auto
  have "inj_on (\<lambda>i. ns ! i) (set (included_indexes inc))"
    using assms(1) lt by (auto simp: inj_on_def nth_eq_iff_index_eq)
  then have d: "distinct (map fst ?es)"
    by (simp add: comp_def distinct_map included_indexes_def)
  show ?thesis
  proof (cases "position_of n ns")
    case None
    then have "n \<notin> set ns" by (simp add: position_of_None)
    moreover have "fst ` set ?es \<subseteq> set ns" using lt by (simp add: image_image image_subset_iff)
    ultimately have "n \<notin> fst ` set ?es" by blast
    then show ?thesis using None unfolding z by (simp add: map_of_eq_None_iff)
  next
    case (Some i)
    note p = position_of_Some[OF Some]
    show ?thesis
    proof (cases "inc ! i")
      case True
      then have "(n, f i) \<in> set ?es" using lt p by auto
      then show ?thesis using True Some d unfolding z by (simp add: map_of_is_SomeI)
    next
      case False
      have "n \<notin> fst ` set ?es"
      proof
        assume "n \<in> fst ` set ?es"
        then obtain j where "j \<in> set (included_indexes inc)" "ns ! j = n" by auto
        then show False using lt p False nth_eq_iff_index_eq[OF assms(1), of i j] by simp
      qed
      then show ?thesis using False Some unfolding z by (simp add: map_of_eq_None_iff)
    qed
  qed
qed

lemma key_cells:
  assumes wf: "changelog_wf cb" and ok: "row_ok cb c"
  shows "map (\<lambda>n. the (row_cells cb (value_rows c) n)) (cb_primary_keys cb) = collapsed_key cb c"
  using wf ok
  by (auto simp: changelog_wf_def collapsed_key_def row_cells_def position_of_nth row_ok_def intro!: map_cong)

lemma materialize_run_writes:
  assumes laws: "arrow_laws ar" and wf: "changelog_wf cb" and run: "materialize_run ar cb c sel = Inr r"
    and sel: "c \<in> set sel" "\<forall>d \<in> set sel. row_ok cb d \<and> included d = included c"
  shows "run_writes (cb_primary_keys cb) r =
    map (\<lambda>d. (cl_operation c, collapsed_key cb d, row_cells cb (value_rows d))) sel"
proof -
  let ?ix = "included_indexes (included c)" and ?v = "\<lambda>d i. source_cell cb i (the (value_rows d ! i))"
  have okc: "row_ok cb c" using sel by blast
  then have linc: "length (included c) = length (names cb)" by (simp add: included_def row_ok_def)
  have ix: "i \<in> set ?ix \<longleftrightarrow> i < length (names cb) \<and> included c ! i" for i
    using linc by (auto simp: included_indexes_def)
  have inc: "included c ! i \<longleftrightarrow> value_rows d ! i \<noteq> None" if "d \<in> set sel" "i < length (names cb)" for d i
  proof -
    have d: "row_ok cb d" "included d = included c" using sel(2) that(1) by blast+
    then have "i < length (value_rows d)" using that(2) by (simp add: row_ok_def)
    then show ?thesis unfolding d(2)[symmetric] by (simp add: included_def)
  qed
  obtain arrays batch where arr: "list_all2 (\<lambda>i ys. run_column ar cb sel i = Inr ys) ?ix arrays"
    and tn: "ar_try_new ar (map (\<lambda>i. rb_schema (cb_rows cb) ! i) ?ix) arrays = Some batch"
    and r: "cr_operation r = cl_operation c" "cr_batch r = batch"
    using run by (auto simp: materialize_run_def Let_def res_bind_Inr_iff res_map_Inr_iff lift_arrow_def
        split: option.splits)
  have b: "rb_schema batch = map (\<lambda>i. rb_schema (cb_rows cb) ! i) ?ix" "rb_columns batch = arrays" "rb_wf batch"
    using laws tn unfolding arrow_laws_def by blast+
  have col: "ys = map (\<lambda>d. ?v d i) sel" if "i \<in> set ?ix" "run_column ar cb sel i = Inr ys" for i ys
  proof -
    have "\<forall>d \<in> set sel. row_ok cb d \<and> value_rows d ! i \<noteq> None" "i < length (names cb)"
      using inc ix that(1) sel(2) by blast+
    then show ?thesis using run_column_values[OF laws wf _ _ that(2)] by blast
  qed
  have "list_all2 (\<lambda>i ys. ys = map (\<lambda>d. ?v d i) sel) ?ix arrays"
    by (rule list.rel_mono_strong[OF arr]) (rule col)
  then have arrays: "arrays = map (\<lambda>i. map (\<lambda>d. ?v d i) sel) ?ix"
    by (simp add: list_all2_conv_all_nth list_eq_iff_nth_eq)
  obtain p where p: "p \<in> set (cb_primary_key_indexes cb)"
    using wf by (cases "cb_primary_key_indexes cb") (auto simp: changelog_wf_def)
  then have "p < length (names cb)" "value_rows c ! p \<noteq> None"
    using wf okc unfolding changelog_wf_def row_ok_def by blast+
  then have "p \<in> set ?ix" using ix inc[OF sel(1)] by blast
  then have "map (\<lambda>d. ?v d p) sel \<in> set (rb_columns batch)" unfolding b arrays set_map by blast
  then have rows: "unat (rb_num_rows batch) = length sel"
    using b(3) unfolding rb_wf_def by fastforce
  have nm: "map f_name (rb_schema batch) = map (\<lambda>i. names cb ! i) ?ix"
    using ix b by (auto simp: names_def)
  have cells: "run_cells r j = row_cells cb (value_rows (sel ! j))" if j: "j < length sel" for j
  proof
    fix n
    have sj: "sel ! j \<in> set sel" using j by simp
    have "run_cells r j n = map_of (zip (map (\<lambda>i. names cb ! i) ?ix) (map (\<lambda>i. ?v (sel ! j) i) ?ix)) n"
      unfolding run_cells_def r nm b(2) arrays using j by (simp add: comp_def)
    also have "\<dots> = row_cells cb (value_rows (sel ! j)) n"
      using wf linc inc[OF sj] position_of_Some[of n "names cb"]
      by (subst map_of_included) (auto simp: changelog_wf_def row_cells_def split: option.splits)
    finally show "run_cells r j n = row_cells cb (value_rows (sel ! j)) n" .
  qed
  have "run_key (cb_primary_keys cb) r j = collapsed_key cb (sel ! j)" if "j < length sel" for j
    using key_cells[OF wf, of "sel ! j"] sel(2) that unfolding run_key_def cells[OF that] by simp
  then show ?thesis
    using cells r rows by (auto simp: run_writes_def intro!: nth_equalityI)
qed

lemma materialize_runs_writes:
  "materialize_runs ar cb cs = Inr runs \<Longrightarrow> \<forall>c \<in> set cs. row_ok cb c \<Longrightarrow> arrow_laws ar \<Longrightarrow> changelog_wf cb \<Longrightarrow>
    apply_runs (cb_primary_keys cb) runs st = fold write_row (map (collapsed_write cb) cs) st \<and>
    map (\<lambda>w. fst (snd w)) (concat (map (run_writes (cb_primary_keys cb)) runs)) = map (collapsed_key cb) cs"
proof (induction ar cb cs arbitrary: runs st rule: materialize_runs.induct)
  case (2 ar cb c cs)
  let ?sel = "c # takeWhile (same_run c) cs" and ?rest = "dropWhile (same_run c) cs"
  obtain r rs where r: "materialize_run ar cb c ?sel = Inr r" and rs: "materialize_runs ar cb ?rest = Inr rs"
    and runs: "runs = r # rs"
    using "2.prems"(1) by (auto simp: res_bind_Inr_iff)
  have sel: "c \<in> set ?sel" "\<forall>d \<in> set ?sel. row_ok cb d \<and> included d = included c"
    "\<forall>d \<in> set ?sel. same_sink_operation (cl_operation c) (cl_operation d)"
    using "2.prems"(2) by (auto simp: same_run_def dest!: set_takeWhileD intro: same_sink_operation_sym)
  have rest: "\<forall>d \<in> set ?rest. row_ok cb d" using "2.prems"(2) by (auto dest: set_dropWhileD)
  note w = materialize_run_writes[OF "2.prems"(3,4) r sel(1,2)]
  have "fold write_row (run_writes (cb_primary_keys cb) r) s = fold write_row (map (collapsed_write cb) ?sel) s" for s
    unfolding w collapsed_write_def fold_map
    by (rule fold_cong) (use sel(3) in \<open>auto simp: write_row_def effect_same fun_eq_iff\<close>)
  moreover have "map (\<lambda>w. fst (snd w)) (run_writes (cb_primary_keys cb) r) = map (collapsed_key cb) ?sel"
    unfolding w by simp
  moreover have "fold write_row (map (collapsed_write cb) (c # cs)) s =
      fold write_row (map (collapsed_write cb) ?rest) (fold write_row (map (collapsed_write cb) ?sel) s)" for s
    using takeWhile_dropWhile_id[of "same_run c" cs]
    by (metis append_Cons fold_append map_append comp_apply)
  moreover have "map (collapsed_key cb) (c # cs) = map (collapsed_key cb) ?sel @ map (collapsed_key cb) ?rest"
    by (metis append_Cons map_append takeWhile_dropWhile_id)
  ultimately show ?case
    using "2.IH"[OF rs rest "2.prems"(3,4)] by (simp add: runs apply_runs_def)
qed (simp_all add: apply_runs_def)

lemma collapsed_runs_latest:
  fixes ar :: "('v, 'k) arrow"
  assumes laws: "arrow_laws ar" and wf: "changelog_wf cb" and ch: "changed_wf cb changed"
    and runs: "collapsed_runs_with_changed_columns ar cb changed = Inr runs"
  shows "\<exists>(conv :: 'v option list \<Rightarrow> 'k) latest. inj_on conv {r. length r = length (cb_primary_key_indexes cb)} \<and>
    latest_inv cb conv latest st (replay cb changed st) \<and>
    materialize_runs ar cb (sort_key final_position (map snd latest)) = Inr runs"
proof -
  obtain conv where conv: "ar_row_converter ar
      (map (\<lambda>i. f_type (rb_schema (cb_rows cb) ! i)) (cb_primary_key_indexes cb)) = Some conv"
    using runs by (auto simp: collapsed_runs_with_changed_columns_def split: if_splits option.splits)
  have inj: "inj_on conv {r. length r = length (cb_primary_key_indexes cb)}"
    using laws conv unfolding arrow_laws_def by (metis length_map)
  have su: "collapse_setup cb conv changed" using wf ch inj by (simp add: collapse_setup_def)
  show ?thesis
  proof (cases "cb_old_primary_keys cb")
    case None
    then obtain latest where
      l: "res_fold (collapse_row_without_old cb (\<lambda>row. conv (key_row (key_columns cb) row))) (enumerate 0 changed) [] = Inr latest"
      and m: "materialize_runs ar cb (sort_key final_position (map snd latest)) = Inr runs"
      using runs conv
      by (auto simp: collapsed_runs_with_changed_columns_def collapsed_runs_without_old_values_def Let_def
          res_bind_Inr_iff split: if_splits)
    have "latest_inv cb conv latest st (replay cb changed st)"
      unfolding replay_def
      by (rule collapse_rows_inv[where n = 0 and l = "[]", OF row_without_old_inv[OF su _ None], simplified,
            OF _ _ _ l latest_inv_start])
    then show ?thesis using inj m by blast
  next
    case (Some old)
    let ?f = "\<lambda>e latest. res_bind (row_events cb (\<lambda>row. conv (key_row (key_columns cb) row))
        (\<lambda>row. conv (key_row (rb_columns old) row)) e)
      (\<lambda>evs. res_fold (apply_collapsed_event (cb_primary_key_indexes cb)) evs latest)"
    obtain latest where l: "res_fold ?f (enumerate 0 changed) [] = Inr latest"
      and m: "materialize_runs ar cb (sort_key final_position (map snd latest)) = Inr runs"
      using runs conv Some
      by (auto simp: collapsed_runs_with_changed_columns_def collapsed_rows_with_old_values_def Let_def
          res_bind_Inr_iff split: if_splits)
    have "latest_inv cb conv l' st (fold write_row (source_row_writes cb changed row) s)"
      if "row < length changed" "?f (row, changed ! row) l = Inr l'" "latest_inv cb conv l st s" for row l l' s
      using that row_events_inv[OF su that(1) Some] by (auto simp: res_bind_Inr_iff)
    then have "latest_inv cb conv latest st (replay cb changed st)"
      unfolding replay_def
      by (rule collapse_rows_inv[where n = 0 and l = "[]" and f = ?f]) (use l latest_inv_start in auto)
    then show ?thesis using inj m by blast
  qed
qed

lemma collapsed_runs_replay:
  fixes ar :: "('v, 'k) arrow"
  assumes laws: "arrow_laws ar" and wf: "changelog_wf cb" and ch: "changed_wf cb changed"
    and runs: "collapsed_runs_with_changed_columns ar cb changed = Inr runs"
  shows "apply_runs (cb_primary_keys cb) runs st = replay cb changed st"
    and "distinct (map (\<lambda>w. fst (snd w)) (concat (map (run_writes (cb_primary_keys cb)) runs)))"
proof -
  obtain conv :: "'v option list \<Rightarrow> 'k" and latest where inj: "inj_on conv {r. length r = length (cb_primary_key_indexes cb)}"
    and inv: "latest_inv cb conv latest st (replay cb changed st)"
    and m: "materialize_runs ar cb (sort_key final_position (map snd latest)) = Inr runs"
    using collapsed_runs_latest[OF assms] by blast
  let ?sel = "sort_key final_position (map snd latest)"
  have "row_ok cb c" if "(k, c) \<in> set latest" for k c
    using inv that by (auto simp: latest_inv_def)
  then have ok: "\<forall>c \<in> set ?sel. row_ok cb c" by auto
  note w = write_latest[OF inv inj, of ?sel]
  note mw = materialize_runs_writes[OF m ok laws wf]
  show "apply_runs (cb_primary_keys cb) runs st = replay cb changed st" using mw w(1) by simp
  show "distinct (map (\<lambda>w. fst (snd w)) (concat (map (run_writes (cb_primary_keys cb)) runs)))"
    unfolding mw[THEN conjunct2] by (rule w(2)) simp
qed

subsection \<open>Projected batches are well formed\<close>

lemma case_option_Inr:
  "(case x of None \<Rightarrow> Inl e | Some y \<Rightarrow> g y) = Inr j \<longleftrightarrow> (\<exists>y. x = Some y \<and> g y = Inr j)"
  by (cases x) auto

lemma lift_arrow_Inr: "lift_arrow r = Inr x \<longleftrightarrow> r = Some x"
  by (cases r) (auto simp: lift_arrow_def)

lemmas res_Inr_iffs = res_bind_Inr_iff res_map_Inr_iff case_option_Inr lift_arrow_Inr

lemma project_columns_stored:
  assumes laws: "arrow_laws ar" and wf: "rb_wf b" and pr: "project_columns ar b cols = Inr stored"
  shows "rb_wf stored \<and> map f_name (rb_schema stored) = map c_name cols \<and> rb_num_rows stored = rb_num_rows b"
proof -
  obtain ix where ix: "list_all2 (\<lambda>c i. index_of (rb_schema b) (c_name c) = Some i) cols ix"
    and p: "ar_project ar b ix = Some stored"
    using pr by (auto simp: project_columns_def res_Inr_iffs)
  have s: "rb_schema stored = map (\<lambda>i. rb_schema b ! i) ix" "rb_columns stored = map (\<lambda>i. rb_columns b ! i) ix"
    "rb_num_rows stored = rb_num_rows b" "\<forall>i \<in> set ix. i < length (rb_schema b)"
    using laws p unfolding arrow_laws_def by blast+
  have "f_name (rb_schema b ! i) = c_name c" if "index_of (rb_schema b) (c_name c) = Some i" for c i
    using position_of_Some[OF that[unfolded index_of_def]] by auto
  then have "list_all2 (\<lambda>c i. f_name (rb_schema b ! i) = c_name c) cols ix"
    by (rule list.rel_mono_strong[OF ix])
  then have "map f_name (rb_schema stored) = map c_name cols"
    unfolding s(1) by (auto simp: list_all2_conv_all_nth list_eq_iff_nth_eq)
  then show ?thesis using s wf by (auto simp: rb_wf_def)
qed

lemma parse_row_changed:
  assumes "parse_row ops explicit offsets masks stored user row = Inr (op, version, changed)"
  shows "length changed = length stored \<and> (op = Create \<or> op = SnapshotRead \<longrightarrow> list_all id changed)"
  using assms
  by (auto simp: parse_row_def row_changed_def res_bind_Inr_iff split: option.splits if_splits sum.splits)

lemma old_primary_key_batch_wf:
  assumes laws: "arrow_laws ar" and wf: "rb_wf (sb_batch b)" and pks: "pk_columns \<noteq> []"
    and ob: "old_primary_key_batch ar d b pk_columns = Inr (Some old)"
  shows "rb_wf old \<and> length (rb_columns old) = length pk_columns \<and>
    unat (rb_num_rows old) = unat (rb_num_rows (sb_batch b))"
proof -
  let ?om = "if old_column_map c_old_value_of d = [] then old_column_map c_old_key_of d else old_column_map c_old_value_of d"
  obtain ix flds where ix: "list_all2 (\<lambda>key i. \<exists>oc. bt_get ?om (c_name key) = Some oc \<and>
      index_of (rb_schema (sb_batch b)) (c_name oc) = Some i) pk_columns ix"
    and tn: "ar_try_new ar flds (map (\<lambda>i. rb_columns (sb_batch b) ! i) ix) = Some old"
    using ob by (auto simp: old_primary_key_batch_def Let_def res_Inr_iffs split: if_splits)
  have o: "rb_columns old = map (\<lambda>i. rb_columns (sb_batch b) ! i) ix" "rb_wf old"
    using laws tn unfolding arrow_laws_def by blast+
  have len: "length ix = length pk_columns" using ix by (auto dest: list_all2_lengthD)
  have lt: "i < length (rb_columns (sb_batch b))" if i: "i \<in> set ix" for i
  proof -
    obtain k where "k < length ix" "ix ! k = i" using i by (auto simp: in_set_conv_nth)
    then obtain n where "index_of (rb_schema (sb_batch b)) n = Some i"
      using list_all2_nthD2[OF ix, of k] by auto
    then show ?thesis
      using position_of_Some[of n "map f_name (rb_schema (sb_batch b))" i] wf by (simp add: index_of_def rb_wf_def)
  qed
  obtain i where i: "i \<in> set ix" using len pks by (cases ix) auto
  then have "rb_columns (sb_batch b) ! i \<in> set (rb_columns old)" by (simp add: o)
  then have "length (rb_columns (sb_batch b) ! i) = unat (rb_num_rows old)" using o(2) by (simp add: rb_wf_def)
  then show ?thesis using o len lt[OF i] wf by (auto simp: rb_wf_def)
qed

lemma full_image_operations:
  assumes "list_all2 (\<lambda>e op. full_image_operation stored pks changed old e = Inr op) (enumerate 0 ops) ops'"
    and "row < length ops" "ops' ! row = Create \<or> ops' ! row = SnapshotRead"
  shows "ops ! row = ops' ! row \<or> list_all id (changed ! row)"
proof -
  have "full_image_operation stored pks changed old (row, ops ! row) = Inr (ops' ! row)"
    using assms(1,2) by (auto simp: list_all2_conv_all_nth nth_enumerate_eq)
  then show ?thesis by (auto simp: full_image_operation_def split: if_splits option.splits)
qed

lemma project_changelog_wf:
  assumes laws: "arrow_laws ar" and wf: "rb_wf (sb_batch b)" and st: "rb_wf stored"
    and nm: "map f_name (rb_schema stored) = map c_name (d_stored_schema d)"
    and rows: "rb_num_rows stored = rb_num_rows (sb_batch b)"
    and dist: "distinct (map c_name (d_stored_schema d))"
    and pc: "project_changelog ar d b stored ops = Inr cb"
  shows "changelog_wf cb \<and> changed_wf cb (cb_changed_columns cb)"
proof -
  let ?n = "unat (rb_num_rows (sb_batch b))" and ?s = "d_stored_schema d"
  let ?pks = "filter (\<lambda>i. c_primary_key (?s ! i)) [0 ..< length ?s]"
  let ?user = "map c_name (filter (is_current (map ds_name (d_system_columns d))) (d_incoming_schema d))"
  let ?ch = "map (\<lambda>p. snd (snd p))"
  have ne: "?pks \<noteq> []"
    using pc by (auto simp: project_changelog_def Let_def res_bind_Inr_iff split: if_splits)
  obtain explicit offsets masks parsed old operations us where
    r: "res_map (parse_row ops explicit offsets masks ?s ?user) [0 ..< ?n] = Inr parsed"
      "res_map (check_key_column stored (?ch parsed)) ?pks = Inr us"
      "(if d_update_policy d = FullImageUpsert
        then res_map (full_image_operation stored ?pks (?ch parsed) old) (enumerate 0 (map fst parsed))
        else Inr (map fst parsed)) = Inr operations"
    and old: "old_primary_key_batch ar d b (map (\<lambda>i. ?s ! i) ?pks) = Inr old"
    and cb: "cb = \<lparr>cb_rows = stored, cb_operations = operations, cb_primary_key_indexes = ?pks,
               cb_primary_keys = map (\<lambda>i. f_name (rb_schema stored ! i)) ?pks,
               cb_primary_key_columns = map (\<lambda>i. ?s ! i) ?pks, cb_stored_columns = ?s,
               cb_source_versions = map (\<lambda>p. fst (snd p)) parsed, cb_changed_columns = ?ch parsed,
               cb_old_primary_keys = old\<rparr>"
    using pc unfolding project_changelog_def Let_def sb_rows_def if_not_P[OF ne] res_bind_Inr_iff sum.inject
    by blast
  note parsed = r(1)[unfolded res_map_Inr_iff] and keys = r(2)[unfolded res_map_Inr_iff]
  have oper: "operations = map fst parsed \<or>
      list_all2 (\<lambda>e op. full_image_operation stored ?pks (?ch parsed) old e = Inr op)
        (enumerate 0 (map fst parsed)) operations"
    using r(3) by (auto simp: res_map_Inr_iff split: if_splits)
  have "length parsed = ?n" using list_all2_lengthD[OF parsed] by simp
  moreover have "length operations = length parsed"
    using oper by (elim disjE) (auto dest!: list_all2_lengthD)
  ultimately have lens: "length parsed = ?n" "length operations = ?n" "length (rb_schema stored) = length ?s"
    using map_eq_imp_length_eq[OF nm] by auto
  have row: "length (snd (snd (parsed ! row))) = length ?s \<and>
      (fst (parsed ! row) = Create \<or> fst (parsed ! row) = SnapshotRead \<longrightarrow> list_all id (snd (snd (parsed ! row))))"
    if "row < ?n" for row
    using parsed that parse_row_changed[of ops explicit offsets masks ?s ?user row]
    by (auto simp: list_all2_conv_all_nth lens(1)) (metis prod.collapse)+
  have key: "snd (snd (parsed ! row)) ! i" if rw: "row < ?n" and pk: "i \<in> set ?pks" for row i
  proof -
    have "check_key_column stored (map (\<lambda>p. snd (snd p)) parsed) i = Inr ()"
    proof -
      obtain k where "k < length ?pks" "?pks ! k = i" using pk unfolding in_set_conv_nth by blast
      then show ?thesis using list_all2_nthD[OF keys, where p = k] by auto
    qed
    then show ?thesis
      using rw lens(1)
      by (auto simp: check_key_column_def find_None_iff in_set_enumerate_eq split: if_splits option.splits)
  qed
  have created: "list_all id (snd (snd (parsed ! row)))"
    if "row < ?n" "operations ! row = Create \<or> operations ! row = SnapshotRead" for row
    using oper
  proof
    assume "operations = map fst parsed"
    then show ?thesis using row[OF that(1)] that lens(1) by auto
  next
    assume "list_all2 (\<lambda>e op. full_image_operation stored ?pks (map (\<lambda>p. snd (snd p)) parsed) old e = Inr op)
        (enumerate 0 (map fst parsed)) operations"
    from full_image_operations[OF this, of row] show ?thesis using row[OF that(1)] that lens(1) by auto
  qed
  have oldwf: "rb_wf ob \<and> length (rb_columns ob) = length ?pks \<and> unat (rb_num_rows ob) = ?n" if "old = Some ob" for ob
    using old_primary_key_batch_wf[OF laws wf, of "map (\<lambda>i. ?s ! i) ?pks" d ob] old ne that by simp
  have "f_name (rb_schema stored ! x) = c_name (?s ! x)" if "x < length ?s" for x
    using nm lens(3) that by (metis nth_map)
  then have "changelog_wf cb"
    unfolding changelog_wf_def names_def cb
    using st nm rows dist ne lens oldwf by (auto simp: rb_wf_def)
  moreover have "changed_wf cb (cb_changed_columns cb)"
    unfolding changed_wf_def names_def cb
    using row key created lens rows by auto
  ultimately show ?thesis by blast
qed

lemma project_sink_batch_changelog:
  assumes laws: "arrow_laws ar" and wf: "rb_wf (sb_batch b)"
    and pr: "project_sink_batch ar disc b = Inr (Changelog cb)"
    and dist: "distinct (map c_name (cb_stored_columns cb))"
  shows "changelog_wf cb \<and> changed_wf cb (cb_changed_columns cb)"
proof -
  obtain d where v: "validate_batch_against_discovery disc b = Inr d"
    using pr by (auto simp: project_sink_batch_def split: sum.splits)
  obtain oc where oc: "sys_get (sb_system_columns b) ChangeOperation = Some oc"
    using pr v by (cases "sys_get (sb_system_columns b) ChangeOperation")
      (auto simp: project_sink_batch_def res_bind_Inr_iff)
  obtain ops stored where st: "project_columns ar (sb_batch b) (d_stored_schema d) = Inr stored"
    and pc: "project_changelog ar d b stored ops = Inr cb"
    using pr v oc by (auto simp: project_sink_batch_def res_bind_Inr_iff case_option_Inr split: if_splits)
  have "cb_stored_columns cb = d_stored_schema d"
    using pc by (auto simp: project_changelog_def Let_def res_bind_Inr_iff split: if_splits)
  then show ?thesis
    using project_changelog_wf[OF laws wf _ _ _ _ pc] project_columns_stored[OF laws wf st] dist by simp
qed

subsection \<open>Properties\<close>

text \<open>
  C22 (collapsing is replaying). For a changelog that passed the projection of a sink batch, applying
  the collapsed runs to any table state gives exactly the state that applying the source rows one by
  one gives: creates and snapshot rows replace, updates overwrite the columns they carry, deletes
  remove, and a key change deletes the old key and creates the new one. No two writes of the runs
  have the same key, so a sink may apply the rows of the runs in any order.
\<close>

theorem collapsed_runs_are_replay:
  assumes "arrow_laws ar" "rb_wf (sb_batch b)"
    and "project_sink_batch ar disc b = Inr (Changelog cb)" "distinct (map c_name (cb_stored_columns cb))"
    and "collapsed_runs ar cb = Inr runs"
  shows "apply_runs (cb_primary_keys cb) runs st = replay cb (cb_changed_columns cb) st \<and>
    distinct (map (\<lambda>w. fst (snd w)) (concat (map (run_writes (cb_primary_keys cb)) runs)))"
proof -
  have "changelog_wf cb" "changed_wf cb (cb_changed_columns cb)"
    using project_sink_batch_changelog[OF assms(1-4)] by auto
  from collapsed_runs_replay[OF assms(1) this, of runs] show ?thesis
    using assms(5) by (simp add: collapsed_runs_def)
qed

text \<open>A list-based Arrow and a batch with a create, a partial update of the same key and a delete.\<close>

definition list_arrow :: "(string, string option list) arrow" where
  "list_arrow =
     \<lparr>ar_row_converter = (\<lambda>_. Some id),
      ar_take = (\<lambda>xs is. if list_all (\<lambda>i. i < length xs) is then Some (map (\<lambda>i. xs ! i) is) else None),
      ar_concat = (\<lambda>xs ys. Some (xs @ ys)),
      ar_project = (\<lambda>b is. if list_all (\<lambda>i. i < length (rb_schema b)) is
                    then Some \<lparr>rb_schema = map (\<lambda>i. rb_schema b ! i) is, rb_num_rows = rb_num_rows b,
                               rb_columns = map (\<lambda>i. rb_columns b ! i) is\<rparr> else None),
      ar_try_new = (\<lambda>flds cs. case cs of
                      [] \<Rightarrow> None
                    | c # _ \<Rightarrow>
                        let b = \<lparr>rb_schema = flds, rb_num_rows = of_nat (length c), rb_columns = cs\<rparr>
                        in if length cs = length flds \<and> list_all (\<lambda>c. length c = unat (rb_num_rows b)) cs
                           then Some b else None),
      ar_string = id, ar_i64 = (\<lambda>s. case parse_usize s of None \<Rightarrow> 0 | Some n \<Rightarrow> n),
      ar_u64 = (\<lambda>s. case parse_usize s of None \<Rightarrow> 0 | Some n \<Rightarrow> n), ar_binary = map (\<lambda>c. of_nat (of_char c))\<rparr>"

lemma list_arrow_laws: "arrow_laws list_arrow"
  by (auto simp: arrow_laws_def list_arrow_def rb_wf_def list_all_iff Let_def split: if_splits list.splits)

definition example_incoming :: dataset_schema where
  "example_incoming =
     [with_constraints True False None (schema_column_new ''id'' Utf8 False), schema_column_new ''v'' Utf8 True,
      schema_column_new ''op'' Utf8 False, schema_column_new ''lsn'' Int64 False,
      schema_column_new ''mask'' Binary False]"

definition example_events_batch :: "string sink_batch" where
  "example_events_batch =
     \<lparr>sb_schema = example_incoming, sb_namespace = None, sb_table = ''t'', sb_is_dlq = False,
      sb_batch =
        \<lparr>rb_schema = map (\<lambda>c. source_user_field c False) example_incoming, rb_num_rows = 3,
         rb_columns =
           [[Some ''a'', Some ''a'', Some ''b''], [Some ''x'', Some ''y'', None],
            [Some ''c'', Some ''u'', Some ''d''], [Some ''1'', Some ''2'', Some ''3''],
            [Some [CHR 0x03], Some [CHR 0x03], Some [CHR 0x01]]]\<rparr>,
      sb_byte_size = 0, sb_memory = 0,
      sb_system_columns =
        [\<lparr>sc_kind = ChangeOperation, sc_index = 2, sc_name = ''op''\<rparr>,
         \<lparr>sc_kind = Offset, sc_index = 3, sc_name = ''lsn''\<rparr>,
         \<lparr>sc_kind = ChangedColumns, sc_index = 4, sc_name = ''mask''\<rparr>]\<rparr>"

definition example_runtime_discovery :: delivery_discovery where
  "example_runtime_discovery =
     \<lparr>dd_source_name = ''s'', dd_source_topology = DynamicWorkerLanes, dd_schema_origin = ParserRuntime,
      dd_keep_system_columns = False, dd_datasets = []\<rparr>"

definition example_projection :: "string changelog_batch option" where
  "example_projection =
     (case project_sink_batch list_arrow example_runtime_discovery example_events_batch of
        Inr (Changelog cb) \<Rightarrow> Some cb
      | _ \<Rightarrow> None)"

lemma example_projection_Some:
  "map_option (\<lambda>cb. (cb_operations cb, distinct (map c_name (cb_stored_columns cb)),
       map (\<lambda>r. (cr_operation r, rb_columns (cr_batch r))) (case collapsed_runs list_arrow cb of Inr rs \<Rightarrow> rs | Inl _ \<Rightarrow> [])))
     example_projection =
   Some ([Create, Update, Delete], True,
     [(Create, [[Some ''a''], [Some ''y'']]), (Delete, [[Some ''b'']])])"
  by code_simp

theorem collapsed_runs_are_replay_witness:
  "\<exists>cb runs. example_projection = Some cb \<and> collapsed_runs list_arrow cb = Inr runs \<and> length runs = 2 \<and>
     apply_runs (cb_primary_keys cb) runs Map.empty = replay cb (cb_changed_columns cb) Map.empty"
proof -
  have "map_option (\<lambda>cb. (distinct (map c_name (cb_stored_columns cb)),
      case collapsed_runs list_arrow cb of Inr rs \<Rightarrow> Some (length rs) | Inl _ \<Rightarrow> None)) example_projection =
    Some (True, Some 2)"
    by code_simp
  then obtain cb where cb: "example_projection = Some cb" "distinct (map c_name (cb_stored_columns cb))"
    "(case collapsed_runs list_arrow cb of Inr rs \<Rightarrow> Some (length rs) | Inl _ \<Rightarrow> None) = Some 2"
    by auto
  then obtain runs where runs: "collapsed_runs list_arrow cb = Inr runs" "length runs = 2"
    by (auto split: sum.splits)
  have pr: "project_sink_batch list_arrow example_runtime_discovery example_events_batch = Inr (Changelog cb)"
    using cb(1) by (auto simp: example_projection_def split: sum.splits projected_sink_batch.splits)
  have "rb_wf (sb_batch example_events_batch)"
    by (simp add: rb_wf_def example_events_batch_def example_incoming_def)
  from collapsed_runs_are_replay[OF list_arrow_laws this pr cb(2) runs(1), of Map.empty]
  show ?thesis using cb(1) runs by blast
qed

end
