(* ===== verification/Record_Batches.thy ===== *)
theory Record_Batches
  imports Changelog
begin

section \<open>Compacting and splitting record batches\<close>

text \<open>
  \<^verbatim>\<open>transferia-core/src/data/record_batch.rs\<close>: batches that retain much larger buffers than they show are
  copied, and large batches are split at a row limit. Arrow's memory accounting is a parameter
  (\<open>mem\<close>: retained bytes of a batch, visible bytes of a column), its kernels are those of \<open>arrow\<close>.
\<close>

record 'v arrow_memory =
  am_batch :: "'v record_batch \<Rightarrow> usize"
  am_slice :: "'v option list \<Rightarrow> usize option"

definition MIN_COMPACTION_SAVINGS_BYTES :: usize where
  "MIN_COMPACTION_SAVINGS_BYTES = 1024 * 1024"

datatype batch_error = Row_limit_zero | Kernel_failed

definition lift_kernel :: "'a option \<Rightarrow> (batch_error, 'a) res" where
  "lift_kernel r = (case r of None \<Rightarrow> Inl Kernel_failed | Some x \<Rightarrow> Inr x)"

definition visible_step :: "'v arrow_memory \<Rightarrow> 'v option list \<Rightarrow> usize \<Rightarrow> (batch_error, usize) res" where
  "visible_step mem column bytes =
     (case am_slice mem column of None \<Rightarrow> Inl Kernel_failed | Some n \<Rightarrow> Inr (saturating_add bytes n))"

definition materially_overallocated :: "'v arrow_memory \<Rightarrow> 'v record_batch \<Rightarrow> (batch_error, bool) res" where
  "materially_overallocated mem b =
     (let retained = am_batch mem b
      in res_bind (res_fold (visible_step mem) (rb_columns b) 0) (\<lambda>visible.
         Inr (MIN_COMPACTION_SAVINGS_BYTES < saturating_sub retained visible \<and>
              saturating_add visible (visible div 4) < retained)))"

definition materialize_range ::
  "('v, 'k) arrow \<Rightarrow> 'v record_batch \<Rightarrow> nat \<Rightarrow> nat \<Rightarrow> (batch_error, 'v record_batch) res" where
  "materialize_range ar b offset rows =
     res_bind (res_map (\<lambda>c. lift_kernel (ar_take ar c [offset ..< offset + rows])) (rb_columns b)) (\<lambda>columns.
     lift_kernel (ar_try_new ar (rb_schema b) columns))"

definition compact_record_batch ::
  "('v, 'k) arrow \<Rightarrow> 'v arrow_memory \<Rightarrow> 'v record_batch \<Rightarrow> (batch_error, 'v record_batch) res" where
  "compact_record_batch ar mem b =
     (if rb_num_rows b = 0 then Inr b
      else res_bind (materially_overallocated mem b) (\<lambda>over.
           if over then materialize_range ar b 0 (unat (rb_num_rows b)) else Inr b))"

function chunk_loop ::
  "('v, 'k) arrow \<Rightarrow> 'v record_batch \<Rightarrow> nat \<Rightarrow> nat \<Rightarrow> (batch_error, 'v record_batch list) res" where
  "chunk_loop ar b max_rows offset =
     (if offset < unat (rb_num_rows b) \<and> 0 < max_rows
      then let rows = min max_rows (unat (rb_num_rows b) - offset)
           in res_bind (materialize_range ar b offset rows) (\<lambda>c.
              res_bind (chunk_loop ar b max_rows (offset + rows)) (\<lambda>cs. Inr (c # cs)))
      else Inr [])"
  by pat_completeness auto
termination
  by (relation "measure (\<lambda>(ar, b, m, offset). unat (rb_num_rows b) - offset)") auto

declare chunk_loop.simps [simp del]

definition compact_record_batch_chunks ::
  "('v, 'k) arrow \<Rightarrow> 'v arrow_memory \<Rightarrow> 'v record_batch \<Rightarrow> usize \<Rightarrow> (batch_error, 'v record_batch list) res" where
  "compact_record_batch_chunks ar mem b max_rows =
     (if \<not> 0 < max_rows then Inl Row_limit_zero
      else if rb_num_rows b \<le> max_rows
           then res_bind (compact_record_batch ar mem b) (\<lambda>c. Inr [c])
      else chunk_loop ar b (unat max_rows) 0)"

subsection \<open>Ranges\<close>

lemma lift_kernel_Inr: "lift_kernel r = Inr x \<longleftrightarrow> r = Some x"
  by (cases r) (auto simp: lift_kernel_def)

lemma materialize_range_rows:
  assumes laws: "arrow_laws ar" and wf: "rb_wf b" and ne: "rb_columns b \<noteq> []"
    and rows: "offset + rows \<le> unat (rb_num_rows b)" and m: "materialize_range ar b offset rows = Inr c"
  shows "rb_schema c = rb_schema b \<and> rb_wf c \<and> unat (rb_num_rows c) = rows \<and>
    rb_columns c = map (\<lambda>col. take rows (drop offset col)) (rb_columns b)"
proof -
  obtain cols where cols: "list_all2 (\<lambda>x y. ar_take ar x [offset ..< offset + rows] = Some y) (rb_columns b) cols"
    and tn: "ar_try_new ar (rb_schema b) cols = Some c"
    using m by (auto simp: materialize_range_def res_bind_Inr_iff res_map_Inr_iff lift_kernel_Inr)
  have c: "rb_schema c = rb_schema b" "rb_columns c = cols" "rb_wf c"
    using laws tn unfolding arrow_laws_def by blast+
  have tk: "y = take rows (drop offset x)"
    if "x \<in> set (rb_columns b)" "ar_take ar x [offset ..< offset + rows] = Some y" for x y
  proof -
    have "length x = unat (rb_num_rows b)" using wf that(1) by (simp add: rb_wf_def)
    moreover have "y = map (\<lambda>i. x ! i) [offset ..< offset + rows]"
      using laws that(2) unfolding arrow_laws_def by blast
    ultimately show ?thesis using rows by (auto intro!: nth_equalityI)
  qed
  have "list_all2 (\<lambda>x y. y = take rows (drop offset x)) (rb_columns b) cols"
    by (rule list.rel_mono_strong[OF cols]) (rule tk)
  then have eq: "cols = map (\<lambda>col. take rows (drop offset col)) (rb_columns b)"
    by (simp add: list_all2_conv_all_nth list_eq_iff_nth_eq)
  obtain x where x: "x \<in> set (rb_columns b)" using ne by (cases "rb_columns b") auto
  then have "length (take rows (drop offset x)) = unat (rb_num_rows c)"
    using c eq by (auto simp: rb_wf_def)
  moreover have "length x = unat (rb_num_rows b)" using wf x by (simp add: rb_wf_def)
  ultimately have "unat (rb_num_rows c) = rows" using rows by simp
  then show ?thesis using c eq by simp
qed

lemma chunk_loop_rows:
  assumes "arrow_laws ar" "rb_wf b" "rb_columns b \<noteq> []" "0 < max_rows"
  shows "chunk_loop ar b max_rows offset = Inr cs \<Longrightarrow> offset \<le> unat (rb_num_rows b) \<Longrightarrow>
    (\<forall>c \<in> set cs. rb_schema c = rb_schema b \<and> rb_wf c \<and> 0 < unat (rb_num_rows c) \<and> unat (rb_num_rows c) \<le> max_rows) \<and>
    (\<forall>i < length (rb_columns b). concat (map (\<lambda>c. rb_columns c ! i) cs) = drop offset (rb_columns b ! i))"
proof (induction "unat (rb_num_rows b) - offset" arbitrary: offset cs rule: less_induct)
  case less
  let ?n = "unat (rb_num_rows b)" and ?rows = "min max_rows (unat (rb_num_rows b) - offset)"
  show ?case
  proof (cases "offset < ?n")
    case True
    then obtain c rest where c: "materialize_range ar b offset ?rows = Inr c"
      and rest: "chunk_loop ar b max_rows (offset + ?rows) = Inr rest" and cs: "cs = c # rest"
      using less.prems(1) assms(4)
      by (subst (asm) chunk_loop.simps) (auto simp: Let_def res_bind_Inr_iff)
    have le: "offset + ?rows \<le> ?n" "0 < ?rows" using True assms(4) by auto
    note m = materialize_range_rows[OF assms(1-3) le(1) c]
    have IH: "(\<forall>c \<in> set rest. rb_schema c = rb_schema b \<and> rb_wf c \<and> 0 < unat (rb_num_rows c) \<and> unat (rb_num_rows c) \<le> max_rows) \<and>
      (\<forall>i < length (rb_columns b). concat (map (\<lambda>c. rb_columns c ! i) rest) = drop (offset + ?rows) (rb_columns b ! i))"
      by (rule less.hyps[OF _ rest]) (use True le in auto)
    have split: "take ?rows (drop offset x) @ drop (offset + ?rows) x = drop offset x" for x :: "'a option list"
      by (metis add.commute append_take_drop_id drop_drop)
    have "rb_columns c ! i = take ?rows (drop offset (rb_columns b ! i))" if "i < length (rb_columns b)" for i
      using m that by simp
    then have cat: "\<forall>i < length (rb_columns b). concat (map (\<lambda>c. rb_columns c ! i) cs) = drop offset (rb_columns b ! i)"
      unfolding cs using IH[THEN conjunct2] split by simp
    have "unat (rb_num_rows c) \<le> max_rows" "0 < unat (rb_num_rows c)" "rb_schema c = rb_schema b" "rb_wf c"
      using m le(2) by simp_all
    then have "\<forall>c \<in> set cs. rb_schema c = rb_schema b \<and> rb_wf c \<and> 0 < unat (rb_num_rows c) \<and> unat (rb_num_rows c) \<le> max_rows"
      unfolding cs using IH[THEN conjunct1] by simp
    then show ?thesis using cat by blast
  next
    case False
    then have "cs = []" using less.prems(1) by (simp add: chunk_loop.simps[of ar b max_rows offset])
    moreover have "drop offset (rb_columns b ! i) = []" if "i < length (rb_columns b)" for i
      using assms(2) that False by (simp add: rb_wf_def)
    ultimately show ?thesis by simp
  qed
qed

lemma compact_record_batch_rows:
  assumes laws: "arrow_laws ar" and wf: "rb_wf b" and ne: "rb_columns b \<noteq> []"
    and c: "compact_record_batch ar mem b = Inr c"
  shows "rb_schema c = rb_schema b \<and> rb_wf c \<and> rb_num_rows c = rb_num_rows b \<and> rb_columns c = rb_columns b"
proof -
  have "take (unat (rb_num_rows b)) x = x" if "x \<in> set (rb_columns b)" for x
    using wf that by (simp add: rb_wf_def)
  then have same: "map (take (unat (rb_num_rows b))) (rb_columns b) = rb_columns b" by (simp add: map_idI)
  have "c = b \<or> materialize_range ar b 0 (unat (rb_num_rows b)) = Inr c"
    using c unfolding compact_record_batch_def res_bind_def
    by (cases "rb_num_rows b = 0"; cases "materially_overallocated mem b") (simp_all split: if_splits)
  then show ?thesis
  proof
    assume "materialize_range ar b 0 (unat (rb_num_rows b)) = Inr c"
    note m = materialize_range_rows[OF laws wf ne _ this]
    have "unat (rb_num_rows c) = unat (rb_num_rows b)" using m by simp
    then show ?thesis using m same by (simp add: word_unat_eq_iff)
  qed (simp add: wf)
qed

subsection \<open>Property\<close>

text \<open>
  C24 (splitting loses nothing). Splitting a well-formed batch at a row limit gives batches of the same
  schema within the limit whose columns, put one after the other, are the columns of the original:
  every row exactly once and in order, whether or not buffers were compacted.
\<close>

theorem chunks_partition_batch:
  assumes "arrow_laws ar" "rb_wf b" "rb_columns b \<noteq> []"
    and "compact_record_batch_chunks ar mem b max_rows = Inr cs"
  shows "(\<forall>c \<in> set cs. rb_schema c = rb_schema b \<and> rb_wf c \<and> rb_num_rows c \<le> max_rows) \<and>
    (\<forall>i < length (rb_columns b). concat (map (\<lambda>c. rb_columns c ! i) cs) = rb_columns b ! i)"
proof (cases "rb_num_rows b \<le> max_rows")
  case True
  then obtain c where "compact_record_batch ar mem b = Inr c" "cs = [c]"
    using assms(4) by (auto simp: compact_record_batch_chunks_def res_bind_Inr_iff split: if_splits)
  then show ?thesis using compact_record_batch_rows[OF assms(1-3)] True by fastforce
next
  case False
  then have "chunk_loop ar b (unat max_rows) 0 = Inr cs" "0 < unat max_rows"
    using assms(4) by (auto simp: compact_record_batch_chunks_def word_less_nat_alt split: if_splits)
  from chunk_loop_rows[OF assms(1-3) this(2,1)] show ?thesis by (auto simp: word_le_nat_alt)
qed

definition example_memory :: "string arrow_memory" where
  "example_memory = \<lparr>am_batch = (\<lambda>_. 4194304), am_slice = (\<lambda>_. Some 8)\<rparr>"

theorem chunks_partition_batch_witness:
  "\<exists>cs. compact_record_batch_chunks list_arrow example_memory (sb_batch example_events_batch) 2 = Inr cs \<and>
     length cs = 2 \<and> concat (map (\<lambda>c. rb_columns c ! 0) cs) = [Some ''a'', Some ''a'', Some ''b'']"
proof -
  let ?b = "sb_batch example_events_batch"
  have "(case compact_record_batch_chunks list_arrow example_memory ?b 2 of
      Inr cs \<Rightarrow> Some (length cs) | Inl _ \<Rightarrow> None) = Some 2"
    by code_simp
  then obtain cs where cs: "compact_record_batch_chunks list_arrow example_memory ?b 2 = Inr cs" "length cs = 2"
    by (auto split: sum.splits)
  have b: "rb_wf ?b" "rb_columns ?b \<noteq> []" "rb_columns ?b ! 0 = [Some ''a'', Some ''a'', Some ''b'']"
    by (simp_all add: rb_wf_def example_events_batch_def example_incoming_def)
  from chunks_partition_batch[OF list_arrow_laws b(1,2) cs(1)] show ?thesis
    using cs b by auto
qed

end
