(* ===== verification/Semantics.thy ===== *)
theory Semantics
  imports Delivery_Discovery
begin

section \<open>Delivery semantics of a source and sink pair\<close>

text \<open>
  The cross-connector rules of \<^verbatim>\<open>transferia-delivery-contracts/src/semantics.rs\<close>: endpoint
  capabilities, the rule that updates and deletes only reach sinks that apply them, and the report
  with its delivery guarantee and diagnostics. A diagnostic keeps its code, its severity, its
  configuration paths and the values the source formats into its explanation; the constant prose of
  explanations and remediations, which no code reads, is left out. The main results characterise
  the accepted configurations and those promised exactly once.
\<close>

subsection \<open>Endpoints\<close>

datatype delivery_type = BatchDelivery | StreamDelivery | BatchAndStreamDelivery

record source_delivery_modes =
  m_batch :: bool
  m_stream :: bool
  m_batch_and_stream :: bool

definition BATCH :: source_delivery_modes where
  "BATCH = \<lparr>m_batch = True, m_stream = False, m_batch_and_stream = False\<rparr>"
definition STREAM :: source_delivery_modes where
  "STREAM = \<lparr>m_batch = False, m_stream = True, m_batch_and_stream = False\<rparr>"
definition BATCH_AND_STREAM :: source_delivery_modes where
  "BATCH_AND_STREAM = \<lparr>m_batch = True, m_stream = True, m_batch_and_stream = True\<rparr>"
definition STREAM_AND_BATCH_AND_STREAM :: source_delivery_modes where
  "STREAM_AND_BATCH_AND_STREAM = \<lparr>m_batch = False, m_stream = True, m_batch_and_stream = True\<rparr>"

definition supports :: "source_delivery_modes \<Rightarrow> delivery_type \<Rightarrow> bool" where
  "supports m t =
     (case t of
        BatchDelivery \<Rightarrow> m_batch m
      | StreamDelivery \<Rightarrow> m_stream m
      | BatchAndStreamDelivery \<Rightarrow> m_batch_and_stream m)"

datatype source_behavior = AppendOnlyRows | FiniteAppendOnlyRows | ChangelogRows | BenchmarkDiscardRows

datatype record_semantics = AppendOnly | Changelog

record source_descriptor =
  s_behavior :: source_behavior
  s_delivery_modes :: source_delivery_modes

datatype ytsaurus_sink_mode = StaticTables | DynamicTables

record queue_sink_descriptor =
  q_changelog :: bool

datatype s3_partitioning = BySource | ByFields "string list" | ByRecordTime

record s3_descriptor =
  s3_partitioning :: s3_partitioning
  s3_record_time_rotation :: bool
  s3_wall_clock_rotation :: bool
  s3_object_layout_version :: u32

datatype endpoint_descriptor =
    Logbroker source_descriptor
  | Kafka source_descriptor
  | MySql source_descriptor
  | Postgres source_descriptor
  | YdbSource source_descriptor
  | YTsaurus source_descriptor
  | ClickHouseSource source_descriptor
  | OpenSearchSource source_descriptor
  | S3Source source_descriptor
  | IcebergSource source_descriptor
  | DataGenerator source_descriptor
  | MySqlSink
  | PostgresSink
  | YdbSink
  | YTsaurusSink ytsaurus_sink_mode
  | LogbrokerSink queue_sink_descriptor
  | KafkaSink queue_sink_descriptor
  | ClickHouse
  | OpenSearchSink
  | S3 s3_descriptor
  | IcebergSink
  | Discard

definition source_behavior_of :: "endpoint_descriptor \<Rightarrow> source_behavior option" where
  "source_behavior_of e =
     (case e of
        Logbroker s \<Rightarrow> Some (s_behavior s)
      | Kafka s \<Rightarrow> Some (s_behavior s)
      | MySql s \<Rightarrow> Some (s_behavior s)
      | Postgres s \<Rightarrow> Some (s_behavior s)
      | YdbSource s \<Rightarrow> Some (s_behavior s)
      | YTsaurus s \<Rightarrow> Some (s_behavior s)
      | ClickHouseSource s \<Rightarrow> Some (s_behavior s)
      | OpenSearchSource s \<Rightarrow> Some (s_behavior s)
      | S3Source s \<Rightarrow> Some (s_behavior s)
      | IcebergSource s \<Rightarrow> Some (s_behavior s)
      | DataGenerator s \<Rightarrow> Some (s_behavior s)
      | _ \<Rightarrow> None)"

definition supports_delivery_type :: "endpoint_descriptor \<Rightarrow> delivery_type \<Rightarrow> bool" where
  "supports_delivery_type e t =
     (case e of
        Logbroker s \<Rightarrow> supports (s_delivery_modes s) t
      | Kafka s \<Rightarrow> supports (s_delivery_modes s) t
      | MySql s \<Rightarrow> supports (s_delivery_modes s) t
      | Postgres s \<Rightarrow> supports (s_delivery_modes s) t
      | YdbSource s \<Rightarrow> supports (s_delivery_modes s) t
      | YTsaurus s \<Rightarrow> supports (s_delivery_modes s) t
      | ClickHouseSource s \<Rightarrow> supports (s_delivery_modes s) t
      | OpenSearchSource s \<Rightarrow> supports (s_delivery_modes s) t
      | S3Source s \<Rightarrow> supports (s_delivery_modes s) t
      | IcebergSource s \<Rightarrow> supports (s_delivery_modes s) t
      | DataGenerator s \<Rightarrow> supports (s_delivery_modes s) t
      | _ \<Rightarrow> False)"

definition record_semantics_of :: "endpoint_descriptor \<Rightarrow> record_semantics option" where
  "record_semantics_of e =
     (case source_behavior_of e of
        Some AppendOnlyRows \<Rightarrow> Some AppendOnly
      | Some FiniteAppendOnlyRows \<Rightarrow> Some AppendOnly
      | Some ChangelogRows \<Rightarrow> Some Changelog
      | Some BenchmarkDiscardRows \<Rightarrow> None
      | None \<Rightarrow> None)"

definition accepts_append_only :: "endpoint_descriptor \<Rightarrow> bool" where
  "accepts_append_only e =
     (case e of
        MySqlSink \<Rightarrow> True | PostgresSink \<Rightarrow> True | YdbSink \<Rightarrow> True | YTsaurusSink _ \<Rightarrow> True
      | LogbrokerSink _ \<Rightarrow> True | KafkaSink _ \<Rightarrow> True | ClickHouse \<Rightarrow> True | OpenSearchSink \<Rightarrow> True
      | S3 _ \<Rightarrow> True | IcebergSink \<Rightarrow> True | Discard \<Rightarrow> True
      | _ \<Rightarrow> False)"

definition accepts_changelog :: "endpoint_descriptor \<Rightarrow> bool" where
  "accepts_changelog e =
     (case e of
        MySqlSink \<Rightarrow> True | PostgresSink \<Rightarrow> True | YdbSink \<Rightarrow> True
      | YTsaurusSink mode \<Rightarrow> mode = DynamicTables
      | ClickHouse \<Rightarrow> True | IcebergSink \<Rightarrow> True | Discard \<Rightarrow> True
      | LogbrokerSink q \<Rightarrow> q_changelog q | KafkaSink q \<Rightarrow> q_changelog q
      | _ \<Rightarrow> False)"

definition accepts_record_semantics :: "endpoint_descriptor \<Rightarrow> record_semantics \<Rightarrow> bool" where
  "accepts_record_semantics e s =
     (case s of AppendOnly \<Rightarrow> accepts_append_only e | Changelog \<Rightarrow> accepts_changelog e)"

subsection \<open>Reports\<close>

datatype delivery_guarantee = ExactlyOnce | AtLeastOnce | NoDurability

datatype diagnostic_severity = Error | Info

datatype diagnostic_code =
    UnsupportedPipeline | UnsupportedRecordSemantics | InvalidDeliveryDiscovery
  | MissingSystemColumn | SystemColumnsNotProduced | UnknownPartitionField
  | NullablePartitionField | UnsupportedPartitionFieldType | WallClockRotationDisablesExactlyOnce
  | DeterministicS3Commit | DeterministicIcebergReplica | ClickHouseAtLeastOnce
  | OpenSearchAtLeastOnce | MySqlAtLeastOnce | PostgresAtLeastOnce | YdbAtLeastOnce
  | YTsaurusAtLeastOnce | IcebergAtLeastOnce | PqV1AtLeastOnce | KafkaAtLeastOnce
  | BenchmarkDiscard | BenchmarkSourceDiscard

text \<open>What an explanation is formatted from: nothing, or the values its format string names.\<close>

datatype explanation =
    Constant
  | About_semantics record_semantics
  | About_system_column string string
  | About_field string
  | About_field_type string data_type

record semantics_diagnostic =
  dg_code :: diagnostic_code
  dg_severity :: diagnostic_severity
  dg_config_paths :: "string list"
  dg_explanation :: explanation

record delivery_semantics_report =
  rp_guarantee :: delivery_guarantee
  rp_diagnostics :: "semantics_diagnostic list"

text \<open>The error of \<^verbatim>\<open>ensure_valid\<close> carries the code and explanation of each error diagnostic.\<close>

definition ensure_valid ::
  "delivery_semantics_report \<Rightarrow> ((diagnostic_code \<times> explanation) list, unit) res" where
  "ensure_valid r =
     (let errors = map (\<lambda>g. (dg_code g, dg_explanation g))
                     (filter (\<lambda>g. dg_severity g = Error) (rp_diagnostics r))
      in if errors = [] then Inr () else Inl errors)"

definition diagnostic_error :: "diagnostic_code \<Rightarrow> string list \<Rightarrow> explanation \<Rightarrow> semantics_diagnostic" where
  "diagnostic_error c paths ex =
     \<lparr>dg_code = c, dg_severity = Error, dg_config_paths = paths, dg_explanation = ex\<rparr>"

definition diagnostic_info :: "diagnostic_code \<Rightarrow> string list \<Rightarrow> semantics_diagnostic" where
  "diagnostic_info c paths =
     \<lparr>dg_code = c, dg_severity = Info, dg_config_paths = paths, dg_explanation = Constant\<rparr>"

definition validate_record_semantics ::
  "endpoint_descriptor \<Rightarrow> endpoint_descriptor \<Rightarrow> (record_semantics, unit) res" where
  "validate_record_semantics source sink =
     (case record_semantics_of source of
        Some s \<Rightarrow> if accepts_record_semantics sink s then Inr () else Inl s
      | None \<Rightarrow> Inr ())"

definition config_name :: "system_column_kind \<Rightarrow> string" where
  "config_name k =
     (case k of
        Topic \<Rightarrow> ''topic'' | Partition \<Rightarrow> ''partition'' | Offset \<Rightarrow> ''offset''
      | MessageIndex \<Rightarrow> ''message_index'' | WriteTimestampMs \<Rightarrow> ''write_timestamp_ms''
      | ChangeOperation \<Rightarrow> ''change_operation'' | ChangedColumns \<Rightarrow> ''changed_columns'')"

definition supported_partition_type :: "data_type \<Rightarrow> bool" where
  "supported_partition_type t =
     (case t of
        Utf8 \<Rightarrow> True | LargeUtf8 \<Rightarrow> True | Boolean \<Rightarrow> True
      | Int8 \<Rightarrow> True | Int16 \<Rightarrow> True | Int32 \<Rightarrow> True | Int64 \<Rightarrow> True
      | UInt8 \<Rightarrow> True | UInt16 \<Rightarrow> True | UInt32 \<Rightarrow> True | UInt64 \<Rightarrow> True
      | Date32 \<Rightarrow> True | Date64 \<Rightarrow> True | Timestamp _ _ \<Rightarrow> True
      | _ \<Rightarrow> False)"

definition require_system_column ::
  "discovered_dataset option \<Rightarrow> system_column_kind \<Rightarrow> semantics_diagnostic list" where
  "require_system_column ds k =
     (if (case ds of None \<Rightarrow> True | Some d \<Rightarrow> \<not> list_ex (\<lambda>s. ds_kind s = k) (d_system_columns d)) then
        [diagnostic_error MissingSystemColumn
           [''source.logbroker.parser.common.system_columns'', ''sink.s3'']
           (About_system_column (default_name k) (config_name k))]
      else [])"

definition stream_source_path :: "endpoint_descriptor \<Rightarrow> string \<Rightarrow> string" where
  "stream_source_path source f = ''source.logbroker.'' @ f"

definition partition_field_diagnostics :: "string \<Rightarrow> discovered_dataset \<Rightarrow> semantics_diagnostic list" where
  "partition_field_diagnostics f main =
     (let paths = [''sink.s3.partitioning.columns'', ''source.logbroker.parser.json_parser.columns'']
      in case find (\<lambda>c. c_name c = f) (d_incoming_schema main) of
           None \<Rightarrow> [diagnostic_error UnknownPartitionField paths (About_field f)]
         | Some c \<Rightarrow>
             if c_nullable c then [diagnostic_error NullablePartitionField paths (About_field f)]
             else if \<not> supported_partition_type (c_data_type c)
             then [diagnostic_error UnsupportedPartitionFieldType paths (About_field_type f (c_data_type c))]
             else [])"

definition REQUIRED_KINDS :: "system_column_kind list" where
  "REQUIRED_KINDS = [Topic, Partition, Offset, MessageIndex]"

definition s3_diagnostics :: "s3_descriptor \<Rightarrow> delivery_discovery \<Rightarrow> bool \<Rightarrow> semantics_diagnostic list" where
  "s3_diagnostics sink discovery keep_system_columns =
     (let mains = filter (\<lambda>d. d_role d = MainRole) (dd_datasets discovery);
          timestamps = concat (map (\<lambda>m. require_system_column (Some m) WriteTimestampMs) mains)
      in (if mains = [] then
            [diagnostic_error InvalidDeliveryDiscovery [''source.logbroker.parser''] Constant]
          else []) @
         concat (map (\<lambda>k. concat (map (\<lambda>m. require_system_column (Some m) k) mains)) REQUIRED_KINDS) @
         (if keep_system_columns \<and> list_ex (\<lambda>d. d_system_columns d = []) mains then
            [diagnostic_error SystemColumnsNotProduced
               [''source.logbroker.parser.common.system_columns''] Constant]
          else []) @
         (case s3_partitioning sink of
            ByFields fs \<Rightarrow> concat (map (\<lambda>f. concat (map (partition_field_diagnostics f) mains)) fs)
          | ByRecordTime \<Rightarrow> timestamps
          | BySource \<Rightarrow> []) @
         (if s3_record_time_rotation sink then timestamps else []))"

definition deterministic_paths :: "endpoint_descriptor \<Rightarrow> string list" where
  "deterministic_paths source =
     [stream_source_path source ''parser'', stream_source_path source ''topics'',
      stream_source_path source ''consumer_name'', ''middlewares'', ''sink.s3.bucket'',
      ''sink.s3.host'', ''sink.s3.port'', ''sink.s3.region'', ''sink.s3.prefix'',
      ''sink.s3.object_layout_version'', ''sink.s3.partitioning'', ''sink.s3.rotation'',
      ''sink.s3.buffering.max_epoch_buffers'', ''sink.s3.buffering.max_epoch_bytes'']"

definition s3_report ::
  "endpoint_descriptor \<Rightarrow> s3_descriptor \<Rightarrow> delivery_discovery \<Rightarrow> bool \<Rightarrow> delivery_semantics_report" where
  "s3_report source sink discovery keep_system_columns =
     (let diagnostics = s3_diagnostics sink discovery keep_system_columns
      in if \<not> (case source of Logbroker _ \<Rightarrow> True | _ \<Rightarrow> False) then
           \<lparr>rp_guarantee = AtLeastOnce,
            rp_diagnostics = diagnostics @ [diagnostic_info DeterministicS3Commit [''source'', ''sink.s3'']]\<rparr>
         else if s3_wall_clock_rotation sink then
           \<lparr>rp_guarantee = AtLeastOnce,
            rp_diagnostics = diagnostics @
              [diagnostic_info WallClockRotationDisablesExactlyOnce [''sink.s3.rotation.wall_clock_interval'']]\<rparr>
         else
           \<lparr>rp_guarantee = ExactlyOnce,
            rp_diagnostics = diagnostics @
              [diagnostic_info DeterministicS3Commit (deterministic_paths source)]\<rparr>)"

definition at_least_once :: "diagnostic_code \<Rightarrow> string \<Rightarrow> delivery_semantics_report" where
  "at_least_once c path = \<lparr>rp_guarantee = AtLeastOnce, rp_diagnostics = [diagnostic_info c [path]]\<rparr>"

definition changelog_database :: "endpoint_descriptor \<Rightarrow> bool" where
  "changelog_database e =
     (case e of
        MySql s \<Rightarrow> s_behavior s = ChangelogRows
      | Postgres s \<Rightarrow> s_behavior s = ChangelogRows
      | _ \<Rightarrow> False)"

definition iceberg_report :: "endpoint_descriptor \<Rightarrow> delivery_semantics_report" where
  "iceberg_report source =
     (if changelog_database source then
        \<lparr>rp_guarantee = ExactlyOnce,
         rp_diagnostics = [diagnostic_info DeterministicIcebergReplica [''source'', ''sink.iceberg'']]\<rparr>
      else at_least_once IcebergAtLeastOnce ''sink.iceberg'')"

definition no_durability :: "semantics_diagnostic \<Rightarrow> delivery_semantics_report" where
  "no_durability g = \<lparr>rp_guarantee = NoDurability, rp_diagnostics = [g]\<rparr>"

definition sink_report ::
  "endpoint_descriptor \<Rightarrow> endpoint_descriptor \<Rightarrow> delivery_discovery \<Rightarrow> bool \<Rightarrow> delivery_semantics_report" where
  "sink_report source sink discovery keep_system_columns =
     (case sink of
        ClickHouse \<Rightarrow> at_least_once ClickHouseAtLeastOnce ''sink.clickhouse''
      | OpenSearchSink \<Rightarrow> at_least_once OpenSearchAtLeastOnce ''sink.opensearch''
      | PostgresSink \<Rightarrow> at_least_once PostgresAtLeastOnce ''sink.postgres''
      | MySqlSink \<Rightarrow> at_least_once MySqlAtLeastOnce ''sink.mysql''
      | YdbSink \<Rightarrow> at_least_once YdbAtLeastOnce ''sink.ydb''
      | YTsaurusSink _ \<Rightarrow> at_least_once YTsaurusAtLeastOnce ''sink.ytsaurus''
      | IcebergSink \<Rightarrow> iceberg_report source
      | LogbrokerSink _ \<Rightarrow> at_least_once PqV1AtLeastOnce ''sink.logbroker''
      | KafkaSink _ \<Rightarrow> at_least_once KafkaAtLeastOnce ''sink.kafka''
      | S3 s \<Rightarrow> s3_report source s discovery keep_system_columns
      | _ \<Rightarrow> \<lparr>rp_guarantee = AtLeastOnce,
             rp_diagnostics = [diagnostic_error UnsupportedPipeline [''source'', ''sink''] Constant]\<rparr>)"

definition validate_pipeline ::
  "endpoint_descriptor \<Rightarrow> endpoint_descriptor \<Rightarrow> delivery_discovery \<Rightarrow> bool \<Rightarrow> delivery_semantics_report" where
  "validate_pipeline source sink discovery keep_system_columns =
     (let benchmark_source = (source_behavior_of source = Some BenchmarkDiscardRows)
      in if sink = Discard then
           no_durability
             (if benchmark_source
              then diagnostic_info BenchmarkDiscard [''source.parser.benchmark_discard'', ''sink.discard'']
              else diagnostic_info BenchmarkDiscard [''sink.discard''])
         else if benchmark_source then
           no_durability (diagnostic_error BenchmarkSourceDiscard [''source'', ''sink''] Constant)
         else case validate_record_semantics source sink of
           Inl s \<Rightarrow>
             no_durability
               (diagnostic_error UnsupportedRecordSemantics [''source'', ''sink''] (About_semantics s))
         | Inr _ \<Rightarrow> sink_report source sink discovery keep_system_columns)"

subsection \<open>What an accepted configuration means\<close>

text \<open>The system columns and partition fields an S3 sink needs of a main dataset.\<close>

definition produces :: "discovered_dataset \<Rightarrow> system_column_kind \<Rightarrow> bool" where
  "produces d k \<longleftrightarrow> k \<in> ds_kind ` set (d_system_columns d)"

definition partition_field_ok :: "discovered_dataset \<Rightarrow> string \<Rightarrow> bool" where
  "partition_field_ok d f \<longleftrightarrow>
     (\<exists>c. find (\<lambda>c. c_name c = f) (d_incoming_schema d) = Some c \<and> \<not> c_nullable c \<and>
          supported_partition_type (c_data_type c))"

definition s3_dataset_ok :: "s3_descriptor \<Rightarrow> discovered_dataset \<Rightarrow> bool" where
  "s3_dataset_ok s d \<longleftrightarrow>
     {Topic, Partition, Offset, MessageIndex} \<subseteq> ds_kind ` set (d_system_columns d) \<and>
     (s3_partitioning s = ByRecordTime \<or> s3_record_time_rotation s \<longrightarrow> produces d WriteTimestampMs) \<and>
     (\<forall>fs. s3_partitioning s = ByFields fs \<longrightarrow> (\<forall>f \<in> set fs. partition_field_ok d f))"

definition main_datasets :: "delivery_discovery \<Rightarrow> discovered_dataset set" where
  "main_datasets disc = {d \<in> set (dd_datasets disc). d_role d = MainRole}"

text \<open>A durable sink: one that stores what it acknowledges.\<close>

definition is_source :: "endpoint_descriptor \<Rightarrow> bool" where
  "is_source e \<longleftrightarrow> source_behavior_of e \<noteq> None"

lemma ensure_valid_iff:
  "ensure_valid r = Inr () \<longleftrightarrow> (\<forall>g \<in> set (rp_diagnostics r). dg_severity g = Info)"
proof -
  have "dg_severity g = Info \<longleftrightarrow> dg_severity g \<noteq> Error" for g by (cases "dg_severity g") auto
  then show ?thesis by (auto simp: ensure_valid_def Let_def filter_empty_conv)
qed

lemma severity_simps [simp]:
  "dg_severity (diagnostic_error c ps e) = Error"
  "dg_severity (diagnostic_info c ps) = Info"
  by (simp_all add: diagnostic_error_def diagnostic_info_def)

lemma require_system_column_empty:
  "require_system_column (Some d) k = [] \<longleftrightarrow> produces d k"
  by (auto simp: require_system_column_def produces_def list_ex_iff image_iff)

lemma require_system_column_severity:
  "g \<in> set (require_system_column d k) \<Longrightarrow> dg_severity g = Error"
  by (auto simp: require_system_column_def split: if_splits)

lemma partition_field_empty:
  "partition_field_diagnostics f d = [] \<longleftrightarrow> partition_field_ok d f"
  by (auto simp: partition_field_diagnostics_def partition_field_ok_def Let_def split: option.splits)

lemma partition_field_severity:
  "g \<in> set (partition_field_diagnostics f d) \<Longrightarrow> dg_severity g = Error"
  by (auto simp: partition_field_diagnostics_def Let_def split: option.splits if_splits)

lemma concat_map_empty:
  "concat (map f xs) = [] \<longleftrightarrow> (\<forall>x \<in> set xs. f x = [])"
  by auto

lemma s3_diagnostics_severity:
  "g \<in> set (s3_diagnostics s disc keep) \<Longrightarrow> dg_severity g = Error"
  by (auto simp: s3_diagnostics_def Let_def split: if_splits s3_partitioning.splits
        dest: require_system_column_severity partition_field_severity)

lemma s3_diagnostics_empty:
  "s3_diagnostics s disc keep = [] \<longleftrightarrow>
     main_datasets disc \<noteq> {} \<and> (\<forall>d \<in> main_datasets disc. s3_dataset_ok s d)"
proof -
  have "\<not> list_ex (\<lambda>d. d_system_columns d = []) (filter (\<lambda>d. d_role d = MainRole) (dd_datasets disc))"
    if "\<forall>d \<in> main_datasets disc. produces d Topic"
    using that by (fastforce simp: list_ex_iff main_datasets_def produces_def)
  then show ?thesis
    by (auto simp: s3_diagnostics_def Let_def concat_map_empty require_system_column_empty
          partition_field_empty REQUIRED_KINDS_def s3_dataset_ok_def main_datasets_def produces_def
          filter_empty_conv simp del: concat_eq_Nil_conv split: s3_partitioning.splits)
qed

lemma s3_report_valid:
  "ensure_valid (s3_report source s disc keep) = Inr () \<longleftrightarrow>
     main_datasets disc \<noteq> {} \<and> (\<forall>d \<in> main_datasets disc. s3_dataset_ok s d)"
proof -
  have "(\<forall>g \<in> set (s3_diagnostics s disc keep). dg_severity g = Info) \<longleftrightarrow> s3_diagnostics s disc keep = []"
    using s3_diagnostics_severity[of _ s disc keep]
    by (metis diagnostic_severity.distinct(1) empty_iff list.set_intros(1) list.exhaust set_empty)
  then show ?thesis
    by (auto simp: ensure_valid_iff s3_report_def Let_def s3_diagnostics_empty)
qed

lemma report_valid_simps [simp]:
  "ensure_valid (at_least_once c p) = Inr ()"
  "ensure_valid (iceberg_report src) = Inr ()"
  "ensure_valid (no_durability g) = Inr () \<longleftrightarrow> dg_severity g = Info"
  by (auto simp: ensure_valid_iff at_least_once_def iceberg_report_def no_durability_def)

lemma unsupported_pipeline:
  "ensure_valid \<lparr>rp_guarantee = g, rp_diagnostics = [diagnostic_error c ps e]\<rparr> \<noteq> Inr ()"
  by (simp add: ensure_valid_iff)

lemma validate_record_semantics_ok:
  "validate_record_semantics src snk = Inr u \<longleftrightarrow>
     (\<forall>s. record_semantics_of src = Some s \<longrightarrow> accepts_record_semantics snk s)"
  by (auto simp: validate_record_semantics_def split: option.splits)

lemma validate_record_semantics_error:
  "validate_record_semantics src snk = Inl s \<Longrightarrow>
     record_semantics_of src = Some s \<and> \<not> accepts_record_semantics snk s"
  by (auto simp: validate_record_semantics_def split: option.splits if_splits)

lemma sink_report_valid:
  assumes "sink \<noteq> Discard"
  shows "ensure_valid (sink_report src sink disc keep) = Inr () \<longleftrightarrow>
     \<not> is_source sink \<and>
     (\<forall>s. sink = S3 s \<longrightarrow> main_datasets disc \<noteq> {} \<and> (\<forall>d \<in> main_datasets disc. s3_dataset_ok s d))"
  using assms
  by (cases sink)
     (simp_all add: sink_report_def is_source_def source_behavior_of_def s3_report_valid unsupported_pipeline)

lemma sink_report_guarantee:
  assumes "sink \<noteq> Discard"
  shows "rp_guarantee (sink_report src sink disc keep) =
     (if sink = IcebergSink \<and> changelog_database src \<or>
         (\<exists>q s. src = Logbroker q \<and> sink = S3 s \<and> \<not> s3_wall_clock_rotation s)
      then ExactlyOnce else AtLeastOnce)"
  using assms
  by (cases sink)
     (auto simp: sink_report_def iceberg_report_def at_least_once_def s3_report_def Let_def
       split: endpoint_descriptor.splits)

text \<open>
  C25 (accepted configurations). A source and sink pair passes \<^verbatim>\<open>ensure_valid\<close> exactly when the sink
  is the discard sink, or when the source does not discard its records, the sink endpoint is one
  that can be written to and applies the kind of records the source emits, and, for an S3 sink,
  there is a main dataset and each one has the system columns and the non-null scalar partition
  fields the object layout needs. Whether system columns are kept makes no difference.
\<close>

theorem pipeline_accepted_iff:
  "ensure_valid (validate_pipeline source sink discovery keep) = Inr () \<longleftrightarrow>
     sink = Discard \<or>
     source_behavior_of source \<noteq> Some BenchmarkDiscardRows \<and>
     \<not> is_source sink \<and>
     (\<forall>s. record_semantics_of source = Some s \<longrightarrow> accepts_record_semantics sink s) \<and>
     (\<forall>s. sink = S3 s \<longrightarrow>
        main_datasets discovery \<noteq> {} \<and> (\<forall>d \<in> main_datasets discovery. s3_dataset_ok s d))"
proof (cases "sink = Discard \<or> source_behavior_of source = Some BenchmarkDiscardRows")
  case True
  then show ?thesis by (auto simp: validate_pipeline_def Let_def)
next
  case False
  show ?thesis
  proof (cases "validate_record_semantics source sink")
    case (Inl s)
    then show ?thesis
      using False validate_record_semantics_error[OF Inl] by (auto simp: validate_pipeline_def Let_def)
  next
    case (Inr u)
    then have "validate_pipeline source sink discovery keep = sink_report source sink discovery keep"
      using False by (simp add: validate_pipeline_def Let_def)
    then show ?thesis
      using False Inr sink_report_valid[of sink source discovery keep]
        validate_record_semantics_ok[of source sink u] by simp
  qed
qed

definition example_source :: source_descriptor where
  "example_source = \<lparr>s_behavior = AppendOnlyRows, s_delivery_modes = STREAM\<rparr>"

definition example_s3 :: s3_descriptor where
  "example_s3 = \<lparr>s3_partitioning = ByFields [''day''], s3_record_time_rotation = False,
     s3_wall_clock_rotation = False, s3_object_layout_version = 1\<rparr>"

definition example_main :: discovered_dataset where
  "example_main = \<lparr>d_namespace = None, d_update_policy = Strict, d_role = MainRole, d_name = ''events'',
     d_incoming_schema = [schema_column_new ''day'' Date32 False], d_stored_schema = [],
     d_system_columns = map (\<lambda>k. \<lparr>ds_kind = k, ds_name = default_name k\<rparr>) REQUIRED_KINDS\<rparr>"

definition example_s3_discovery :: delivery_discovery where
  "example_s3_discovery = \<lparr>dd_source_name = ''lb'', dd_source_topology = StaticPartitions [0],
     dd_schema_origin = ParserProjection, dd_keep_system_columns = False, dd_datasets = [example_main]\<rparr>"

lemma example_s3_valid:
  "ensure_valid (validate_pipeline (Logbroker example_source) (S3 example_s3) example_s3_discovery True) = Inr ()"
  by code_simp

theorem pipeline_accepted_iff_witness:
  "main_datasets example_s3_discovery \<noteq> {} \<and>
   main_datasets example_s3_discovery \<subseteq> {d. s3_dataset_ok example_s3 d} \<and>
   accepts_record_semantics (S3 example_s3) AppendOnly"
proof -
  have "record_semantics_of (Logbroker example_source) = Some AppendOnly" by code_simp
  then show ?thesis
    using pipeline_accepted_iff[of "Logbroker example_source" "S3 example_s3" example_s3_discovery True]
      example_s3_valid by auto
qed

text \<open>
  C26 (promised guarantee). An accepted configuration is promised exactly-once delivery exactly for
  the changelog of a MySQL or PostgreSQL source replicated to Iceberg and for an append-only
  Logbroker source written to S3 without wall-clock rotation. It is promised no durability exactly
  for the discard sink. In every other case the promise is at least once, and updates and deletes
  only ever go to a sink that applies them.
\<close>

theorem pipeline_guarantee:
  assumes "ensure_valid (validate_pipeline source sink discovery keep) = Inr ()"
  shows "rp_guarantee (validate_pipeline source sink discovery keep) =
       (if sink = Discard then NoDurability
        else if sink = IcebergSink \<and> changelog_database source \<or>
           (\<exists>q s. source = Logbroker q \<and> s_behavior q \<in> {AppendOnlyRows, FiniteAppendOnlyRows} \<and>
                  sink = S3 s \<and> \<not> s3_wall_clock_rotation s)
        then ExactlyOnce else AtLeastOnce) \<and>
     (record_semantics_of source = Some Changelog \<longrightarrow> accepts_changelog sink)"
proof (cases "sink = Discard")
  case True
  then show ?thesis
    by (simp add: validate_pipeline_def Let_def no_durability_def accepts_changelog_def)
next
  case False
  have nb: "source_behavior_of source \<noteq> Some BenchmarkDiscardRows"
    using assms False by (auto simp: validate_pipeline_def Let_def)
  have rs: "validate_record_semantics source sink = Inr ()"
    using assms False nb
    by (cases "validate_record_semantics source sink") (auto simp: validate_pipeline_def Let_def)
  have lb: "s_behavior q \<in> {AppendOnlyRows, FiniteAppendOnlyRows}" if "source = Logbroker q" "sink = S3 s" for q s
    using that nb rs
    by (cases "s_behavior q")
       (auto simp: validate_record_semantics_def record_semantics_of_def source_behavior_of_def
         accepts_record_semantics_def accepts_changelog_def)
  have "validate_pipeline source sink discovery keep = sink_report source sink discovery keep"
    using False nb rs by (simp add: validate_pipeline_def Let_def)
  then show ?thesis
    using False lb rs
    by (auto simp: sink_report_guarantee validate_record_semantics_def accepts_record_semantics_def
          split: if_splits)
qed

theorem pipeline_guarantee_witness:
  "rp_guarantee (validate_pipeline (Logbroker example_source) (S3 example_s3) example_s3_discovery True) =
     ExactlyOnce"
  using pipeline_guarantee[OF example_s3_valid]
  by (simp add: example_source_def example_s3_def)

end
