(* ===== verification/Durable.thy ===== *)
theory Durable
  imports Decimal_Text
begin

section \<open>Revisioned durable storage\<close>

text \<open>
  The storage of \<^verbatim>\<open>transferia-registry/src/durable.rs\<close>: a key has a revisioned payload that is replaced
  by compare-and-exchange, kept in one checksummed file per key. The file system is a map from paths
  to contents. Any system call may fail: a fault names the call that does, and a failed write leaves
  a part of its bytes. The \<^verbatim>\<open>.lock\<close> file and the in-process mutex serialise the operations, so each
  is one step. The 128-bit murmur3 hash is a parameter. The trait the connectors use is
  the record \<open>durable_storage\<close>, and its contract the locale \<open>durable_storage_laws\<close>, interpreted
  at the end on the local files.
\<close>

unbundle bit_operations_syntax

subsection \<open>Values and errors\<close>

record durable_value =
  dv_revision :: u64
  dv_payload :: "u8 list"

datatype compare_exchange_result = Applied durable_value | Conflict "durable_value option"

datatype durable_error =
    Empty_root
  | Component_length string
  | Component_characters string
  | Io_failed
  | Invalid_header
  | Payload_length_overflow
  | Invalid_payload_length
  | Checksum_mismatch
  | Revision_overflow
  | No_parent
  | Temporary_exists
  | Lease_owned string

definition MAGIC :: "u8 list" where
  "MAGIC = map (\<lambda>c. of_nat (of_char c)) ''TRFDUR02''"

definition CHECKSUM_BYTES :: nat where
  "CHECKSUM_BYTES = 16"

definition RESOURCE_NAMESPACE_DIRECTORY :: string where
  "RESOURCE_NAMESPACE_DIRECTORY = ''@resources''"

subsection \<open>Keys and paths\<close>

type_synonym path = "string list"

definition component_char :: "char \<Rightarrow> bool" where
  "component_char c =
     (let v = (of_char c :: nat)
      in 48 \<le> v \<and> v \<le> 57 \<or> 65 \<le> v \<and> v \<le> 90 \<or> 97 \<le> v \<and> v \<le> 122 \<or> c = CHR ''-'' \<or> c = CHR ''_'' \<or> c = CHR ''.'')"

definition validate_component :: "string \<Rightarrow> (durable_error, unit) res" where
  "validate_component value =
     (if \<not> (value \<noteq> [] \<and> length value \<le> 128) then Inl (Component_length value)
      else if \<not> list_all component_char value then Inl (Component_characters value)
      else Inr ())"

text \<open>\<^verbatim>\<open>PathBuf::push\<close> and \<^verbatim>\<open>with_extension\<close> on the components of a path; a \<open>.\<close> component is not one.\<close>

definition push :: "path \<Rightarrow> string \<Rightarrow> path" where
  "push p c = (if c = ''.'' then p else p @ [c])"

definition file_stem :: "string \<Rightarrow> string" where
  "file_stem n =
     (let after = length (takeWhile (\<lambda>c. c \<noteq> CHR ''.'') (rev n));
          before = take (length n - after - 1) n
      in if after = length n \<or> before = [] then n else before)"

definition with_extension :: "path \<Rightarrow> string \<Rightarrow> path" where
  "with_extension p ext =
     (if p = [] \<or> last p = ''..'' then p else butlast p @ [file_stem (last p) @ ''.'' @ ext])"

definition durable_path :: "path \<Rightarrow> string \<Rightarrow> (durable_error, path) res" where
  "durable_path root key =
     res_bind (res_fold (\<lambda>c p. res_bind (validate_component c) (\<lambda>_. Inr (push p c))) (split_on CHR ''/'' key) root)
       (\<lambda>p. Inr (with_extension p ''state''))"

subsection \<open>File format\<close>

text \<open>\<^verbatim>\<open>to_le_bytes\<close> and \<^verbatim>\<open>from_le_bytes\<close> of unsigned integers, the lowest byte first.\<close>

primrec le_bytes :: "nat \<Rightarrow> 'a::len word \<Rightarrow> u8 list" where
  "le_bytes 0 w = []"
| "le_bytes (Suc n) w = ucast w # le_bytes n (drop_bit 8 w)"

definition to_le_bytes :: "u64 \<Rightarrow> u8 list" where
  "to_le_bytes w = le_bytes 8 w"

definition from_le_bytes :: "u8 list \<Rightarrow> u64" where
  "from_le_bytes bs = foldr (\<lambda>b acc. push_bit 8 acc OR ucast b) bs 0"

definition durable_checksum :: "(u8 list \<Rightarrow> u128) \<Rightarrow> u8 list \<Rightarrow> u8 list" where
  "durable_checksum murmur3 bytes = le_bytes CHECKSUM_BYTES (murmur3 bytes)"

definition encode_file :: "(u8 list \<Rightarrow> u128) \<Rightarrow> durable_value \<Rightarrow> u8 list" where
  "encode_file murmur3 v =
     (let bytes = MAGIC @ to_le_bytes (dv_revision v) @ to_le_bytes (of_nat (length (dv_payload v))) @ dv_payload v
      in bytes @ durable_checksum murmur3 bytes)"

definition decode_file :: "(u8 list \<Rightarrow> u128) \<Rightarrow> u8 list \<Rightarrow> (durable_error, durable_value) res" where
  "decode_file murmur3 bytes =
     (if \<not> (length MAGIC + 16 + CHECKSUM_BYTES \<le> length bytes \<and> take 8 bytes = MAGIC) then Inl Invalid_header
      else let revision = from_le_bytes (take 8 (drop 8 bytes));
               payload_len = from_le_bytes (take 8 (drop 16 bytes))
           in case checked_add 24 payload_len of
                None \<Rightarrow> Inl Payload_length_overflow
              | Some payload_end \<Rightarrow>
                  if payload_end + of_nat CHECKSUM_BYTES \<noteq> of_nat (length bytes) then Inl Invalid_payload_length
                  else if durable_checksum murmur3 (take (unat payload_end) bytes) \<noteq> drop (unat payload_end) bytes
                  then Inl Checksum_mismatch
                  else Inr \<lparr>dv_revision = revision, dv_payload = drop 24 (take (unat payload_end) bytes)\<rparr>)"

subsection \<open>File system\<close>

record durable_state =
  st_files :: "path \<Rightarrow> u8 list option"
  st_sequence :: u64
  st_leases :: "path list"

datatype io_fault =
    No_fault
  | Lock_fault
  | Read_fault
  | Write_fault nat nat
  | Unlock_fault

datatype fs_step =
    Create_dir_all path
  | Create_new path
  | Write_all path "u8 list"
  | Sync_all path
  | Rename path path
  | Sync_directory path

text \<open>
  The file contents are what running processes see. Flushing a file or a directory changes nothing they
  see: these calls are steps that can fail and at which the process can stop, and a loss of power, which
  can undo what was not flushed, is not modelled.
\<close>

definition fs_apply :: "fs_step \<Rightarrow> (path \<Rightarrow> u8 list option) \<Rightarrow> (durable_error, path \<Rightarrow> u8 list option) res" where
  "fs_apply s fs =
     (case s of
        Create_new p \<Rightarrow> if fs p \<noteq> None then Inl Temporary_exists else Inr (fs(p := Some []))
      | Write_all p bs \<Rightarrow> Inr (fs(p := Some bs))
      | Rename p q \<Rightarrow> Inr (fs(q := fs p, p := None))
      | _ \<Rightarrow> Inr fs)"

text \<open>What a failing call leaves behind: the bytes already written, and nothing else.\<close>

definition fs_fail :: "nat \<Rightarrow> fs_step \<Rightarrow> (path \<Rightarrow> u8 list option) \<Rightarrow> (path \<Rightarrow> u8 list option)" where
  "fs_fail written s fs = (case s of Write_all p bs \<Rightarrow> fs(p := Some (take written bs)) | _ \<Rightarrow> fs)"

fun run_steps ::
  "io_fault \<Rightarrow> fs_step list \<Rightarrow> (path \<Rightarrow> u8 list option) \<Rightarrow> (path \<Rightarrow> u8 list option) \<times> (durable_error, unit) res" where
  "run_steps fault [] fs = (fs, Inr ())"
| "run_steps (Write_fault 0 written) (s # ss) fs = (fs_fail written s fs, Inl Io_failed)"
| "run_steps (Write_fault (Suc n) written) (s # ss) fs =
     (case fs_apply s fs of
        Inl e \<Rightarrow> (fs, Inl e)
      | Inr fs' \<Rightarrow> run_steps (Write_fault n written) ss fs')"
| "run_steps No_fault (s # ss) fs =
     (case fs_apply s fs of Inl e \<Rightarrow> (fs, Inl e) | Inr fs' \<Rightarrow> run_steps No_fault ss fs')"
| "run_steps Lock_fault (s # ss) fs =
     (case fs_apply s fs of Inl e \<Rightarrow> (fs, Inl e) | Inr fs' \<Rightarrow> run_steps Lock_fault ss fs')"
| "run_steps Read_fault (s # ss) fs =
     (case fs_apply s fs of Inl e \<Rightarrow> (fs, Inl e) | Inr fs' \<Rightarrow> run_steps Read_fault ss fs')"
| "run_steps Unlock_fault (s # ss) fs =
     (case fs_apply s fs of Inl e \<Rightarrow> (fs, Inl e) | Inr fs' \<Rightarrow> run_steps Unlock_fault ss fs')"

text \<open>A storage handle: its root directory, the process it runs in and the checksum function.\<close>

record local_file_durable_storage =
  lf_root :: path
  lf_process_id :: u32
  lf_murmur3 :: "u8 list \<Rightarrow> u128"

definition temporary_path :: "local_file_durable_storage \<Rightarrow> path \<Rightarrow> u64 \<Rightarrow> path" where
  "temporary_path lf p sequence =
     butlast p @
     [''.'' @ (if last p = ''..'' then ''state'' else last p) @ ''.'' @ show_int (uint (lf_process_id lf)) @ ''.'' @
      usize_to_string sequence @ ''.tmp'']"

definition write_file ::
  "local_file_durable_storage \<Rightarrow> io_fault \<Rightarrow> path \<Rightarrow> durable_value \<Rightarrow> durable_state \<Rightarrow>
   durable_state \<times> (durable_error, unit) res" where
  "write_file lf fault p v st =
     (if p = [] then (st, Inl No_parent)
      else let temporary = temporary_path lf p (st_sequence st);
               (fs, r) = run_steps fault
                 [Create_dir_all (butlast p), Create_new temporary, Write_all temporary (encode_file (lf_murmur3 lf) v),
                  Sync_all temporary, Rename temporary p, Sync_directory (butlast p)] (st_files st);
               sequence = (case fault of Write_fault 0 _ \<Rightarrow> st_sequence st | _ \<Rightarrow> st_sequence st + 1)
           in (st\<lparr>st_files := fs, st_sequence := sequence\<rparr>, r))"

definition read_file ::
  "local_file_durable_storage \<Rightarrow> io_fault \<Rightarrow> path \<Rightarrow> durable_state \<Rightarrow> (durable_error, durable_value option) res" where
  "read_file lf fault p st =
     (if fault = Read_fault then Inl Io_failed
      else case st_files st p of
             None \<Rightarrow> Inr None
           | Some bytes \<Rightarrow> (case decode_file (lf_murmur3 lf) bytes of Inl e \<Rightarrow> Inl e | Inr v \<Rightarrow> Inr (Some v)))"

definition with_file_lock ::
  "io_fault \<Rightarrow> (durable_state \<Rightarrow> durable_state \<times> (durable_error, 'a) res) \<Rightarrow> durable_state \<Rightarrow>
   durable_state \<times> (durable_error, 'a) res" where
  "with_file_lock fault operation st =
     (if fault = Lock_fault then (st, Inl Io_failed)
      else let (st', r) = operation st in if fault = Unlock_fault then (st', Inl Io_failed) else (st', r))"

definition local_read ::
  "local_file_durable_storage \<Rightarrow> io_fault \<Rightarrow> string \<Rightarrow> durable_state \<Rightarrow>
   durable_state \<times> (durable_error, durable_value option) res" where
  "local_read lf fault key st =
     (case durable_path (lf_root lf) key of
        Inl e \<Rightarrow> (st, Inl e)
      | Inr p \<Rightarrow> with_file_lock fault (\<lambda>st. (st, read_file lf fault p st)) st)"

definition next_revision :: "u64 option \<Rightarrow> (durable_error, u64) res" where
  "next_revision expected =
     (case expected of
        None \<Rightarrow> Inr 0
      | Some revision \<Rightarrow> (case checked_add revision 1 of None \<Rightarrow> Inl Revision_overflow | Some r \<Rightarrow> Inr r))"

definition local_compare_exchange ::
  "local_file_durable_storage \<Rightarrow> io_fault \<Rightarrow> string \<Rightarrow> u64 option \<Rightarrow> u8 list \<Rightarrow> durable_state \<Rightarrow>
   durable_state \<times> (durable_error, compare_exchange_result) res" where
  "local_compare_exchange lf fault key expected payload st =
     (case durable_path (lf_root lf) key of
        Inl e \<Rightarrow> (st, Inl e)
      | Inr p \<Rightarrow> with_file_lock fault (\<lambda>st.
          case read_file lf fault p st of
            Inl e \<Rightarrow> (st, Inl e)
          | Inr current \<Rightarrow>
              if map_option dv_revision current \<noteq> expected then (st, Inr (Conflict current))
              else case next_revision expected of
                     Inl e \<Rightarrow> (st, Inl e)
                   | Inr revision \<Rightarrow>
                       let value = \<lparr>dv_revision = revision, dv_payload = payload\<rparr>;
                           (st', r) = write_file lf fault p value st
                       in (st', case r of Inl e \<Rightarrow> Inl e | Inr _ \<Rightarrow> Inr (Applied value))) st)"

text \<open>An execution lease is a locked file next to the state; dropping the guard, or the process, unlocks it.\<close>

definition acquire_execution_lease ::
  "local_file_durable_storage \<Rightarrow> io_fault \<Rightarrow> string \<Rightarrow> durable_state \<Rightarrow> durable_state \<times> (durable_error, path) res" where
  "acquire_execution_lease lf fault key st =
     (case validate_component key of
        Inl e \<Rightarrow> (st, Inl e)
      | Inr _ \<Rightarrow>
          if fault = Lock_fault then (st, Inl Io_failed)
          else let p = lf_root lf @ [''.'' @ key @ ''.lease'']
               in if p \<in> set (st_leases st) then (st, Inl (Lease_owned key))
                  else (st\<lparr>st_leases := p # st_leases st\<rparr>, Inr p))"

definition drop_lease :: "path \<Rightarrow> durable_state \<Rightarrow> durable_state" where
  "drop_lease p st = st\<lparr>st_leases := removeAll p (st_leases st)\<rparr>"

text \<open>Configuration: the delivery has its own directory, resources shared by deliveries another one.\<close>

definition durable_storage_validate :: "path \<Rightarrow> (durable_error, unit) res" where
  "durable_storage_validate p = (if p = [] then Inl Empty_root else Inr ())"

definition durable_storage_build ::
  "path \<Rightarrow> string \<Rightarrow> (durable_error, path \<times> path) res" where
  "durable_storage_build p delivery_id =
     res_bind (durable_storage_validate p) (\<lambda>_.
     res_bind (validate_component delivery_id) (\<lambda>_.
       Inr (push p delivery_id, push p RESOURCE_NAMESPACE_DIRECTORY)))"

subsection \<open>The trait and its contract\<close>

record 'st durable_storage =
  ds_read :: "io_fault \<Rightarrow> string \<Rightarrow> 'st \<Rightarrow> 'st \<times> (durable_error, durable_value option) res"
  ds_compare_exchange ::
    "io_fault \<Rightarrow> string \<Rightarrow> u64 option \<Rightarrow> u8 list \<Rightarrow> 'st \<Rightarrow> 'st \<times> (durable_error, compare_exchange_result) res"

definition local_file_storage :: "local_file_durable_storage \<Rightarrow> durable_state durable_storage" where
  "local_file_storage lf = \<lparr>ds_read = local_read lf, ds_compare_exchange = local_compare_exchange lf\<rparr>"

text \<open>
  The contract: an operation either leaves a key as it is or replaces it by the new payload at the next
  revision, the latter only when the expected revision is the current one. A reported error says
  nothing about which happened. Other keys are not touched.
\<close>

definition replaces :: "durable_value option \<Rightarrow> u64 option \<Rightarrow> u8 list \<Rightarrow> durable_value \<Rightarrow> bool" where
  "replaces old expected payload new \<longleftrightarrow>
     map_option dv_revision old = expected \<and> next_revision expected = Inr (dv_revision new) \<and> dv_payload new = payload"

locale durable_storage_laws =
  fixes ds :: "'st durable_storage"
    and inv :: "'st \<Rightarrow> bool"
    and cell :: "'st \<Rightarrow> string \<Rightarrow> durable_value option"
    and good :: "string \<Rightarrow> bool"
  assumes read_law:
    "inv st \<Longrightarrow> good k \<Longrightarrow> ds_read ds fault k st = (st', found) \<Longrightarrow>
       st' = st \<and> (found = Inr (cell st k) \<or> (\<exists>e. found = Inl e))"
    and exchange_law:
    "inv st \<Longrightarrow> good k \<Longrightarrow> length payload < 2 ^ 63 \<Longrightarrow>
       ds_compare_exchange ds fault k expected payload st = (st', r) \<Longrightarrow>
       inv st' \<and> (\<forall>k'. good k' \<longrightarrow> k' \<noteq> k \<longrightarrow> cell st' k' = cell st k') \<and>
       (cell st' k = cell st k \<and>
          ((\<exists>e. r = Inl e) \<or> r = Inr (Conflict (cell st k)) \<and> map_option dv_revision (cell st k) \<noteq> expected) \<or>
        (\<exists>v. replaces (cell st k) expected payload v \<and> cell st' k = Some v \<and>
             (r = Inr (Applied v) \<or> (\<exists>e. r = Inl e))))"


subsection \<open>Bytes\<close>

lemma length_le_bytes [simp]: "length (le_bytes n w) = n"
  by (induction n arbitrary: w) auto

lemma ucast_low_byte: "ucast (ucast (w :: 'a::len word) :: u8) = (take_bit 8 w :: 'a word)" if "8 \<le> LENGTH('a)"
  using that by (intro bit_word_eqI) (auto simp: bit_simps)

lemma from_le_bytes_Nil [simp]: "from_le_bytes [] = 0"
  by (simp add: from_le_bytes_def)

lemma from_le_bytes_Cons [simp]: "from_le_bytes (b # bs) = push_bit 8 (from_le_bytes bs) OR ucast b"
  by (simp add: from_le_bytes_def)

lemma from_le_bytes_le_bytes: "from_le_bytes (le_bytes n w) = take_bit (8 * n) w"
proof (induction n arbitrary: w)
  case (Suc n)
  have "push_bit 8 (take_bit (8 * n) (drop_bit 8 w)) OR take_bit 8 w = take_bit (8 * Suc n) w"
    by (rule bit_word_eqI) (auto simp: bit_simps)
  then show ?case by (simp add: Suc ucast_low_byte)
qed simp

lemma from_to_le_bytes [simp]: "from_le_bytes (to_le_bytes w) = w"
  by (simp add: to_le_bytes_def from_le_bytes_le_bytes take_bit_word_eq_self)

lemma from_le_bytes_high: "8 * length bs \<le> n \<Longrightarrow> \<not> bit (from_le_bytes bs) n"
proof (induction bs arbitrary: n)
  case (Cons b bs)
  have "\<not> bit (from_le_bytes bs) (n - 8)" using Cons by auto
  moreover have "\<not> bit b n" using Cons.prems by (auto dest: bit_imp_le_length)
  ultimately show ?case by (auto simp: bit_simps)
qed simp

lemma le_bytes_from_le_bytes: "length bs \<le> 8 \<Longrightarrow> le_bytes (length bs) (from_le_bytes bs) = bs"
proof (induction bs)
  case (Cons b bs)
  have "ucast (from_le_bytes (b # bs)) = b" by (rule bit_word_eqI) (auto simp: bit_simps)
  moreover have "drop_bit 8 (from_le_bytes (b # bs)) = from_le_bytes bs"
  proof (rule bit_word_eqI)
    fix n assume "n < LENGTH(64)"
    moreover have "bit (from_le_bytes bs) n \<Longrightarrow> n < 56"
      using from_le_bytes_high[of bs n] Cons.prems by force
    moreover have "\<not> bit b (8 + n)" by (auto dest: bit_imp_le_length)
    ultimately show "bit (drop_bit 8 (from_le_bytes (b # bs))) n = bit (from_le_bytes bs) n"
      by (auto simp: bit_simps)
  qed
  ultimately show ?case using Cons by (simp del: from_le_bytes_Cons)
qed simp

lemma to_from_le_bytes: "length bs = 8 \<Longrightarrow> to_le_bytes (from_le_bytes bs) = bs"
  using le_bytes_from_le_bytes[of bs] by (simp add: to_le_bytes_def)

lemma length_to_le_bytes [simp]: "length (to_le_bytes w) = 8"
  by (simp add: to_le_bytes_def)

lemma length_durable_checksum [simp]: "length (durable_checksum murmur3 bs) = 16"
  by (simp add: durable_checksum_def CHECKSUM_BYTES_def)

lemma length_MAGIC [simp]: "length MAGIC = 8"
  by (simp add: MAGIC_def)

lemma take_drop_append3:
  "length a = 8 \<Longrightarrow> length b = 8 \<Longrightarrow> length c = 8 \<Longrightarrow>
     take 8 (a @ b @ c @ d) = a \<and> take 8 (drop 8 (a @ b @ c @ d)) = b \<and>
     take 8 (drop 16 (a @ b @ c @ d)) = c \<and> drop 24 (a @ b @ c @ d) = d"
  by simp

lemma of_nat_small: "n < 2 ^ 64 \<Longrightarrow> unat (of_nat n :: u64) = n"
  by (simp add: unsigned_of_nat take_bit_nat_eq_self)

lemma decode_encode_file:
  assumes "length (dv_payload v) < 2 ^ 63"
  shows "decode_file murmur3 (encode_file murmur3 v) = Inr v"
proof -
  let ?n = "length (dv_payload v)"
  let ?h = "MAGIC @ to_le_bytes (dv_revision v) @ to_le_bytes (of_nat ?n) @ dv_payload v"
  have len: "length ?h = 24 + ?n" by simp
  have small: "?n < 2 ^ 64" "24 + ?n < 2 ^ 64" "40 + ?n < 2 ^ 64" using assms by simp_all
  have add: "checked_add 24 (of_nat ?n :: u64) = Some (of_nat (24 + ?n))"
    by (subst checked_add_eq_Some) (use small in \<open>simp add: of_nat_small del: of_nat_add\<close>)
  have enc: "encode_file murmur3 v = ?h @ durable_checksum murmur3 ?h"
    by (simp add: encode_file_def Let_def)
  have parts: "take 8 (encode_file murmur3 v) = MAGIC" "take 8 (drop 8 (encode_file murmur3 v)) = to_le_bytes (dv_revision v)"
    "take 8 (drop 16 (encode_file murmur3 v)) = to_le_bytes (of_nat ?n)"
    using enc by (simp_all)
  have unat_end: "unat (of_nat (24 + ?n) :: u64) = 24 + ?n" using small by (intro of_nat_small)
  have payload: "take (24 + ?n) (encode_file murmur3 v) = ?h" "drop (24 + ?n) (encode_file murmur3 v) = durable_checksum murmur3 ?h"
    using enc len by (simp_all del: append_assoc)
  have "length (encode_file murmur3 v) = 40 + ?n" using enc by simp
  moreover have "of_nat (24 + ?n) + 16 = (of_nat (40 + ?n) :: u64)" by simp
  moreover have "drop 24 ?h = dv_payload v" by simp
  ultimately show ?thesis
    unfolding decode_file_def Let_def parts from_to_le_bytes add
    by (simp add: unat_end payload CHECKSUM_BYTES_def del: of_nat_add)
qed

lemma decode_file_parts:
  assumes "decode_file murmur3 bytes = Inr v" "length bytes < 2 ^ 63"
  shows "take 8 bytes = MAGIC" "40 \<le> length bytes"
    "dv_revision v = from_le_bytes (take 8 (drop 8 bytes))"
    "unat (from_le_bytes (take 8 (drop 16 bytes))) = length bytes - 40"
    "dv_payload v = drop 24 (take (length bytes - 16) bytes)"
    "durable_checksum murmur3 (take (length bytes - 16) bytes) = drop (length bytes - 16) bytes"
proof -
  let ?len = "from_le_bytes (take 8 (drop 16 bytes))"
  obtain e where e: "checked_add 24 ?len = Some e" "e + 16 = of_nat (length bytes)"
    "durable_checksum murmur3 (take (unat e) bytes) = drop (unat e) bytes"
    "v = \<lparr>dv_revision = from_le_bytes (take 8 (drop 8 bytes)), dv_payload = drop 24 (take (unat e) bytes)\<rparr>"
    and h: "take 8 bytes = MAGIC" "40 \<le> length bytes"
    using assms(1) by (auto simp: decode_file_def Let_def CHECKSUM_BYTES_def split: if_splits option.splits)
  have u: "unat e = 24 + unat ?len" using e(1) by (simp add: checked_add_eq_Some)
  have n: "unat (e + 16) = length bytes" using e(2) assms(2) by (simp add: of_nat_small)
  have "unat e + 16 < 2 ^ 64"
  proof (rule ccontr)
    assume "\<not> unat e + 16 < 2 ^ 64"
    then have "unat (e + 16) < 16"
      using unat_less_pow[of e] by (simp add: unat_word_ariths le_mod_geq not_less)
    then show False using n h by simp
  qed
  then have ue: "unat e = length bytes - 16" using n by (simp add: unat_word_ariths)
  show "take 8 bytes = MAGIC" "40 \<le> length bytes" by (rule h)+
  show "dv_revision v = from_le_bytes (take 8 (drop 8 bytes))" by (simp add: e(4))
  show "unat ?len = length bytes - 40" using u ue h(2) by linarith
  show "dv_payload v = drop 24 (take (length bytes - 16) bytes)" by (simp add: e(4) ue)
  show "durable_checksum murmur3 (take (length bytes - 16) bytes) = drop (length bytes - 16) bytes"
    using e(3) by (simp only: ue)
qed

lemma encode_decode_file:
  assumes "decode_file murmur3 bytes = Inr v" "length bytes < 2 ^ 63"
  shows "encode_file murmur3 v = bytes"
proof -
  note d = decode_file_parts[OF assms]
  let ?h = "take (length bytes - 16) bytes"
  have len: "length (dv_payload v) = length bytes - 40" using d(2,5) by simp
  have "of_nat (length (dv_payload v)) = from_le_bytes (take 8 (drop 16 bytes))"
    unfolding len d(4)[symmetric] by simp
  then have l: "to_le_bytes (of_nat (length (dv_payload v))) = take 8 (drop 16 bytes)"
    using d(2) by (simp add: to_from_le_bytes)
  have r: "to_le_bytes (dv_revision v) = take 8 (drop 8 bytes)" using d(2,3) by (simp add: to_from_le_bytes)
  have pre: "take 8 ?h = take 8 bytes" "take 8 (drop 8 ?h) = take 8 (drop 8 bytes)"
    "take 8 (drop 16 ?h) = take 8 (drop 16 bytes)"
    using d(2) by (simp_all add: take_drop min_absorb1)
  have "MAGIC @ to_le_bytes (dv_revision v) @ to_le_bytes (of_nat (length (dv_payload v))) @ dv_payload v =
      take 8 ?h @ take 8 (drop 8 ?h) @ take 8 (drop 16 ?h) @ drop 24 ?h"
    unfolding pre l r d(1) unfolding d(5) ..
  also have "\<dots> = ?h"
    using append_take_drop_id[of 8 ?h] append_take_drop_id[of 8 "drop 8 ?h"]
      append_take_drop_id[of 8 "drop 16 ?h"] by simp
  finally show ?thesis using d(6) by (simp add: encode_file_def Let_def)
qed

subsection \<open>Keys without dots\<close>

text \<open>Every component of such a key is valid and free of dots, so the extension never cuts a name.\<close>

definition plain_key :: "string \<Rightarrow> bool" where
  "plain_key key \<longleftrightarrow>
     (\<forall>c \<in> set (split_on CHR ''/'' key). validate_component c = Inr () \<and> CHR ''.'' \<notin> set c)"

definition plain_path :: "path \<Rightarrow> string \<Rightarrow> path" where
  "plain_path root key =
     root @ butlast (split_on CHR ''/'' key) @ [last (split_on CHR ''/'' key) @ ''.state'']"

lemma file_stem_plain: "CHR ''.'' \<notin> set n \<Longrightarrow> file_stem n = n"
proof -
  assume "CHR ''.'' \<notin> set n"
  then have "length (takeWhile (\<lambda>c. c \<noteq> CHR ''.'') (rev n)) = length n"
    by (subst takeWhile_eq_all_conv[THEN iffD2]) auto
  then show ?thesis unfolding file_stem_def Let_def by (simp only: simp_thms if_True)
qed

lemma push_components:
  assumes "\<forall>c \<in> set cs. validate_component c = Inr () \<and> CHR ''.'' \<notin> set c"
  shows "res_fold (\<lambda>c p. res_bind (validate_component c) (\<lambda>_. Inr (push p c))) cs p = Inr (p @ cs)"
  using assms
proof (induction cs arbitrary: p)
  case (Cons c cs)
  then have "push p c = p @ [c]" by (auto simp: push_def)
  then show ?case using Cons by simp
qed simp

lemma durable_path_plain: "plain_key key \<Longrightarrow> durable_path root key = Inr (plain_path root key)"
proof -
  assume k: "plain_key key"
  let ?cs = "split_on CHR ''/'' key"
  have l: "last ?cs \<in> set ?cs" by simp
  then have free: "CHR ''.'' \<notin> set (last ?cs)" using k unfolding plain_key_def by blast
  then have "last ?cs \<noteq> ''..''" "file_stem (last ?cs) = last ?cs" by (auto simp: file_stem_plain)
  then show ?thesis
    using k push_components[of ?cs root]
    by (simp add: durable_path_def plain_key_def with_extension_def plain_path_def butlast_append)
qed

lemma plain_path_inj: "plain_path root k = plain_path root k' \<longleftrightarrow> k = k'"
proof
  assume "plain_path root k = plain_path root k'"
  then have "butlast (split_on CHR ''/'' k) = butlast (split_on CHR ''/'' k')"
    "last (split_on CHR ''/'' k) = last (split_on CHR ''/'' k')"
    by (auto simp: plain_path_def)
  then have "split_on CHR ''/'' k = split_on CHR ''/'' k'"
    by (metis append_butlast_last_id split_on_nonempty)
  then show "k = k'" by (metis join_split_on)
qed simp

lemma temporary_not_plain: "temporary_path lf p n \<noteq> plain_path root k"
proof
  assume "temporary_path lf p n = plain_path root k"
  then have "last (last (temporary_path lf p n)) = last (last (plain_path root k))" by simp
  then show False by (simp add: temporary_path_def plain_path_def)
qed

subsection \<open>The local files meet the contract\<close>

definition local_inv :: "local_file_durable_storage \<Rightarrow> durable_state \<Rightarrow> bool" where
  "local_inv lf st \<longleftrightarrow>
     (\<forall>k bs. plain_key k \<longrightarrow> st_files st (plain_path (lf_root lf) k) = Some bs \<longrightarrow>
        is_ok (decode_file (lf_murmur3 lf) bs))"

definition local_cell :: "local_file_durable_storage \<Rightarrow> durable_state \<Rightarrow> string \<Rightarrow> durable_value option" where
  "local_cell lf st k =
     (case st_files st (plain_path (lf_root lf) k) of
        None \<Rightarrow> None
      | Some bs \<Rightarrow> (case decode_file (lf_murmur3 lf) bs of Inl _ \<Rightarrow> None | Inr v \<Rightarrow> Some v))"

lemma read_file_cell:
  assumes "local_inv lf st" "plain_key k"
  shows "read_file lf fault (plain_path (lf_root lf) k) st =
     (if fault = Read_fault then Inl Io_failed else Inr (local_cell lf st k))"
  using assms by (force simp: read_file_def local_cell_def local_inv_def is_ok_iff split: option.splits sum.splits)

text \<open>
  A run of the steps of \<^verbatim>\<open>write_file\<close>, with a fault anywhere or none, changes the temporary file and at
  most replaces the target by the complete encoding.
\<close>

lemma write_steps:
  assumes "t \<noteq> p"
    and "run_steps fault [Create_dir_all d, Create_new t, Write_all t bs, Sync_all t, Rename t p, Sync_directory d] fs = (fs', r)"
  shows "(\<forall>q. q \<noteq> t \<longrightarrow> q \<noteq> p \<longrightarrow> fs' q = fs q) \<and>
    (fs' p = fs p \<and> (\<exists>e. r = Inl e) \<or> fs' p = Some bs)"
proof (cases fault)
  case (Write_fault n w)
  have upto: "n = 0 \<or> n = 1 \<or> n = 2 \<or> n = 3 \<or> n = 4 \<or> n = 5 \<or> (\<exists>m. n = Suc (Suc (Suc (Suc (Suc (Suc m))))))"
    by presburger
  then show ?thesis
    using assms Write_fault
    by (elim disjE exE) (auto simp: numeral_eq_Suc fs_apply_def fs_fail_def split: if_splits)
qed (use assms in \<open>auto simp: fs_apply_def split: if_splits\<close>)

lemma write_file_cell:
  assumes "local_inv lf st" "plain_key k" "length (dv_payload v) < 2 ^ 63"
    and "write_file lf fault (plain_path (lf_root lf) k) v st = (st', r)"
  shows "local_inv lf st' \<and> (\<forall>k'. plain_key k' \<longrightarrow> k' \<noteq> k \<longrightarrow> local_cell lf st' k' = local_cell lf st k') \<and>
    (local_cell lf st' k = local_cell lf st k \<and> (\<exists>e. r = Inl e) \<or> local_cell lf st' k = Some v)"
proof -
  let ?p = "plain_path (lf_root lf) k" and ?t = "temporary_path lf (plain_path (lf_root lf) k) (st_sequence st)"
  let ?bs = "encode_file (lf_murmur3 lf) v"
  have "?p \<noteq> []" by (simp add: plain_path_def)
  then obtain fs where fs: "run_steps fault [Create_dir_all (butlast ?p), Create_new ?t, Write_all ?t ?bs,
      Sync_all ?t, Rename ?t ?p, Sync_directory (butlast ?p)] (st_files st) = (fs, r)"
    "st_files st' = fs"
    using assms(4) by (auto simp: write_file_def Let_def split: prod.splits)
  have other: "st_files st' (plain_path (lf_root lf) k') = st_files st (plain_path (lf_root lf) k')" if "k' \<noteq> k" for k'
    using write_steps[OF temporary_not_plain fs(1)] fs(2) that temporary_not_plain[of lf ?p _ "lf_root lf" k']
    by (metis plain_path_inj)
  have here: "st_files st' ?p = st_files st ?p \<and> (\<exists>e. r = Inl e) \<or> st_files st' ?p = Some ?bs"
    using write_steps[OF temporary_not_plain fs(1)] fs(2) by blast
  note dec = decode_encode_file[OF assms(3), of "lf_murmur3 lf"]
  have "local_inv lf st'"
    unfolding local_inv_def
  proof (intro allI impI)
    fix k' bs assume "plain_key k'" "st_files st' (plain_path (lf_root lf) k') = Some bs"
    then show "is_ok (decode_file (lf_murmur3 lf) bs)"
      using other[of k'] here dec assms(1) by (cases "k' = k") (auto simp: local_inv_def)
  qed
  then show ?thesis using other here dec by (auto simp: local_cell_def)
qed

interpretation local_files: durable_storage_laws "local_file_storage lf" "local_inv lf" "local_cell lf" plain_key
  for lf
proof
  fix st k fault st' found
  assume st: "local_inv lf st" "plain_key k" and r: "ds_read (local_file_storage lf) fault k st = (st', found)"
  then show "st' = st \<and> (found = Inr (local_cell lf st k) \<or> (\<exists>e. found = Inl e))"
    by (auto simp: local_file_storage_def local_read_def durable_path_plain with_file_lock_def
          read_file_cell[OF st] split: if_splits)
next
  fix st k payload fault expected st' r
  assume st: "local_inv lf st" "plain_key k" and len: "length (payload :: u8 list) < 2 ^ 63"
    and r: "ds_compare_exchange (local_file_storage lf) fault k expected payload st = (st', r)"
  show "local_inv lf st' \<and> (\<forall>k'. plain_key k' \<longrightarrow> k' \<noteq> k \<longrightarrow> local_cell lf st' k' = local_cell lf st k') \<and>
       (local_cell lf st' k = local_cell lf st k \<and>
          ((\<exists>e. r = Inl e) \<or> r = Inr (Conflict (local_cell lf st k)) \<and>
             map_option dv_revision (local_cell lf st k) \<noteq> expected) \<or>
        (\<exists>v. replaces (local_cell lf st k) expected payload v \<and> local_cell lf st' k = Some v \<and>
             (r = Inr (Applied v) \<or> (\<exists>e. r = Inl e))))"
  proof (cases "fault = Lock_fault \<or> fault = Read_fault \<or> map_option dv_revision (local_cell lf st k) \<noteq> expected \<or>
      (\<exists>e. next_revision expected = Inl e)")
    case True
    then show ?thesis
      using r st
      by (auto simp: local_file_storage_def local_compare_exchange_def durable_path_plain with_file_lock_def
            read_file_cell[OF st] split: if_splits)
  next
    case False
    then obtain revision where rev: "next_revision expected = Inr revision" by (cases "next_revision expected") auto
    let ?v = "\<lparr>dv_revision = revision, dv_payload = payload\<rparr>"
    obtain st1 w where w: "write_file lf fault (plain_path (lf_root lf) k) ?v st = (st1, w)" by fastforce
    have "st' = st1 \<and> (r = (case w of Inl e \<Rightarrow> Inl e | Inr _ \<Rightarrow> Inr (Applied ?v)) \<or> (\<exists>e. r = Inl e))"
      using r st False rev w
      by (auto simp: local_file_storage_def local_compare_exchange_def durable_path_plain with_file_lock_def
            read_file_cell[OF st] Let_def split: if_splits)
    moreover have "replaces (local_cell lf st k) expected payload ?v"
      using False rev by (simp add: replaces_def)
    ultimately show ?thesis
      using write_file_cell[OF st _ w] len by (cases w) auto
  qed
qed

subsection \<open>Properties\<close>

text \<open>
  C30 (durable file format). Decoding accepts exactly the encodings: a file is read as a value if and
  only if it is the complete image of that value, its checksum included. So a value survives a
  restart unchanged, and a truncated, extended or altered image that is not itself an encoding is
  rejected.
\<close>

theorem durable_file_roundtrip:
  assumes "length (dv_payload v) < 2 ^ 63" and "length bytes < 2 ^ 63"
  shows "decode_file murmur3 bytes = Inr v \<longleftrightarrow> bytes = encode_file murmur3 v"
  using decode_encode_file[OF assms(1)] encode_decode_file[OF _ assms(2)] by blast

theorem durable_file_roundtrip_witness:
  "decode_file (\<lambda>bs. of_nat (length bs)) (encode_file (\<lambda>bs. of_nat (length bs)) \<lparr>dv_revision = 300, dv_payload = [1, 2]\<rparr>) =
     Inr \<lparr>dv_revision = 300, dv_payload = [1, 2]\<rparr>"
proof -
  have "length (encode_file (\<lambda>bs. of_nat (length bs)) \<lparr>dv_revision = 300, dv_payload = [1, 2]\<rparr>) < 2 ^ 63"
    by (simp add: encode_file_def Let_def)
  then show ?thesis
    using durable_file_roundtrip[of "\<lparr>dv_revision = 300, dv_payload = [1, 2]\<rparr>"] by simp
qed

text \<open>
  C31 (atomic compare-and-exchange). For plain keys and payloads below 2^63 bytes: whatever system call
  fails, and wherever a write stops because of an error or because the process dies, a
  compare-and-exchange leaves the key with its old value or with the complete new one; other keys
  keep theirs. \<open>Applied\<close> means that the expected revision was current and the new value is stored at
  the next one, \<open>Conflict\<close> returns the current value and changes nothing, and without a fault, when
  the temporary name is free, the exchange is applied exactly if the revisions agree.
\<close>

theorem compare_exchange_atomic:
  assumes "local_inv lf st" and "plain_key k" and "length payload < 2 ^ 63"
    and "local_compare_exchange lf fault k expected payload st = (st', r)"
  shows "local_inv lf st' \<and>
    (\<forall>k'. plain_key k' \<longrightarrow> k' \<noteq> k \<longrightarrow> local_cell lf st' k' = local_cell lf st k') \<and>
    (local_cell lf st' k = local_cell lf st k \<or>
       (\<exists>v. replaces (local_cell lf st k) expected payload v \<and> local_cell lf st' k = Some v)) \<and>
    (\<forall>v. r = Inr (Applied v) \<longrightarrow> replaces (local_cell lf st k) expected payload v \<and> local_cell lf st' k = Some v) \<and>
    (\<forall>c. r = Inr (Conflict c) \<longrightarrow>
       c = local_cell lf st k \<and> local_cell lf st' k = c \<and> map_option dv_revision c \<noteq> expected) \<and>
    (fault = No_fault \<and> is_ok (next_revision expected) \<and>
       st_files st (temporary_path lf (plain_path (lf_root lf) k) (st_sequence st)) = None \<longrightarrow>
       ((\<exists>v. r = Inr (Applied v)) \<longleftrightarrow> map_option dv_revision (local_cell lf st k) = expected))"
proof -
  note law = local_files.exchange_law[of lf st k payload fault expected st' r, OF assms(1-3)]
  have "\<exists>v. r = Inr (Applied v)"
    if n: "fault = No_fault" "is_ok (next_revision expected)" "map_option dv_revision (local_cell lf st k) = expected"
      "st_files st (temporary_path lf (plain_path (lf_root lf) k) (st_sequence st)) = None"
  proof -
    obtain revision where "next_revision expected = Inr revision" using n(2) by (auto simp: is_ok_iff)
    moreover have "plain_path (lf_root lf) k \<noteq> []" by (simp add: plain_path_def)
    ultimately show ?thesis
      using assms n read_file_cell[OF assms(1,2), of No_fault]
      by (auto simp: local_compare_exchange_def durable_path_plain with_file_lock_def Let_def write_file_def
            fs_apply_def)
  qed
  then show ?thesis
    using law assms(4) by (auto simp: local_file_storage_def replaces_def)
qed

definition example_lf :: local_file_durable_storage where
  "example_lf = \<lparr>lf_root = [''state''], lf_process_id = 7, lf_murmur3 = \<lambda>bs. of_nat (length bs)\<rparr>"

definition example_durable :: durable_state where
  "example_durable = \<lparr>st_files = \<lambda>_. None, st_sequence = 0, st_leases = []\<rparr>"

lemma empty_local_inv: "st_files st = (\<lambda>_. None) \<Longrightarrow> local_inv lf st"
  by (simp add: local_inv_def)

theorem compare_exchange_atomic_witness:
  "plain_key ''offset'' \<and>
   local_cell example_lf (fst (local_compare_exchange example_lf (Write_fault 2 9) ''offset'' None [1] example_durable)) ''offset'' = None \<and>
   (\<exists>v. snd (local_compare_exchange example_lf No_fault ''offset'' None [1] example_durable) = Inr (Applied v))"
proof -
  have k: "plain_key ''offset''" by code_simp
  have i: "local_inv example_lf example_durable" by (simp add: empty_local_inv example_durable_def)
  have none: "local_cell example_lf example_durable ''offset'' = None"
    by (simp add: local_cell_def example_durable_def)
  obtain s1 r1 where e1: "local_compare_exchange example_lf (Write_fault 2 9) ''offset'' None [1] example_durable = (s1, r1)"
    by fastforce
  obtain s2 r2 where e2: "local_compare_exchange example_lf No_fault ''offset'' None [1] example_durable = (s2, r2)"
    by fastforce
  have c: "local_cell example_lf s1 ''offset'' \<noteq> Some \<lparr>dv_revision = 0, dv_payload = [1]\<rparr>"
  proof -
    have "(case local_cell example_lf (fst (local_compare_exchange example_lf (Write_fault 2 9) ''offset'' None [1] example_durable)) ''offset''
        of None \<Rightarrow> True | Some _ \<Rightarrow> False)" by code_simp
    then show ?thesis by (auto simp: e1)
  qed
  have "local_cell example_lf s1 ''offset'' = None"
    using compare_exchange_atomic[OF i k _ e1] none c
    by (auto simp: replaces_def next_revision_def)
  moreover have "\<exists>v. r2 = Inr (Applied v)"
    using compare_exchange_atomic[OF i k _ e2] none by (simp add: next_revision_def example_durable_def)
  ultimately show ?thesis using k by (simp add: e1 e2)
qed

text \<open>
  Keys with dots are accepted too, and their extension is cut: two keys can name one file, and a
  component of two dots leaves the root.
\<close>

lemma dotted_keys_share_file: "durable_path [''state''] ''a.b'' = durable_path [''state''] ''a.c''"
  by code_simp

lemma parent_key_leaves_root: "durable_path [''state''] ''../x'' = Inr [''state'', ''..'', ''x.state'']"
  by code_simp

end
