(* ===== verification/Durable_Protocol.thy ===== *)
theory Durable_Protocol
  imports Durable
begin

section \<open>Concurrent executions over durable storage\<close>

text \<open>
  Connectors keep their recovery state under one durable key and change it only by
  compare-and-exchange. Their operations are asynchronous functions that stop at every storage call:
  here a program is a tree of storage calls with the code between them as its continuations. Any
  number of executions run such programs, interleaved at the calls, each call with any fault, and an
  execution may die and start again at any moment. The locale \<open>durable_protocol\<close> takes the contract
  of the storage and, of the client, that each program writes only what its protocol allows after
  what it has read; it gives that the stored value moves along the protocol in every
  interleaving. The lemmas are used by every client that is modelled.
\<close>

subsection \<open>Programs\<close>

datatype 'r dprog =
    Return 'r
  | Read_key string "(durable_error, durable_value option) res \<Rightarrow> 'r dprog"
  | Exchange string "u64 option" "u8 list" "(durable_error, compare_exchange_result) res \<Rightarrow> 'r dprog"

primrec dmap :: "('r \<Rightarrow> 's) \<Rightarrow> 'r dprog \<Rightarrow> 's dprog" where
  "dmap g (Return r) = Return (g r)"
| "dmap g (Read_key k f) = Read_key k (\<lambda>x. dmap g (f x))"
| "dmap g (Exchange k e p f) = Exchange k e p (\<lambda>x. dmap g (f x))"

primrec dbind :: "'r dprog \<Rightarrow> ('r \<Rightarrow> 's dprog) \<Rightarrow> 's dprog" where
  "dbind (Return r) g = g r"
| "dbind (Read_key k f) g = Read_key k (\<lambda>x. dbind (f x) g)"
| "dbind (Exchange k e p f) g = Exchange k e p (\<lambda>x. dbind (f x) g)"

text \<open>One execution alone, without faults.\<close>

primrec drun :: "'st durable_storage \<Rightarrow> 'r dprog \<Rightarrow> 'st \<Rightarrow> 'st \<times> 'r" where
  "drun ds (Return r) st = (st, r)"
| "drun ds (Read_key k f) st = (let (st', x) = ds_read ds No_fault k st in drun ds (f x) st')"
| "drun ds (Exchange k e p f) st =
     (let (st', x) = ds_compare_exchange ds No_fault k e p st in drun ds (f x) st')"

text \<open>
  JSON encoding of a state by \<^verbatim>\<open>serde_json\<close>: a library, so a parameter; it is relied on to read back
  what it wrote, in a buffer that fits in memory.
\<close>

record 'a json_codec =
  js_to_vec :: "'a \<Rightarrow> (string, u8 list) res"
  js_from_slice :: "u8 list \<Rightarrow> (string, 'a) res"

definition json_laws :: "'a json_codec \<Rightarrow> bool" where
  "json_laws js \<longleftrightarrow>
     (\<forall>a bs. js_to_vec js a = Inr bs \<longrightarrow> js_from_slice js bs = Inr a \<and> length bs < 2 ^ 63)"

definition decodes :: "'a json_codec \<Rightarrow> ('a \<Rightarrow> bool) \<Rightarrow> u8 list \<Rightarrow> bool" where
  "decodes js P p \<longleftrightarrow> (\<exists>a. js_from_slice js p = Inr a \<and> P a)"

definition decodes2 :: "'a json_codec \<Rightarrow> ('a \<Rightarrow> 'a \<Rightarrow> bool) \<Rightarrow> u8 list \<Rightarrow> u8 list \<Rightarrow> bool" where
  "decodes2 js R p q \<longleftrightarrow> (\<exists>a b. js_from_slice js p = Inr a \<and> js_from_slice js q = Inr b \<and> R a b)"

text \<open>
  What every client does to write a state: encode it, exchange it for the revision it knows, and act on
  the four outcomes. The tracker of a client is the revision and state it wrote or read last.
\<close>

definition exchange_state ::
  "'a json_codec \<Rightarrow> string \<Rightarrow> u64 option \<Rightarrow> 'a \<Rightarrow> (string \<Rightarrow> 'r) \<Rightarrow> (durable_error \<Rightarrow> 'r) \<Rightarrow> 'r \<Rightarrow>
   (durable_value \<Rightarrow> 'r) \<Rightarrow> 'r dprog" where
  "exchange_state js key expected state not_encoded failed conflict applied =
     (case js_to_vec js state of
        Inl e \<Rightarrow> Return (not_encoded e)
      | Inr payload \<Rightarrow>
          Exchange key expected payload (\<lambda>r.
            case r of
              Inl e \<Rightarrow> Return (failed e)
            | Inr (Conflict _) \<Rightarrow> Return conflict
            | Inr (Applied v) \<Rightarrow> Return (applied v)))"

record 'a tracker =
  tk_key :: string
  tk_revision :: u64
  tk_identity :: 'a

text \<open>A codec that meets the law: the given one, or else one that encodes nothing.\<close>

definition lawful :: "'a json_codec \<Rightarrow> 'a json_codec" where
  "lawful js = (if json_laws js then js else js\<lparr>js_to_vec := \<lambda>_. Inl []\<rparr>)"

lemma lawful_laws [simp]: "json_laws (lawful js)"
  by (simp add: lawful_def json_laws_def)

lemma lawful_id [simp]: "json_laws js \<Longrightarrow> lawful js = js"
  by (simp add: lawful_def)

lemma json_lawsD:
  assumes "json_laws js" "js_to_vec js a = Inr bs"
  shows "js_from_slice js bs = Inr a" "length bs < 2 ^ 63"
  using assms by (auto simp: json_laws_def)

text \<open>A lawful codec for finitely many states, for concrete runs: the position in a list, in unary.\<close>

definition list_json :: "'a list \<Rightarrow> 'a json_codec" where
  "list_json states =
     \<lparr>js_to_vec = \<lambda>a.
        (case find (\<lambda>(i, b). a = b) (enumerate 0 states) of
           None \<Rightarrow> Inl ''unsupported'' | Some (i, _) \<Rightarrow> Inr (replicate i 1)),
      js_from_slice = \<lambda>bs.
        if length bs < length states then Inr (states ! length bs) else Inl ''unsupported''\<rparr>"

lemma list_json_laws:
  assumes "length states < 2 ^ 63"
  shows "json_laws (list_json states)"
proof -
  have "i < length states \<and> states ! i = a" if "find (\<lambda>(i, b). a = b) (enumerate 0 states) = Some (i, b)" for a i b
  proof -
    have "(i, b) \<in> set (enumerate 0 states)" "a = b"
      using that by (auto simp: find_Some_iff in_set_conv_nth)
    then show ?thesis by (auto simp: in_set_enumerate_eq)
  qed
  then show ?thesis
    using assms by (force simp: json_laws_def list_json_def split: option.splits)
qed

subsection \<open>Executions\<close>

datatype 'tr execution = Idle "'tr option" | Running "'tr option dprog"

inductive dsys_step ::
  "'st durable_storage \<Rightarrow> ('tr option \<Rightarrow> 'tr option dprog set) \<Rightarrow>
   'st \<times> (nat \<Rightarrow> 'tr execution) \<Rightarrow> 'st \<times> (nat \<Rightarrow> 'tr execution) \<Rightarrow> bool"
  for ds calls where
  call: "ths i = Idle t \<Longrightarrow> p \<in> calls t \<Longrightarrow> dsys_step ds calls (st, ths) (st, ths(i := Running p))"
| finish: "ths i = Running (Return t) \<Longrightarrow> dsys_step ds calls (st, ths) (st, ths(i := Idle t))"
| read: "ths i = Running (Read_key k f) \<Longrightarrow> ds_read ds fault k st = (st', x) \<Longrightarrow>
    dsys_step ds calls (st, ths) (st', ths(i := Running (f x)))"
| exchange: "ths i = Running (Exchange k e p f) \<Longrightarrow> ds_compare_exchange ds fault k e p st = (st', y) \<Longrightarrow>
    dsys_step ds calls (st, ths) (st', ths(i := Running (f y)))"
| crash: "dsys_step ds calls (st, ths) (st, ths(i := Idle None))"

inductive dsys_reach ::
  "'st durable_storage \<Rightarrow> ('tr option \<Rightarrow> 'tr option dprog set) \<Rightarrow> 'st \<Rightarrow>
   'st \<times> (nat \<Rightarrow> 'tr execution) \<Rightarrow> bool"
  for ds calls st0 where
  start: "dsys_reach ds calls st0 (st0, \<lambda>_. Idle None)"
| step: "dsys_reach ds calls st0 s \<Longrightarrow> dsys_step ds calls s s' \<Longrightarrow> dsys_reach ds calls st0 s'"

inductive_cases dsys_stepE: "dsys_step ds calls (st, ths) s'"

text \<open>An execution may run a whole call without being interrupted.\<close>

lemma drun_steps:
  assumes "ths i = Running p" "drun ds p st = (st', t)"
  shows "(dsys_step ds calls)\<^sup>*\<^sup>* (st, ths) (st', ths(i := Idle t))"
  using assms
proof (induction p arbitrary: st ths)
  case (Return r)
  then have "dsys_step ds calls (st, ths) (st', ths(i := Idle t))" using dsys_step.finish[of ths i t] by auto
  then show ?case by (rule r_into_rtranclp)
next
  case (Read_key k f)
  obtain st1 x where x: "ds_read ds No_fault k st = (st1, x)" by fastforce
  have "(dsys_step ds calls)\<^sup>*\<^sup>* (st1, ths(i := Running (f x))) (st', (ths(i := Running (f x)))(i := Idle t))"
    by (rule Read_key.IH) (use Read_key.prems x in auto)
  note rest = this[unfolded fun_upd_upd]
  have "dsys_step ds calls (st, ths) (st1, ths(i := Running (f x)))"
    using Read_key.prems(1) x by (rule dsys_step.read)
  then show ?case using rest by (rule converse_rtranclp_into_rtranclp)
next
  case (Exchange k e p f)
  obtain st1 x where x: "ds_compare_exchange ds No_fault k e p st = (st1, x)" by fastforce
  have "(dsys_step ds calls)\<^sup>*\<^sup>* (st1, ths(i := Running (f x))) (st', (ths(i := Running (f x)))(i := Idle t))"
    by (rule Exchange.IH) (use Exchange.prems x in auto)
  note rest = this[unfolded fun_upd_upd]
  have "dsys_step ds calls (st, ths) (st1, ths(i := Running (f x)))"
    using Exchange.prems(1) x by (rule dsys_step.exchange)
  then show ?case using rest by (rule converse_rtranclp_into_rtranclp)
qed

lemma drun_call_steps:
  assumes "ths i = Idle t" "p \<in> calls t" "drun ds p st = (st', t')"
  shows "(dsys_step ds calls)\<^sup>*\<^sup>* (st, ths) (st', ths(i := Idle t'))"
  using converse_rtranclp_into_rtranclp[where r = "dsys_step ds calls", OF dsys_step.call[of ths i t p calls ds st, OF assms(1,2)]]
    drun_steps[of "ths(i := Running p)" i p ds st st' t' calls] assms(3) by simp

lemma dsys_reach_steps:
  "(dsys_step ds calls)\<^sup>*\<^sup>* s s' \<Longrightarrow> dsys_reach ds calls st0 s \<Longrightarrow> dsys_reach ds calls st0 s'"
  by (induction rule: rtranclp_induct) (auto intro: dsys_reach.step)

text \<open>One execution that makes its calls one after the other, for concrete runs.\<close>

fun solo_run ::
  "'st durable_storage \<Rightarrow> (nat \<Rightarrow> 'tr option \<Rightarrow> 'tr option dprog) \<Rightarrow> 'st \<Rightarrow> nat \<Rightarrow> 'st \<times> 'tr option" where
  "solo_run ds f st0 0 = (st0, None)"
| "solo_run ds f st0 (Suc n) = (let (st, t) = solo_run ds f st0 n in drun ds (f n t) st)"

definition solo_state ::
  "'st durable_storage \<Rightarrow> (nat \<Rightarrow> 'tr option \<Rightarrow> 'tr option dprog) \<Rightarrow> 'st \<Rightarrow> nat \<Rightarrow> 'st \<times> (nat \<Rightarrow> 'tr execution)" where
  "solo_state ds f st0 n =
     (fst (solo_run ds f st0 n), (\<lambda>_. Idle None)(0 := Idle (snd (solo_run ds f st0 n))))"

lemma fst_solo_state [simp]: "fst (solo_state ds f st0 n) = fst (solo_run ds f st0 n)"
  by (simp add: solo_state_def)

lemma solo_steps:
  assumes "\<forall>n t. f n t \<in> calls t" "n \<le> m"
  shows "(dsys_step ds calls)\<^sup>*\<^sup>* (solo_state ds f st0 n) (solo_state ds f st0 m)"
  using assms(2)
proof (induction m)
  case (Suc m)
  show ?case
  proof (cases "n = Suc m")
    case False
    obtain st t where r: "solo_run ds f st0 m = (st, t)" by fastforce
    obtain st' t' where r': "drun ds (f m t) st = (st', t')" by fastforce
    have "(dsys_step ds calls)\<^sup>*\<^sup>* (st, (\<lambda>_. Idle None)(0 := Idle t)) (st', ((\<lambda>_. Idle None)(0 := Idle t))(0 := Idle t'))"
      by (rule drun_call_steps[of "(\<lambda>_. Idle None)(0 := Idle t)" 0 t "f m t" calls ds]) (simp_all add: assms(1) r')
    then have "(dsys_step ds calls)\<^sup>*\<^sup>* (solo_state ds f st0 m) (solo_state ds f st0 (Suc m))"
      by (simp add: solo_state_def r r')
    moreover have "(dsys_step ds calls)\<^sup>*\<^sup>* (solo_state ds f st0 n) (solo_state ds f st0 m)"
      using Suc False by simp
    ultimately show ?thesis by (rule rtranclp_trans[rotated])
  qed simp
qed simp

lemma solo_reach:
  assumes "\<forall>n t. f n t \<in> calls t"
  shows "dsys_reach ds calls st0 (solo_state ds f st0 n)"
proof -
  have "dsys_reach ds calls st0 (solo_state ds f st0 0)"
    by (simp add: solo_state_def fun_upd_idem dsys_reach.start)
  with solo_steps[OF assms le0] show ?thesis by (rule dsys_reach_steps)
qed

lemma drun_dmap: "drun ds (dmap g p) st = (fst (drun ds p st), g (snd (drun ds p st)))"
  by (induction p arbitrary: st) (auto split: prod.splits)

subsection \<open>Histories\<close>

text \<open>The payloads a key had, oldest first; the revision is the position.\<close>

definition hist_cell :: "u8 list list \<Rightarrow> durable_value option" where
  "hist_cell h =
     (if h = [] then None else Some \<lparr>dv_revision = of_nat (length h - 1), dv_payload = last h\<rparr>)"

definition chain :: "(u8 list \<Rightarrow> bool) \<Rightarrow> (u8 list \<Rightarrow> u8 list \<Rightarrow> bool) \<Rightarrow> u8 list list \<Rightarrow> bool" where
  "chain init nxt h \<longleftrightarrow>
     length h \<le> 2 ^ 64 \<and> (h \<noteq> [] \<longrightarrow> init (hd h)) \<and> (\<forall>i. Suc i < length h \<longrightarrow> nxt (h ! i) (h ! Suc i))"

definition at_revision :: "u8 list list \<Rightarrow> u64 \<Rightarrow> u8 list \<Rightarrow> bool" where
  "at_revision h r p \<longleftrightarrow> unat r < length h \<and> h ! unat r = p"

definition extends :: "u8 list list \<Rightarrow> u8 list list \<Rightarrow> bool" where
  "extends h h' \<longleftrightarrow> (\<exists>t. h' = h @ t)"

text \<open>
  A program keeps the protocol of a key from a history on: it only uses that key and allowed other
  keys, whose calls may return anything, creates the key with an initial payload, replaces a payload it knows by one the protocol allows, and its result satisfies
  \<open>post\<close>; between its calls the history may grow. A conflict means that the newest revision is another
  than the expected one. After an error either may have happened.
\<close>

primrec keeps_among ::
  "(string \<Rightarrow> bool) \<Rightarrow> string \<Rightarrow> (u8 list \<Rightarrow> bool) \<Rightarrow> (u8 list \<Rightarrow> u8 list \<Rightarrow> bool) \<Rightarrow>
   (u8 list list \<Rightarrow> 'r \<Rightarrow> bool) \<Rightarrow> 'r dprog \<Rightarrow> u8 list list \<Rightarrow> bool" where
  "keeps_among others key init nxt post (Return r) h = post h r"
| "keeps_among others key init nxt post (Read_key k f) h =
     (if k = key then
        \<forall>h'. extends h h' \<and> chain init nxt h' \<longrightarrow>
          keeps_among others key init nxt post (f (Inr (hist_cell h'))) h' \<and>
          (\<forall>e. keeps_among others key init nxt post (f (Inl e)) h')
      else others k \<and>
        (\<forall>h' x. extends h h' \<and> chain init nxt h' \<longrightarrow> keeps_among others key init nxt post (f x) h'))"
| "keeps_among others key init nxt post (Exchange k x p f) h =
     (length p < 2 ^ 63 \<and>
      (if k = key then
         (case x of None \<Rightarrow> init p | Some r \<Rightarrow> (\<exists>q. at_revision h r q \<and> nxt q p)) \<and>
         (\<forall>h'. extends h h' \<and> chain init nxt h' \<longrightarrow>
            (\<forall>e. keeps_among others key init nxt post (f (Inl e)) h') \<and>
            (map_option dv_revision (hist_cell h') \<noteq> x \<longrightarrow>
               keeps_among others key init nxt post (f (Inr (Conflict (hist_cell h')))) h') \<and>
            (\<forall>v. hist_cell h' = Some v \<and> dv_payload v = p \<longrightarrow>
               keeps_among others key init nxt post (f (Inr (Applied v))) h'))
       else others k \<and>
         (\<forall>h' y. extends h h' \<and> chain init nxt h' \<longrightarrow> keeps_among others key init nxt post (f y) h')))"

abbreviation keeps ::
  "string \<Rightarrow> (u8 list \<Rightarrow> bool) \<Rightarrow> (u8 list \<Rightarrow> u8 list \<Rightarrow> bool) \<Rightarrow> (u8 list list \<Rightarrow> 'r \<Rightarrow> bool) \<Rightarrow>
   'r dprog \<Rightarrow> u8 list list \<Rightarrow> bool" where
  "keeps \<equiv> keeps_among (\<lambda>_. False)"

lemma extends_refl [simp, intro]: "extends h h"
  by (simp add: extends_def)

lemma extends_trans [trans]: "extends h h' \<Longrightarrow> extends h' h'' \<Longrightarrow> extends h h''"
  by (auto simp: extends_def)

lemma extends_snoc [simp, intro]: "extends h (h @ [p])"
  by (simp add: extends_def)

lemma at_revision_extends: "extends h h' \<Longrightarrow> at_revision h r p \<Longrightarrow> at_revision h' r p"
  by (auto simp: extends_def at_revision_def nth_append)

lemma keeps_extends:
  assumes "\<And>r. post h r \<Longrightarrow> post h' r"
  shows "keeps_among others key init nxt post p h \<Longrightarrow> extends h h' \<Longrightarrow> keeps_among others key init nxt post p h'"
  using assms by (cases p) (auto intro: extends_trans at_revision_extends split: option.splits if_splits)

lemma keeps_dmap:
  "keeps_among others key init nxt post (dmap g p) h \<longleftrightarrow> keeps_among others key init nxt (\<lambda>h r. post h (g r)) p h"
  by (induction p arbitrary: h) simp_all

lemma keeps_dbind:
  "keeps_among others key init nxt post (dbind p f) h \<longleftrightarrow>
     keeps_among others key init nxt (\<lambda>h r. keeps_among others key init nxt post (f r) h) p h"
  by (induction p arbitrary: h) simp_all

lemma keeps_mono:
  assumes "keeps_among others key init nxt post p h" "chain init nxt h"
    and "\<And>h' r. extends h h' \<Longrightarrow> chain init nxt h' \<Longrightarrow> post h' r \<Longrightarrow> post' h' r"
  shows "keeps_among others key init nxt post' p h"
  using assms
proof (induction p arbitrary: h)
  case (Read_key k f)
  have "keeps_among others key init nxt post' (f y) h'"
    if "keeps_among others key init nxt post (f y) h'" "extends h h'" "chain init nxt h'" for y h'
    using that Read_key.prems(3) by (intro Read_key.IH[of "f y" h']) (auto intro: extends_trans)
  then show ?case using Read_key.prems(1) by (auto split: if_splits)
next
  case (Exchange k x p f)
  have "keeps_among others key init nxt post' (f y) h'"
    if "keeps_among others key init nxt post (f y) h'" "extends h h'" "chain init nxt h'" for y h'
    using that Exchange.prems(3) by (intro Exchange.IH[of "f y" h']) (auto intro: extends_trans)
  then show ?case using Exchange.prems(1) by (auto split: if_splits)
qed simp

text \<open>A program that uses one other key keeps the protocol, whatever it returns.\<close>

primrec uses :: "string \<Rightarrow> 'r dprog \<Rightarrow> bool" where
  "uses k (Return r) = True"
| "uses k (Read_key k' f) = (k' = k \<and> (\<forall>x. uses k (f x)))"
| "uses k (Exchange k' e p f) = (k' = k \<and> length p < 2 ^ 63 \<and> (\<forall>x. uses k (f x)))"

lemma keeps_uses:
  assumes "uses k p" "k \<noteq> key" "others k" "chain init nxt h"
    and "\<And>h' r. extends h h' \<Longrightarrow> chain init nxt h' \<Longrightarrow> post h' r"
  shows "keeps_among others key init nxt post p h"
  using assms
proof (induction p arbitrary: h)
  case (Read_key k' f)
  have "keeps_among others key init nxt post (f x) h'" if "extends h h'" "chain init nxt h'" for x h'
    using that Read_key.prems by (intro Read_key.IH[of "f x" h']) (auto intro: extends_trans)
  then show ?case using Read_key.prems by auto
next
  case (Exchange k' e p f)
  have "keeps_among others key init nxt post (f x) h'" if "extends h h'" "chain init nxt h'" for x h'
    using that Exchange.prems by (intro Exchange.IH[of "f x" h']) (auto intro: extends_trans)
  then show ?case using Exchange.prems by auto
qed simp

lemma of_nat_length_inj:
  assumes "chain init nxt h" "h \<noteq> []"
  shows "unat (of_nat (length h - Suc 0) :: u64) = length h - Suc 0"
  using assms by (intro of_nat_small) (cases h, auto simp: chain_def)

lemma hist_cell_at_revision:
  "chain init nxt h \<Longrightarrow> hist_cell h = Some v \<Longrightarrow> at_revision h (dv_revision v) (dv_payload v)"
  using of_nat_length_inj[of init nxt h]
  by (auto simp: hist_cell_def at_revision_def last_conv_nth split: if_splits)

lemma hist_cell_simps [simp]: "hist_cell [] = None" "hist_cell h = None \<longleftrightarrow> h = []"
  by (simp_all add: hist_cell_def)

lemma chain_Nil [simp]: "chain init nxt []"
  by (simp add: chain_def)

text \<open>A value that replaces the newest one of a history extends it.\<close>

lemma replaces_extends:
  assumes "replaces (hist_cell h) x p v" "chain init nxt h"
    and "case x of None \<Rightarrow> init p | Some r \<Rightarrow> (\<exists>q. at_revision h r q \<and> nxt q p)"
  shows "chain init nxt (h @ [p]) \<and> hist_cell (h @ [p]) = Some v"
proof (cases x)
  case None
  then have "h = []" "init p" "dv_revision v = 0" "dv_payload v = p"
    using assms by (simp_all add: replaces_def next_revision_def)
  then show ?thesis by (auto simp: chain_def hist_cell_def intro: durable_value.equality)
next
  case (Some r)
  then have r: "hist_cell h = Some \<lparr>dv_revision = r, dv_payload = last h\<rparr>" "h \<noteq> []" "r = of_nat (length h - 1)"
    and v: "unat (dv_revision v) = unat r + 1" "dv_payload v = p"
    using assms(1)
    by (auto simp: replaces_def next_revision_def hist_cell_def checked_add_eq_Some split: if_splits option.splits)
  have ur: "unat r = length h - 1" using r of_nat_length_inj[OF assms(2)] by simp
  have len: "length h < 2 ^ 64" using v(1) ur r(2) unat_less_pow[of "dv_revision v"] by (cases h) auto
  have "dv_revision v = of_nat (length h)"
    using v(1) ur r(2) len by (simp add: word_unat_eq_iff of_nat_small)
  moreover have "nxt (h ! i) p" if "Suc i = length h" for i
    using assms(3) Some ur that[symmetric] by (auto simp: at_revision_def)
  ultimately show ?thesis
    using assms(2) v(2) r(2) len
    by (auto simp: chain_def hist_cell_def nth_append less_Suc_eq intro: durable_value.equality)
qed

definition tracker_ok :: "'a json_codec \<Rightarrow> string \<Rightarrow> u8 list list \<Rightarrow> 'a tracker option \<Rightarrow> bool" where
  "tracker_ok js key h t \<longleftrightarrow>
     (\<forall>t'. t = Some t' \<longrightarrow> tk_key t' = key \<and>
        (\<exists>p. at_revision h (tk_revision t') p \<and> js_from_slice js p = Inr (tk_identity t')))"

lemma tracker_ok_simps [simp]:
  "tracker_ok js key h None"
  "tracker_ok js key h (Some t) \<longleftrightarrow>
     tk_key t = key \<and> (\<exists>p. at_revision h (tk_revision t) p \<and> js_from_slice js p = Inr (tk_identity t))"
  by (simp_all add: tracker_ok_def)

lemma tracker_ok_extends: "tracker_ok js key h t \<Longrightarrow> extends h h' \<Longrightarrow> tracker_ok js key h' t"
  by (cases t) (auto intro: at_revision_extends)

lemma exchange_state_keeps:
  assumes js: "json_laws js"
    and known: "case expected of None \<Rightarrow> I state
      | Some r \<Rightarrow> (\<exists>q a. at_revision h r q \<and> js_from_slice js q = Inr a \<and> R a state)"
    and other: "\<And>h' e. extends h h' \<Longrightarrow> post h' (not_encoded e)" "\<And>h' e. extends h h' \<Longrightarrow> post h' (failed e)"
      "\<And>h'. extends h h' \<Longrightarrow> post h' conflict"
    and success: "\<And>h' v. extends h h' \<Longrightarrow> at_revision h' (dv_revision v) (dv_payload v) \<Longrightarrow>
      js_from_slice js (dv_payload v) = Inr state \<Longrightarrow> post h' (applied v)"
  shows "keeps key (decodes js I) (decodes2 js R) post
    (exchange_state js key expected state not_encoded failed conflict applied) h"
proof (cases "js_to_vec js state")
  case (Inr payload)
  note p = json_lawsD[OF js Inr]
  have "case expected of None \<Rightarrow> decodes js I payload
      | Some r \<Rightarrow> \<exists>q. at_revision h r q \<and> decodes2 js R q payload"
    using known p by (auto simp: decodes_def decodes2_def split: option.splits)
  then show ?thesis
    using Inr p other success hist_cell_at_revision by (auto simp: exchange_state_def)
qed (simp add: exchange_state_def other)

text \<open>The state stored under a key of the local files.\<close>

definition stored ::
  "local_file_durable_storage \<Rightarrow> 'a json_codec \<Rightarrow> string \<Rightarrow> durable_state \<Rightarrow> 'a option" where
  "stored lf js key st =
     (case local_cell lf st key of
        None \<Rightarrow> None
      | Some v \<Rightarrow> (case js_from_slice js (dv_payload v) of Inl _ \<Rightarrow> None | Inr a \<Rightarrow> Some a))"

lemma stored_Some:
  "stored lf js key st = Some a \<longleftrightarrow> (\<exists>v. local_cell lf st key = Some v \<and> js_from_slice js (dv_payload v) = Inr a)"
  by (auto simp: stored_def split: option.splits sum.splits)

lemma decodes2_path:
  assumes "(decodes2 js R)\<^sup>*\<^sup>* p q" "js_from_slice js p = Inr a"
  shows "\<exists>b. js_from_slice js q = Inr b \<and> R\<^sup>*\<^sup>* a b"
  using assms(1)
proof (induction rule: rtranclp_induct)
  case base
  then show ?case using assms(2) by blast
next
  case (step y z)
  then show ?case by (auto simp: decodes2_def intro: rtranclp.rtrancl_into_rtrancl)
qed

lemma chain_path:
  assumes "chain init nxt h" "i \<le> j" "j < length h"
  shows "nxt\<^sup>*\<^sup>* (h ! i) (h ! j)"
  using assms(2,3)
proof (induction j)
  case (Suc j)
  show ?case
  proof (cases "i = Suc j")
    case False
    then have "nxt\<^sup>*\<^sup>* (h ! i) (h ! j)" "nxt (h ! j) (h ! Suc j)" using Suc assms(1) by (auto simp: chain_def)
    then show ?thesis by (rule rtranclp.rtrancl_into_rtrancl)
  qed simp
qed simp

lemma chain_decodes:
  assumes "chain (decodes js I) (decodes2 js R) h" "h \<noteq> []"
  shows "\<exists>a b. I a \<and> R\<^sup>*\<^sup>* a b \<and> js_from_slice js (hd h) = Inr a \<and> js_from_slice js (last h) = Inr b"
proof -
  obtain a where a: "js_from_slice js (hd h) = Inr a" "I a" using assms by (auto simp: chain_def decodes_def)
  have "(decodes2 js R)\<^sup>*\<^sup>* (hd h) (last h)"
    using chain_path[OF assms(1), of 0 "length h - 1"] assms(2) by (simp add: hd_conv_nth last_conv_nth)
  then show ?thesis using decodes2_path[OF _ a(1)] a by blast
qed

lemma drun_exchange_state:
  assumes "json_laws js" "local_inv lf st" "plain_key key"
    and "drun (local_file_storage lf) (exchange_state js key x a not_encoded failed conflict applied) st = (st', r)"
    and "r \<notin> range not_encoded" "r \<notin> range failed" "r \<noteq> conflict"
  shows "\<exists>v. r = applied v \<and> local_cell lf st' key = Some v \<and> js_from_slice js (dv_payload v) = Inr a \<and>
    map_option dv_revision (local_cell lf st key) = x"
proof (cases "js_to_vec js a")
  case (Inr payload)
  note p = json_lawsD[OF assms(1) Inr]
  obtain y where y: "ds_compare_exchange (local_file_storage lf) No_fault key x payload st = (st', y)"
    and r: "r = (case y of Inl e \<Rightarrow> failed e | Inr (Conflict _) \<Rightarrow> conflict | Inr (Applied v) \<Rightarrow> applied v)"
    using assms(4) Inr
    by (auto simp: exchange_state_def split: prod.splits sum.splits compare_exchange_result.splits)
  then obtain v where "y = Inr (Applied v)"
    using assms(5-7) by (auto split: sum.splits compare_exchange_result.splits)
  then show ?thesis
    using local_files.exchange_law[OF assms(2,3) p(2) y] r p(1) by (auto simp: replaces_def)
qed (use assms in \<open>auto simp: exchange_state_def\<close>)

subsection \<open>Protocols\<close>

locale durable_protocol = durable_storage_laws ds inv cell good
  for ds :: "'st durable_storage"
    and inv :: "'st \<Rightarrow> bool"
    and cell :: "'st \<Rightarrow> string \<Rightarrow> durable_value option"
    and good :: "string \<Rightarrow> bool" +
  fixes key :: string
    and init :: "u8 list \<Rightarrow> bool"
    and nxt :: "u8 list \<Rightarrow> u8 list \<Rightarrow> bool"
    and ok :: "u8 list list \<Rightarrow> 'tr option \<Rightarrow> bool"
    and calls :: "'tr option \<Rightarrow> 'tr option dprog set"
    and others :: "string \<Rightarrow> bool"
  assumes good_key: "good key"
    and good_others: "others k \<Longrightarrow> good k"
    and start_ok: "ok h None"
    and calls_keep: "ok h t \<Longrightarrow> chain init nxt h \<Longrightarrow> p \<in> calls t \<Longrightarrow> keeps_among others key init nxt ok p h"
    and ok_extends: "ok h t \<Longrightarrow> extends h h' \<Longrightarrow> ok h' t"
begin

definition execution_ok :: "u8 list list \<Rightarrow> 'tr execution \<Rightarrow> bool" where
  "execution_ok h e = (case e of Idle t \<Rightarrow> ok h t | Running p \<Rightarrow> keeps_among others key init nxt ok p h)"

definition consistent :: "u8 list list \<Rightarrow> 'st \<times> (nat \<Rightarrow> 'tr execution) \<Rightarrow> bool" where
  "consistent h s \<longleftrightarrow>
     inv (fst s) \<and> cell (fst s) key = hist_cell h \<and> chain init nxt h \<and> (\<forall>i. execution_ok h (snd s i))"

lemma execution_ok_extends: "execution_ok h e \<Longrightarrow> extends h h' \<Longrightarrow> execution_ok h' e"
  by (auto simp: execution_ok_def intro: ok_extends keeps_extends split: execution.splits)

lemma consistentI:
  assumes "inv st" "cell st key = hist_cell h'" "chain init nxt h'" "extends h h'"
    and "\<And>j. execution_ok h (ths j)" "execution_ok h' e"
  shows "consistent h' (st, ths(i := e))"
  using assms by (auto simp: consistent_def intro: execution_ok_extends)

lemma step_consistent:
  assumes "dsys_step ds calls s s'" "consistent h s"
  shows "\<exists>h'. consistent h' s' \<and> (h' = h \<or> (\<exists>p. h' = h @ [p]))"
  using assms
proof cases
  case (call ths i t p st)
  then have "consistent h s'"
    using assms(2) calls_keep[of h t p]
    by (auto simp: consistent_def execution_ok_def dest: spec[of _ i])
  then show ?thesis by blast
next
  case (finish ths i t st)
  then have "keeps_among others key init nxt ok (Return t) h"
    using assms(2) by (auto simp: consistent_def execution_ok_def dest: spec[of _ i])
  then have "consistent h s'"
    using finish assms(2) by (auto simp: consistent_def execution_ok_def)
  then show ?thesis by blast
next
  case (read ths i k f fault st st' x)
  then have k: "keeps_among others key init nxt ok (Read_key k f) h" and c: "consistent h (st, ths)"
    using assms(2) by (auto simp: consistent_def execution_ok_def dest: spec[of _ i])
  have "good k" using k good_key good_others by (auto split: if_splits)
  then have "st' = st \<and> (k = key \<longrightarrow> x = Inr (hist_cell h) \<or> (\<exists>e. x = Inl e))"
    using c read read_law[of st k fault st' x] by (auto simp: consistent_def)
  then have "consistent h s'"
    using k c read by (auto simp: consistent_def execution_ok_def split: if_splits)
  then show ?thesis by blast
next
  case (exchange ths i k e p f fault st st' y)
  then have k: "keeps_among others key init nxt ok (Exchange k e p f) h" and c: "consistent h (st, ths)"
    using assms(2) by (auto simp: consistent_def execution_ok_def dest: spec[of _ i])
  have good: "good k" using k good_key good_others by (auto split: if_splits)
  have cell: "cell st key = hist_cell h" "chain init nxt h" using c by (simp_all add: consistent_def)
  note law = exchange_law[of st k p fault e st' y]
  have inv: "inv st'" using law k c exchange good by (auto simp: consistent_def)
  show ?thesis
  proof (cases "k = key")
    case False
    then have "cell st' key = cell st key" using law k c exchange good good_key by (auto simp: consistent_def)
    then have "consistent h s'"
      unfolding exchange(2) using inv cell c k False
      by (intro consistentI[of _ _ h]) (auto simp: consistent_def execution_ok_def split: if_splits)
    then show ?thesis by blast
  next
    case key: True
    have outcome: "cell st' key = hist_cell h \<and> ((\<exists>e. y = Inl e) \<or> y = Inr (Conflict (hist_cell h)) \<and> map_option dv_revision (hist_cell h) \<noteq> e) \<or>
        (\<exists>v. replaces (hist_cell h) e p v \<and> cell st' key = Some v \<and> (y = Inr (Applied v) \<or> (\<exists>e. y = Inl e)))"
      using law k c exchange good key by (auto simp: consistent_def)
    then show ?thesis
    proof
      assume o: "cell st' key = hist_cell h \<and>
        ((\<exists>e. y = Inl e) \<or> y = Inr (Conflict (hist_cell h)) \<and> map_option dv_revision (hist_cell h) \<noteq> e)"
      then have "execution_ok h (Running (f y))" using k cell(2) key by (auto simp: execution_ok_def)
      then have "consistent h s'"
        using inv o cell c exchange by (auto simp: consistent_def)
      then show ?thesis by blast
    next
      assume "\<exists>v. replaces (hist_cell h) e p v \<and> cell st' key = Some v \<and> (y = Inr (Applied v) \<or> (\<exists>e. y = Inl e))"
      then obtain v where v: "replaces (hist_cell h) e p v" "cell st' key = Some v"
        "y = Inr (Applied v) \<or> (\<exists>e. y = Inl e)" by blast
      have ext: "chain init nxt (h @ [p])" "hist_cell (h @ [p]) = Some v"
        using replaces_extends[OF v(1) cell(2)] k key by auto
      moreover have "dv_payload v = p" using v(1) by (simp add: replaces_def)
      ultimately have "execution_ok (h @ [p]) (Running (f y))"
        using k v(3) key by (auto simp: execution_ok_def)
      then have "consistent (h @ [p]) s'"
        unfolding exchange(2) using inv v(2) ext c by (intro consistentI[of _ _ h]) (auto simp: consistent_def)
      then show ?thesis by blast
    qed
  qed
next
  case (crash st ths i)
  then have "consistent h s'"
    using assms(2) start_ok by (auto simp: consistent_def execution_ok_def)
  then show ?thesis by blast
qed

lemma reach_consistent:
  assumes "dsys_reach ds calls st0 s" "inv st0" "cell st0 key = None"
  shows "\<exists>h. consistent h s"
  using assms(1)
proof induction
  case start
  have "consistent [] (st0, \<lambda>_. Idle None)"
    using assms(2,3) start_ok by (simp add: consistent_def execution_ok_def)
  then show ?case by blast
next
  case (step s s')
  then show ?case using step_consistent by blast
qed

lemma reach_payload:
  assumes "dsys_reach ds calls st0 s" "inv st0" "cell st0 key = None" "cell (fst s) key = Some v"
  shows "\<exists>h. chain init nxt h \<and> h \<noteq> [] \<and> last h = dv_payload v \<and> unat (dv_revision v) = length h - 1"
proof -
  obtain h where h: "consistent h s" using reach_consistent[OF assms(1-3)] by blast
  then have "hist_cell h = Some v" "chain init nxt h" using assms(4) by (auto simp: consistent_def)
  then show ?thesis
    using of_nat_length_inj[of init nxt h] by (intro exI[of _ h]) (auto simp: hist_cell_def split: if_splits)
qed

lemma reach_step_payload:
  assumes "dsys_reach ds calls st0 s" "inv st0" "cell st0 key = None" "dsys_step ds calls s s'"
  shows "cell (fst s') key = cell (fst s) key \<or>
    (\<exists>v. cell (fst s) key = None \<and> cell (fst s') key = Some v \<and> dv_revision v = 0 \<and> init (dv_payload v)) \<or>
    (\<exists>v v'. cell (fst s) key = Some v \<and> cell (fst s') key = Some v' \<and>
       unat (dv_revision v') = unat (dv_revision v) + 1 \<and> nxt (dv_payload v) (dv_payload v'))"
proof -
  obtain h where h: "consistent h s" using reach_consistent[OF assms(1-3)] by blast
  obtain h' where h': "consistent h' s'" "h' = h \<or> (\<exists>p. h' = h @ [p])"
    using step_consistent[OF assms(4) h] by blast
  show ?thesis
  proof (cases "h' = h")
    case True
    then show ?thesis using h h' by (simp add: consistent_def)
  next
    case False
    then obtain p where p: "h' = h @ [p]" using h'(2) by blast
    have c: "chain init nxt (h @ [p])" "cell (fst s) key = hist_cell h" "cell (fst s') key = hist_cell (h @ [p])"
      using h h' p by (simp_all add: consistent_def)
    show ?thesis
    proof (cases "h = []")
      case True
      then show ?thesis using c by (auto simp: hist_cell_def chain_def)
    next
      case False
      have "nxt (last h) p" using c(1) False by (auto simp: chain_def last_conv_nth nth_append dest: spec[of _ "length h - 1"])
      moreover have "unat (of_nat (length h) :: u64) = length h" "unat (of_nat (length h - 1) :: u64) = length h - 1"
        using c(1) False by (auto simp: chain_def intro!: of_nat_small)
      ultimately show ?thesis using c False by (auto simp: hist_cell_def Suc_leI)
    qed
  qed
qed

lemma reach_idle:
  assumes "dsys_reach ds calls st0 s" "inv st0" "cell st0 key = None" "snd s i = Idle t"
  shows "\<exists>h. chain init nxt h \<and> cell (fst s) key = hist_cell h \<and> ok h t"
proof -
  obtain h where h: "consistent h s" using reach_consistent[OF assms(1-3)] by blast
  then have "execution_ok h (Idle t)" using assms(4) by (auto simp: consistent_def dest: spec[of _ i])
  with h show ?thesis by (auto simp: consistent_def execution_ok_def)
qed

lemma reach_path_payload:
  assumes "dsys_reach ds calls st0 s" "inv st0" "cell st0 key = None"
    and "(dsys_step ds calls)\<^sup>*\<^sup>* s s'" "cell (fst s) key = Some v"
  shows "\<exists>v'. cell (fst s') key = Some v' \<and> nxt\<^sup>*\<^sup>* (dv_payload v) (dv_payload v')"
  using assms(4)
proof (induction rule: rtranclp_induct)
  case base
  then show ?case using assms(5) by blast
next
  case (step y z)
  have "dsys_reach ds calls st0 y" using dsys_reach_steps[OF step(1) assms(1)] .
  then show ?case
    using reach_step_payload[OF _ assms(2,3) step(2)] step(3) by (auto intro: rtranclp.rtrancl_into_rtrancl)
qed

end

text \<open>A protocol over the local files whose payloads are encoded states.\<close>

locale stored_protocol = durable_protocol "local_file_storage lf" "local_inv lf" "local_cell lf" plain_key key
    "decodes js I" "decodes2 js R" ok calls others
  for lf :: local_file_durable_storage
    and js :: "'a json_codec"
    and key :: string
    and I :: "'a \<Rightarrow> bool"
    and R :: "'a \<Rightarrow> 'a \<Rightarrow> bool"
    and ok :: "u8 list list \<Rightarrow> 'tr option \<Rightarrow> bool"
    and calls :: "'tr option \<Rightarrow> 'tr option dprog set"
    and others :: "string \<Rightarrow> bool"
begin

lemma reach_path_stored:
  assumes "dsys_reach (local_file_storage lf) calls st0 s" "local_inv lf st0" "local_cell lf st0 key = None"
    and "(dsys_step (local_file_storage lf) calls)\<^sup>*\<^sup>* s s'" "stored lf js key (fst s) = Some a"
  shows "\<exists>b. stored lf js key (fst s') = Some b \<and> R\<^sup>*\<^sup>* a b"
proof -
  obtain v where v: "local_cell lf (fst s) key = Some v" "js_from_slice js (dv_payload v) = Inr a"
    using assms(5) by (auto simp: stored_Some)
  obtain v' where v': "local_cell lf (fst s') key = Some v'" "(decodes2 js R)\<^sup>*\<^sup>* (dv_payload v) (dv_payload v')"
    using reach_path_payload[OF assms(1-4) v(1)] by blast
  show ?thesis using decodes2_path[OF v'(2) v(2)] v'(1) by (auto simp: stored_Some)
qed

lemma reach_stored:
  assumes "dsys_reach (local_file_storage lf) calls st0 s" "local_inv lf st0" "local_cell lf st0 key = None"
    and "local_cell lf (fst s) key \<noteq> None"
  shows "\<exists>a b. I a \<and> R\<^sup>*\<^sup>* a b \<and> stored lf js key (fst s) = Some b"
proof -
  obtain v where v: "local_cell lf (fst s) key = Some v" using assms(4) by blast
  then obtain h where h: "chain (decodes js I) (decodes2 js R) h" "h \<noteq> []" "last h = dv_payload v"
    using reach_payload[OF assms(1-3)] by blast
  show ?thesis using chain_decodes[OF h(1,2)] h(3) v by (auto simp: stored_Some)
qed

end

end
