(* ===== verification/Handoff_Phases.thy ===== *)
theory Handoff_Phases
  imports Durable_Protocol
begin

section \<open>Phases of a snapshot-to-stream hand-off\<close>

text \<open>
  The PostgreSQL and MySQL sources copy existing rows at an exact boundary and then stream the changes
  after it. Both keep the phase of the hand-off in a durable record: claimed, snapshot at a boundary,
  streaming from a boundary. This theory has what their protocols share: the moves that are allowed
  between stored records, over whatever settings, table identities and boundary a connector has, and
  what follows for every sequence of moves.
\<close>

datatype 'b handoff_phase = Claimed_phase | Snapshot_phase 'b | Streaming_phase 'b

definition handoff_advances ::
  "('s \<Rightarrow> 'c) \<Rightarrow> ('s \<Rightarrow> 't option) \<Rightarrow> ('s \<Rightarrow> 'b handoff_phase) \<Rightarrow> ('s \<Rightarrow> bool) \<Rightarrow> 's \<Rightarrow> 's \<Rightarrow> bool" where
  "handoff_advances settings tables phase ready a b \<longleftrightarrow> settings a = settings b \<and>
     (case (phase a, phase b) of
        (Claimed_phase, Claimed_phase) \<Rightarrow> tables b = None
      | (Claimed_phase, Snapshot_phase _) \<Rightarrow> tables b \<noteq> None \<and> ready b
      | (Snapshot_phase l, Streaming_phase l') \<Rightarrow> l = l' \<and> tables a = tables b
      | _ \<Rightarrow> False)"

locale handoff_states =
  fixes settings :: "'s \<Rightarrow> 'c"
    and tables :: "'s \<Rightarrow> 't option"
    and phase :: "'s \<Rightarrow> 'b handoff_phase"
    and ready :: "'s \<Rightarrow> bool"
  assumes state_eqI: "settings a = settings b \<Longrightarrow> tables a = tables b \<Longrightarrow> phase a = phase b \<Longrightarrow> a = b"
    and ready_streaming: "ready a \<Longrightarrow> settings a = settings b \<Longrightarrow> tables a = tables b \<Longrightarrow>
      phase a = Snapshot_phase l \<Longrightarrow> phase b = Streaming_phase l \<Longrightarrow> ready b"
begin

lemma advances_path:
  assumes "(handoff_advances settings tables phase ready)\<^sup>*\<^sup>* a b"
  shows "settings a = settings b \<and>
    (\<forall>l. phase a = Streaming_phase l \<longrightarrow> b = a) \<and>
    (\<forall>l. phase a = Snapshot_phase l \<longrightarrow> phase b \<in> {Snapshot_phase l, Streaming_phase l} \<and> tables b = tables a)"
  using assms
proof (induction rule: rtranclp_induct)
  case (step b c)
  then show ?case by (auto simp: handoff_advances_def split: handoff_phase.splits prod.splits)
qed simp

lemma advances_ready:
  assumes "(handoff_advances settings tables phase ready)\<^sup>*\<^sup>* a b" "phase a = Claimed_phase" "tables a = None"
  shows "if phase b = Claimed_phase then tables b = None else ready b \<and> tables b \<noteq> None"
  using assms
proof (induction rule: rtranclp_induct)
  case (step b c)
  then show ?case
    using ready_streaming[of b c] by (cases "phase b"; cases "phase c") (auto simp: handoff_advances_def)
qed simp

end

end
