(* ===== verification/Pg_Handoff.thy ===== *)
theory Pg_Handoff
  imports Schema Handoff_Phases
begin

section \<open>PostgreSQL snapshot and stream hand-off\<close>

text \<open>
  The durable phase of a \<^verbatim>\<open>batch_and_stream\<close> delivery from PostgreSQL:
  \<^verbatim>\<open>src_batch_and_stream/phase.rs\<close>, with the identities of \<^verbatim>\<open>src_stream/identity.rs\<close> and the slot name of
  \<^verbatim>\<open>src_stream/config.rs\<close>. The phase goes from claimed to a snapshot at an exact log position and from
  there to streaming from that position; it is written by compare-and-exchange so that an execution
  that lost the race, or one that restarts, can never take a second snapshot. The results hold for
  every interleaving of executions, faults and crashes over the local files.
\<close>

subsection \<open>Identities\<close>

record postgres_source_identity =
  psi_system_identifier :: u64
  psi_database :: string
  psi_database_oid :: u32

datatype canonical_arrow_type =
    CBoolean | CInt8 | CInt16 | CInt32 | CInt64 | CUInt32 | CFloat32 | CFloat64 | CBinary | CUtf8 | CDate32
  | CDecimal128 nat int
  | CTimestampMicrosecond "string option"

record pg_column_identity =
  pci_name :: string
  pci_type_oid :: u32
  pci_arrow_type :: canonical_arrow_type
  pci_nullable :: bool
  pci_primary_key :: bool
  pci_low_cardinality :: bool
  pci_max_length :: "u64 option"
  pci_arrow_extension_name :: "string option"
  pci_system_role :: "string option"
  pci_old_value_of :: "string option"
  pci_old_key_of :: "string option"

record pg_table_identity =
  pti_schema :: string
  pti_name :: string
  pti_relation_oid :: u32
  pti_columns :: "pg_column_identity list"
  pti_replica_identity :: string

record pg_discovered_table =
  pdt_schema_name :: string
  pdt_name :: string
  pdt_schema :: dataset_schema
  pdt_type_oids :: "u32 list"
  pdt_replica_identity_full :: bool
  pdt_replica_identity :: string
  pdt_relation_oid :: u32

datatype pg_violation =
    Empty_replay_identity
  | Unsupported_state_version u8
  | Inconsistent_phase
  | Different_settings
  | State_undecodable string
  | Bootstrap_interrupted
  | Snapshot_interrupted bool
  | Unowned_slot
  | Claim_conflict
  | Phase_conflict
  | Not_claimed
  | Snapshot_not_ready
  | Schema_missing
  | Schema_changed
  | Unsupported_arrow_type data_type
  | Column_oid_count nat nat

datatype pg_error =
    Safety pg_violation
  | Slot_name_invalid
  | Storage_failed durable_error
  | Encoding_failed string

definition canonical_from_data_type :: "data_type \<Rightarrow> (pg_violation, canonical_arrow_type) res" where
  "canonical_from_data_type t =
     (case t of
        Boolean \<Rightarrow> Inr CBoolean
      | Int8 \<Rightarrow> Inr CInt8
      | Int16 \<Rightarrow> Inr CInt16
      | Int32 \<Rightarrow> Inr CInt32
      | Int64 \<Rightarrow> Inr CInt64
      | UInt32 \<Rightarrow> Inr CUInt32
      | Float32 \<Rightarrow> Inr CFloat32
      | Float64 \<Rightarrow> Inr CFloat64
      | Binary \<Rightarrow> Inr CBinary
      | Utf8 \<Rightarrow> Inr CUtf8
      | Date32 \<Rightarrow> Inr CDate32
      | Decimal128 p s \<Rightarrow> Inr (CDecimal128 p s)
      | Timestamp u tz \<Rightarrow> if u = Microsecond then Inr (CTimestampMicrosecond tz) else Inl (Unsupported_arrow_type t)
      | _ \<Rightarrow> Inl (Unsupported_arrow_type t))"

definition pg_column_identity_of :: "schema_column \<times> u32 \<Rightarrow> (pg_violation, pg_column_identity) res" where
  "pg_column_identity_of co =
     (let (c, oid) = co in
      res_bind (canonical_from_data_type (c_data_type c)) (\<lambda>ty.
        Inr \<lparr>pci_name = c_name c, pci_type_oid = oid, pci_arrow_type = ty, pci_nullable = c_nullable c,
             pci_primary_key = c_primary_key c, pci_low_cardinality = c_low_cardinality c,
             pci_max_length = c_max_length c, pci_arrow_extension_name = c_arrow_extension_name c,
             pci_system_role = c_system_role c, pci_old_value_of = c_old_value_of c,
             pci_old_key_of = c_old_key_of c\<rparr>))"

definition from_discovered :: "pg_discovered_table \<Rightarrow> (pg_violation, pg_table_identity) res" where
  "from_discovered t =
     (if length (pdt_schema t) \<noteq> length (pdt_type_oids t)
      then Inl (Column_oid_count (length (pdt_schema t)) (length (pdt_type_oids t)))
      else res_bind (res_map pg_column_identity_of (zip (pdt_schema t) (pdt_type_oids t))) (\<lambda>cs.
        Inr \<lparr>pti_schema = pdt_schema_name t, pti_name = pdt_name t, pti_relation_oid = pdt_relation_oid t,
             pti_columns = cs, pti_replica_identity = pdt_replica_identity t\<rparr>))"

definition authoritative_table_identities ::
  "pg_discovered_table list \<Rightarrow> (pg_violation, pg_table_identity list) res" where
  "authoritative_table_identities ts = res_map from_discovered ts"

datatype logical_decoder = Pgoutput string | Wal2Json

definition decoder_plugin :: "logical_decoder \<Rightarrow> string" where
  "decoder_plugin d = (case d of Pgoutput _ \<Rightarrow> ''pgoutput'' | Wal2Json \<Rightarrow> ''wal2json'')"

definition slot_char :: "char \<Rightarrow> bool" where
  "slot_char c = (let v = (of_char c :: nat) in 97 \<le> v \<and> v \<le> 122 \<or> 48 \<le> v \<and> v \<le> 57 \<or> c = CHR ''_'')"

definition replication_slot :: "string \<Rightarrow> (pg_error, string) res" where
  "replication_slot delivery_id =
     (if delivery_id \<noteq> [] \<and> length delivery_id \<le> 63 \<and> list_all slot_char delivery_id then Inr delivery_id
      else Inl Slot_name_invalid)"

subsection \<open>The persisted phase\<close>

type_synonym pg_phase = "u64 handoff_phase"

record pg_persisted_state =
  ps_version :: u8
  ps_replay_identity :: string
  ps_slot :: string
  ps_plugin :: string
  ps_publication :: "string option"
  ps_tables :: "(string \<times> string) list"
  ps_source :: postgres_source_identity
  ps_authoritative_tables :: "pg_table_identity list option"
  ps_state :: pg_phase

type_synonym pg_tracker = "pg_persisted_state tracker"

datatype pg_preparation = Create_snapshot pg_tracker | Resume_stream pg_tracker u64

definition PG_STATE_VERSION :: u8 where
  "PG_STATE_VERSION = 3"

definition pg_persisted_state_of ::
  "logical_decoder \<Rightarrow> (string \<times> string) list \<Rightarrow> postgres_source_identity \<Rightarrow> string \<Rightarrow> pg_phase \<Rightarrow> string \<Rightarrow>
   pg_persisted_state" where
  "pg_persisted_state_of decoder tables source replay_identity state slot =
     \<lparr>ps_version = PG_STATE_VERSION, ps_replay_identity = replay_identity, ps_slot = slot,
      ps_plugin = decoder_plugin decoder,
      ps_publication = (case decoder of Pgoutput p \<Rightarrow> Some p | Wal2Json \<Rightarrow> None),
      ps_tables = tables, ps_source = source, ps_authoritative_tables = None, ps_state = state\<rparr>"

definition pg_decode_and_validate ::
  "pg_persisted_state json_codec \<Rightarrow> u8 list \<Rightarrow> pg_persisted_state \<Rightarrow> (pg_violation, pg_persisted_state) res" where
  "pg_decode_and_validate js payload expected =
     (case js_from_slice js payload of
        Inl e \<Rightarrow> Inl (State_undecodable e)
      | Inr actual \<Rightarrow>
          if ps_version actual \<noteq> PG_STATE_VERSION then Inl (Unsupported_state_version (ps_version actual))
          else if (ps_state actual = Claimed_phase) \<noteq> (ps_authoritative_tables actual = None)
          then Inl Inconsistent_phase
          else if \<not> (ps_slot actual = ps_slot expected \<and> ps_replay_identity actual = ps_replay_identity expected \<and>
                     ps_plugin actual = ps_plugin expected \<and> ps_publication actual = ps_publication expected \<and>
                     ps_tables actual = ps_tables expected \<and> ps_source actual = ps_source expected)
          then Inl Different_settings
          else Inr actual)"

definition pg_phase_key :: "string \<Rightarrow> string" where
  "pg_phase_key slot = ''postgres-snapshot-stream-'' @ slot"

definition pg_create ::
  "pg_persisted_state json_codec \<Rightarrow> string \<Rightarrow> u64 option \<Rightarrow> pg_persisted_state \<Rightarrow>
   (pg_error, pg_preparation) res dprog" where
  "pg_create js key expected identity =
     exchange_state js key expected identity
       (\<lambda>e. Inl (Encoding_failed e)) (\<lambda>e. Inl (Storage_failed e)) (Inl (Safety Claim_conflict))
       (\<lambda>v. Inr (Create_snapshot \<lparr>tk_key = key, tk_revision = dv_revision v, tk_identity = identity\<rparr>))"

definition pg_claim_or_resume ::
  "pg_persisted_state json_codec \<Rightarrow> logical_decoder \<Rightarrow> (string \<times> string) list \<Rightarrow> postgres_source_identity \<Rightarrow>
   string \<Rightarrow> bool \<Rightarrow> string \<Rightarrow> (pg_error, pg_preparation) res dprog" where
  "pg_claim_or_resume js decoder tables source delivery_id slot_exists replay_identity =
     (if replay_identity = [] then Return (Inl (Safety Empty_replay_identity))
      else case replication_slot delivery_id of
        Inl e \<Rightarrow> Return (Inl e)
      | Inr slot \<Rightarrow>
          let identity = pg_persisted_state_of decoder tables source replay_identity Claimed_phase slot;
              key = pg_phase_key slot
          in Read_key key (\<lambda>read.
               case read of
                 Inl e \<Rightarrow> Return (Inl (Storage_failed e))
               | Inr (Some current) \<Rightarrow>
                   (case pg_decode_and_validate js (dv_payload current) identity of
                      Inl v \<Rightarrow> Return (Inl (Safety v))
                    | Inr persisted \<Rightarrow>
                        (case ps_state persisted of
                           Streaming_phase start_lsn \<Rightarrow>
                             Return (Inr (Resume_stream
                               \<lparr>tk_key = key, tk_revision = dv_revision current, tk_identity = persisted\<rparr> start_lsn))
                         | Claimed_phase \<Rightarrow>
                             if slot_exists then Return (Inl (Safety Bootstrap_interrupted))
                             else pg_create js key (Some (dv_revision current)) identity
                         | Snapshot_phase _ \<Rightarrow> Return (Inl (Safety (Snapshot_interrupted slot_exists)))))
               | Inr None \<Rightarrow>
                   if slot_exists then Return (Inl (Safety Unowned_slot))
                   else pg_create js key None identity))"

text \<open>An operation on a tracker returns the tracker with its result: only an applied exchange moves it.\<close>

definition pg_store ::
  "pg_persisted_state json_codec \<Rightarrow> pg_tracker \<Rightarrow> pg_phase \<Rightarrow> pg_table_identity list option \<Rightarrow>
   (pg_tracker \<times> (pg_error, unit) res) dprog" where
  "pg_store js t state authoritative_tables =
     (let nxt = (tk_identity t)\<lparr>ps_authoritative_tables := authoritative_tables, ps_state := state\<rparr>
      in exchange_state js (tk_key t) (Some (tk_revision t)) nxt
           (\<lambda>e. (t, Inl (Encoding_failed e))) (\<lambda>e. (t, Inl (Storage_failed e))) (t, Inl (Safety Phase_conflict))
           (\<lambda>v. (t\<lparr>tk_revision := dv_revision v, tk_identity := nxt\<rparr>, Inr ())))"

definition pg_mark_snapshot_ready ::
  "pg_persisted_state json_codec \<Rightarrow> pg_tracker \<Rightarrow> u64 \<Rightarrow> pg_discovered_table list \<Rightarrow>
   (pg_tracker \<times> (pg_error, unit) res) dprog" where
  "pg_mark_snapshot_ready js t consistent_lsn tables =
     (if ps_state (tk_identity t) \<noteq> Claimed_phase then Return (t, Inl (Safety Not_claimed))
      else case authoritative_table_identities tables of
             Inl v \<Rightarrow> Return (t, Inl (Safety v))
           | Inr identities \<Rightarrow> pg_store js t (Snapshot_phase consistent_lsn) (Some identities))"

definition pg_mark_streaming ::
  "pg_persisted_state json_codec \<Rightarrow> pg_tracker \<Rightarrow> (pg_tracker \<times> (pg_error, u64) res) dprog" where
  "pg_mark_streaming js t =
     (case ps_state (tk_identity t) of
        Snapshot_phase consistent_lsn \<Rightarrow>
          if ps_authoritative_tables (tk_identity t) = None then Return (t, Inl (Safety Schema_missing))
          else dmap (\<lambda>(t', r). (t', case r of Inl e \<Rightarrow> Inl e | Inr _ \<Rightarrow> Inr consistent_lsn))
                 (pg_store js t (Streaming_phase consistent_lsn) (ps_authoritative_tables (tk_identity t)))
      | _ \<Rightarrow> Return (t, Inl (Safety Snapshot_not_ready)))"

definition pg_validate_authoritative_tables ::
  "pg_tracker \<Rightarrow> pg_discovered_table list \<Rightarrow> (pg_error, unit) res" where
  "pg_validate_authoritative_tables t tables =
     (case ps_authoritative_tables (tk_identity t) of
        None \<Rightarrow> Inl (Safety Schema_missing)
      | Some expected \<Rightarrow>
          (case authoritative_table_identities tables of
             Inl v \<Rightarrow> Inl (Safety v)
           | Inr actual \<Rightarrow> if actual \<noteq> expected then Inl (Safety Schema_changed) else Inr ()))"

definition pg_streaming_lsn :: "pg_tracker \<Rightarrow> u64 option" where
  "pg_streaming_lsn t = (case ps_state (tk_identity t) of Streaming_phase l \<Rightarrow> Some l | _ \<Rightarrow> None)"

subsection \<open>The protocol\<close>

text \<open>What a delivery may call next: without a tracker it claims or resumes, with one it advances it.\<close>

definition pg_tracker_of :: "(pg_error, pg_preparation) res \<Rightarrow> pg_tracker option" where
  "pg_tracker_of r =
     (case r of Inl _ \<Rightarrow> None | Inr (Create_snapshot t) \<Rightarrow> Some t | Inr (Resume_stream t _) \<Rightarrow> Some t)"

definition pg_calls ::
  "pg_persisted_state json_codec \<Rightarrow> string \<Rightarrow> pg_tracker option \<Rightarrow> pg_tracker option dprog set" where
  "pg_calls js delivery_id t =
     (case t of
        None \<Rightarrow>
          {dmap pg_tracker_of (pg_claim_or_resume js decoder tables source delivery_id slot_exists replay_identity)
           | decoder tables source slot_exists replay_identity. True}
      | Some t \<Rightarrow>
          {dmap (\<lambda>r. Some (fst r)) (pg_mark_snapshot_ready js t lsn tables) | lsn tables. True} \<union>
          {dmap (\<lambda>r. Some (fst r)) (pg_mark_streaming js t)})"

definition pg_settings :: "pg_persisted_state \<Rightarrow> pg_persisted_state" where
  "pg_settings a = a\<lparr>ps_authoritative_tables := None, ps_state := Claimed_phase\<rparr>"

abbreviation pg_advances :: "pg_persisted_state \<Rightarrow> pg_persisted_state \<Rightarrow> bool" where
  "pg_advances \<equiv> handoff_advances pg_settings ps_authoritative_tables ps_state (\<lambda>_. True)"

interpretation pg_states: handoff_states pg_settings ps_authoritative_tables ps_state "\<lambda>_. True"
proof
  fix a b :: pg_persisted_state
  assume "pg_settings a = pg_settings b" "ps_authoritative_tables a = ps_authoritative_tables b" "ps_state a = ps_state b"
  then show "a = b" by (cases a; cases b) (simp add: pg_settings_def)
qed simp

definition pg_initial :: "pg_persisted_state \<Rightarrow> bool" where
  "pg_initial a \<longleftrightarrow>
     ps_state a = Claimed_phase \<and> ps_authoritative_tables a = None \<and> ps_version a = PG_STATE_VERSION"

lemma pg_decode_ok:
  assumes "pg_decode_and_validate js p e = Inr a"
  shows "js_from_slice js p = Inr a" "ps_version a = PG_STATE_VERSION"
    "ps_state a = Claimed_phase \<longleftrightarrow> ps_authoritative_tables a = None"
    "ps_slot a = ps_slot e" "ps_replay_identity a = ps_replay_identity e" "ps_plugin a = ps_plugin e"
    "ps_publication a = ps_publication e" "ps_tables a = ps_tables e" "ps_source a = ps_source e"
  using assms by (auto simp: pg_decode_and_validate_def split: sum.splits if_splits)

lemma pg_create_keeps:
  assumes js: "json_laws js" and i: "pg_initial identity"
    and e: "case expected of None \<Rightarrow> True
      | Some r \<Rightarrow> (\<exists>q a. at_revision h r q \<and> js_from_slice js q = Inr a \<and> pg_advances a identity)"
  shows "keeps key (decodes js pg_initial) (decodes2 js pg_advances)
    (\<lambda>h r. tracker_ok js key h (pg_tracker_of r)) (pg_create js key expected identity) h"
  unfolding pg_create_def using e i
  by (intro exchange_state_keeps[OF js]) (auto simp: pg_tracker_of_def split: option.splits)

lemma pg_store_keeps:
  assumes js: "json_laws js" and t: "tracker_ok js key h (Some t)"
    and a: "pg_advances (tk_identity t) ((tk_identity t)\<lparr>ps_authoritative_tables := tabs, ps_state := state\<rparr>)"
  shows "keeps key (decodes js pg_initial) (decodes2 js pg_advances)
    (\<lambda>h r. tracker_ok js key h (Some (fst r))) (pg_store js t state tabs) h"
proof -
  have k: "tk_key t = key" using t by simp
  show ?thesis
    unfolding pg_store_def Let_def k using t a
    by (intro exchange_state_keeps[OF js]) (auto intro: at_revision_extends)
qed

lemma pg_claim_keeps:
  assumes "json_laws js" and "is_ok (replication_slot delivery_id)"
  shows "keeps (pg_phase_key delivery_id) (decodes js pg_initial) (decodes2 js pg_advances)
    (\<lambda>h r. tracker_ok js (pg_phase_key delivery_id) h (pg_tracker_of r))
    (pg_claim_or_resume js decoder tables source delivery_id slot_exists replay_identity) h"
proof -
  let ?i = "pg_persisted_state_of decoder tables source replay_identity Claimed_phase delivery_id"
  have slot: "replication_slot delivery_id = Inr delivery_id"
    using assms(2) by (auto simp: replication_slot_def split: if_splits)
  have init: "pg_initial ?i" by (simp add: pg_initial_def pg_persisted_state_of_def)
  have adv: "pg_advances a ?i" if "pg_decode_and_validate js p ?i = Inr a" "ps_state a = Claimed_phase" for p a
    using pg_decode_ok[OF that(1)] that(2)
    by (auto simp: handoff_advances_def pg_settings_def pg_persisted_state_of_def intro!: pg_persisted_state.equality)
  have resume: "tracker_ok js key h' (Some \<lparr>tk_key = key, tk_revision = dv_revision v, tk_identity = a\<rparr>)"
    if "pg_decode_and_validate js (dv_payload v) ?i = Inr a" "hist_cell h' = Some v"
      "chain (decodes js pg_initial) (decodes2 js pg_advances) h'" for h' v a key
    using hist_cell_at_revision[OF that(3,2)] pg_decode_ok(1)[OF that(1)] by auto
  have read: "keeps (pg_phase_key delivery_id) (decodes js pg_initial) (decodes2 js pg_advances)
      (\<lambda>h r. tracker_ok js (pg_phase_key delivery_id) h (pg_tracker_of r))
      (case pg_decode_and_validate js (dv_payload v) ?i of
         Inl v \<Rightarrow> Return (Inl (Safety v))
       | Inr persisted \<Rightarrow>
           (case ps_state persisted of
              Streaming_phase start_lsn \<Rightarrow>
                Return (Inr (Resume_stream
                  \<lparr>tk_key = pg_phase_key delivery_id, tk_revision = dv_revision v, tk_identity = persisted\<rparr> start_lsn))
            | Claimed_phase \<Rightarrow>
                if slot_exists then Return (Inl (Safety Bootstrap_interrupted))
                else pg_create js (pg_phase_key delivery_id) (Some (dv_revision v)) ?i
            | Snapshot_phase _ \<Rightarrow> Return (Inl (Safety (Snapshot_interrupted slot_exists))))) h'"
    if "hist_cell h' = Some v" "chain (decodes js pg_initial) (decodes2 js pg_advances) h'" for h' v
  proof (cases "pg_decode_and_validate js (dv_payload v) ?i")
    case (Inr a)
    then show ?thesis
      using resume[OF Inr that] adv[OF Inr] pg_decode_ok(1)[OF Inr] hist_cell_at_revision[OF that(2,1)]
        pg_create_keeps[OF assms(1) init, where expected = "Some (dv_revision v)" and h = h' and key = "pg_phase_key delivery_id"]
      by (auto simp: pg_tracker_of_def split: handoff_phase.splits)
  qed (simp add: pg_tracker_of_def)
  show ?thesis
    using slot read pg_create_keeps[OF assms(1) init, where expected = None]
    by (auto simp: pg_claim_or_resume_def Let_def pg_tracker_of_def split: option.splits)
qed

lemma pg_advance_keeps:
  assumes "json_laws js" and "tracker_ok js key h (Some t)"
  shows "keeps key (decodes js pg_initial) (decodes2 js pg_advances)
      (\<lambda>h r. tracker_ok js key h (Some (fst r))) (pg_mark_snapshot_ready js t lsn tables) h"
    and "keeps key (decodes js pg_initial) (decodes2 js pg_advances)
      (\<lambda>h r. tracker_ok js key h (Some (fst r))) (pg_mark_streaming js t) h"
  using assms pg_store_keeps[OF assms]
  by (auto simp: pg_mark_snapshot_ready_def pg_mark_streaming_def keeps_dmap handoff_advances_def pg_settings_def
        case_prod_unfold split: sum.splits handoff_phase.splits)

text \<open>The key of a delivery whose name is a slot name; other deliveries never reach the storage.\<close>

definition pg_key :: "string \<Rightarrow> string" where
  "pg_key delivery_id =
     (if is_ok (replication_slot delivery_id) then pg_phase_key delivery_id else pg_phase_key ''none'')"

lemma pg_phase_key_plain: "is_ok (replication_slot d) \<Longrightarrow> plain_key (pg_phase_key d)"
proof -
  assume "is_ok (replication_slot d)"
  then have d: "length d \<le> 63" "\<forall>c \<in> set d. slot_char c"
    by (auto simp: replication_slot_def list_all_iff split: if_splits)
  then have c: "\<forall>c \<in> set d. component_char c \<and> c \<noteq> CHR ''/'' \<and> c \<noteq> CHR ''.''"
    by (auto simp: slot_char_def component_char_def Let_def)
  then have "split_on CHR ''/'' (pg_phase_key d) = [pg_phase_key d]"
    by (intro split_on_no_sep) (auto simp: pg_phase_key_def)
  moreover have "validate_component (pg_phase_key d) = Inr ()"
    using c d(1) by (auto simp: validate_component_def pg_phase_key_def list_all_iff component_char_def Let_def)
  moreover have "CHR ''.'' \<notin> set (pg_phase_key d)" using c by (auto simp: pg_phase_key_def)
  ultimately show ?thesis by (simp add: plain_key_def)
qed

lemma pg_key_plain: "plain_key (pg_key d)"
proof -
  have "is_ok (replication_slot ''none'')" by code_simp
  then show ?thesis by (simp add: pg_key_def pg_phase_key_plain)
qed

lemma pg_invalid_slot:
  "\<not> is_ok (replication_slot d) \<Longrightarrow>
     keeps key init nxt (\<lambda>h r. tracker_ok js key h (pg_tracker_of r))
       (pg_claim_or_resume js decoder tables source d slot_exists replay_identity) h"
  by (auto simp: pg_claim_or_resume_def replication_slot_def pg_tracker_of_def split: if_splits)

interpretation pg_phase: stored_protocol lf "lawful js" "pg_key delivery_id" pg_initial pg_advances
  "tracker_ok (lawful js) (pg_key delivery_id)" "pg_calls (lawful js) delivery_id" "\<lambda>_. False"
  for lf js delivery_id
proof
  show "plain_key (pg_key delivery_id)" by (rule pg_key_plain)
  show "tracker_ok (lawful js) (pg_key delivery_id) h None" for h by simp
next
  fix h t p
  assume "tracker_ok (lawful js) (pg_key delivery_id) h t" "p \<in> pg_calls (lawful js) delivery_id t"
  then show "keeps (pg_key delivery_id) (decodes (lawful js) pg_initial) (decodes2 (lawful js) pg_advances)
      (tracker_ok (lawful js) (pg_key delivery_id)) p h"
    using pg_claim_keeps[OF lawful_laws, of delivery_id js] pg_advance_keeps[OF lawful_laws]
    by (cases t; cases "is_ok (replication_slot delivery_id)")
       (auto simp: pg_calls_def keeps_dmap pg_key_def pg_invalid_slot simp del: tracker_ok_simps)
next
  fix h t h'
  assume "tracker_ok (lawful js) (pg_key delivery_id) h t" "extends h h'"
  then show "tracker_ok (lawful js) (pg_key delivery_id) h' t" by (rule tracker_ok_extends)
qed simp

subsection \<open>Properties\<close>

text \<open>The state a delivery has stored.\<close>

abbreviation pg_stored ::
  "local_file_durable_storage \<Rightarrow> pg_persisted_state json_codec \<Rightarrow> string \<Rightarrow> durable_state \<Rightarrow> pg_persisted_state option" where
  "pg_stored lf js delivery_id \<equiv> stored lf js (pg_key delivery_id)"

text \<open>
  C32 (PostgreSQL hand-off). Let any number of executions of one delivery claim, resume and advance its
  hand-off state over the local files, interleaved at every storage call, with any call failing and
  any execution dying and restarting. Once a snapshot boundary is stored, every later stored state
  has the same delivery settings and the same boundary and table schema, and only moves on to
  streaming from exactly that boundary; a streaming state is final. So the boundary is never lost,
  replaced or reclaimed by another snapshot.
\<close>

theorem pg_handoff_monotone:
  assumes "json_laws js" and "local_inv lf st0" and "local_cell lf st0 (pg_key delivery_id) = None"
    and "dsys_reach (local_file_storage lf) (pg_calls js delivery_id) st0 s"
    and "(dsys_step (local_file_storage lf) (pg_calls js delivery_id))\<^sup>*\<^sup>* s s'"
    and "pg_stored lf js delivery_id (fst s) = Some a"
  shows "\<exists>b. pg_stored lf js delivery_id (fst s') = Some b \<and> pg_settings b = pg_settings a \<and>
    (\<forall>l. ps_state a = Streaming_phase l \<longrightarrow> b = a) \<and>
    (\<forall>l. ps_state a = Snapshot_phase l \<longrightarrow>
       ps_state b \<in> {Snapshot_phase l, Streaming_phase l} \<and> ps_authoritative_tables b = ps_authoritative_tables a)"
proof -
  obtain b where b: "pg_stored lf js delivery_id (fst s') = Some b" "pg_advances\<^sup>*\<^sup>* a b"
    using pg_phase.reach_path_stored[of lf js delivery_id st0 s s' a] assms by auto
  then show ?thesis using pg_states.advances_path[OF b(2)] by auto
qed

text \<open>A codec for the states of one delivery, and a run that takes it through its three phases.\<close>

definition example_pg_claimed :: pg_persisted_state where
  "example_pg_claimed = pg_persisted_state_of Wal2Json [(''public'', ''t'')]
     \<lparr>psi_system_identifier = 1, psi_database = ''db'', psi_database_oid = 2\<rparr> ''replay'' Claimed_phase ''d1''"

definition example_pg_states :: "pg_persisted_state list" where
  "example_pg_states =
     [example_pg_claimed,
      example_pg_claimed\<lparr>ps_authoritative_tables := Some [], ps_state := Snapshot_phase 42\<rparr>,
      example_pg_claimed\<lparr>ps_authoritative_tables := Some [], ps_state := Streaming_phase 42\<rparr>]"

definition example_pg_json :: "pg_persisted_state json_codec" where
  "example_pg_json = list_json example_pg_states"

lemma example_pg_json_laws: "json_laws example_pg_json"
  unfolding example_pg_json_def by (rule list_json_laws) (simp add: example_pg_states_def)

definition example_pg_call ::
  "nat \<Rightarrow> pg_tracker option \<Rightarrow> pg_tracker option dprog" where
  "example_pg_call n t =
     (case t of
        None \<Rightarrow> dmap pg_tracker_of (pg_claim_or_resume example_pg_json Wal2Json [(''public'', ''t'')]
           \<lparr>psi_system_identifier = 1, psi_database = ''db'', psi_database_oid = 2\<rparr> ''d1'' False ''replay'')
      | Some t \<Rightarrow>
          if n = 1 then dmap (\<lambda>r. Some (fst r)) (pg_mark_snapshot_ready example_pg_json t 42 [])
          else dmap (\<lambda>r. Some (fst r)) (pg_mark_streaming example_pg_json t))"

lemma example_pg_call: "\<forall>n t. example_pg_call n t \<in> pg_calls example_pg_json ''d1'' t"
  by (auto simp: example_pg_call_def pg_calls_def split: option.split) blast+

definition example_pg_run :: "nat \<Rightarrow> durable_state" where
  "example_pg_run n = fst (solo_run (local_file_storage example_lf) example_pg_call example_durable n)"

lemma example_pg_stored:
  "pg_stored example_lf example_pg_json ''d1'' (example_pg_run 2) = Some (example_pg_states ! 1)"
  "pg_stored example_lf example_pg_json ''d1'' (example_pg_run 3) = Some (example_pg_states ! 2)"
  by code_simp+

theorem pg_handoff_monotone_witness:
  "\<exists>b. pg_stored example_lf example_pg_json ''d1'' (example_pg_run 3) = Some b \<and>
     ps_state b \<in> {Snapshot_phase 42, Streaming_phase 42}"
proof -
  have i: "local_inv example_lf example_durable" "local_cell example_lf example_durable (pg_key ''d1'') = None"
    by (simp_all add: empty_local_inv local_cell_def example_durable_def)
  have "ps_state (example_pg_states ! 1) = Snapshot_phase 42" by (simp add: example_pg_states_def)
  then show ?thesis
    using pg_handoff_monotone[OF example_pg_json_laws i solo_reach[OF example_pg_call, of _ _ 2]
        solo_steps[OF example_pg_call, of 2 3]] example_pg_stored(1)
    by (auto simp: example_pg_run_def)
qed

lemma pg_create_run:
  assumes "json_laws js" "local_inv lf st" "plain_key k"
    and run: "drun (local_file_storage lf) (pg_create js k e i) st = (st', Inr x)"
  shows "\<exists>v. x = Create_snapshot \<lparr>tk_key = k, tk_revision = dv_revision v, tk_identity = i\<rparr> \<and>
    local_cell lf st' k = Some v \<and> js_from_slice js (dv_payload v) = Inr i"
  using drun_exchange_state[OF assms(1-3) run[unfolded pg_create_def]] by auto

text \<open>
  C33 (PostgreSQL claim). A claim that runs alone and without storage faults resumes only from a stored streaming state, at its
  boundary and without a write, and it lets the caller create a snapshot only when no replication
  slot exists and at most a bare claim was stored; it then owns the stored claim. In particular it
  never starts a snapshot over a stored boundary.
\<close>

theorem pg_claim_sound:
  assumes "json_laws js" and "local_inv lf st"
    and "drun (local_file_storage lf)
      (pg_claim_or_resume js decoder tables source delivery_id slot_exists replay_identity) st = (st', r)"
  shows "(\<forall>t l. r = Inr (Resume_stream t l) \<longrightarrow>
       st' = st \<and> pg_stored lf js delivery_id st = Some (tk_identity t) \<and> ps_state (tk_identity t) = Streaming_phase l) \<and>
    (\<forall>t. r = Inr (Create_snapshot t) \<longrightarrow> \<not> slot_exists \<and>
       (local_cell lf st (pg_key delivery_id) = None \<or>
        (\<exists>a. pg_stored lf js delivery_id st = Some a \<and> ps_state a = Claimed_phase)) \<and>
       pg_stored lf js delivery_id st' = Some (tk_identity t) \<and> ps_state (tk_identity t) = Claimed_phase)"
proof (cases "replay_identity = [] \<or> \<not> is_ok (replication_slot delivery_id)")
  case True
  then show ?thesis
    using assms(3) by (auto simp: pg_claim_or_resume_def replication_slot_def split: if_splits)
next
  case False
  then have slot: "replication_slot delivery_id = Inr delivery_id" "pg_key delivery_id = pg_phase_key delivery_id"
    by (auto simp: replication_slot_def pg_key_def split: if_splits)
  let ?i = "pg_persisted_state_of decoder tables source replay_identity Claimed_phase delivery_id"
  let ?k = "pg_phase_key delivery_id"
  have k: "plain_key ?k" using pg_key_plain[of delivery_id] slot(2) by simp
  obtain st1 x where x: "ds_read (local_file_storage lf) No_fault ?k st = (st1, x)" by fastforce
  have st1: "st1 = st" "x = Inr (local_cell lf st ?k) \<or> (\<exists>e. x = Inl e)"
    using local_files.read_law[OF assms(2) k x] by auto
  have create: "\<exists>t. x = Create_snapshot t \<and> pg_stored lf js delivery_id st' = Some (tk_identity t) \<and>
      ps_state (tk_identity t) = Claimed_phase"
    if run: "drun (local_file_storage lf) (pg_create js ?k e ?i) st = (st', Inr x)" for e x
    using pg_create_run[OF assms(1,2) k run] by (auto simp: stored_def slot(2) pg_persisted_state_of_def)
  show ?thesis
  proof (cases "local_cell lf st ?k")
    case None
    then show ?thesis
      using assms(3) False slot x st1 create[of None]
      by (auto simp: pg_claim_or_resume_def Let_def split: if_splits)
  next
    case (Some v)
    show ?thesis
    proof (cases "pg_decode_and_validate js (dv_payload v) ?i")
      case (Inr a)
      then have "pg_stored lf js delivery_id st = Some a"
        using pg_decode_ok(1)[OF Inr] Some slot(2) by (simp add: stored_def)
      then show ?thesis
        using assms(3) False slot x st1 Some Inr create[of "Some (dv_revision v)"]
        by (cases "ps_state a") (auto simp: pg_claim_or_resume_def Let_def split: if_splits)
    qed (use assms(3) False slot x st1 Some in \<open>auto simp: pg_claim_or_resume_def Let_def\<close>)
  qed
qed

theorem pg_claim_sound_witness:
  "\<exists>t. snd (drun (local_file_storage example_lf)
      (pg_claim_or_resume example_pg_json Wal2Json [(''public'', ''t'')]
        \<lparr>psi_system_identifier = 1, psi_database = ''db'', psi_database_oid = 2\<rparr> ''d1'' False ''replay'') example_durable) =
      Inr (Create_snapshot t) \<and> ps_state (tk_identity t) = Claimed_phase"
proof -
  let ?run = "drun (local_file_storage example_lf)
      (pg_claim_or_resume example_pg_json Wal2Json [(''public'', ''t'')]
        \<lparr>psi_system_identifier = 1, psi_database = ''db'', psi_database_oid = 2\<rparr> ''d1'' False ''replay'') example_durable"
  have "case snd ?run of Inr (Create_snapshot t) \<Rightarrow> True | _ \<Rightarrow> False" by code_simp
  then obtain t where t: "snd ?run = Inr (Create_snapshot t)" by (auto split: sum.splits pg_preparation.splits)
  then obtain st where run: "?run = (st, Inr (Create_snapshot t))" by (metis prod.collapse)
  have "local_inv example_lf example_durable" by (simp add: empty_local_inv example_durable_def)
  then have "ps_state (tk_identity t) = Claimed_phase"
    using pg_claim_sound[OF example_pg_json_laws _ run] by blast
  with t show ?thesis by blast
qed

end
