(* ===== verification/Mysql_Metadata.thy ===== *)
theory Mysql_Metadata
  imports Prelude
begin

section \<open>MySQL column metadata\<close>

text \<open>
  The readings of \<^verbatim>\<open>information_schema\<close> of \<^verbatim>\<open>transferia-connector-mysql\<close>: column modifiers, generated
  columns, the consistency of structured metadata and the members of an \<^verbatim>\<open>ENUM\<close> or \<^verbatim>\<open>SET\<close> declaration
  (\<^verbatim>\<open>src_batch/connector.rs\<close>). A Rust string is the list of its UTF-8 bytes. The loop over a declaration
  is written with the offset of the code, as a partial function; it is proved to return on every
  input, and to read back every list of members.
\<close>

subsection \<open>Text\<close>

definition to_ascii_lowercase :: "char \<Rightarrow> char" where
  "to_ascii_lowercase c = (let v = (of_char c :: nat) in if 65 \<le> v \<and> v \<le> 90 then char_of (v + 32) else c)"

definition eq_ignore_ascii_case :: "string \<Rightarrow> string \<Rightarrow> bool" where
  "eq_ignore_ascii_case a b \<longleftrightarrow> map to_ascii_lowercase a = map to_ascii_lowercase b"

definition is_ascii_whitespace :: "char \<Rightarrow> bool" where
  "is_ascii_whitespace c = (let v = (of_char c :: nat) in v = 32 \<or> v = 9 \<or> v = 10 \<or> v = 12 \<or> v = 13)"

fun split_whitespace :: "string \<Rightarrow> string \<Rightarrow> string list" where
  "split_whitespace word [] = (if word = [] then [] else [word])"
| "split_whitespace word (c # cs) =
     (if is_ascii_whitespace c
      then (if word = [] then split_whitespace [] cs else word # split_whitespace [] cs)
      else split_whitespace (word @ [c]) cs)"

definition split_ascii_whitespace :: "string \<Rightarrow> string list" where
  "split_ascii_whitespace s = split_whitespace [] s"

text \<open>Validity of UTF-8, as \<^verbatim>\<open>String::from_utf8\<close> checks it.\<close>

definition utf8_tail :: "nat \<Rightarrow> bool" where
  "utf8_tail b \<longleftrightarrow> 128 \<le> b \<and> b \<le> 191"

fun valid_utf8 :: "nat list \<Rightarrow> bool" where
  "valid_utf8 [] = True"
| "valid_utf8 (a # r) =
     (if a \<le> 127 then valid_utf8 r
      else if 194 \<le> a \<and> a \<le> 223 then (case r of b # r1 \<Rightarrow> utf8_tail b \<and> valid_utf8 r1 | _ \<Rightarrow> False)
      else if 224 \<le> a \<and> a \<le> 239 then
        (case r of b # c # r2 \<Rightarrow>
           (if a = 224 then 160 \<le> b \<and> b \<le> 191 else if a = 237 then 128 \<le> b \<and> b \<le> 159 else utf8_tail b) \<and>
           utf8_tail c \<and> valid_utf8 r2
         | _ \<Rightarrow> False)
      else if 240 \<le> a \<and> a \<le> 244 then
        (case r of b # c # d # r3 \<Rightarrow>
           (if a = 240 then 144 \<le> b \<and> b \<le> 191 else if a = 244 then 128 \<le> b \<and> b \<le> 143 else utf8_tail b) \<and>
           utf8_tail c \<and> utf8_tail d \<and> valid_utf8 r3
         | _ \<Rightarrow> False)
      else False)"

definition from_utf8 :: "string \<Rightarrow> string option" where
  "from_utf8 s = (if valid_utf8 (map of_char s) then Some s else None)"

subsection \<open>Modifiers\<close>

datatype mysql_column_visibility = Visible | Invisible

datatype mysql_column_generation = Not_generated | Virtual_generated | Stored_generated

datatype metadata_error =
    Both_virtual_and_stored
  | Expression_disagrees
  | Empty_data_type
  | Inconsistent_character_set
  | Lengths_omitted
  | Octets_below_characters
  | Scale_without_precision
  | Inconsistent_numeric_precision
  | Exact_numeric_omits_scale
  | Inconsistent_temporal_precision
  | Fractional_precision_above_6
  | Inconsistent_enum_set
  | Non_spatial_srs
  | Invalid_framing
  | Member_not_quoted
  | Unterminated_member
  | Ends_in_escape
  | Member_not_utf8
  | Not_comma_separated
  | Trailing_comma
  | No_members

definition has_column_type_modifier :: "string \<Rightarrow> string \<Rightarrow> bool" where
  "has_column_type_modifier column_type modifier =
     list_ex (\<lambda>t. eq_ignore_ascii_case t modifier) (split_ascii_whitespace column_type)"

definition has_extra_modifier :: "string \<Rightarrow> string \<Rightarrow> bool" where
  "has_extra_modifier extra modifier =
     list_ex (\<lambda>t. eq_ignore_ascii_case t modifier) (split_ascii_whitespace extra)"

definition column_visibility :: "string \<Rightarrow> mysql_column_visibility" where
  "column_visibility extra = (if has_extra_modifier extra ''invisible'' then Invisible else Visible)"

definition has_pair :: "string list \<Rightarrow> string \<Rightarrow> bool" where
  "has_pair tokens storage =
     list_ex (\<lambda>(a, b). eq_ignore_ascii_case a storage \<and> eq_ignore_ascii_case b ''generated'') (zip tokens (drop 1 tokens))"

definition column_generation :: "string \<Rightarrow> string option \<Rightarrow> (metadata_error, mysql_column_generation) res" where
  "column_generation extra generation_expression =
     (let tokens = split_ascii_whitespace extra;
          virtual_generated = has_pair tokens ''virtual'';
          stored_generated = has_pair tokens ''stored'';
          expression_present = (case generation_expression of None \<Rightarrow> False | Some v \<Rightarrow> v \<noteq> [])
      in if virtual_generated \<and> stored_generated then Inl Both_virtual_and_stored
         else if expression_present \<noteq> (virtual_generated \<or> stored_generated) then Inl Expression_disagrees
         else Inr (if virtual_generated then Virtual_generated
                   else if stored_generated then Stored_generated else Not_generated))"

subsection \<open>Structured metadata\<close>

definition TEXTUAL_TYPES :: "string list" where
  "TEXTUAL_TYPES =
     [''char'', ''varchar'', ''tinytext'', ''text'', ''mediumtext'', ''longtext'', ''enum'', ''set'', ''inet4'', ''inet6'', ''uuid'']"

definition CAPACITY_TYPES :: "string list" where
  "CAPACITY_TYPES =
     [''char'', ''varchar'', ''binary'', ''varbinary'', ''tinytext'', ''text'', ''mediumtext'', ''longtext'', ''tinyblob'',
      ''blob'', ''mediumblob'', ''longblob'', ''enum'', ''set'', ''inet4'', ''inet6'', ''uuid'']"

definition NUMERIC_TYPES :: "string list" where
  "NUMERIC_TYPES =
     [''tinyint'', ''smallint'', ''mediumint'', ''int'', ''integer'', ''bigint'', ''decimal'', ''numeric'', ''float'',
      ''double'', ''real'', ''bit'']"

definition SPATIAL_TYPES :: "string list" where
  "SPATIAL_TYPES =
     [''geometry'', ''point'', ''linestring'', ''polygon'', ''multipoint'', ''multilinestring'', ''multipolygon'',
      ''geometrycollection'']"

definition validate_structured_column_metadata ::
  "string \<Rightarrow> usize option \<Rightarrow> usize option \<Rightarrow> u64 option \<Rightarrow> u64 option \<Rightarrow> u64 option \<Rightarrow> string option \<Rightarrow> u32 option \<Rightarrow>
   string list option \<Rightarrow> (metadata_error, unit) res" where
  "validate_structured_column_metadata data_type character_maximum_length character_octet_length numeric_precision
     numeric_scale datetime_precision character_set srs_id enum_set_values =
     (if data_type = [] then Inl Empty_data_type
      else if (data_type \<in> set TEXTUAL_TYPES) \<noteq> (character_set \<noteq> None) then Inl Inconsistent_character_set
      else if data_type \<in> set CAPACITY_TYPES \<and>
              \<not> (character_maximum_length \<noteq> None \<and> character_octet_length \<noteq> None) then Inl Lengths_omitted
      else if (case (character_maximum_length, character_octet_length) of
                 (Some characters, Some octets) \<Rightarrow> octets < characters | _ \<Rightarrow> False) then Inl Octets_below_characters
      else if \<not> (numeric_scale = None \<or> numeric_precision \<noteq> None) then Inl Scale_without_precision
      else if (data_type \<in> set NUMERIC_TYPES) \<noteq> (numeric_precision \<noteq> None) then Inl Inconsistent_numeric_precision
      else if data_type \<in> {''decimal'', ''numeric''} \<and> numeric_scale = None then Inl Exact_numeric_omits_scale
      else if (data_type \<in> {''datetime'', ''timestamp'', ''time''}) \<noteq> (datetime_precision \<noteq> None)
      then Inl Inconsistent_temporal_precision
      else if (case datetime_precision of None \<Rightarrow> False | Some precision \<Rightarrow> 6 < precision)
      then Inl Fractional_precision_above_6
      else if (data_type \<in> {''enum'', ''set''}) \<noteq> (enum_set_values \<noteq> None) then Inl Inconsistent_enum_set
      else if srs_id \<noteq> None \<and> data_type \<notin> set SPATIAL_TYPES then Inl Non_spatial_srs
      else Inr ())"

subsection \<open>Members of a declaration\<close>

definition byte_at :: "string \<Rightarrow> nat \<Rightarrow> char option" where
  "byte_at s i = (if i < length s then Some (s ! i) else None)"

definition unescape :: "char \<Rightarrow> char" where
  "unescape c =
     (if c = CHR ''0'' then CHR 0x00 else if c = CHR ''b'' then CHR 0x08 else if c = CHR ''n'' then CHR 0x0A
      else if c = CHR ''r'' then CHR 0x0D else if c = CHR ''t'' then CHR 0x09 else if c = CHR ''Z'' then CHR 0x1A
      else c)"

abbreviation QUOTE :: char where "QUOTE \<equiv> CHR 0x27"
abbreviation BACKSLASH :: char where "BACKSLASH \<equiv> CHR 0x5C"

text \<open>The inner loop, from the offset after the start quote; \<open>None\<close> would be a loop that does not end.\<close>

partial_function (option) member_loop ::
  "string \<Rightarrow> nat \<Rightarrow> string \<Rightarrow> (metadata_error, string \<times> nat) res option" where
  "member_loop input offset value =
     (case byte_at input offset of
        None \<Rightarrow> Some (Inl Unterminated_member)
      | Some byte \<Rightarrow>
          if byte = QUOTE then
            (if byte_at input (offset + 1) = Some QUOTE then member_loop input (offset + 2) (value @ [QUOTE])
             else Some (Inr (value, offset + 1)))
          else if byte = BACKSLASH then
            (case byte_at input (offset + 1) of
               None \<Rightarrow> Some (Inl Ends_in_escape)
             | Some escaped \<Rightarrow> member_loop input (offset + 2) (value @ [unescape escaped]))
          else member_loop input (offset + 1) (value @ [byte]))"

partial_function (option) members_loop ::
  "string \<Rightarrow> nat \<Rightarrow> string list \<Rightarrow> (metadata_error, string list) res option" where
  "members_loop input offset values =
     (if \<not> offset < length input then Some (Inr values)
      else if byte_at input offset \<noteq> Some QUOTE then Some (Inl Member_not_quoted)
      else case member_loop input (offset + 1) [] of
             None \<Rightarrow> None
           | Some (Inl e) \<Rightarrow> Some (Inl e)
           | Some (Inr (value, offset1)) \<Rightarrow>
               (case from_utf8 value of
                  None \<Rightarrow> Some (Inl Member_not_utf8)
                | Some v \<Rightarrow>
                    if offset1 = length input then Some (Inr (values @ [v]))
                    else if byte_at input offset1 \<noteq> Some CHR '','' then Some (Inl Not_comma_separated)
                    else if \<not> offset1 + 1 < length input then Some (Inl Trailing_comma)
                    else members_loop input (offset1 + 1) (values @ [v])))"

definition parse_enum_set_values ::
  "string \<Rightarrow> string \<Rightarrow> (metadata_error, string list option) res option" where
  "parse_enum_set_values data_type column_type =
     (if data_type \<notin> {''enum'', ''set''} then Some (Inr None)
      else let prefix = data_type @ ''('' in
        if \<not> (length prefix \<le> length column_type \<and> eq_ignore_ascii_case (take (length prefix) column_type) prefix \<and>
               column_type \<noteq> [] \<and> last column_type = CHR '')'') then Some (Inl Invalid_framing)
        else case members_loop (drop (length prefix) (butlast column_type)) 0 [] of
               None \<Rightarrow> None
             | Some (Inl e) \<Rightarrow> Some (Inl e)
             | Some (Inr values) \<Rightarrow> if values = [] then Some (Inl No_members) else Some (Inr (Some values)))"

subsection \<open>The loops return\<close>

lemma member_loop_bound:
  "\<exists>r. member_loop input offset acc = Some r \<and> (\<forall>v o'. r = Inr (v, o') \<longrightarrow> offset < o' \<and> o' \<le> length input)"
proof (induction "length input - offset" arbitrary: offset acc rule: less_induct)
  case less
  note IH = less
  show ?case
  proof (cases "byte_at input offset")
    case None
    then show ?thesis by (subst member_loop.simps) simp
  next
    case (Some byte)
    then have lt: "offset < length input" by (auto simp: byte_at_def split: if_splits)
    have one: "\<exists>r. member_loop input (offset + 1) v = Some r \<and> (\<forall>v' o'. r = Inr (v', o') \<longrightarrow> offset < o' \<and> o' \<le> length input)" for v
      using IH[of "offset + 1" v] lt by fastforce
    have two: "\<exists>r. member_loop input (offset + 2) v = Some r \<and> (\<forall>v' o'. r = Inr (v', o') \<longrightarrow> offset < o' \<and> o' \<le> length input)" for v
      using IH[of "offset + 2" v] lt by fastforce
    show ?thesis
      using Some lt one two
      by (subst member_loop.simps) (auto split: option.splits)
  qed
qed

lemma members_loop_total: "\<exists>r. members_loop input offset accs = Some r"
proof (induction "length input - offset" arbitrary: offset accs rule: less_induct)
  case less
  obtain r where r: "member_loop input (offset + 1) [] = Some r"
    "\<And>v o'. r = Inr (v, o') \<Longrightarrow> offset < o' \<and> o' \<le> length input"
    using member_loop_bound[of input "offset + 1" "[]"] by fastforce
  show ?case
  proof (cases r)
    case (Inr a)
    then obtain v o' where a: "r = Inr (v, o')" by (cases a) auto
    have "\<exists>r. members_loop input (o' + 1) vs = Some r" if "o' + 1 < length input" for vs
      by (rule less) (use r(2)[OF a] that in auto)
    then show ?thesis using r(1) a by (subst members_loop.simps) (auto split: option.splits)
  qed (use r(1) in \<open>subst members_loop.simps, auto\<close>)
qed

declare member_loop.simps [code] members_loop.simps [code]

subsection \<open>The grammar of a declaration\<close>

text \<open>
  What a declaration means, independently of the loops. The text between the quotes of a member stands for
  its value: a byte that is neither quote nor backslash for itself, a doubled quote for one quote, and an
  escape sequence for the byte of the table of MySQL string literals, or for the escaped byte when the
  table has no entry.
\<close>

definition escape_table :: "(char \<times> char) list" where
  "escape_table = [(CHR ''0'', CHR 0x00), (CHR ''b'', CHR 0x08), (CHR ''n'', CHR 0x0A), (CHR ''r'', CHR 0x0D),
     (CHR ''t'', CHR 0x09), (CHR ''Z'', CHR 0x1A)]"

inductive member_text :: "string \<Rightarrow> string \<Rightarrow> bool" where
  Empty_text: "member_text [] []"
| Plain: "c \<notin> {QUOTE, BACKSLASH} \<Longrightarrow> member_text t v \<Longrightarrow> member_text (c # t) (c # v)"
| Doubled: "member_text t v \<Longrightarrow> member_text (QUOTE # QUOTE # t) (QUOTE # v)"
| Escape: "(c, d) \<in> set escape_table \<Longrightarrow> member_text t v \<Longrightarrow> member_text (BACKSLASH # c # t) (d # v)"
| Literal_escape: "c \<notin> fst ` set escape_table \<Longrightarrow> member_text t v \<Longrightarrow> member_text (BACKSLASH # c # t) (c # v)"

abbreviation quoted :: "string \<Rightarrow> string" where
  "quoted t \<equiv> QUOTE # t @ [QUOTE]"

abbreviation member_reads :: "string \<Rightarrow> string \<Rightarrow> bool" where
  "member_reads t v \<equiv> member_text t v \<and> valid_utf8 (map of_char v)"

definition declaration_frame :: "string \<Rightarrow> string \<Rightarrow> string \<Rightarrow> bool" where
  "declaration_frame data_type column_type inner \<longleftrightarrow>
     (\<exists>name. column_type = name @ ''('' @ inner @ '')'' \<and> eq_ignore_ascii_case name data_type)"

definition declares :: "string \<Rightarrow> string \<Rightarrow> string list \<Rightarrow> bool" where
  "declares data_type column_type vs \<longleftrightarrow> vs \<noteq> [] \<and>
     (\<exists>texts. declaration_frame data_type column_type (join_with CHR '','' (map quoted texts)) \<and> list_all2 member_reads texts vs)"

lemma unescape_table: "(c, unescape c) \<in> set escape_table \<or> c \<notin> fst ` set escape_table \<and> unescape c = c"
  by (simp add: unescape_def escape_table_def)

lemma table_unescape: "(c, d) \<in> set escape_table \<Longrightarrow> unescape c = d" "c \<notin> fst ` set escape_table \<Longrightarrow> unescape c = c"
  by (auto simp: unescape_def escape_table_def)

lemma member_text_unescape: "member_text t v \<Longrightarrow> member_text (BACKSLASH # c # t) (unescape c # v)"
  using unescape_table[of c] by (metis Escape Literal_escape)

lemma byte_at_append [simp]:
  "byte_at (pre @ c # r) (length pre) = Some c"
  "byte_at (pre @ c # d # r) (Suc (length pre)) = Some d"
  "byte_at (pre @ [c]) (Suc (length pre)) = None"
  by (simp_all add: byte_at_def nth_append)

lemma byte_at_drop: "byte_at s i = Some c \<longleftrightarrow> i < length s \<and> drop i s = c # drop (Suc i) s"
  by (auto simp: byte_at_def Cons_nth_drop_Suc[symmetric])

subsection \<open>The loops read the grammar\<close>

lemma member_loop_complete:
  assumes "member_text t v" "rest = [] \<or> hd rest \<noteq> QUOTE"
  shows "member_loop (pre @ t @ QUOTE # rest) (length pre) acc = Some (Inr (acc @ v, length pre + length t + 1))"
  using assms(1)
proof (induction arbitrary: pre acc)
  case Empty_text
  then show ?case
    using assms(2) by (subst member_loop.simps, cases rest) (auto simp: byte_at_def nth_append)
next
  case (Plain c t v)
  then show ?case
    using Plain.IH[of "pre @ [c]" "acc @ [c]"] by (subst member_loop.simps) simp
next
  case (Doubled t v)
  then show ?case
    using Doubled.IH[of "pre @ [QUOTE, QUOTE]" "acc @ [QUOTE]"] by (subst member_loop.simps) simp
next
  case (Escape c d t v)
  then show ?case
    using Escape.IH[of "pre @ [BACKSLASH, c]" "acc @ [d]"]
    by (subst member_loop.simps) (simp add: table_unescape)
next
  case (Literal_escape c t v)
  then show ?case
    using Literal_escape.IH[of "pre @ [BACKSLASH, c]" "acc @ [c]"]
    by (subst member_loop.simps) (simp add: table_unescape)
qed

lemma member_loop_sound:
  assumes "member_loop input offset acc = Some (Inr (r, o'))"
  shows "\<exists>t v. r = acc @ v \<and> member_text t v \<and> drop offset input = t @ QUOTE # drop o' input"
  using assms
proof (induction "length input - offset" arbitrary: offset acc rule: less_induct)
  case less
  obtain b where b: "byte_at input offset = Some b"
    using less.prems by (subst (asm) member_loop.simps) (auto split: option.splits)
  then have here: "offset < length input" "drop offset input = b # drop (Suc offset) input"
    by (simp_all add: byte_at_drop)
  have IH: "\<exists>t v. r = acc' @ v \<and> member_text t v \<and> drop off' input = t @ QUOTE # drop o' input"
    if "member_loop input off' acc' = Some (Inr (r, o'))" "offset < off'" for off' acc'
    using less.hyps[OF _ that(1)] diff_less_mono2[OF that(2) here(1)] by blast
  consider (doubled) "b = QUOTE" "byte_at input (Suc offset) = Some QUOTE"
    | (closed) "b = QUOTE" "byte_at input (Suc offset) \<noteq> Some QUOTE"
    | (escape) c where "b = BACKSLASH" "byte_at input (Suc offset) = Some c"
    | (cut) "b = BACKSLASH" "byte_at input (Suc offset) = None"
    | (plain) "b \<notin> {QUOTE, BACKSLASH}"
    by (cases "byte_at input (Suc offset)") auto
  then show ?case
  proof cases
    case doubled
    then have "member_loop input (offset + 2) (acc @ [QUOTE]) = Some (Inr (r, o'))"
      using less.prems b by (subst (asm) member_loop.simps) simp
    from IH[OF this] obtain t v where "r = acc @ QUOTE # v" "member_text t v"
      "drop (offset + 2) input = t @ QUOTE # drop o' input" by auto
    then show ?thesis using doubled here Doubled[of t v] by (auto simp: byte_at_drop)
  next
    case closed
    then have "r = acc \<and> o' = Suc offset" using less.prems b by (subst (asm) member_loop.simps) simp
    then show ?thesis using closed here Empty_text by auto
  next
    case (escape c)
    then have "member_loop input (offset + 2) (acc @ [unescape c]) = Some (Inr (r, o'))"
      using less.prems b by (subst (asm) member_loop.simps) simp
    from IH[OF this] obtain t v where "r = acc @ unescape c # v" "member_text t v"
      "drop (offset + 2) input = t @ QUOTE # drop o' input" by auto
    then show ?thesis using escape here member_text_unescape[of t v c] by (auto simp: byte_at_drop)
  next
    case cut
    then show ?thesis using less.prems b by (subst (asm) member_loop.simps) simp
  next
    case plain
    then have "member_loop input (offset + 1) (acc @ [b]) = Some (Inr (r, o'))"
      using less.prems b by (subst (asm) member_loop.simps) simp
    from IH[OF this] obtain t v where "r = acc @ b # v" "member_text t v"
      "drop (offset + 1) input = t @ QUOTE # drop o' input" by auto
    then show ?thesis using here Plain[OF plain, of t v] by auto
  qed
qed

lemma members_loop_complete:
  assumes "list_all2 member_reads texts vs" "vs \<noteq> []"
  shows "members_loop (pre @ join_with CHR '','' (map quoted texts)) (length pre) accs = Some (Inr (accs @ vs))"
  using assms
proof (induction arbitrary: pre accs rule: list_all2_induct)
  case (Cons t texts v vs)
  define rest where "rest = (if vs = [] then [] else CHR '','' # join_with CHR '','' (map quoted texts))"
  define input where "input = pre @ join_with CHR '','' (map quoted (t # texts))"
  have same: "texts = [] \<longleftrightarrow> vs = []" using Cons.hyps(2) by auto
  have input: "input = (pre @ [QUOTE]) @ t @ QUOTE # rest"
    using same by (cases texts) (simp_all add: input_def rest_def)
  let ?o = "length pre + 2 + length t"
  have inner: "member_loop input (length pre + 1) [] = Some (Inr (v, ?o))"
    using member_loop_complete[of t v rest "pre @ [QUOTE]" "[]"] Cons.hyps(1) input by (simp add: rest_def)
  have start: "byte_at input (length pre) = Some QUOTE" "length pre < length input" by (simp_all add: input)
  have utf8: "from_utf8 v = Some v" using Cons.hyps(1) by (simp add: from_utf8_def)
  show ?case
  proof (cases "vs = []")
    case True
    then have "length input = ?o" by (simp add: input rest_def)
    then show ?thesis
      using inner start utf8 True unfolding input_def[symmetric] by (subst members_loop.simps) simp
  next
    case False
    let ?pre = "(pre @ [QUOTE]) @ t @ [QUOTE, CHR '','']"
    have split: "input = ?pre @ join_with CHR '','' (map quoted texts)" using False by (simp add: input rest_def)
    have more: "join_with CHR '','' (map quoted texts) \<noteq> []"
      using False same by (cases texts; cases "tl texts") simp_all
    have "byte_at input ?o = Some CHR '',''"
      unfolding split byte_at_def by (simp add: nth_append)
    moreover have "?o + 1 < length input" "?o \<noteq> length input" using more by (simp_all add: split)
    moreover have "members_loop input (?o + 1) (accs @ [v]) = Some (Inr ((accs @ [v]) @ vs))"
      using Cons.IH[of ?pre "accs @ [v]"] False by (simp add: split)
    ultimately show ?thesis
      using inner start utf8 unfolding input_def[symmetric] by (subst members_loop.simps) simp
  qed
qed simp

lemma members_loop_sound:
  assumes "members_loop input offset accs = Some (Inr r)" "offset \<le> length input"
  shows "\<exists>texts vs. r = accs @ vs \<and> drop offset input = join_with CHR '','' (map quoted texts) \<and>
    list_all2 member_reads texts vs \<and> (offset < length input \<longrightarrow> texts \<noteq> [])"
  using assms
proof (induction "length input - offset" arbitrary: offset accs rule: less_induct)
  case less
  show ?case
  proof (cases "offset < length input")
    case False
    then have "r = accs" using less.prems(1) by (subst (asm) members_loop.simps) simp
    then show ?thesis using False by (intro exI[of _ "[]"]) simp
  next
    case True
    then have open_quote: "byte_at input offset = Some QUOTE"
      using less.prems(1) by (subst (asm) members_loop.simps) (auto split: if_splits)
    obtain x o' where inner: "member_loop input (offset + 1) [] = Some (Inr (x, o'))"
      and valid: "valid_utf8 (map of_char x)"
      and cont: "(if o' = length input then Some (Inr (accs @ [x]))
        else if byte_at input o' \<noteq> Some CHR '','' then Some (Inl Not_comma_separated)
        else if \<not> o' + 1 < length input then Some (Inl Trailing_comma)
        else members_loop input (o' + 1) (accs @ [x])) = Some (Inr r)"
      using less.prems(1) True open_quote
      by (subst (asm) members_loop.simps) (auto simp: from_utf8_def split: option.splits sum.splits if_splits)
    have bound: "offset + 1 < o'" "o' \<le> length input"
      using member_loop_bound[of input "offset + 1" "[]"] inner by auto
    obtain t where t: "member_text t x" "drop (offset + 1) input = t @ QUOTE # drop o' input"
      using member_loop_sound[OF inner] by auto
    have here: "drop offset input = quoted t @ drop o' input"
      using open_quote t(2) by (auto simp: byte_at_drop)
    show ?thesis
    proof (cases "o' = length input")
      case True
      then show ?thesis
        using cont here t(1) valid by (intro exI[of _ "[t]"] exI[of _ "[x]"]) simp
    next
      case False
      then have comma: "drop o' input = CHR '','' # drop (o' + 1) input" "o' + 1 < length input"
        and next_loop: "members_loop input (o' + 1) (accs @ [x]) = Some (Inr r)"
        using cont by (auto simp: byte_at_drop split: if_splits)
      obtain texts vs where "r = accs @ x # vs" "list_all2 member_reads texts vs" "texts \<noteq> []"
        "drop (o' + 1) input = join_with CHR '','' (map quoted texts)"
        using less.hyps[OF _ next_loop] diff_less_mono2[of offset "o' + 1" "length input"] bound comma(2) by auto
      then show ?thesis
        using here comma(1) t(1) valid
        by (intro exI[of _ "t # texts"] exI[of _ "x # vs"]) (cases texts; simp)
    qed
  qed
qed

lemma to_ascii_lowercase_open: "to_ascii_lowercase c = CHR ''('' \<longleftrightarrow> c = CHR ''(''"
proof (cases "65 \<le> (of_char c :: nat) \<and> of_char c \<le> (90 :: nat)")
  case True
  have "(of_char (to_ascii_lowercase c) :: nat) = of_char c + 32" using True by (simp add: to_ascii_lowercase_def)
  then show ?thesis using True by auto
qed (auto simp: to_ascii_lowercase_def)

lemma declaration_frame_iff:
  "declaration_frame data_type column_type inner \<longleftrightarrow>
     length (data_type @ ''('') \<le> length column_type \<and>
     eq_ignore_ascii_case (take (length (data_type @ ''('')) column_type) (data_type @ ''('') \<and>
     column_type \<noteq> [] \<and> last column_type = CHR '')'' \<and> inner = drop (length (data_type @ ''('')) (butlast column_type)"
    (is "_ \<longleftrightarrow> ?code")
proof
  assume "declaration_frame data_type column_type inner"
  then obtain name where ct: "column_type = name @ ''('' @ inner @ '')''" and ic: "eq_ignore_ascii_case name data_type"
    by (auto simp: declaration_frame_def)
  then have "length name = length data_type" unfolding eq_ignore_ascii_case_def by (metis length_map)
  then show ?code using ic by (simp add: ct eq_ignore_ascii_case_def butlast_append)
next
  assume code: ?code
  let ?n = "length data_type + 1"
  obtain front where ct: "column_type = front @ '')''" using code by (metis append_butlast_last_id)
  have "map to_ascii_lowercase (take ?n column_type) = map to_ascii_lowercase data_type @ ''(''"
    using code to_ascii_lowercase_open[of "CHR ''(''"] by (simp add: eq_ignore_ascii_case_def)
  then obtain name c where name: "take ?n column_type = name @ [c]" "eq_ignore_ascii_case name data_type" "to_ascii_lowercase c = CHR ''(''"
    by (auto simp: eq_ignore_ascii_case_def map_eq_append_conv map_eq_Cons_conv)
  have c: "c = CHR ''(''" using name(3) to_ascii_lowercase_open by blast
  have "?n \<le> length front"
  proof (rule ccontr)
    assume "\<not> ?n \<le> length front"
    then have "column_type = name @ [c]" using name(1) ct code by simp
    then show False using c ct by simp
  qed
  then have "front = name @ ''('' @ drop ?n front"
    using name(1) c append_take_drop_id[of ?n front] by (simp add: ct)
  then show "declaration_frame data_type column_type inner"
    using code name(2) unfolding declaration_frame_def by (intro exI[of _ name]) (simp add: ct)
qed

lemma members_loop_iff:
  "vs \<noteq> [] \<Longrightarrow> members_loop inner 0 [] = Some (Inr vs) \<longleftrightarrow>
     (\<exists>texts. inner = join_with CHR '','' (map quoted texts) \<and> list_all2 member_reads texts vs)"
  using members_loop_sound[of inner 0 "[]" vs] members_loop_complete[of _ vs "[]" "[]"] by auto

lemma declares_loop:
  "declares data_type column_type vs \<longleftrightarrow>
     (\<exists>inner. vs \<noteq> [] \<and> declaration_frame data_type column_type inner \<and> members_loop inner 0 [] = Some (Inr vs))"
proof (cases "vs = []")
  case False
  then show ?thesis unfolding declares_def members_loop_iff[OF False] by blast
qed (simp add: declares_def)

subsection \<open>Properties\<close>

text \<open>
  C34 (declarations are parsed to an end). Reading the members of an \<^verbatim>\<open>ENUM\<close> or \<^verbatim>\<open>SET\<close> returns on every
  type and every text, well-formed or not: both loops advance, and the offset of a member stays
  inside the input.
\<close>

theorem parse_enum_set_values_returns: "\<exists>r. parse_enum_set_values data_type column_type = Some r"
  using members_loop_total[of "drop (length (data_type @ ''('')) (butlast column_type)" 0 "[]"]
  by (auto simp: parse_enum_set_values_def Let_def split: option.splits sum.splits)

text \<open>
  The declaration of the connector's own test, with an escaped quote, an escaped backslash, a line feed and
  an empty member.
\<close>

definition example_declaration :: string where
  "example_declaration = ''ENUM('' @ join_with CHR '','' (map quoted [''plain'', ''comma,value'',
     ''quote'' @ [BACKSLASH, QUOTE] @ ''value'', ''slash'' @ [BACKSLASH, BACKSLASH] @ ''value'',
     ''line'' @ [BACKSLASH, CHR ''n''] @ ''value'', []]) @ '')''"

definition example_members :: "string list" where
  "example_members = [''plain'', ''comma,value'', ''quote'' @ QUOTE # ''value'', ''slash'' @ BACKSLASH # ''value'',
     ''line'' @ CHR 0x0A # ''value'', []]"

text \<open>
  C35 (declared members are kept). For the types \<^verbatim>\<open>enum\<close> and \<^verbatim>\<open>set\<close> the parser returns exactly the members the
  text declares: it accepts a text with the members \<open>vs\<close> if and only if the text is the type name in any
  case, an opening bracket, a comma separated non-empty list of quoted texts and a closing bracket, where
  the quoted texts stand, in order, for \<open>vs\<close> under the table of escapes, and every member is UTF-8. In
  particular a text declares at most one list of members. Any other type has no members.
\<close>

theorem parse_enum_set_values_exact:
  "parse_enum_set_values data_type column_type = Some (Inr m) \<longleftrightarrow>
     (if data_type = ''enum'' \<or> data_type = ''set'' then \<exists>vs. m = Some vs \<and> declares data_type column_type vs
      else m = None)"
proof (cases "data_type = ''enum'' \<or> data_type = ''set''")
  case True
  then have "parse_enum_set_values data_type column_type = Some (Inr m) \<longleftrightarrow>
      (\<exists>vs inner. m = Some vs \<and> vs \<noteq> [] \<and> declaration_frame data_type column_type inner \<and>
         members_loop inner 0 [] = Some (Inr vs))"
    using declaration_frame_iff[of data_type column_type]
    by (auto simp: parse_enum_set_values_def Let_def split: option.splits sum.splits)
  also have "\<dots> \<longleftrightarrow> (\<exists>vs. m = Some vs \<and> declares data_type column_type vs)"
    by (simp add: declares_loop)
  finally show ?thesis using True by simp
qed (auto simp: parse_enum_set_values_def)

theorem parse_enum_set_values_exact_witness:
  "parse_enum_set_values ''enum'' example_declaration = Some (Inr (Some example_members)) \<and>
   declares ''enum'' example_declaration example_members \<and>
   parse_enum_set_values ''set'' example_declaration = Some (Inl Invalid_framing) \<and>
   \<not> declares ''set'' example_declaration example_members"
proof -
  have "parse_enum_set_values ''enum'' example_declaration = Some (Inr (Some example_members))"
    "parse_enum_set_values ''set'' example_declaration = Some (Inl Invalid_framing)" by code_simp+
  then show ?thesis
    using parse_enum_set_values_exact[of "''enum''" example_declaration "Some example_members"]
      parse_enum_set_values_exact[of "''set''" example_declaration "Some example_members"] by simp
qed

end
