(* ===== verification/Gtid.thy ===== *)
theory Gtid
  imports Decimal_Text
begin

section \<open>MySQL replication positions and GTID sets\<close>

text \<open>
  The resume positions of \<^verbatim>\<open>transferia-connector-mysql\<close>, \<^verbatim>\<open>src_stream/position.rs\<close>. A GTID set lists,
  for every server and tag, the intervals of transaction numbers that were executed. The parser of
  one server's text and the interval constructor belong to the \<^verbatim>\<open>mysql_common\<close> crate: they are the
  fields of a record that the operations take as an argument. Texts are ASCII, as the server
  sends them. An abstract GTID set is the set of its transactions; the results state the operations over it.
\<close>

subsection \<open>Positions\<close>

record mysql_binlog_position =
  bp_filename :: "u8 list"
  bp_position :: u32

record gtid_interval =
  iv_start :: u64
  iv_end_exclusive :: u64

record gtid_sid =
  gs_sid :: "u8 list"
  gs_tag :: "string option"
  gs_intervals :: "gtid_interval list"

type_synonym gtid_set = "gtid_sid list"

datatype mysql_resume_position =
    FilePosition mysql_binlog_position
  | Gtid gtid_set mysql_binlog_position

datatype position_error =
    EmptyFilename
  | FilenameContainsNul
  | PositionDoesNotFitProtocol u64
  | PositionBeforeBinlogHeader u32
  | ZeroServerId
  | GtidSetContainsWhitespace
  | EmptyGtidSetEntry nat
  | EmptyGtidIntervals "u8 list" "string option"
  | DuplicateGtidSid "u8 list" "string option"
  | DuplicateCommittedGtid "u8 list" "string option" u64
  | InvalidGtidInterval u64 u64
  | InvalidGtidIntervalRepresentation string
  | NonCanonicalGtidIntervals u64 u64
  | InvalidGtidSid string string
  | NonCanonicalGtidSidText string string

text \<open>
  The \<^verbatim>\<open>mysql_common\<close> crate: \<^verbatim>\<open>Sid::from_str\<close> with the accessors of a parsed \<^verbatim>\<open>Sid\<close>, and
  \<^verbatim>\<open>GnoInterval::check_and_new\<close>; errors are their rendered text.
\<close>

record 'p mysql_common =
  mc_parse :: "string \<Rightarrow> (string, 'p) res"
  mc_uuid :: "'p \<Rightarrow> u8 list"
  mc_tag :: "'p \<Rightarrow> string option"
  mc_intervals :: "'p \<Rightarrow> (u64 \<times> u64) list"
  mc_check_and_new :: "u64 \<Rightarrow> u64 \<Rightarrow> (string, unit) res"

definition binlog_position_new :: "u8 list \<Rightarrow> u64 \<Rightarrow> (position_error, mysql_binlog_position) res" where
  "binlog_position_new filename p =
     (if filename = [] then Inl EmptyFilename
      else if 0 \<in> set filename then Inl FilenameContainsNul
      else if \<not> uint p < 2 ^ 32 then Inl (PositionDoesNotFitProtocol p)
      else if ucast p < (4 :: u32) then Inl (PositionBeforeBinlogHeader (ucast p))
      else Inr \<lparr>bp_filename = filename, bp_position = ucast p\<rparr>)"

definition binlog_position_validate :: "mysql_binlog_position \<Rightarrow> (position_error, unit) res" where
  "binlog_position_validate p =
     (case binlog_position_new (bp_filename p) (ucast (bp_position p)) of Inl e \<Rightarrow> Inl e | Inr _ \<Rightarrow> Inr ())"

subsection \<open>Intervals and their text\<close>

definition MAX_END_EXCLUSIVE :: u64 where
  "MAX_END_EXCLUSIVE = 0x8000000000000000"

definition interval_validate :: "'p mysql_common \<Rightarrow> gtid_interval \<Rightarrow> (position_error, unit) res" where
  "interval_validate mc i =
     (if iv_start i = 0 \<or> iv_end_exclusive i \<le> iv_start i \<or> MAX_END_EXCLUSIVE < iv_end_exclusive i
      then Inl (InvalidGtidInterval (iv_start i) (iv_end_exclusive i))
      else case mc_check_and_new mc (iv_start i) (iv_end_exclusive i) of
             Inl reason \<Rightarrow> Inl (InvalidGtidIntervalRepresentation reason)
           | Inr _ \<Rightarrow> Inr ())"

fun interval_loop ::
  "'p mysql_common \<Rightarrow> u64 option \<Rightarrow> gtid_interval list \<Rightarrow> (position_error, unit) res" where
  "interval_loop mc previous_end [] = Inr ()"
| "interval_loop mc previous_end (i # is) =
     (case interval_validate mc i of
        Inl e \<Rightarrow> Inl e
      | Inr _ \<Rightarrow>
          (case previous_end of
             Some e \<Rightarrow>
               if iv_start i \<le> e then Inl (NonCanonicalGtidIntervals e (iv_start i))
               else interval_loop mc (Some (iv_end_exclusive i)) is
           | None \<Rightarrow> interval_loop mc (Some (iv_end_exclusive i)) is))"

definition validate_intervals :: "'p mysql_common \<Rightarrow> gtid_sid \<Rightarrow> (position_error, unit) res" where
  "validate_intervals mc s =
     (if gs_intervals s = [] then Inl (EmptyGtidIntervals (gs_sid s) (gs_tag s))
      else interval_loop mc None (gs_intervals s))"

definition hex_digit :: "nat \<Rightarrow> char" where
  "hex_digit n = ''0123456789abcdef'' ! n"

definition hex_byte :: "u8 \<Rightarrow> string" where
  "hex_byte b = [hex_digit (unat b div 16), hex_digit (unat b mod 16)]"

definition format_uuid :: "u8 list \<Rightarrow> string" where
  "format_uuid sid =
     concat (map (\<lambda>(i, b). (if i \<in> {4, 6, 8, 10} then ''-'' else []) @ hex_byte b) (enumerate 0 sid))"

definition interval_text :: "gtid_interval \<Rightarrow> string" where
  "interval_text i =
     '':'' @ usize_to_string (iv_start i) @
     (if checked_add (iv_start i) 1 \<noteq> Some (iv_end_exclusive i)
      then ''-'' @ usize_to_string (saturating_sub (iv_end_exclusive i) 1) else [])"

definition to_mysql_text :: "gtid_sid \<Rightarrow> string" where
  "to_mysql_text s =
     format_uuid (gs_sid s) @ (case gs_tag s of Some t \<Rightarrow> '':'' @ t | None \<Rightarrow> []) @
     concat (map interval_text (gs_intervals s))"

definition parse_mysql_sid :: "'p mysql_common \<Rightarrow> gtid_sid \<Rightarrow> (position_error, 'p) res" where
  "parse_mysql_sid mc s =
     (case mc_parse mc (to_mysql_text s) of
        Inl reason \<Rightarrow> Inl (InvalidGtidSid (to_mysql_text s) reason)
      | Inr p \<Rightarrow> Inr p)"

definition sid_validate :: "'p mysql_common \<Rightarrow> gtid_sid \<Rightarrow> (position_error, unit) res" where
  "sid_validate mc s =
     res_bind (validate_intervals mc s) (\<lambda>_. res_bind (parse_mysql_sid mc s) (\<lambda>_. Inr ()))"

definition to_mysql_sid :: "'p mysql_common \<Rightarrow> gtid_sid \<Rightarrow> (position_error, 'p) res" where
  "to_mysql_sid mc s = res_bind (validate_intervals mc s) (\<lambda>_. parse_mysql_sid mc s)"

subsection \<open>Sets\<close>

fun validate_sids ::
  "'p mysql_common \<Rightarrow> (u8 list \<times> string option) list \<Rightarrow> gtid_set \<Rightarrow> (position_error, unit) res" where
  "validate_sids mc identities [] = Inr ()"
| "validate_sids mc identities (s # ss) =
     (case sid_validate mc s of
        Inl e \<Rightarrow> Inl e
      | Inr _ \<Rightarrow>
          if (gs_sid s, gs_tag s) \<in> set identities then Inl (DuplicateGtidSid (gs_sid s) (gs_tag s))
          else validate_sids mc ((gs_sid s, gs_tag s) # identities) ss)"

definition gtid_validate :: "'p mysql_common \<Rightarrow> gtid_set \<Rightarrow> (position_error, unit) res" where
  "gtid_validate mc g = validate_sids mc [] g"

definition to_mysql_sids :: "'p mysql_common \<Rightarrow> gtid_set \<Rightarrow> (position_error, 'p list) res" where
  "to_mysql_sids mc g = res_bind (gtid_validate mc g) (\<lambda>_. res_map (to_mysql_sid mc) g)"

definition is_whitespace :: "char \<Rightarrow> bool" where
  "is_whitespace c = (let v = (of_char c :: nat) in v = 32 \<or> 9 \<le> v \<and> v \<le> 13)"

definition reject_sid_parser_overflow :: "string \<Rightarrow> (position_error, unit) res" where
  "reject_sid_parser_overflow t =
     (if list_ex (\<lambda>c. list_ex (\<lambda>e. parse_usize e = Some (- 1)) (split_on CHR ''-'' c))
           (drop 1 (split_on CHR '':'' t))
      then Inl (InvalidGtidSid t ''GTID interval endpoint exceeds MySQL's maximum GNO'') else Inr ())"

definition sid_of_parsed :: "'p mysql_common \<Rightarrow> 'p \<Rightarrow> gtid_sid" where
  "sid_of_parsed mc p =
     \<lparr>gs_sid = mc_uuid mc p, gs_tag = mc_tag mc p,
      gs_intervals = map (\<lambda>(a, b). \<lparr>iv_start = a, iv_end_exclusive = b\<rparr>) (mc_intervals mc p)\<rparr>"

definition parse_entry :: "'p mysql_common \<Rightarrow> nat \<times> string \<Rightarrow> (position_error, gtid_sid) res" where
  "parse_entry mc it =
     (let (index, t) = it in
      if t = [] then Inl (EmptyGtidSetEntry index)
      else res_bind (reject_sid_parser_overflow t) (\<lambda>_.
        case mc_parse mc t of
          Inl reason \<Rightarrow> Inl (InvalidGtidSid t reason)
        | Inr p \<Rightarrow>
            let s = sid_of_parsed mc p in
            res_bind (sid_validate mc s) (\<lambda>_.
              if to_mysql_text s \<noteq> t then Inl (NonCanonicalGtidSidText t (to_mysql_text s)) else Inr s)))"

definition parse_mysql :: "'p mysql_common \<Rightarrow> string \<Rightarrow> (position_error, gtid_set) res" where
  "parse_mysql mc v =
     (if v = [] then Inr []
      else if list_ex is_whitespace v then Inl GtidSetContainsWhitespace
      else res_bind (res_map (parse_entry mc) (enumerate 0 (split_on CHR '','' v))) (\<lambda>g.
           res_bind (gtid_validate mc g) (\<lambda>_. Inr g)))"

text \<open>
  Adding a transaction. The set is updated in place, so the operation returns it next to its result:
  a failed final validation leaves the update behind, an early error does not change the set.
  Starts are distinct in a valid set, so the unstable sort has one result.
\<close>

definition merge_step :: "gtid_interval list \<Rightarrow> gtid_interval \<Rightarrow> gtid_interval list" where
  "merge_step merged i =
     (if merged \<noteq> [] \<and> iv_end_exclusive (last merged) = iv_start i
      then butlast merged @ [(last merged)\<lparr>iv_end_exclusive := iv_end_exclusive i\<rparr>]
      else merged @ [i])"

definition include_interval :: "gtid_interval list \<Rightarrow> gtid_interval \<Rightarrow> gtid_interval list" where
  "include_interval is i = foldl merge_step [] (sort_key iv_start (is @ [i]))"

definition same_identity :: "u8 list \<Rightarrow> string option \<Rightarrow> gtid_sid \<Rightarrow> bool" where
  "same_identity sid tag s \<longleftrightarrow> gs_sid s = sid \<and> gs_tag s = tag"

fun identity_position :: "u8 list \<Rightarrow> string option \<Rightarrow> gtid_set \<Rightarrow> nat option" where
  "identity_position sid tag [] = None"
| "identity_position sid tag (s # ss) =
     (if same_identity sid tag s then Some 0 else map_option Suc (identity_position sid tag ss))"

definition include_transaction ::
  "'p mysql_common \<Rightarrow> gtid_set \<Rightarrow> u8 list \<Rightarrow> string option \<Rightarrow> u64 \<Rightarrow> gtid_set \<times> (position_error, unit) res" where
  "include_transaction mc g sid tag gno =
     (case checked_add gno 1 of
        None \<Rightarrow> (g, Inl (InvalidGtidInterval gno gno))
      | Some end_exclusive \<Rightarrow>
          let new = \<lparr>iv_start = gno, iv_end_exclusive = end_exclusive\<rparr> in
          (case interval_validate mc new of
             Inl e \<Rightarrow> (g, Inl e)
           | Inr _ \<Rightarrow>
               let (g1, index) =
                 (case identity_position sid tag g of
                    Some index \<Rightarrow> (g, index)
                  | None \<Rightarrow> (g @ [\<lparr>gs_sid = sid, gs_tag = tag, gs_intervals = []\<rparr>], length g));
                 intervals = gs_intervals (g1 ! index)
               in if list_ex (\<lambda>i. iv_start i \<le> gno \<and> gno < iv_end_exclusive i) intervals
                  then (g1, Inl (DuplicateCommittedGtid sid tag gno))
                  else let g2 = g1[index := (g1 ! index)\<lparr>gs_intervals := include_interval intervals new\<rparr>]
                       in (g2, gtid_validate mc g2)))"

definition is_subset_of :: "gtid_set \<Rightarrow> gtid_set \<Rightarrow> bool" where
  "is_subset_of required current =
     list_all (\<lambda>r.
       case find (same_identity (gs_sid r) (gs_tag r)) current of
         None \<Rightarrow> False
       | Some c \<Rightarrow>
           list_all (\<lambda>i. list_ex (\<lambda>a. iv_start a \<le> iv_start i \<and> iv_end_exclusive i \<le> iv_end_exclusive a)
                           (gs_intervals c)) (gs_intervals r)) required"

subsection \<open>Resume positions\<close>

definition resume_validate :: "'p mysql_common \<Rightarrow> mysql_resume_position \<Rightarrow> (position_error, unit) res" where
  "resume_validate mc r =
     (case r of
        FilePosition p \<Rightarrow> binlog_position_validate p
      | Gtid executed fallback \<Rightarrow>
          res_bind (binlog_position_validate fallback) (\<lambda>_. gtid_validate mc executed))"

datatype 'p binlog_stream_request =
    By_position u32 "u8 list" u64
  | By_gtid u32 "'p list"

definition resume_request ::
  "'p mysql_common \<Rightarrow> mysql_resume_position \<Rightarrow> u32 \<Rightarrow> (position_error, 'p binlog_stream_request) res" where
  "resume_request mc r server_id =
     (if server_id = 0 then Inl ZeroServerId
      else res_bind (resume_validate mc r) (\<lambda>_.
        case r of
          FilePosition p \<Rightarrow> Inr (By_position server_id (bp_filename p) (ucast (bp_position p)))
        | Gtid executed _ \<Rightarrow>
            res_bind (to_mysql_sids mc executed) (\<lambda>sids. Inr (By_gtid server_id sids))))"

definition fallback_position :: "mysql_resume_position \<Rightarrow> mysql_binlog_position" where
  "fallback_position r = (case r of FilePosition p \<Rightarrow> p | Gtid _ p \<Rightarrow> p)"

subsection \<open>Canonical intervals\<close>

definition gnos :: "gtid_interval \<Rightarrow> u64 set" where
  "gnos i = {iv_start i..<iv_end_exclusive i}"

definition all_gnos :: "gtid_interval list \<Rightarrow> u64 set" where
  "all_gnos is = (\<Union>i \<in> set is. gnos i)"

definition canonical :: "gtid_interval list \<Rightarrow> bool" where
  "canonical is \<longleftrightarrow>
     (\<forall>i \<in> set is. iv_start i < iv_end_exclusive i) \<and>
     sorted_wrt (\<lambda>a b. iv_end_exclusive a < iv_start b) is"

definition separated :: "gtid_interval list \<Rightarrow> bool" where
  "separated is \<longleftrightarrow>
     (\<forall>i \<in> set is. iv_start i < iv_end_exclusive i) \<and>
     sorted_wrt (\<lambda>a b. iv_end_exclusive a \<le> iv_start b) is"

lemma all_gnos_simps [simp]:
  "all_gnos [] = {}" "all_gnos (i # is) = gnos i \<union> all_gnos is"
  "all_gnos (is @ js) = all_gnos is \<union> all_gnos js"
  by (auto simp: all_gnos_def)

lemma merge_step_canonical:
  assumes "canonical (merged)" "separated (merged @ i # is)"
  shows "canonical (merge_step merged i) \<and> separated (merge_step merged i @ is) \<and>
     all_gnos (merge_step merged i) = all_gnos merged \<union> gnos i"
proof (cases merged rule: rev_cases)
  case Nil
  then show ?thesis using assms by (auto simp: merge_step_def canonical_def separated_def)
next
  case (snoc ms m)
  have order: "iv_end_exclusive m \<le> iv_start i" "iv_start m < iv_end_exclusive m" "iv_start i < iv_end_exclusive i"
    using assms snoc by (auto simp: separated_def sorted_wrt_append)
  then have "gnos (m\<lparr>iv_end_exclusive := iv_end_exclusive i\<rparr>) = gnos m \<union> gnos i"
    if "iv_end_exclusive m = iv_start i"
    using that by (auto simp: gnos_def)
  then show ?thesis
    using assms snoc order
    by (auto simp: merge_step_def canonical_def separated_def sorted_wrt_append)
qed

lemma merge_canonical:
  assumes "canonical merged" "separated (merged @ is)"
  shows "canonical (foldl merge_step merged is) \<and>
     all_gnos (foldl merge_step merged is) = all_gnos merged \<union> all_gnos is"
  using assms
proof (induction "is" arbitrary: merged)
  case (Cons i "is")
  then show ?case using merge_step_canonical[of merged i "is"] by auto
qed simp

lemma sorted_separated:
  assumes "sorted (map iv_start is)" "distinct (map iv_start is)"
    and "\<And>i. i \<in> set is \<Longrightarrow> iv_start i < iv_end_exclusive i"
    and "\<And>i j. i \<in> set is \<Longrightarrow> j \<in> set is \<Longrightarrow> i \<noteq> j \<Longrightarrow> gnos i \<inter> gnos j = {}"
  shows "separated is"
  using assms
proof (induction "is")
  case (Cons i "is")
  have "iv_end_exclusive i \<le> iv_start j" if "j \<in> set is" for j
  proof -
    have "iv_start i \<le> iv_start j" "i \<noteq> j" using that Cons.prems by auto
    moreover have "iv_start j \<notin> gnos i"
      using that Cons.prems(3)[of j] Cons.prems(4)[of i j] \<open>i \<noteq> j\<close> by (auto simp: gnos_def)
    ultimately show ?thesis by (auto simp: gnos_def)
  qed
  moreover have "separated is" using Cons by auto
  ultimately show ?case using Cons.prems(3) by (simp add: separated_def)
qed (simp add: separated_def)

lemma canonical_disjoint:
  assumes "canonical is"
  shows "distinct (map iv_start is) \<and>
     (\<forall>i \<in> set is. \<forall>j \<in> set is. i \<noteq> j \<longrightarrow> gnos i \<inter> gnos j = {} \<and>
        (iv_end_exclusive i < iv_start j \<or> iv_end_exclusive j < iv_start i))"
  using assms
proof (induction "is")
  case (Cons i "is")
  have after: "iv_end_exclusive i < iv_start j" "iv_start i < iv_end_exclusive i" if "j \<in> set is" for j
    using that Cons.prems by (auto simp: canonical_def)
  then have "gnos i \<inter> gnos j = {}" "iv_start i \<noteq> iv_start j" if "j \<in> set is" for j
    using after[OF that] by (auto simp: gnos_def)
  moreover have "canonical is" using Cons.prems by (simp add: canonical_def)
  ultimately show ?case using Cons.IH after by (auto simp: Int_commute)
qed simp

lemma include_interval_canonical:
  assumes "canonical is" "iv_start i < iv_end_exclusive i" "all_gnos is \<inter> gnos i = {}"
  shows "canonical (include_interval is i) \<and> all_gnos (include_interval is i) = all_gnos is \<union> gnos i"
proof -
  let ?xs = "sort_key iv_start (is @ [i])"
  have start: "iv_start j \<in> gnos j" if "j \<in> set (is @ [i])" for j
    using that assms by (auto simp: canonical_def gnos_def)
  have apart: "gnos j \<inter> gnos i = {}" if "j \<in> set is" for j
    using that assms(3) by (auto simp: all_gnos_def)
  have "distinct (map iv_start (is @ [i]))"
    using canonical_disjoint[OF assms(1)] start apart by fastforce
  then have "distinct (map iv_start ?xs)"
    by (auto simp: distinct_map intro: inj_on_subset)
  moreover have "gnos j \<inter> gnos k = {}" if "j \<in> set ?xs" "k \<in> set ?xs" "j \<noteq> k" for j k
    using that canonical_disjoint[OF assms(1)] apart by (auto; blast)
  ultimately have "separated ?xs"
    using assms by (intro sorted_separated) (auto simp: canonical_def)
  moreover have "all_gnos ?xs = all_gnos is \<union> gnos i" by (auto simp: all_gnos_def)
  ultimately show ?thesis
    using merge_canonical[of "[]" ?xs] by (simp add: include_interval_def canonical_def)
qed

lemma canonical_covers:
  assumes "canonical is" "iv_start i < iv_end_exclusive i" "gnos i \<subseteq> all_gnos is"
  shows "\<exists>a \<in> set is. iv_start a \<le> iv_start i \<and> iv_end_exclusive i \<le> iv_end_exclusive a"
proof -
  have "iv_start i \<in> all_gnos is" using assms by (auto simp: gnos_def)
  then obtain a where a: "a \<in> set is" "iv_start a \<le> iv_start i" "iv_start i < iv_end_exclusive a"
    by (auto simp: all_gnos_def gnos_def)
  have "iv_end_exclusive i \<le> iv_end_exclusive a"
  proof (rule ccontr)
    assume "\<not> iv_end_exclusive i \<le> iv_end_exclusive a"
    then have "iv_end_exclusive a \<in> gnos i" using a by (auto simp: gnos_def)
    then obtain b where b: "b \<in> set is" "iv_start b \<le> iv_end_exclusive a" "iv_end_exclusive a < iv_end_exclusive b"
      using assms(3) by (auto simp: all_gnos_def gnos_def)
    then have "iv_end_exclusive b < iv_start a" using a canonical_disjoint[OF assms(1)] by force
    then show False using a b by simp
  qed
  with a show ?thesis by blast
qed

lemma interval_validate_ok:
  "interval_validate mc i = Inr u \<longleftrightarrow>
     0 < iv_start i \<and> iv_start i < iv_end_exclusive i \<and> iv_end_exclusive i \<le> MAX_END_EXCLUSIVE \<and>
     mc_check_and_new mc (iv_start i) (iv_end_exclusive i) = Inr ()"
  by (auto simp: interval_validate_def not_le not_less word_gt_0 split: sum.splits)

lemma interval_loop_ok:
  "interval_loop mc prev is = Inr u \<longleftrightarrow>
     canonical is \<and> (\<forall>i \<in> set is. interval_validate mc i = Inr ()) \<and>
     (\<forall>e. prev = Some e \<longrightarrow> (\<forall>i \<in> set is. e < iv_start i))"
proof (induction mc prev "is" rule: interval_loop.induct)
  case (2 mc prev i "is")
  show ?case
  proof (cases "interval_validate mc i")
    case (Inr u')
    have "iv_start i < iv_end_exclusive i" using Inr by (simp add: interval_validate_ok)
    then show ?thesis
      using 2 Inr by (cases prev) (auto simp: canonical_def not_le)
  qed auto
qed (simp add: canonical_def)


subsection \<open>Sets of transactions\<close>

abbreviation identity :: "gtid_sid \<Rightarrow> u8 list \<times> string option" where
  "identity s \<equiv> (gs_sid s, gs_tag s)"

text \<open>The executed transactions a GTID set stands for.\<close>

definition gtids :: "gtid_set \<Rightarrow> (u8 list \<times> string option \<times> u64) set" where
  "gtids g = {(sid, tag, n). \<exists>s \<in> set g. identity s = (sid, tag) \<and> n \<in> all_gnos (gs_intervals s)}"

lemma sid_validate_ok:
  "sid_validate mc s = Inr u \<longleftrightarrow>
     gs_intervals s \<noteq> [] \<and> canonical (gs_intervals s) \<and>
     (\<forall>i \<in> set (gs_intervals s). interval_validate mc i = Inr ()) \<and> is_ok (mc_parse mc (to_mysql_text s))"
  by (cases "mc_parse mc (to_mysql_text s)")
     (auto simp: sid_validate_def validate_intervals_def parse_mysql_sid_def res_bind_Inr_iff interval_loop_ok)

lemma validate_sids_ok:
  "validate_sids mc ids g = Inr u \<longleftrightarrow>
     (\<forall>s \<in> set g. sid_validate mc s = Inr ()) \<and> distinct (map identity g) \<and> set ids \<inter> identity ` set g = {}"
  by (induction mc ids g rule: validate_sids.induct) (auto split: sum.splits)

lemma gtid_validate_ok:
  "gtid_validate mc g = Inr u \<longleftrightarrow>
     (\<forall>s \<in> set g. sid_validate mc s = Inr ()) \<and> distinct (map identity g)"
  by (simp add: gtid_validate_def validate_sids_ok)

lemma identity_find:
  assumes "distinct (map identity g)" "s \<in> set g"
  shows "find (same_identity (gs_sid s) (gs_tag s)) g = Some s"
  using assms by (induction g) (auto simp: same_identity_def image_iff)

lemma identity_position_None:
  "identity_position sid tag g = None \<longleftrightarrow> (sid, tag) \<notin> identity ` set g"
  by (induction g) (auto simp: same_identity_def)

lemma identity_position_Some:
  "identity_position sid tag g = Some k \<Longrightarrow> k < length g \<and> identity (g ! k) = (sid, tag)"
  by (induction g arbitrary: k) (auto simp: same_identity_def split: if_splits)

lemma sid_validate_sound:
  assumes "sid_validate mc s = Inr ()"
  shows "canonical (gs_intervals s)" "gs_intervals s \<noteq> []"
    "\<And>i. i \<in> set (gs_intervals s) \<Longrightarrow> iv_start i < iv_end_exclusive i"
  using assms by (auto simp: sid_validate_ok canonical_def)

lemma gtids_member:
  assumes "distinct (map identity g)" "s \<in> set g"
  shows "(gs_sid s, gs_tag s, n) \<in> gtids g \<longleftrightarrow> n \<in> all_gnos (gs_intervals s)"
proof -
  have "s' = s" if "s' \<in> set g" "identity s' = identity s" for s'
    using that assms by (intro inj_onD[of identity "set g"]) (simp_all add: distinct_map)
  then show ?thesis using assms(2) by (auto simp: gtids_def)
qed

lemma gtids_absent:
  "(sid, tag) \<notin> identity ` set g \<Longrightarrow> (sid, tag, n) \<notin> gtids g"
  by (auto simp: gtids_def image_iff)

text \<open>
  What is relied on of \<^verbatim>\<open>mysql_common\<close>: an interval of positive, ordered numbers is accepted, and
  whether the text of a server with well-formed intervals parses depends on its tag alone.
\<close>

definition mysql_common_laws :: "'p mysql_common \<Rightarrow> (string option \<Rightarrow> bool) \<Rightarrow> bool" where
  "mysql_common_laws mc tag_ok \<longleftrightarrow>
     (\<forall>a b. 0 < a \<and> a < b \<and> b \<le> MAX_END_EXCLUSIVE \<longrightarrow> mc_check_and_new mc a b = Inr ()) \<and>
     (\<forall>s. length (gs_sid s) = 16 \<and> gs_intervals s \<noteq> [] \<and> canonical (gs_intervals s) \<and>
          (\<forall>i \<in> set (gs_intervals s). interval_validate mc i = Inr ()) \<longrightarrow>
          is_ok (mc_parse mc (to_mysql_text s)) = tag_ok (gs_tag s))"

lemma canonical_bounds:
  assumes "canonical is" "i \<in> set is" "all_gnos is \<subseteq> {0<..<MAX_END_EXCLUSIVE}"
  shows "0 < iv_start i \<and> iv_start i < iv_end_exclusive i \<and> iv_end_exclusive i \<le> MAX_END_EXCLUSIVE"
proof -
  have lt: "iv_start i < iv_end_exclusive i" using assms by (auto simp: canonical_def)
  have sub: "gnos i \<subseteq> {0<..<MAX_END_EXCLUSIVE}" using assms(2,3) by (auto simp: all_gnos_def)
  then have start: "0 < iv_start i" "iv_start i < MAX_END_EXCLUSIVE"
    using lt by (auto simp: gnos_def)
  have "iv_end_exclusive i \<le> MAX_END_EXCLUSIVE"
  proof (rule ccontr)
    assume "\<not> iv_end_exclusive i \<le> MAX_END_EXCLUSIVE"
    then have "MAX_END_EXCLUSIVE \<in> gnos i" using start by (auto simp: gnos_def)
    then show False using sub by auto
  qed
  with lt start show ?thesis by blast
qed

lemma valid_bounds:
  assumes "\<forall>i \<in> set is. interval_validate mc i = Inr ()"
  shows "all_gnos is \<subseteq> {0<..<MAX_END_EXCLUSIVE}"
  using assms by (force simp: all_gnos_def gnos_def interval_validate_ok)

lemma single_gno:
  assumes "0 < gno" "gno < MAX_END_EXCLUSIVE"
  shows "checked_add gno 1 = Some (gno + 1)" "gno < gno + 1" "gno + 1 \<le> MAX_END_EXCLUSIVE"
    "{gno..<gno + 1} = {gno}"
proof -
  have u: "unat gno + 1 < 2 ^ LENGTH(64)" "unat gno < 2 ^ 63"
    using assms(2) by (simp_all add: MAX_END_EXCLUSIVE_def word_less_nat_alt)
  then show c: "checked_add gno 1 = Some (gno + 1)" by (intro checked_add_total) simp
  then have n: "unat (gno + 1) = unat gno + 1" by (simp add: checked_add_eq_Some)
  then show "gno < gno + 1" "gno + 1 \<le> MAX_END_EXCLUSIVE"
    using u by (simp_all add: word_less_nat_alt word_le_nat_alt MAX_END_EXCLUSIVE_def)
  show "{gno..<gno + 1} = {gno}"
    using n by (auto simp: word_less_nat_alt word_le_nat_alt word_unat_eq_iff)
qed

lemma sid_validate_include:
  assumes laws: "mysql_common_laws mc tag_ok" "length (gs_sid s) = 16" "tag_ok (gs_tag s)"
    and old: "canonical (gs_intervals s)" "\<forall>i \<in> set (gs_intervals s). interval_validate mc i = Inr ()"
    and gno: "0 < gno" "gno < MAX_END_EXCLUSIVE" "gno \<notin> all_gnos (gs_intervals s)"
    and new: "is' = include_interval (gs_intervals s) \<lparr>iv_start = gno, iv_end_exclusive = gno + 1\<rparr>"
  shows "sid_validate mc (s\<lparr>gs_intervals := is'\<rparr>) = Inr () \<and>
    all_gnos is' = insert gno (all_gnos (gs_intervals s))"
proof -
  let ?i = "\<lparr>iv_start = gno, iv_end_exclusive = gno + 1\<rparr>"
  have g: "gnos ?i = {gno}" using single_gno[OF gno(1,2)] by (simp add: gnos_def)
  have c: "canonical is'" "all_gnos is' = insert gno (all_gnos (gs_intervals s))"
    using include_interval_canonical[OF old(1), of ?i] single_gno[OF gno(1,2)] gno(3) g new by auto
  have "all_gnos is' \<subseteq> {0<..<MAX_END_EXCLUSIVE}"
    using c(2) valid_bounds[OF old(2)] gno by auto
  then have v: "\<forall>i \<in> set is'. interval_validate mc i = Inr ()"
    using canonical_bounds[OF c(1)] laws(1) by (auto simp: interval_validate_ok mysql_common_laws_def)
  have "is' \<noteq> []" using c(2) by auto
  then show ?thesis
    using laws c v by (auto simp: sid_validate_ok mysql_common_laws_def)
qed

lemma gtids_update:
  assumes "distinct (map identity g)" "k < length g"
    and "all_gnos is' = insert gno (all_gnos (gs_intervals (g ! k)))"
  shows "gtids (g[k := (g ! k)\<lparr>gs_intervals := is'\<rparr>]) = insert (gs_sid (g ! k), gs_tag (g ! k), gno) (gtids g)"
proof -
  have "set (g[k := (g ! k)\<lparr>gs_intervals := is'\<rparr>]) =
      insert ((g ! k)\<lparr>gs_intervals := is'\<rparr>) (set g - {g ! k})"
    using assms(1,2) by (intro set_update_distinct) (simp_all add: distinct_map)
  then show ?thesis
    using assms(2,3) nth_mem[OF assms(2)] by (auto simp: gtids_def)
qed

lemma identity_update:
  "k < length g \<Longrightarrow> map identity (g[k := (g ! k)\<lparr>gs_intervals := is'\<rparr>]) = map identity g"
  by (metis (no_types, lifting) gtid_sid.select_convs(1,2) gtid_sid.surjective gtid_sid.update_convs(3)
      list_update_id map_update nth_map)

lemma all_gnos_list_ex:
  "list_ex (\<lambda>i. iv_start i \<le> n \<and> n < iv_end_exclusive i) is \<longleftrightarrow> n \<in> all_gnos is"
  by (auto simp: list_ex_iff all_gnos_def gnos_def)

text \<open>The entry a transaction goes to: the one of its identity, appended when there is none.\<close>

lemma include_at:
  assumes laws: "mysql_common_laws mc tag_ok" "length sid = 16" "tag_ok tag"
    and g: "\<forall>s \<in> set g - {g ! k}. sid_validate mc s = Inr ()" "distinct (map identity g)" "k < length g"
    and k: "identity (g ! k) = (sid, tag)" "canonical (gs_intervals (g ! k))"
      "\<forall>i \<in> set (gs_intervals (g ! k)). interval_validate mc i = Inr ()"
    and gno: "0 < gno" "gno < MAX_END_EXCLUSIVE" "(sid, tag, gno) \<notin> gtids g"
    and g': "g' = g[k := (g ! k)\<lparr>gs_intervals :=
      include_interval (gs_intervals (g ! k)) \<lparr>iv_start = gno, iv_end_exclusive = gno + 1\<rparr>\<rparr>]"
  shows "gtid_validate mc g' = Inr () \<and> gtids g' = insert (sid, tag, gno) (gtids g)"
proof -
  have mem: "gno \<notin> all_gnos (gs_intervals (g ! k))"
    using gno(3) k(1) gtids_member[OF g(2), of "g ! k"] g(3) by auto
  note inc = sid_validate_include[OF laws(1) _ _ k(2,3) gno(1,2) mem refl]
  have "set g' \<subseteq> insert ((g ! k)\<lparr>gs_intervals :=
      include_interval (gs_intervals (g ! k)) \<lparr>iv_start = gno, iv_end_exclusive = gno + 1\<rparr>\<rparr>) (set g - {g ! k})"
    unfolding g' using g(2,3) by (subst set_update_distinct) (simp_all add: distinct_map)
  then show ?thesis
    using g laws k(1) inc gtids_update[OF g(2,3)] identity_update[OF g(3)] g'
    by (auto simp: gtid_validate_ok)
qed

subsection \<open>Properties\<close>

lemma include_invalid_gno:
  assumes "\<not> (0 < gno \<and> gno < MAX_END_EXCLUSIVE)" "include_transaction mc g sid tag gno = (g', r)"
  shows "g' = g \<and> r \<noteq> Inr ()"
proof (cases "checked_add gno 1")
  case (Some e)
  then have "unat e = unat gno + 1" by (simp add: checked_add_eq_Some)
  then have "\<not> (0 < gno \<and> gno < e \<and> e \<le> MAX_END_EXCLUSIVE)"
    using assms(1) by (auto simp: word_less_nat_alt word_le_nat_alt)
  then have "interval_validate mc \<lparr>iv_start = gno, iv_end_exclusive = e\<rparr> = Inl (InvalidGtidInterval gno e)"
    by (auto simp: interval_validate_def not_le not_less word_gt_0)
  then show ?thesis using assms(2) Some by (auto simp: include_transaction_def Let_def)
qed (use assms(2) in \<open>auto simp: include_transaction_def\<close>)

lemma include_valid_gno:
  assumes "mysql_common_laws mc tag_ok" and "length sid = 16" and "tag_ok tag"
    and "gtid_validate mc g = Inr ()" and "include_transaction mc g sid tag gno = (g', r)"
    and True: "0 < gno \<and> gno < MAX_END_EXCLUSIVE"
  shows "(r = Inr () \<longleftrightarrow> (sid, tag, gno) \<notin> gtids g) \<and>
    (r = Inr () \<longrightarrow> gtid_validate mc g' = Inr () \<and> gtids g' = insert (sid, tag, gno) (gtids g)) \<and>
    (r \<noteq> Inr () \<longrightarrow> g' = g)"
proof -
  let ?new = "\<lparr>iv_start = gno, iv_end_exclusive = gno + 1\<rparr>"
  have ok: "interval_validate mc ?new = Inr ()"
    using True single_gno[of gno] assms(1) by (auto simp: interval_validate_ok mysql_common_laws_def)
  obtain g1 k where g1: "(case identity_position sid tag g of
      Some index \<Rightarrow> (g, index)
    | None \<Rightarrow> (g @ [\<lparr>gs_sid = sid, gs_tag = tag, gs_intervals = []\<rparr>], length g)) = (g1, k)"
    by fastforce
  have entry: "gtids g1 = gtids g" "distinct (map identity g1)" "k < length g1" "identity (g1 ! k) = (sid, tag)"
    "canonical (gs_intervals (g1 ! k))" "\<forall>i \<in> set (gs_intervals (g1 ! k)). interval_validate mc i = Inr ()"
    "\<forall>s \<in> set g1 - {g1 ! k}. sid_validate mc s = Inr ()" "(sid, tag, gno) \<in> gtids g \<Longrightarrow> g1 = g"
    using g1 assms(4) identity_position_Some[of sid tag g] identity_position_None[of sid tag g]
      gtids_absent[of sid tag g gno]
    by (auto simp: gtid_validate_ok sid_validate_ok gtids_def canonical_def split: option.splits)
  have run: "include_transaction mc g sid tag gno =
      (if gno \<in> all_gnos (gs_intervals (g1 ! k)) then (g1, Inl (DuplicateCommittedGtid sid tag gno))
       else let g2 = g1[k := (g1 ! k)\<lparr>gs_intervals := include_interval (gs_intervals (g1 ! k)) ?new\<rparr>]
            in (g2, gtid_validate mc g2))"
    using True single_gno(1)[of gno] ok g1
    by (simp add: include_transaction_def Let_def all_gnos_list_ex)
  have mem: "gno \<in> all_gnos (gs_intervals (g1 ! k)) \<longleftrightarrow> (sid, tag, gno) \<in> gtids g"
    using gtids_member[OF entry(2), of "g1 ! k" gno] entry(1,3,4) by auto
  show ?thesis
  proof (cases "(sid, tag, gno) \<in> gtids g")
    case dup: True
    then show ?thesis using run mem entry(8) assms(5) by auto
  next
    case fresh: False
    then show ?thesis
      using run mem assms(5) True entry(1)
        include_at[OF assms(1-3) entry(7,2,3,4,5,6) _ _ _ refl] by (auto simp: Let_def)
  qed
qed

text \<open>
  C27 (GTID continuity). For a valid GTID set and a transaction with a valid tag, \<^verbatim>\<open>include_transaction\<close> succeeds exactly when the
  transaction number is one MySQL can assign and the transaction is not in the set yet; it then adds
  that transaction and nothing else, and the set stays valid, so its intervals are merged, ordered
  and disjoint. On failure the set is unchanged.
\<close>

theorem include_transaction_exact:
  assumes "mysql_common_laws mc tag_ok" and "length sid = 16" and "tag_ok tag"
    and "gtid_validate mc g = Inr ()"
    and "include_transaction mc g sid tag gno = (g', r)"
  shows "(r = Inr () \<longleftrightarrow> 0 < gno \<and> gno < MAX_END_EXCLUSIVE \<and> (sid, tag, gno) \<notin> gtids g) \<and>
    (r = Inr () \<longrightarrow> gtid_validate mc g' = Inr () \<and> gtids g' = insert (sid, tag, gno) (gtids g)) \<and>
    (r \<noteq> Inr () \<longrightarrow> g' = g)"
  using include_invalid_gno[OF _ assms(5)] include_valid_gno[OF assms]
  by (cases "0 < gno \<and> gno < MAX_END_EXCLUSIVE") auto

definition example_mysql_common :: "string mysql_common" where
  "example_mysql_common =
     \<lparr>mc_parse = Inr, mc_uuid = \<lambda>_. [], mc_tag = \<lambda>_. None, mc_intervals = \<lambda>_. [],
      mc_check_and_new = \<lambda>_ _. Inr ()\<rparr>"

lemma example_mysql_common_laws: "mysql_common_laws example_mysql_common (\<lambda>_. True)"
  by (simp add: mysql_common_laws_def example_mysql_common_def)

definition example_gtids :: gtid_set where
  "example_gtids =
     [\<lparr>gs_sid = replicate 16 7, gs_tag = None,
       gs_intervals = [\<lparr>iv_start = 1, iv_end_exclusive = 5\<rparr>, \<lparr>iv_start = 6, iv_end_exclusive = 9\<rparr>]\<rparr>]"

lemma example_gtids_valid: "gtid_validate example_mysql_common example_gtids = Inr ()"
  by code_simp

lemma example_include:
  "include_transaction example_mysql_common example_gtids (replicate 16 7) None 5 =
     ([\<lparr>gs_sid = replicate 16 7, gs_tag = None, gs_intervals = [\<lparr>iv_start = 1, iv_end_exclusive = 9\<rparr>]\<rparr>], Inr ())"
  by code_simp

theorem include_transaction_exact_witness:
  "gtids [\<lparr>gs_sid = replicate 16 7, gs_tag = None, gs_intervals = [\<lparr>iv_start = 1, iv_end_exclusive = 9\<rparr>]\<rparr>] =
     insert (replicate 16 7, None, 5) (gtids example_gtids) \<and>
   (replicate 16 7, None, 5) \<notin> gtids example_gtids"
  using include_transaction_exact[OF example_mysql_common_laws _ _ example_gtids_valid example_include] by simp

lemma is_subset_of_sound:
  assumes sub: "is_subset_of required current"
  shows "gtids required \<subseteq> gtids current"
proof clarify
  fix sid tag n assume "(sid, tag, n) \<in> gtids required"
  then obtain r i where r: "r \<in> set required" "identity r = (sid, tag)"
    "i \<in> set (gs_intervals r)" "iv_start i \<le> n" "n < iv_end_exclusive i"
    by (auto simp: gtids_def all_gnos_def gnos_def)
  then obtain c a where c: "find (same_identity sid tag) current = Some c" "a \<in> set (gs_intervals c)"
    "iv_start a \<le> iv_start i" "iv_end_exclusive i \<le> iv_end_exclusive a"
    using bspec[OF sub[unfolded is_subset_of_def list_all_iff] r(1)] 
    by (auto simp: list_all_iff list_ex_iff split: option.splits)
  then have "c \<in> set current" "identity c = (sid, tag)" "n \<in> all_gnos (gs_intervals c)"
    using r by (auto simp: find_Some_iff same_identity_def all_gnos_def gnos_def intro!: bexI[of _ a])
  then show "(sid, tag, n) \<in> gtids current" by (auto simp: gtids_def)
qed

lemma is_subset_of_found:
  assumes sub: "gtids required \<subseteq> gtids current"
    and valid: "gtid_validate mc required = Inr ()" "gtid_validate mc current = Inr ()" and r: "r \<in> set required"
  shows "\<exists>c. find (same_identity (gs_sid r) (gs_tag r)) current = Some c \<and>
      all_gnos (gs_intervals r) \<subseteq> all_gnos (gs_intervals c) \<and> c \<in> set current"
proof -
  have v: "sid_validate mc r = Inr ()" "distinct (map identity required)"
    using r valid(1) by (auto simp: gtid_validate_ok)
  then obtain i where "i \<in> set (gs_intervals r)" "iv_start i < iv_end_exclusive i"
    using sid_validate_sound[OF v(1)] by (cases "gs_intervals r") auto
  then have "iv_start i \<in> all_gnos (gs_intervals r)" by (auto simp: all_gnos_def gnos_def)
  then have "(gs_sid r, gs_tag r, iv_start i) \<in> gtids current"
    using sub gtids_member[OF v(2) r] by auto
  then obtain c where c: "c \<in> set current" "identity c = identity r" by (auto simp: gtids_def)
  moreover have d: "distinct (map identity current)" using valid(2) by (simp add: gtid_validate_ok)
  ultimately show ?thesis
    using identity_find[OF d c(1)] gtids_member[OF d c(1)] gtids_member[OF v(2) r] sub by auto
qed

lemma is_subset_of_complete:
  assumes sub: "gtids required \<subseteq> gtids current"
    and valid: "gtid_validate mc required = Inr ()" "gtid_validate mc current = Inr ()"
  shows "is_subset_of required current"
  unfolding is_subset_of_def list_all_iff
proof
  fix r assume r: "r \<in> set required"
  then obtain c where c: "find (same_identity (gs_sid r) (gs_tag r)) current = Some c"
    "all_gnos (gs_intervals r) \<subseteq> all_gnos (gs_intervals c)" "c \<in> set current"
    using is_subset_of_found[OF sub valid] by blast
  then have can: "canonical (gs_intervals c)"
    using valid(2) sid_validate_sound(1) by (auto simp: gtid_validate_ok)
  have "\<exists>a \<in> set (gs_intervals c). iv_start a \<le> iv_start i \<and> iv_end_exclusive i \<le> iv_end_exclusive a"
    if i: "i \<in> set (gs_intervals r)" for i
  proof (rule canonical_covers[OF can])
    show "iv_start i < iv_end_exclusive i"
      using i r valid(1) sid_validate_sound(3) by (auto simp: gtid_validate_ok)
    show "gnos i \<subseteq> all_gnos (gs_intervals c)" using i c(2) by (auto simp: all_gnos_def)
  qed
  then show "case find (same_identity (gs_sid r) (gs_tag r)) current of None \<Rightarrow> False
     | Some c \<Rightarrow> \<forall>i \<in> set (gs_intervals r).
         list_ex (\<lambda>a. iv_start a \<le> iv_start i \<and> iv_end_exclusive i \<le> iv_end_exclusive a) (gs_intervals c)"
    by (simp add: c(1) list_ex_iff)
qed

text \<open>
  C28 (GTID containment). For valid sets the interval-wise test \<^verbatim>\<open>is_subset_of\<close>, which looks for one
  interval that covers each required interval, decides inclusion of the transactions themselves. A
  resume position is accepted exactly when the server has executed everything before it.
\<close>

theorem is_subset_of_iff:
  assumes "gtid_validate mc required = Inr ()" and "gtid_validate mc current = Inr ()"
  shows "is_subset_of required current \<longleftrightarrow> gtids required \<subseteq> gtids current"
  using is_subset_of_sound is_subset_of_complete[OF _ assms] by blast

theorem is_subset_of_iff_witness:
  "gtids [\<lparr>gs_sid = replicate 16 7, gs_tag = None, gs_intervals = [\<lparr>iv_start = 2, iv_end_exclusive = 4\<rparr>]\<rparr>]
     \<subseteq> gtids example_gtids"
proof -
  let ?r = "[\<lparr>gs_sid = replicate 16 7, gs_tag = None, gs_intervals = [\<lparr>iv_start = 2, iv_end_exclusive = 4\<rparr>]\<rparr>]"
  have "gtid_validate example_mysql_common ?r = Inr ()" "is_subset_of ?r example_gtids" by code_simp+
  then show ?thesis using is_subset_of_iff[OF _ example_gtids_valid] by blast
qed

text \<open>
  C29 (canonical GTID text). Text accepted by \<^verbatim>\<open>parse_mysql\<close> is exactly the canonical rendering of the
  set it yields, and that set is valid, for any behaviour of the third-party parser. So durable
  replay state keeps the server's text without loss, and no two texts stand for one parsed set.
\<close>

theorem parse_mysql_canonical:
  assumes "parse_mysql mc v = Inr g"
  shows "gtid_validate mc g = Inr () \<and> join_with CHR '','' (map to_mysql_text g) = v"
proof (cases "v = []")
  case True
  then show ?thesis using assms by (simp add: parse_mysql_def gtid_validate_ok)
next
  case False
  have entry: "to_mysql_text s = snd it" if "parse_entry mc it = Inr s" for it s
    using that
    by (auto simp: parse_entry_def Let_def res_bind_Inr_iff split: prod.splits if_splits sum.splits)
  have "list_all2 (\<lambda>it s. parse_entry mc it = Inr s) (enumerate 0 (split_on CHR '','' v)) g"
    "gtid_validate mc g = Inr ()"
    using assms False by (auto simp: parse_mysql_def res_bind_Inr_iff res_map_Inr_iff split: if_splits)
  moreover from this have "map to_mysql_text g = map snd (enumerate 0 (split_on CHR '','' v))"
    by (intro nth_equalityI) (auto simp: list_all2_conv_all_nth nth_enumerate_eq dest!: entry)
  ultimately show ?thesis by (simp add: join_split_on)
qed

text \<open>A parser of one server, for the witness: it knows a single text.\<close>

definition example_sid :: gtid_sid where
  "example_sid = \<lparr>gs_sid = replicate 16 7, gs_tag = None, gs_intervals = [\<lparr>iv_start = 1, iv_end_exclusive = 5\<rparr>]\<rparr>"

definition example_parser_common :: "gtid_sid mysql_common" where
  "example_parser_common =
     \<lparr>mc_parse = \<lambda>t. if t = to_mysql_text example_sid then Inr example_sid else Inl ''unknown'',
      mc_uuid = gs_sid, mc_tag = gs_tag,
      mc_intervals = \<lambda>s. map (\<lambda>i. (iv_start i, iv_end_exclusive i)) (gs_intervals s),
      mc_check_and_new = \<lambda>_ _. Inr ()\<rparr>"

lemma example_parse:
  "parse_mysql example_parser_common ''07070707-0707-0707-0707-070707070707:1-4'' = Inr [example_sid]"
  by code_simp

theorem parse_mysql_canonical_witness:
  "join_with CHR '','' (map to_mysql_text [example_sid]) = ''07070707-0707-0707-0707-070707070707:1-4''"
  using parse_mysql_canonical[OF example_parse] by blast

end
