(* ===== verification/Mysql_Identity.thy ===== *)
theory Mysql_Identity
  imports Gtid Durable
begin

section \<open>MySQL transaction identities\<close>

text \<open>
  The identity under which a sink knows a source transaction: \<^verbatim>\<open>src_stream/identity.rs\<close> of the MySQL
  connector encodes a GTID, a binlog position or a snapshot boundary into bytes, without hashing. A
  string is its UTF-8 bytes. Every field is framed by a tag and its length, and the encoding is
  injective over all kinds together.
\<close>

datatype mysql_transaction_identity =
    Gtid_transaction "u8 list" "string option" u64
  | Anonymous_transaction mysql_binlog_position
  | File_position_transaction mysql_binlog_position

record mysql_binlog_boundary =
  bb_filename :: string
  bb_position :: u64
  bb_gtid_executed :: string
  bb_source_timestamp_micros :: "64 word"

datatype identity_encoding_error = FieldTooLong

definition as_bytes :: "string \<Rightarrow> u8 list" where
  "as_bytes s = map (\<lambda>c. of_nat (of_char c)) s"

definition to_be_bytes :: "nat \<Rightarrow> 'a::len word \<Rightarrow> u8 list" where
  "to_be_bytes n w = rev (le_bytes n w)"

definition IDENTITY_DOMAIN :: "u8 list" where
  "IDENTITY_DOMAIN = as_bytes ''transferia.mysql.source-transaction-id''"
definition IDENTITY_VERSION :: u8 where
  "IDENTITY_VERSION = 1"
definition GTID_TRANSACTION_TAG :: u8 where
  "GTID_TRANSACTION_TAG = 1"
definition ANONYMOUS_TRANSACTION_TAG :: u8 where
  "ANONYMOUS_TRANSACTION_TAG = 2"
definition FILE_POSITION_TRANSACTION_TAG :: u8 where
  "FILE_POSITION_TRANSACTION_TAG = 3"
definition SNAPSHOT_BOUNDARY_TAG :: u8 where
  "SNAPSHOT_BOUNDARY_TAG = 4"

lemmas tag_defs =
  GTID_TRANSACTION_TAG_def ANONYMOUS_TRANSACTION_TAG_def FILE_POSITION_TRANSACTION_TAG_def SNAPSHOT_BOUNDARY_TAG_def

definition identity_prefix :: "u8 \<Rightarrow> u8 list" where
  "identity_prefix kind = IDENTITY_DOMAIN @ [IDENTITY_VERSION, kind]"

definition push_field :: "u8 list \<Rightarrow> u8 \<Rightarrow> u8 list \<Rightarrow> (identity_encoding_error, u8 list) res" where
  "push_field encoded tag value =
     (if \<not> length value < 2 ^ 64 then Inl FieldTooLong
      else Inr (encoded @ [tag] @ to_be_bytes 8 (of_nat (length value) :: u64) @ value))"

definition push_optional_field :: "u8 list \<Rightarrow> u8 \<Rightarrow> string option \<Rightarrow> (identity_encoding_error, u8 list) res" where
  "push_optional_field encoded tag value =
     (case value of
        None \<Rightarrow> push_field encoded tag [0]
      | Some v \<Rightarrow>
          if \<not> length v < 2 ^ 64 then Inl FieldTooLong
          else push_field encoded tag ([1] @ to_be_bytes 8 (of_nat (length v) :: u64) @ as_bytes v))"

definition encode_transaction_identity :: "mysql_transaction_identity \<Rightarrow> (identity_encoding_error, u8 list) res" where
  "encode_transaction_identity i =
     (let encoded = identity_prefix (case i of
            Gtid_transaction _ _ _ \<Rightarrow> GTID_TRANSACTION_TAG
          | Anonymous_transaction _ \<Rightarrow> ANONYMOUS_TRANSACTION_TAG
          | File_position_transaction _ \<Rightarrow> FILE_POSITION_TRANSACTION_TAG);
          position = (\<lambda>p. res_bind (push_field encoded 1 (bp_filename p)) (\<lambda>e. push_field e 2 (to_be_bytes 4 (bp_position p))))
      in case i of
           Gtid_transaction sid tag gno \<Rightarrow>
             res_bind (push_field encoded 1 sid) (\<lambda>e.
             res_bind (push_optional_field e 2 tag) (\<lambda>e.
             push_field e 3 (to_be_bytes 8 gno)))
         | Anonymous_transaction p \<Rightarrow> position p
         | File_position_transaction p \<Rightarrow> position p)"

definition encode_snapshot_boundary_identity :: "mysql_binlog_boundary \<Rightarrow> (identity_encoding_error, u8 list) res" where
  "encode_snapshot_boundary_identity b =
     res_bind (push_field (identity_prefix SNAPSHOT_BOUNDARY_TAG) 1 (as_bytes (bb_filename b))) (\<lambda>e.
     res_bind (push_field e 2 (to_be_bytes 8 (bb_position b))) (\<lambda>e.
     res_bind (push_field e 3 (as_bytes (bb_gtid_executed b))) (\<lambda>e.
     push_field e 4 (to_be_bytes 8 (bb_source_timestamp_micros b)))))"

subsection \<open>Framing\<close>

definition framed :: "u8 \<Rightarrow> u8 list \<Rightarrow> u8 list" where
  "framed tag value = tag # to_be_bytes 8 (of_nat (length value) :: u64) @ value"

lemma push_field_eq: "push_field e tag v = Inr x \<longleftrightarrow> length v < 2 ^ 64 \<and> x = e @ framed tag v"
  by (auto simp: push_field_def framed_def)

lemma le_bytes_inj: "8 * n = LENGTH('a::len) \<Longrightarrow> le_bytes n (v :: 'a word) = le_bytes n w \<Longrightarrow> v = w"
proof -
  have "take_bit (8 * n) v = take_bit (8 * n) w" if "le_bytes n v = le_bytes n w" for n and v w :: "'a word"
    using that
  proof (induction n arbitrary: v w)
    case (Suc n)
    have "bit v i = bit w i" if "i < 8 * Suc n" for i
    proof (cases "i < 8")
      case True
      have "bit (ucast v :: u8) i = bit (ucast w :: u8) i" using Suc.prems by simp
      then show ?thesis using True by (auto simp: bit_simps)
    next
      case False
      have "take_bit (8 * n) (drop_bit 8 v) = take_bit (8 * n) (drop_bit 8 w)"
        by (rule Suc.IH) (use Suc.prems in simp)
      then have "bit (take_bit (8 * n) (drop_bit 8 v)) (i - 8) = bit (take_bit (8 * n) (drop_bit 8 w)) (i - 8)" by simp
      then show ?thesis using False that by (auto simp: bit_simps)
    qed
    then show ?case by (intro bit_word_eqI) (auto simp: bit_simps)
  qed simp
  then show "8 * n = LENGTH('a) \<Longrightarrow> le_bytes n v = le_bytes n w \<Longrightarrow> v = w"
    by (metis take_bit_word_eq_self order_refl)
qed

lemma to_be_bytes_inj:
  "to_be_bytes 8 (v :: u64) = to_be_bytes 8 w \<longleftrightarrow> v = w" "to_be_bytes 4 (a :: u32) = to_be_bytes 4 b \<longleftrightarrow> a = b"
  using le_bytes_inj[of 8 v w] le_bytes_inj[of 4 a b] by (auto simp: to_be_bytes_def)

lemma length_to_be_bytes [simp]: "length (to_be_bytes n w) = n"
  by (simp add: to_be_bytes_def)

lemma as_bytes_inj: "as_bytes s = as_bytes t \<longleftrightarrow> s = t"
proof -
  have "inj (\<lambda>c. of_nat (of_char c) :: u8)"
  proof (rule injI)
    fix c d :: char assume eq: "(of_nat (of_char c) :: u8) = of_nat (of_char d)"
    have "unat (of_nat (of_char x :: nat) :: u8) = of_char x" for x :: char
      by (simp add: unsigned_of_nat take_bit_nat_eq_self nat_of_char_less_256)
    then show "c = d" using eq by (metis of_char_eq_iff)
  qed
  then show ?thesis by (simp add: as_bytes_def inj_map_eq_map)
qed

lemma framed_append_inj:
  assumes "length v < 2 ^ 64" "length w < 2 ^ 64" "framed s v @ r = framed t w @ q"
  shows "s = t \<and> v = w \<and> r = q"
proof -
  have "s = t" "to_be_bytes 8 (of_nat (length v) :: u64) @ v @ r = to_be_bytes 8 (of_nat (length w) :: u64) @ w @ q"
    using assms(3) by (simp_all add: framed_def)
  then have st: "s = t" "(of_nat (length v) :: u64) = of_nat (length w)" "v @ r = w @ q"
    by (simp_all add: to_be_bytes_inj)
  then have "length v = length w" using assms(1,2) by (metis of_nat_small)
  with st show ?thesis by simp
qed

definition optional_value :: "string option \<Rightarrow> u8 list" where
  "optional_value t =
     (case t of None \<Rightarrow> [0] | Some v \<Rightarrow> 1 # to_be_bytes 8 (of_nat (length v) :: u64) @ as_bytes v)"

lemma push_optional_field_eq:
  "push_optional_field e tag t = Inr x \<longleftrightarrow>
     (\<forall>v. t = Some v \<longrightarrow> length v < 2 ^ 64) \<and> length (optional_value t) < 2 ^ 64 \<and> x = e @ framed tag (optional_value t)"
  by (auto simp: push_optional_field_def push_field_eq optional_value_def split: option.splits)

lemma optional_value_inj: "optional_value s = optional_value t \<longleftrightarrow> s = t"
proof -
  have "v = w" if "to_be_bytes 8 (of_nat (length v) :: u64) @ as_bytes v = to_be_bytes 8 (of_nat (length w) :: u64) @ as_bytes w" for v w
    using that by (simp add: as_bytes_inj)
  then show ?thesis by (auto simp: optional_value_def split: option.splits)
qed

lemma framed_inj:
  assumes "framed s v = framed t w" "length v < 2 ^ 64" "length w < 2 ^ 64"
  shows "s = t \<and> v = w"
  using framed_append_inj[of v w s "[]" t "[]"] assms by simp

lemma identity_prefix_append_inj: "identity_prefix a @ r = identity_prefix b @ q \<longleftrightarrow> a = b \<and> r = q"
  by (simp add: identity_prefix_def)

text \<open>The fields of an encoding: its kind, then the framed values in order.\<close>

lemma encode_gtid:
  "encode_transaction_identity (Gtid_transaction sid tag gno) = Inr x \<longleftrightarrow>
     length sid < 2 ^ 64 \<and> (\<forall>v. tag = Some v \<longrightarrow> length v < 2 ^ 64) \<and> length (optional_value tag) < 2 ^ 64 \<and>
     x = identity_prefix GTID_TRANSACTION_TAG @ framed 1 sid @ framed 2 (optional_value tag) @ framed 3 (to_be_bytes 8 gno)"
  by (auto simp: encode_transaction_identity_def Let_def res_bind_Inr_iff push_field_eq push_optional_field_eq)

lemma encode_position:
  "encode_transaction_identity (Anonymous_transaction p) = Inr x \<longleftrightarrow>
     length (bp_filename p) < 2 ^ 64 \<and>
     x = identity_prefix ANONYMOUS_TRANSACTION_TAG @ framed 1 (bp_filename p) @ framed 2 (to_be_bytes 4 (bp_position p))"
  "encode_transaction_identity (File_position_transaction p) = Inr x \<longleftrightarrow>
     length (bp_filename p) < 2 ^ 64 \<and>
     x = identity_prefix FILE_POSITION_TRANSACTION_TAG @ framed 1 (bp_filename p) @ framed 2 (to_be_bytes 4 (bp_position p))"
  by (auto simp: encode_transaction_identity_def Let_def res_bind_Inr_iff push_field_eq)

lemma encode_boundary:
  "encode_snapshot_boundary_identity b = Inr x \<longleftrightarrow>
     length (bb_filename b) < 2 ^ 64 \<and> length (bb_gtid_executed b) < 2 ^ 64 \<and>
     x = identity_prefix SNAPSHOT_BOUNDARY_TAG @ framed 1 (as_bytes (bb_filename b)) @ framed 2 (to_be_bytes 8 (bb_position b)) @
       framed 3 (as_bytes (bb_gtid_executed b)) @ framed 4 (to_be_bytes 8 (bb_source_timestamp_micros b))"
  by (auto simp: encode_snapshot_boundary_identity_def res_bind_Inr_iff push_field_eq as_bytes_def)

lemma position_eq:
  fixes p q :: mysql_binlog_position
  assumes "framed 1 (bp_filename p) @ framed 2 (to_be_bytes 4 (bp_position p)) =
      framed 1 (bp_filename q) @ framed 2 (to_be_bytes 4 (bp_position q))"
    and "length (bp_filename p) < 2 ^ 64" "length (bp_filename q) < 2 ^ 64"
  shows "p = q"
proof -
  have "bp_filename p = bp_filename q" "framed 2 (to_be_bytes 4 (bp_position p)) = framed 2 (to_be_bytes 4 (bp_position q))"
    using framed_append_inj[OF assms(2,3,1)] by auto
  then show ?thesis
    using framed_inj[of 2 "to_be_bytes 4 (bp_position p)" 2 "to_be_bytes 4 (bp_position q)"]
    by (simp add: to_be_bytes_inj mysql_binlog_position.equality)
qed

lemma gtid_eq:
  assumes "framed 1 s @ framed 2 (optional_value t) @ framed 3 (to_be_bytes 8 (g :: u64)) =
      framed 1 s' @ framed 2 (optional_value t') @ framed 3 (to_be_bytes 8 (g' :: u64))"
    and len: "length s < 2 ^ 64" "length s' < 2 ^ 64" "length (optional_value t) < 2 ^ 64" "length (optional_value t') < 2 ^ 64"
  shows "s = s' \<and> t = t' \<and> g = g'"
proof -
  have s: "s = s'" and rest: "framed 2 (optional_value t) @ framed 3 (to_be_bytes 8 g) =
      framed 2 (optional_value t') @ framed 3 (to_be_bytes 8 g')"
    using framed_append_inj[OF len(1,2) assms(1)] by auto
  have "t = t'" "framed 3 (to_be_bytes 8 g) = framed 3 (to_be_bytes 8 g')"
    using framed_append_inj[OF len(3,4) rest] by (auto simp: optional_value_inj)
  then show ?thesis
    using s framed_inj[of 3 "to_be_bytes 8 g" 3 "to_be_bytes 8 g'"] by (simp add: to_be_bytes_inj)
qed

lemma encode_transaction_identity_inj:
  assumes "encode_transaction_identity a = Inr x" "encode_transaction_identity b = Inr x"
  shows "a = b"
  using assms
  by (cases a; cases b)
    (auto simp: encode_gtid encode_position identity_prefix_append_inj tag_defs dest!: gtid_eq position_eq)

lemma encode_snapshot_boundary_identity_inj:
  assumes "encode_snapshot_boundary_identity a = Inr x" "encode_snapshot_boundary_identity b = Inr x"
  shows "a = b"
proof -
  let ?rest = "\<lambda>b. framed 3 (as_bytes (bb_gtid_executed b)) @ framed 4 (to_be_bytes 8 (bb_source_timestamp_micros b))"
  have len: "length (as_bytes (bb_filename b)) < 2 ^ 64" "length (as_bytes (bb_gtid_executed b)) < 2 ^ 64"
    if "encode_snapshot_boundary_identity b = Inr x" for b
    using that by (simp_all add: encode_boundary as_bytes_def)
  have eq: "framed 1 (as_bytes (bb_filename a)) @ framed 2 (to_be_bytes 8 (bb_position a)) @ ?rest a =
      framed 1 (as_bytes (bb_filename b)) @ framed 2 (to_be_bytes 8 (bb_position b)) @ ?rest b"
    using assms by (simp add: encode_boundary identity_prefix_append_inj)
  have 1: "bb_filename a = bb_filename b"
    "framed 2 (to_be_bytes 8 (bb_position a)) @ ?rest a = framed 2 (to_be_bytes 8 (bb_position b)) @ ?rest b"
    using framed_append_inj[OF len(1)[OF assms(1)] len(1)[OF assms(2)] eq] by (auto simp: as_bytes_inj)
  have 2: "bb_position a = bb_position b" "?rest a = ?rest b"
    using framed_append_inj[OF _ _ 1(2)] by (auto simp: to_be_bytes_inj)
  have 3: "bb_gtid_executed a = bb_gtid_executed b"
    "framed 4 (to_be_bytes 8 (bb_source_timestamp_micros a)) = framed 4 (to_be_bytes 8 (bb_source_timestamp_micros b))"
    using framed_append_inj[OF len(2)[OF assms(1)] len(2)[OF assms(2)] 2(2)] by (auto simp: as_bytes_inj)
  have "bb_source_timestamp_micros a = bb_source_timestamp_micros b"
    using framed_inj[OF 3(2)] by (simp add: to_be_bytes_inj)
  with 1(1) 2(1) 3(1) show ?thesis by (simp add: mysql_binlog_boundary.equality)
qed

lemma encodings_disjoint:
  assumes "encode_transaction_identity a = Inr x"
  shows "encode_snapshot_boundary_identity c \<noteq> Inr x"
  using assms by (cases a) (auto simp: encode_gtid encode_position encode_boundary identity_prefix_append_inj tag_defs)

subsection \<open>Property\<close>

text \<open>
  C36 (injective identities). Two transactions with the same encoded identity are the same transaction, two
  snapshot boundaries with the same identity are the same boundary, and no transaction shares an
  identity with a boundary. So a sink that deduplicates by these bytes never drops a
  transaction it has not seen.
\<close>

theorem mysql_identity_injective:
  assumes "encode_transaction_identity a = Inr x" "encode_snapshot_boundary_identity c = Inr y"
  shows "(encode_transaction_identity b = Inr x \<longleftrightarrow> b = a) \<and> (encode_snapshot_boundary_identity d = Inr y \<longleftrightarrow> d = c) \<and> x \<noteq> y"
  using encode_transaction_identity_inj[OF assms(1), of b] encode_snapshot_boundary_identity_inj[OF assms(2), of d]
    encodings_disjoint[OF assms(1), of c] assms by auto

definition example_gtid :: mysql_transaction_identity where
  "example_gtid = Gtid_transaction [1, 2] (Some ''t'') 7"

definition example_boundary :: mysql_binlog_boundary where
  "example_boundary = \<lparr>bb_filename = ''b'', bb_position = 4, bb_gtid_executed = [], bb_source_timestamp_micros = 0\<rparr>"

theorem mysql_identity_injective_witness:
  "\<exists>x y. encode_transaction_identity example_gtid = Inr x \<and> encode_snapshot_boundary_identity example_boundary = Inr y \<and>
     x \<noteq> y \<and> encode_transaction_identity (Gtid_transaction [1, 2] None 7) \<noteq> Inr x"
proof -
  obtain x where x: "encode_transaction_identity example_gtid = Inr x"
    by (simp add: example_gtid_def encode_gtid optional_value_def as_bytes_def)
  obtain y where y: "encode_snapshot_boundary_identity example_boundary = Inr y"
    by (simp add: example_boundary_def encode_boundary)
  show ?thesis
    using x y mysql_identity_injective[OF x y, of "Gtid_transaction [1, 2] None 7" example_boundary]
    by (auto simp: example_gtid_def)
qed

end
