(* ===== verification/Mysql_Handoff.thy ===== *)
theory Mysql_Handoff
  imports Mysql_Metadata Mysql_Identity Handoff_Phases
begin

section \<open>MySQL snapshot and stream hand-off\<close>

text \<open>
  The durable phase of a \<^verbatim>\<open>batch_and_stream\<close> delivery from MySQL: \<^verbatim>\<open>src_batch_and_stream/phase.rs\<close> with the
  identities of \<^verbatim>\<open>src_batch_and_stream/mod.rs\<close>. The boundary is a binlog position with the GTID set
  executed there. A snapshot is only recorded at a valid boundary and with the complete, consistent
  identities of exactly the configured tables; the results hold for every interleaving of
  executions, faults and crashes over the local files. Strings are their UTF-8 bytes.
\<close>

subsection \<open>Identities\<close>

datatype mysql_collation_padding = PadSpace | NoPad

record mysql_source_identity =
  msi_server_uuid :: string
  msi_database :: string

record mysql_column_identity =
  mci_name :: string
  mci_data_type :: string
  mci_column_type :: string
  mci_unsigned :: bool
  mci_zerofill :: bool
  mci_auto_increment :: bool
  mci_nullable :: bool
  mci_character_maximum_length :: "usize option"
  mci_character_octet_length :: "usize option"
  mci_numeric_precision :: "u64 option"
  mci_numeric_scale :: "u64 option"
  mci_datetime_precision :: "u64 option"
  mci_character_set :: "string option"
  mci_collation :: "string option"
  mci_collation_id :: "16 word option"
  mci_collation_padding :: "mysql_collation_padding option"
  mci_enum_set_values :: "string list option"
  mci_srs_id :: "u32 option"
  mci_visibility :: mysql_column_visibility
  mci_generation :: mysql_column_generation
  mci_extra :: string
  mci_generation_expression :: "string option"
  mci_primary_key_ordinal :: "u64 option"
  mci_primary_key_prefix_length :: "u64 option"
  mci_primary_key_direction :: "string option"

record mysql_table_identity =
  mti_database :: string
  mti_table :: string
  mti_engine :: string
  mti_columns :: "mysql_column_identity list"

record mysql_table_config =
  tc_database :: string
  tc_name :: string

datatype mysql_violation =
    Zero_server_id
  | Replay_identity_empty
  | Source_identity_incomplete
  | Server_uuid_not_canonical
  | No_tables
  | Invalid_identifier string string
  | Table_repeated string
  | Boundary_filename_invalid
  | Boundary_position_invalid
  | Boundary_timestamp_invalid
  | Boundary_gtids_invalid position_error
  | Table_count_differs nat nat
  | Table_name_differs string string
  | Engine_not_innodb string string string
  | Table_has_no_columns string string
  | Column_repeated string string string
  | Key_ordinal_repeated string string u64
  | No_primary_key string string
  | Key_not_contiguous string string
  | Column_type_empty string
  | Character_metadata_inconsistent string
  | Numeric_modifiers_inconsistent string
  | Column_metadata_invalid metadata_error
  | Members_inconsistent string
  | Visibility_inconsistent string
  | Generation_inconsistent string
  | Nullable_key string
  | Key_prefix_invalid string
  | Key_direction_invalid string "string option"
  | Key_modifiers_without_key string
  | Mysql_state_version u8
  | Mysql_state_undecodable string
  | Mysql_phase_inconsistent
  | Mysql_settings_differ
  | Mysql_claim_changed
  | Mysql_claimed_by_other
  | Mysql_snapshot_interrupted
  | Mysql_not_claimed
  | Mysql_snapshot_not_ready
  | Mysql_schema_missing
  | Mysql_schema_changed
  | Mysql_phase_conflict

datatype mysql_error =
    Mysql_safety mysql_violation
  | Mysql_storage_failed durable_error
  | Mysql_encoding_failed string

subsection \<open>Validation\<close>

definition MAX_IDENTIFIER_CHARS :: nat where
  "MAX_IDENTIFIER_CHARS = 64"

text \<open>Characters of a UTF-8 text: its bytes that do not continue a character.\<close>

definition char_count :: "string \<Rightarrow> nat" where
  "char_count s = length (filter (\<lambda>c. \<not> utf8_tail (of_char c)) s)"

definition validate_identifier :: "string \<Rightarrow> string \<Rightarrow> (mysql_violation, unit) res" where
  "validate_identifier kind v =
     (if v \<noteq> [] \<and> char_count v \<le> MAX_IDENTIFIER_CHARS \<and> CHR 0x00 \<notin> set v then Inr ()
      else Inl (Invalid_identifier kind v))"

definition is_ascii_hexdigit :: "char \<Rightarrow> bool" where
  "is_ascii_hexdigit c \<longleftrightarrow>
     (let n = of_char c :: nat in 48 \<le> n \<and> n \<le> 57 \<or> 65 \<le> n \<and> n \<le> 70 \<or> 97 \<le> n \<and> n \<le> 102)"

definition validate_server_uuid :: "string \<Rightarrow> (mysql_violation, unit) res" where
  "validate_server_uuid server_uuid =
     (if length server_uuid = 36 \<and>
         list_all (\<lambda>(index, byte). if index \<in> {8, 13, 18, 23} then byte = CHR ''-'' else is_ascii_hexdigit byte)
           (enumerate (0 :: nat) server_uuid)
      then Inr () else Inl Server_uuid_not_canonical)"

fun validate_claim_tables ::
  "(string \<times> string) list \<Rightarrow> mysql_table_config list \<Rightarrow> (mysql_violation, unit) res" where
  "validate_claim_tables names [] = Inr ()"
| "validate_claim_tables names (t # ts) =
     res_bind (validate_identifier ''table'' (tc_name t)) (\<lambda>_.
       if (tc_database t, tc_name t) \<in> set names then Inl (Table_repeated (tc_name t))
       else validate_claim_tables ((tc_database t, tc_name t) # names) ts)"

definition validate_claim ::
  "u32 \<Rightarrow> mysql_table_config list \<Rightarrow> mysql_source_identity \<Rightarrow> string \<Rightarrow> (mysql_violation, unit) res" where
  "validate_claim server_id tables source replay_identity =
     (if server_id = 0 then Inl Zero_server_id
      else if replay_identity = [] then Inl Replay_identity_empty
      else if msi_server_uuid source = [] then Inl Source_identity_incomplete
      else res_bind (validate_server_uuid (msi_server_uuid source)) (\<lambda>_.
        if tables = [] then Inl No_tables else validate_claim_tables [] tables))"

definition validate_boundary :: "'p mysql_common \<Rightarrow> mysql_binlog_boundary \<Rightarrow> (mysql_violation, unit) res" where
  "validate_boundary mc b =
     (if bb_filename b = [] \<or> CHR 0x00 \<in> set (bb_filename b) then Inl Boundary_filename_invalid
      else if \<not> (4 \<le> bb_position b \<and> bb_position b \<le> 0xFFFFFFFF) then Inl Boundary_position_invalid
      else if sint (bb_source_timestamp_micros b) < 0 then Inl Boundary_timestamp_invalid
      else case parse_mysql mc (bb_gtid_executed b) of
             Inl e \<Rightarrow> Inl (Boundary_gtids_invalid e) | Inr _ \<Rightarrow> Inr ())"

text \<open>The member parser returns for every text, so its \<open>None\<close> does not occur.\<close>

definition enum_set_values_of :: "string \<Rightarrow> string \<Rightarrow> (metadata_error, string list option) res" where
  "enum_set_values_of data_type column_type =
     (case parse_enum_set_values data_type column_type of Some r \<Rightarrow> r | None \<Rightarrow> Inl Invalid_framing)"

lemma enum_set_values_of: "parse_enum_set_values d c = Some (enum_set_values_of d c)"
proof -
  have "\<exists>r. parse_enum_set_values d c = Some r"
    using members_loop_total[of "drop (length (d @ ''('')) (butlast c)" 0 "[]"]
    by (auto simp: parse_enum_set_values_def Let_def split: option.splits sum.splits)
  then show ?thesis by (auto simp: enum_set_values_of_def)
qed

definition validate_key_modifiers :: "mysql_column_identity \<Rightarrow> (mysql_violation, unit) res" where
  "validate_key_modifiers c =
     (let key = mci_primary_key_ordinal c \<noteq> None
      in if key \<and> mci_nullable c then Inl (Nullable_key (mci_name c))
         else if (case mci_primary_key_prefix_length c of None \<Rightarrow> False | Some n \<Rightarrow> \<not> (0 < n \<and> key))
         then Inl (Key_prefix_invalid (mci_name c))
         else if (case mci_primary_key_direction c of None \<Rightarrow> False | Some d \<Rightarrow> \<not> (key \<and> d \<in> {''A'', ''D''}))
         then Inl (Key_direction_invalid (mci_name c) (mci_primary_key_direction c))
         else if \<not> (key \<or> mci_primary_key_prefix_length c = None \<and> mci_primary_key_direction c = None)
         then Inl (Key_modifiers_without_key (mci_name c))
         else Inr ())"

definition lift_metadata :: "(metadata_error, 'a) res \<Rightarrow> (mysql_violation, 'a) res" where
  "lift_metadata r = (case r of Inl e \<Rightarrow> Inl (Column_metadata_invalid e) | Inr a \<Rightarrow> Inr a)"

definition validate_authoritative_column :: "mysql_column_identity \<Rightarrow> (mysql_violation, unit) res" where
  "validate_authoritative_column c =
     res_bind (validate_identifier ''column'' (mci_name c)) (\<lambda>_.
     if mci_column_type c = [] then Inl (Column_type_empty (mci_name c))
     else if \<not> ((mci_character_set c \<noteq> None) = (mci_collation c \<noteq> None) \<and>
                (mci_collation c \<noteq> None) = (mci_collation_id c \<noteq> None) \<and>
                (mci_collation c \<noteq> None) = (mci_collation_padding c \<noteq> None))
     then Inl (Character_metadata_inconsistent (mci_name c))
     else if \<not> (mci_unsigned c = has_column_type_modifier (mci_column_type c) ''unsigned'' \<and>
                mci_zerofill c = has_column_type_modifier (mci_column_type c) ''zerofill'' \<and>
                mci_auto_increment c = has_extra_modifier (mci_extra c) ''auto_increment'' \<and>
                (\<not> mci_zerofill c \<or> mci_unsigned c))
     then Inl (Numeric_modifiers_inconsistent (mci_name c))
     else res_bind (lift_metadata (enum_set_values_of (mci_data_type c) (mci_column_type c))) (\<lambda>members.
     if mci_enum_set_values c \<noteq> members then Inl (Members_inconsistent (mci_name c))
     else if mci_visibility c \<noteq> column_visibility (mci_extra c) then Inl (Visibility_inconsistent (mci_name c))
     else res_bind (lift_metadata (column_generation (mci_extra c) (mci_generation_expression c))) (\<lambda>generation.
     if mci_generation c \<noteq> generation then Inl (Generation_inconsistent (mci_name c))
     else res_bind (lift_metadata (validate_structured_column_metadata (mci_data_type c)
            (mci_character_maximum_length c) (mci_character_octet_length c) (mci_numeric_precision c)
            (mci_numeric_scale c) (mci_datetime_precision c) (mci_character_set c) (mci_srs_id c)
            (mci_enum_set_values c))) (\<lambda>_.
     validate_key_modifiers c))))"

text \<open>The loop over the columns, with the names and key ordinals seen so far.\<close>

fun authoritative_columns_loop ::
  "mysql_table_identity \<Rightarrow> string list \<Rightarrow> u64 list \<Rightarrow> mysql_column_identity list \<Rightarrow> (mysql_violation, u64 list) res" where
  "authoritative_columns_loop t names ordinals [] = Inr ordinals"
| "authoritative_columns_loop t names ordinals (c # cs) =
     res_bind (validate_authoritative_column c) (\<lambda>_.
     if mci_name c \<in> set names then Inl (Column_repeated (mti_database t) (mti_table t) (mci_name c))
     else case mci_primary_key_ordinal c of
       None \<Rightarrow> authoritative_columns_loop t (mci_name c # names) ordinals cs
     | Some ordinal \<Rightarrow>
         if ordinal \<in> set ordinals then Inl (Key_ordinal_repeated (mti_database t) (mti_table t) ordinal)
         else authoritative_columns_loop t (mci_name c # names) (ordinal # ordinals) cs)"

definition validate_authoritative_table :: "mysql_table_identity \<Rightarrow> (mysql_violation, unit) res" where
  "validate_authoritative_table t =
     res_bind (validate_identifier ''database'' (mti_database t)) (\<lambda>_.
     res_bind (validate_identifier ''table'' (mti_table t)) (\<lambda>_.
     if \<not> eq_ignore_ascii_case (mti_engine t) ''InnoDB''
     then Inl (Engine_not_innodb (mti_database t) (mti_table t) (mti_engine t))
     else if mti_columns t = [] then Inl (Table_has_no_columns (mti_database t) (mti_table t))
     else res_bind (authoritative_columns_loop t [] [] (mti_columns t)) (\<lambda>ordinals.
     if ordinals = [] then Inl (No_primary_key (mti_database t) (mti_table t))
     else if \<not> list_all (\<lambda>n. of_nat n \<in> set ordinals) [1 ..< Suc (length ordinals)]
     then Inl (Key_not_contiguous (mti_database t) (mti_table t))
     else Inr ())))"

subsection \<open>The durable record\<close>

type_synonym mysql_phase = "mysql_binlog_boundary handoff_phase"

record mysql_persisted_state =
  ms_version :: u8
  ms_replay_identity :: string
  ms_server_id :: u32
  ms_source :: mysql_source_identity
  ms_configured_tables :: "(string \<times> string) list"
  ms_authoritative_tables :: "mysql_table_identity list option"
  ms_state :: mysql_phase

type_synonym mysql_tracker = "mysql_persisted_state tracker"

datatype mysql_preparation = Mysql_create mysql_tracker | Mysql_streaming mysql_tracker mysql_binlog_boundary

definition SNAPSHOT_STREAM_STATE_KEY :: string where
  "SNAPSHOT_STREAM_STATE_KEY = ''mysql-snapshot-stream''"

definition MYSQL_STATE_VERSION :: u8 where
  "MYSQL_STATE_VERSION = 1"

fun authoritative_tables_loop ::
  "(mysql_table_identity \<times> string \<times> string) list \<Rightarrow> (mysql_violation, unit) res" where
  "authoritative_tables_loop [] = Inr ()"
| "authoritative_tables_loop ((actual, expected) # rest) =
     (if \<not> (mti_database actual = fst expected \<and> mti_table actual = snd expected)
      then Inl (Table_name_differs (fst expected) (snd expected))
      else res_bind (validate_authoritative_table actual) (\<lambda>_. authoritative_tables_loop rest))"

definition validate_authoritative_identity ::
  "mysql_persisted_state \<Rightarrow> mysql_table_identity list \<Rightarrow> (mysql_violation, unit) res" where
  "validate_authoritative_identity state tables =
     (if length tables \<noteq> length (ms_configured_tables state)
      then Inl (Table_count_differs (length tables) (length (ms_configured_tables state)))
      else authoritative_tables_loop (zip tables (ms_configured_tables state)))"

definition mysql_persisted_state_of ::
  "u32 \<Rightarrow> mysql_table_config list \<Rightarrow> mysql_source_identity \<Rightarrow> string \<Rightarrow> mysql_persisted_state" where
  "mysql_persisted_state_of server_id tables source replay_identity =
     \<lparr>ms_version = MYSQL_STATE_VERSION, ms_replay_identity = replay_identity, ms_server_id = server_id,
      ms_source = source, ms_configured_tables = map (\<lambda>t. (tc_database t, tc_name t)) tables,
      ms_authoritative_tables = None, ms_state = Claimed_phase\<rparr>"

definition mysql_decode_and_validate ::
  "'p mysql_common \<Rightarrow> mysql_persisted_state json_codec \<Rightarrow> u8 list \<Rightarrow> mysql_persisted_state \<Rightarrow>
   (mysql_violation, mysql_persisted_state) res" where
  "mysql_decode_and_validate mc js payload expected =
     (case js_from_slice js payload of
        Inl e \<Rightarrow> Inl (Mysql_state_undecodable e)
      | Inr actual \<Rightarrow>
          if ms_version actual \<noteq> MYSQL_STATE_VERSION then Inl (Mysql_state_version (ms_version actual))
          else if (ms_state actual = Claimed_phase) \<noteq> (ms_authoritative_tables actual = None)
          then Inl Mysql_phase_inconsistent
          else if \<not> (ms_replay_identity actual = ms_replay_identity expected \<and>
                     ms_server_id actual = ms_server_id expected \<and> ms_source actual = ms_source expected \<and>
                     ms_configured_tables actual = ms_configured_tables expected)
          then Inl Mysql_settings_differ
          else let checked = (\<lambda>boundary.
                 res_bind (validate_boundary mc boundary) (\<lambda>_.
                 case ms_authoritative_tables actual of
                   None \<Rightarrow> Inl Mysql_schema_missing
                 | Some tables \<Rightarrow> res_bind (validate_authoritative_identity actual tables) (\<lambda>_. Inr actual)))
               in case ms_state actual of
                    Claimed_phase \<Rightarrow> Inr actual
                  | Snapshot_phase boundary \<Rightarrow> checked boundary
                  | Streaming_phase boundary \<Rightarrow> checked boundary)"

definition mysql_create ::
  "mysql_persisted_state json_codec \<Rightarrow> u64 option \<Rightarrow> mysql_violation \<Rightarrow> mysql_persisted_state \<Rightarrow>
   (mysql_error, mysql_preparation) res dprog" where
  "mysql_create js expected conflict state =
     exchange_state js SNAPSHOT_STREAM_STATE_KEY expected state
       (\<lambda>e. Inl (Mysql_encoding_failed e)) (\<lambda>e. Inl (Mysql_storage_failed e)) (Inl (Mysql_safety conflict))
       (\<lambda>v. Inr (Mysql_create
              \<lparr>tk_key = SNAPSHOT_STREAM_STATE_KEY, tk_revision = dv_revision v, tk_identity = state\<rparr>))"

definition recorded_tables ::
  "'p mysql_common \<Rightarrow> mysql_persisted_state json_codec \<Rightarrow> u32 \<Rightarrow> mysql_source_identity \<Rightarrow> string \<Rightarrow>
   (mysql_error, mysql_table_config list option) res dprog" where
  "recorded_tables mc js server_id source replay_identity =
     Read_key SNAPSHOT_STREAM_STATE_KEY (\<lambda>read.
       case read of
         Inl e \<Rightarrow> Return (Inl (Mysql_storage_failed e))
       | Inr None \<Rightarrow> Return (Inr None)
       | Inr (Some current) \<Rightarrow>
           (case js_from_slice js (dv_payload current) of
              Inl e \<Rightarrow> Return (Inl (Mysql_safety (Mysql_state_undecodable e)))
            | Inr state \<Rightarrow>
                let tables = map (\<lambda>(database, name). \<lparr>tc_database = database, tc_name = name\<rparr>) (ms_configured_tables state)
                in case res_bind (validate_claim server_id tables source replay_identity) (\<lambda>_.
                          mysql_decode_and_validate mc js (dv_payload current)
                            (mysql_persisted_state_of server_id tables source replay_identity)) of
                     Inl e \<Rightarrow> Return (Inl (Mysql_safety e))
                   | Inr _ \<Rightarrow> Return (Inr (Some tables))))"

definition mysql_claim_or_resume ::
  "'p mysql_common \<Rightarrow> mysql_persisted_state json_codec \<Rightarrow> u32 \<Rightarrow> mysql_table_config list \<Rightarrow> mysql_source_identity \<Rightarrow>
   string \<Rightarrow> (mysql_error, mysql_preparation) res dprog" where
  "mysql_claim_or_resume mc js server_id tables source replay_identity =
     (case validate_claim server_id tables source replay_identity of
        Inl e \<Rightarrow> Return (Inl (Mysql_safety e))
      | Inr _ \<Rightarrow>
          let expected = mysql_persisted_state_of server_id tables source replay_identity
          in Read_key SNAPSHOT_STREAM_STATE_KEY (\<lambda>read.
               case read of
                 Inl e \<Rightarrow> Return (Inl (Mysql_storage_failed e))
               | Inr (Some current) \<Rightarrow>
                   (case mysql_decode_and_validate mc js (dv_payload current) expected of
                      Inl e \<Rightarrow> Return (Inl (Mysql_safety e))
                    | Inr persisted \<Rightarrow>
                        (case ms_state persisted of
                           Claimed_phase \<Rightarrow> mysql_create js (Some (dv_revision current)) Mysql_claim_changed expected
                         | Snapshot_phase _ \<Rightarrow> Return (Inl (Mysql_safety Mysql_snapshot_interrupted))
                         | Streaming_phase start_boundary \<Rightarrow>
                             Return (Inr (Mysql_streaming
                               \<lparr>tk_key = SNAPSHOT_STREAM_STATE_KEY, tk_revision = dv_revision current,
                                tk_identity = persisted\<rparr> start_boundary))))
               | Inr None \<Rightarrow> mysql_create js None Mysql_claimed_by_other expected))"

definition mysql_store ::
  "mysql_persisted_state json_codec \<Rightarrow> mysql_tracker \<Rightarrow> mysql_phase \<Rightarrow> mysql_table_identity list option \<Rightarrow>
   (mysql_tracker \<times> (mysql_error, unit) res) dprog" where
  "mysql_store js t state authoritative_tables =
     (let nxt = (tk_identity t)\<lparr>ms_authoritative_tables := authoritative_tables, ms_state := state\<rparr>
      in exchange_state js (tk_key t) (Some (tk_revision t)) nxt
           (\<lambda>e. (t, Inl (Mysql_encoding_failed e))) (\<lambda>e. (t, Inl (Mysql_storage_failed e)))
           (t, Inl (Mysql_safety Mysql_phase_conflict))
           (\<lambda>v. (t\<lparr>tk_revision := dv_revision v, tk_identity := nxt\<rparr>, Inr ())))"

definition mysql_mark_snapshot_ready ::
  "'p mysql_common \<Rightarrow> mysql_persisted_state json_codec \<Rightarrow> mysql_tracker \<Rightarrow> mysql_binlog_boundary \<Rightarrow>
   mysql_table_identity list \<Rightarrow> (mysql_tracker \<times> (mysql_error, unit) res) dprog" where
  "mysql_mark_snapshot_ready mc js t boundary authoritative_tables =
     (if ms_state (tk_identity t) \<noteq> Claimed_phase then Return (t, Inl (Mysql_safety Mysql_not_claimed))
      else case res_bind (validate_boundary mc boundary) (\<lambda>_.
                  validate_authoritative_identity (tk_identity t) authoritative_tables) of
             Inl e \<Rightarrow> Return (t, Inl (Mysql_safety e))
           | Inr _ \<Rightarrow> mysql_store js t (Snapshot_phase boundary) (Some authoritative_tables))"

definition mysql_mark_streaming ::
  "mysql_persisted_state json_codec \<Rightarrow> mysql_tracker \<Rightarrow>
   (mysql_tracker \<times> (mysql_error, mysql_binlog_boundary) res) dprog" where
  "mysql_mark_streaming js t =
     (case ms_state (tk_identity t) of
        Snapshot_phase boundary \<Rightarrow>
          (case ms_authoritative_tables (tk_identity t) of
             None \<Rightarrow> Return (t, Inl (Mysql_safety Mysql_schema_missing))
           | Some authoritative_tables \<Rightarrow>
               dmap (\<lambda>(t', r). (t', case r of Inl e \<Rightarrow> Inl e | Inr _ \<Rightarrow> Inr boundary))
                 (mysql_store js t (Streaming_phase boundary) (Some authoritative_tables)))
      | _ \<Rightarrow> Return (t, Inl (Mysql_safety Mysql_snapshot_not_ready)))"

definition mysql_streaming_boundary :: "mysql_tracker \<Rightarrow> mysql_binlog_boundary option" where
  "mysql_streaming_boundary t =
     (case ms_state (tk_identity t) of Streaming_phase start_boundary \<Rightarrow> Some start_boundary | _ \<Rightarrow> None)"

definition mysql_validate_authoritative_tables ::
  "mysql_tracker \<Rightarrow> mysql_table_identity list \<Rightarrow> (mysql_error, unit) res" where
  "mysql_validate_authoritative_tables t authoritative_tables =
     (case ms_authoritative_tables (tk_identity t) of
        None \<Rightarrow> Inl (Mysql_safety Mysql_schema_missing)
      | Some expected \<Rightarrow>
          if expected \<noteq> authoritative_tables then Inl (Mysql_safety Mysql_schema_changed) else Inr ())"

subsection \<open>What validation establishes\<close>

text \<open>
  A complete table identity: an InnoDB table with database and table names, distinct columns, and a primary
  key whose ordinals are one to its width.
\<close>

definition mysql_table_ok :: "mysql_table_identity \<Rightarrow> bool" where
  "mysql_table_ok t \<longleftrightarrow>
     (let ordinals = List.map_filter mci_primary_key_ordinal (mti_columns t)
      in mti_database t \<noteq> [] \<and> mti_table t \<noteq> [] \<and> eq_ignore_ascii_case (mti_engine t) ''InnoDB'' \<and>
         distinct (map mci_name (mti_columns t)) \<and> ordinals \<noteq> [] \<and> distinct ordinals \<and>
         set ordinals = of_nat ` {1..length ordinals} \<and>
         (\<forall>c \<in> set (mti_columns t). validate_authoritative_column c = Inr ()))"

lemma authoritative_columns_loop_ok:
  assumes "authoritative_columns_loop t names ordinals cs = Inr r" "distinct names" "distinct ordinals"
  shows "distinct (map mci_name cs @ names) \<and> r = rev (List.map_filter mci_primary_key_ordinal cs) @ ordinals \<and> distinct r \<and>
    (\<forall>c \<in> set cs. validate_authoritative_column c = Inr ())"
  using assms
proof (induction t names ordinals cs rule: authoritative_columns_loop.induct)
  case (2 t names ordinals c cs)
  then show ?case
    by (auto simp: res_bind_Inr_iff map_filter_simps split: if_splits option.splits)
qed (simp add: map_filter_simps)

lemma contiguous_ordinals:
  fixes ordinals :: "u64 list"
  assumes "distinct ordinals" "list_all (\<lambda>n. of_nat n \<in> set ordinals) [1 ..< Suc (length ordinals)]"
    and "length ordinals < 2 ^ 64"
  shows "set ordinals = of_nat ` {1..length ordinals}"
proof -
  have "inj_on (of_nat :: nat \<Rightarrow> u64) {1..length ordinals}"
    using assms(3) by (intro inj_onI) (metis atLeastAtMost_iff of_nat_small order_le_less_trans)
  then have "card ((of_nat :: nat \<Rightarrow> u64) ` {1..length ordinals}) = card (set ordinals)"
    using assms(1) by (simp add: card_image distinct_card)
  moreover have "of_nat ` {1..length ordinals} \<subseteq> set ordinals"
    using assms(2) by (auto simp: list_all_iff)
  ultimately show ?thesis using card_subset_eq[of "set ordinals"] by blast
qed

lemma validate_authoritative_table_ok:
  assumes "validate_authoritative_table t = Inr ()" "length (mti_columns t) < 2 ^ 64"
  shows "mysql_table_ok t"
proof -
  let ?o = "List.map_filter mci_primary_key_ordinal (mti_columns t)"
  obtain r where r: "authoritative_columns_loop t [] [] (mti_columns t) = Inr r" "r \<noteq> []"
    "list_all (\<lambda>n. of_nat n \<in> set r) [1 ..< Suc (length r)]"
    using assms(1) by (auto simp: validate_authoritative_table_def res_bind_Inr_iff split: if_splits)
  note ok = authoritative_columns_loop_ok[OF r(1)]
  have "length ?o \<le> length (mti_columns t)" by (simp add: List.map_filter_def)
  moreover have len: "length r = length ?o" "set r = set ?o" using ok by auto
  ultimately have "set r = of_nat ` {1..length r}"
    using contiguous_ordinals[OF _ r(3)] ok assms(2) by auto
  moreover have "mti_database t \<noteq> []" "mti_table t \<noteq> []" "eq_ignore_ascii_case (mti_engine t) ''InnoDB''"
    using assms(1) by (auto simp: validate_authoritative_table_def validate_identifier_def res_bind_Inr_iff split: if_splits)
  ultimately show ?thesis using ok r(2) len by (auto simp: mysql_table_ok_def Let_def)
qed

lemma authoritative_tables_loop_ok:
  "authoritative_tables_loop ps = Inr () \<Longrightarrow>
     (\<forall>(t, n) \<in> set ps. (mti_database t, mti_table t) = n \<and> validate_authoritative_table t = Inr ())"
  by (induction ps rule: authoritative_tables_loop.induct) (auto simp: res_bind_Inr_iff split: if_splits)

lemma validate_authoritative_identity_ok:
  assumes "validate_authoritative_identity a ts = Inr ()"
  shows "map (\<lambda>t. (mti_database t, mti_table t)) ts = ms_configured_tables a \<and>
    (\<forall>t \<in> set ts. validate_authoritative_table t = Inr ())"
proof -
  have l: "length ts = length (ms_configured_tables a)" "authoritative_tables_loop (zip ts (ms_configured_tables a)) = Inr ()"
    using assms by (auto simp: validate_authoritative_identity_def split: if_splits)
  have nth: "(mti_database (ts ! i), mti_table (ts ! i)) = ms_configured_tables a ! i \<and>
      validate_authoritative_table (ts ! i) = Inr ()" if "i < length ts" for i
    using bspec[OF authoritative_tables_loop_ok[OF l(2)] nth_mem[of i "zip ts (ms_configured_tables a)"]] that l(1) by simp
  then show ?thesis using l(1) by (auto intro!: nth_equalityI simp: in_set_conv_nth)
qed

subsection \<open>The protocol\<close>

definition mysql_tracker_of :: "(mysql_error, mysql_preparation) res \<Rightarrow> mysql_tracker option" where
  "mysql_tracker_of r =
     (case r of Inl _ \<Rightarrow> None | Inr (Mysql_create t) \<Rightarrow> Some t | Inr (Mysql_streaming t _) \<Rightarrow> Some t)"

definition mysql_calls ::
  "'p mysql_common \<Rightarrow> mysql_persisted_state json_codec \<Rightarrow> mysql_tracker option \<Rightarrow> mysql_tracker option dprog set" where
  "mysql_calls mc js t =
     (case t of
        None \<Rightarrow>
          {dmap mysql_tracker_of (mysql_claim_or_resume mc js server_id tables source replay_identity)
           | server_id tables source replay_identity. True} \<union>
          {dmap (\<lambda>_. None) (recorded_tables mc js server_id source replay_identity)
           | server_id source replay_identity. True}
      | Some t \<Rightarrow>
          {dmap (\<lambda>r. Some (fst r)) (mysql_mark_snapshot_ready mc js t boundary tables) | boundary tables. True} \<union>
          {dmap (\<lambda>r. Some (fst r)) (mysql_mark_streaming js t)})"

definition mysql_settings :: "mysql_persisted_state \<Rightarrow> mysql_persisted_state" where
  "mysql_settings a = a\<lparr>ms_authoritative_tables := None, ms_state := Claimed_phase\<rparr>"

definition mysql_ready :: "'p mysql_common \<Rightarrow> mysql_persisted_state \<Rightarrow> bool" where
  "mysql_ready mc a \<longleftrightarrow>
     (\<exists>b ts. ms_state a \<in> {Snapshot_phase b, Streaming_phase b} \<and> validate_boundary mc b = Inr () \<and>
        ms_authoritative_tables a = Some ts \<and> validate_authoritative_identity a ts = Inr ())"

abbreviation mysql_advances :: "'p mysql_common \<Rightarrow> mysql_persisted_state \<Rightarrow> mysql_persisted_state \<Rightarrow> bool" where
  "mysql_advances mc \<equiv> handoff_advances mysql_settings ms_authoritative_tables ms_state (mysql_ready mc)"

definition mysql_initial :: "mysql_persisted_state \<Rightarrow> bool" where
  "mysql_initial a \<longleftrightarrow> ms_state a = Claimed_phase \<and> ms_authoritative_tables a = None"

interpretation mysql_states: handoff_states mysql_settings ms_authoritative_tables ms_state "mysql_ready mc" for mc
proof
  fix a b :: mysql_persisted_state
  assume "mysql_settings a = mysql_settings b" "ms_authoritative_tables a = ms_authoritative_tables b" "ms_state a = ms_state b"
  then show "a = b" by (cases a; cases b) (simp add: mysql_settings_def)
next
  fix a b :: mysql_persisted_state and l
  assume *: "mysql_ready mc a" "mysql_settings a = mysql_settings b" "ms_authoritative_tables a = ms_authoritative_tables b"
    "ms_state a = Snapshot_phase l" "ms_state b = Streaming_phase l"
  then have "ms_configured_tables a = ms_configured_tables b"
    by (cases a; cases b) (simp add: mysql_settings_def)
  then have "validate_authoritative_identity a = validate_authoritative_identity b"
    by (simp add: fun_eq_iff validate_authoritative_identity_def)
  with * show "mysql_ready mc b" by (auto simp: mysql_ready_def)
qed

lemma mysql_decode_ok:
  assumes "mysql_decode_and_validate mc js p e = Inr a"
  shows "js_from_slice js p = Inr a" "ms_version a = MYSQL_STATE_VERSION"
    "ms_state a = Claimed_phase \<longleftrightarrow> ms_authoritative_tables a = None"
    "ms_replay_identity a = ms_replay_identity e" "ms_server_id a = ms_server_id e" "ms_source a = ms_source e"
    "ms_configured_tables a = ms_configured_tables e"
  using assms
  by (auto simp: mysql_decode_and_validate_def Let_def res_bind_Inr_iff
        split: sum.splits if_splits handoff_phase.splits option.splits)

lemma mysql_create_keeps:
  assumes js: "json_laws js" and i: "mysql_initial state"
    and e: "case expected of None \<Rightarrow> True
      | Some r \<Rightarrow> (\<exists>q a. at_revision h r q \<and> js_from_slice js q = Inr a \<and> mysql_advances mc a state)"
  shows "keeps SNAPSHOT_STREAM_STATE_KEY (decodes js mysql_initial) (decodes2 js (mysql_advances mc))
    (\<lambda>h r. tracker_ok js SNAPSHOT_STREAM_STATE_KEY h (mysql_tracker_of r)) (mysql_create js expected conflict state) h"
  unfolding mysql_create_def using e i
  by (intro exchange_state_keeps[OF js]) (auto simp: mysql_tracker_of_def split: option.splits)

lemma mysql_store_keeps:
  assumes js: "json_laws js" and t: "tracker_ok js key h (Some t)"
    and a: "mysql_advances mc (tk_identity t) ((tk_identity t)\<lparr>ms_authoritative_tables := tabs, ms_state := state\<rparr>)"
  shows "keeps key (decodes js mysql_initial) (decodes2 js (mysql_advances mc))
    (\<lambda>h r. tracker_ok js key h (Some (fst r))) (mysql_store js t state tabs) h"
proof -
  have k: "tk_key t = key" using t by simp
  show ?thesis
    unfolding mysql_store_def Let_def k using t a
    by (intro exchange_state_keeps[OF js]) (auto intro: at_revision_extends)
qed

lemma mysql_advance_keeps:
  assumes "json_laws js" and "tracker_ok js key h (Some t)"
  shows "keeps key (decodes js mysql_initial) (decodes2 js (mysql_advances mc))
      (\<lambda>h r. tracker_ok js key h (Some (fst r))) (mysql_mark_snapshot_ready mc js t boundary tables) h"
    and "keeps key (decodes js mysql_initial) (decodes2 js (mysql_advances mc))
      (\<lambda>h r. tracker_ok js key h (Some (fst r))) (mysql_mark_streaming js t) h"
proof -
  let ?next = "\<lambda>state ts. (tk_identity t)\<lparr>ms_authoritative_tables := Some ts, ms_state := state\<rparr>"
  have v: "validate_authoritative_identity (?next state ts') ts = validate_authoritative_identity (tk_identity t) ts" for state ts ts'
    by (simp add: validate_authoritative_identity_def)
  have snapshot: "mysql_advances mc (tk_identity t) (?next (Snapshot_phase boundary) tables)"
    if "ms_state (tk_identity t) = Claimed_phase" "validate_boundary mc boundary = Inr ()"
      "validate_authoritative_identity (tk_identity t) tables = Inr ()"
    using that by (simp add: handoff_advances_def mysql_settings_def mysql_ready_def v)
  have streaming: "mysql_advances mc (tk_identity t) (?next (Streaming_phase l) ts)"
    if "ms_state (tk_identity t) = Snapshot_phase l" "ms_authoritative_tables (tk_identity t) = Some ts" for l ts
    using that by (simp add: handoff_advances_def mysql_settings_def)
  show "keeps key (decodes js mysql_initial) (decodes2 js (mysql_advances mc))
      (\<lambda>h r. tracker_ok js key h (Some (fst r))) (mysql_mark_snapshot_ready mc js t boundary tables) h"
    using assms mysql_store_keeps[OF assms snapshot]
    by (auto simp: mysql_mark_snapshot_ready_def res_bind_Inr_iff split: sum.splits)
  show "keeps key (decodes js mysql_initial) (decodes2 js (mysql_advances mc))
      (\<lambda>h r. tracker_ok js key h (Some (fst r))) (mysql_mark_streaming js t) h"
    using assms mysql_store_keeps[OF assms streaming]
    by (auto simp: mysql_mark_streaming_def keeps_dmap case_prod_unfold split: handoff_phase.splits option.splits)
qed

lemma mysql_claim_keeps:
  assumes "json_laws js"
  shows "keeps SNAPSHOT_STREAM_STATE_KEY (decodes js mysql_initial) (decodes2 js (mysql_advances mc))
    (\<lambda>h r. tracker_ok js SNAPSHOT_STREAM_STATE_KEY h (mysql_tracker_of r))
    (mysql_claim_or_resume mc js server_id tables source replay_identity) h"
proof -
  let ?i = "mysql_persisted_state_of server_id tables source replay_identity"
  let ?K = SNAPSHOT_STREAM_STATE_KEY
  have init: "mysql_initial ?i" by (simp add: mysql_initial_def mysql_persisted_state_of_def)
  have adv: "mysql_advances mc a ?i" if "mysql_decode_and_validate mc js p ?i = Inr a" "ms_state a = Claimed_phase" for p a
    using mysql_decode_ok[OF that(1)] that(2)
    by (auto simp: handoff_advances_def mysql_settings_def mysql_persisted_state_of_def intro!: mysql_persisted_state.equality)
  have read: "keeps ?K (decodes js mysql_initial) (decodes2 js (mysql_advances mc))
      (\<lambda>h r. tracker_ok js ?K h (mysql_tracker_of r))
      (case mysql_decode_and_validate mc js (dv_payload v) ?i of
         Inl e \<Rightarrow> Return (Inl (Mysql_safety e))
       | Inr persisted \<Rightarrow>
           (case ms_state persisted of
              Claimed_phase \<Rightarrow> mysql_create js (Some (dv_revision v)) Mysql_claim_changed ?i
            | Snapshot_phase _ \<Rightarrow> Return (Inl (Mysql_safety Mysql_snapshot_interrupted))
            | Streaming_phase start_boundary \<Rightarrow>
                Return (Inr (Mysql_streaming
                  \<lparr>tk_key = ?K, tk_revision = dv_revision v, tk_identity = persisted\<rparr> start_boundary)))) h'"
    if "hist_cell h' = Some v" "chain (decodes js mysql_initial) (decodes2 js (mysql_advances mc)) h'" for h' v
  proof (cases "mysql_decode_and_validate mc js (dv_payload v) ?i")
    case (Inr a)
    then show ?thesis
      using adv[OF Inr] mysql_decode_ok(1)[OF Inr] hist_cell_at_revision[OF that(2,1)]
        mysql_create_keeps[OF assms init, where expected = "Some (dv_revision v)" and h = h' and mc = mc]
      by (auto simp: mysql_tracker_of_def split: handoff_phase.splits)
  qed (simp add: mysql_tracker_of_def)
  show ?thesis
    using read mysql_create_keeps[OF assms init, where expected = None and mc = mc]
    by (auto simp: mysql_claim_or_resume_def Let_def mysql_tracker_of_def split: option.splits sum.splits)
qed

lemma recorded_tables_keeps:
  "keeps SNAPSHOT_STREAM_STATE_KEY init nxt (\<lambda>h r. True) (recorded_tables mc js server_id source replay_identity) h"
  by (auto simp: recorded_tables_def Let_def split: option.splits sum.splits)

interpretation mysql_phase: stored_protocol lf "lawful js" SNAPSHOT_STREAM_STATE_KEY mysql_initial "mysql_advances mc"
  "tracker_ok (lawful js) SNAPSHOT_STREAM_STATE_KEY" "mysql_calls mc (lawful js)" "\<lambda>_. False"
  for lf js mc
proof
  show "plain_key SNAPSHOT_STREAM_STATE_KEY" by code_simp
  show "tracker_ok (lawful js) SNAPSHOT_STREAM_STATE_KEY h None" for h by simp
next
  fix h t p
  assume "tracker_ok (lawful js) SNAPSHOT_STREAM_STATE_KEY h t" "p \<in> mysql_calls mc (lawful js) t"
  then show "keeps SNAPSHOT_STREAM_STATE_KEY (decodes (lawful js) mysql_initial) (decodes2 (lawful js) (mysql_advances mc))
      (tracker_ok (lawful js) SNAPSHOT_STREAM_STATE_KEY) p h"
    using mysql_claim_keeps[OF lawful_laws, of js mc] mysql_advance_keeps[OF lawful_laws] recorded_tables_keeps
    by (cases t) (auto simp: mysql_calls_def keeps_dmap simp del: tracker_ok_simps(2))
next
  fix h t h'
  assume "tracker_ok (lawful js) SNAPSHOT_STREAM_STATE_KEY h t" "extends h h'"
  then show "tracker_ok (lawful js) SNAPSHOT_STREAM_STATE_KEY h' t" by (rule tracker_ok_extends)
qed simp

lemma mysql_ready_tables:
  assumes "mysql_ready mc b"
  shows "\<exists>l ts. ms_state b \<in> {Snapshot_phase l, Streaming_phase l} \<and> validate_boundary mc l = Inr () \<and>
    ms_authoritative_tables b = Some ts \<and> map (\<lambda>t. (mti_database t, mti_table t)) ts = ms_configured_tables b \<and>
    (\<forall>t \<in> set ts. length (mti_columns t) < 2 ^ 64 \<longrightarrow> mysql_table_ok t)"
proof -
  obtain l ts where l: "ms_state b \<in> {Snapshot_phase l, Streaming_phase l}" "validate_boundary mc l = Inr ()"
    "ms_authoritative_tables b = Some ts" "validate_authoritative_identity b ts = Inr ()"
    using assms by (auto simp: mysql_ready_def)
  moreover have "\<forall>t \<in> set ts. length (mti_columns t) < 2 ^ 64 \<longrightarrow> mysql_table_ok t"
    using validate_authoritative_identity_ok[OF l(4)] validate_authoritative_table_ok by blast
  ultimately show ?thesis
    using validate_authoritative_identity_ok[OF l(4)] by (intro exI[of _ l] exI[of _ ts]) simp
qed

subsection \<open>Property\<close>

text \<open>
  C37 (MySQL hand-off). Let any number of executions of one delivery claim, resume and advance its
  hand-off state over the local files, interleaved at every storage call, with any call failing and
  any execution dying and restarting. The settings of the stored record never change; once a snapshot
  boundary is stored it is kept and only moves on to streaming from it, and a streaming record is
  final. Every stored boundary is a valid binlog position with a valid GTID set, recorded with
  the identities of exactly the configured tables, in order, each an InnoDB table
  with distinct valid columns and a contiguous primary key.
\<close>

theorem mysql_handoff_safe:
  assumes "json_laws js" and "local_inv lf st0" and "local_cell lf st0 SNAPSHOT_STREAM_STATE_KEY = None"
    and "dsys_reach (local_file_storage lf) (mysql_calls mc js) st0 s"
    and "(dsys_step (local_file_storage lf) (mysql_calls mc js))\<^sup>*\<^sup>* s s'"
    and "stored lf js SNAPSHOT_STREAM_STATE_KEY (fst s) = Some a"
  shows "\<exists>b. stored lf js SNAPSHOT_STREAM_STATE_KEY (fst s') = Some b \<and> mysql_settings b = mysql_settings a \<and>
    (\<forall>l. ms_state a = Streaming_phase l \<longrightarrow> b = a) \<and>
    (\<forall>l. ms_state a = Snapshot_phase l \<longrightarrow>
       ms_state b \<in> {Snapshot_phase l, Streaming_phase l} \<and> ms_authoritative_tables b = ms_authoritative_tables a) \<and>
    (ms_state b \<noteq> Claimed_phase \<longrightarrow>
       (\<exists>l ts. ms_state b \<in> {Snapshot_phase l, Streaming_phase l} \<and> validate_boundary mc l = Inr () \<and>
          ms_authoritative_tables b = Some ts \<and>
          map (\<lambda>t. (mti_database t, mti_table t)) ts = ms_configured_tables b \<and>
          (\<forall>t \<in> set ts. length (mti_columns t) < 2 ^ 64 \<longrightarrow> mysql_table_ok t)))"
proof -
  obtain b where b: "stored lf js SNAPSHOT_STREAM_STATE_KEY (fst s') = Some b" "(mysql_advances mc)\<^sup>*\<^sup>* a b"
    using mysql_phase.reach_path_stored[where lf = lf and js = js and mc = mc and s = s and s' = s' and a = a] assms by auto
  obtain i where i: "mysql_initial i" "(mysql_advances mc)\<^sup>*\<^sup>* i a"
    using mysql_phase.reach_stored[where lf = lf and js = js and mc = mc and s = s] assms by (auto simp: stored_Some)
  have "mysql_ready mc b" if "ms_state b \<noteq> Claimed_phase"
    using mysql_states.advances_ready[OF rtranclp_trans[OF i(2) b(2)]] i(1) that by (auto simp: mysql_initial_def)
  then have "ms_state b \<noteq> Claimed_phase \<longrightarrow> (\<exists>l ts. ms_state b \<in> {Snapshot_phase l, Streaming_phase l} \<and>
      validate_boundary mc l = Inr () \<and> ms_authoritative_tables b = Some ts \<and>
      map (\<lambda>t. (mti_database t, mti_table t)) ts = ms_configured_tables b \<and>
      (\<forall>t \<in> set ts. length (mti_columns t) < 2 ^ 64 \<longrightarrow> mysql_table_ok t))"
    using mysql_ready_tables by blast
  then show ?thesis using b(1) mysql_states.advances_path[OF b(2)] by auto
qed

text \<open>A run that takes a delivery of one table through its three phases.\<close>

definition example_column :: mysql_column_identity where
  "example_column =
     \<lparr>mci_name = ''id'', mci_data_type = ''int'', mci_column_type = ''int'', mci_unsigned = False, mci_zerofill = False,
      mci_auto_increment = False, mci_nullable = False, mci_character_maximum_length = None,
      mci_character_octet_length = None, mci_numeric_precision = Some 10, mci_numeric_scale = Some 0,
      mci_datetime_precision = None, mci_character_set = None, mci_collation = None, mci_collation_id = None,
      mci_collation_padding = None, mci_enum_set_values = None, mci_srs_id = None, mci_visibility = Visible,
      mci_generation = Not_generated, mci_extra = [], mci_generation_expression = None,
      mci_primary_key_ordinal = Some 1, mci_primary_key_prefix_length = None, mci_primary_key_direction = Some ''A''\<rparr>"

definition example_table :: mysql_table_identity where
  "example_table = \<lparr>mti_database = ''db'', mti_table = ''t'', mti_engine = ''InnoDB'', mti_columns = [example_column]\<rparr>"

definition example_source_identity :: mysql_source_identity where
  "example_source_identity = \<lparr>msi_server_uuid = ''07070707-0707-0707-0707-070707070707'', msi_database = ''db''\<rparr>"

definition example_mysql_claimed :: mysql_persisted_state where
  "example_mysql_claimed =
     mysql_persisted_state_of 7 [\<lparr>tc_database = ''db'', tc_name = ''t''\<rparr>] example_source_identity ''replay''"

definition example_mysql_states :: "mysql_persisted_state list" where
  "example_mysql_states =
     [example_mysql_claimed,
      example_mysql_claimed\<lparr>ms_authoritative_tables := Some [example_table], ms_state := Snapshot_phase example_boundary\<rparr>,
      example_mysql_claimed\<lparr>ms_authoritative_tables := Some [example_table], ms_state := Streaming_phase example_boundary\<rparr>]"

definition example_mysql_json :: "mysql_persisted_state json_codec" where
  "example_mysql_json = list_json example_mysql_states"

lemma example_mysql_json_laws: "json_laws example_mysql_json"
  unfolding example_mysql_json_def by (rule list_json_laws) (simp add: example_mysql_states_def)

definition example_mysql_call :: "nat \<Rightarrow> mysql_tracker option \<Rightarrow> mysql_tracker option dprog" where
  "example_mysql_call n t =
     (case t of
        None \<Rightarrow> dmap mysql_tracker_of (mysql_claim_or_resume example_parser_common example_mysql_json 7
          [\<lparr>tc_database = ''db'', tc_name = ''t''\<rparr>] example_source_identity ''replay'')
      | Some t \<Rightarrow>
          if n = 1
          then dmap (\<lambda>r. Some (fst r))
                 (mysql_mark_snapshot_ready example_parser_common example_mysql_json t example_boundary [example_table])
          else dmap (\<lambda>r. Some (fst r)) (mysql_mark_streaming example_mysql_json t))"

lemma example_mysql_call: "\<forall>n t. example_mysql_call n t \<in> mysql_calls example_parser_common example_mysql_json t"
  by (auto simp: example_mysql_call_def mysql_calls_def split: option.split)

definition example_mysql_run :: "nat \<Rightarrow> durable_state" where
  "example_mysql_run n = fst (solo_run (local_file_storage example_lf) example_mysql_call example_durable n)"

lemma example_mysql_stored:
  "stored example_lf example_mysql_json SNAPSHOT_STREAM_STATE_KEY (example_mysql_run 2) = Some (example_mysql_states ! 1)"
  "stored example_lf example_mysql_json SNAPSHOT_STREAM_STATE_KEY (example_mysql_run 3) = Some (example_mysql_states ! 2)"
  by code_simp+

theorem mysql_handoff_safe_witness:
  "\<exists>b ts. stored example_lf example_mysql_json SNAPSHOT_STREAM_STATE_KEY (example_mysql_run 3) = Some b \<and>
     ms_state b = Streaming_phase example_boundary \<and> validate_boundary example_parser_common example_boundary = Inr () \<and>
     ms_authoritative_tables b = Some ts \<and> map (\<lambda>t. (mti_database t, mti_table t)) ts = [(''db'', ''t'')]"
proof -
  have i: "local_inv example_lf example_durable"
    "local_cell example_lf example_durable SNAPSHOT_STREAM_STATE_KEY = None"
    by (simp_all add: empty_local_inv local_cell_def example_durable_def)
  have "ms_state (example_mysql_states ! 2) = Streaming_phase example_boundary"
    "ms_configured_tables (example_mysql_states ! 2) = [(''db'', ''t'')]"
    by (simp_all add: example_mysql_states_def example_mysql_claimed_def mysql_persisted_state_of_def)
  then show ?thesis
    using mysql_handoff_safe[OF example_mysql_json_laws i solo_reach[OF example_mysql_call, of _ _ 2]
        solo_steps[OF example_mysql_call, of 2 3]] example_mysql_stored
    by (auto simp: example_mysql_run_def)
qed

end
