(* ===== verification/Mysql_Offset.thy ===== *)
theory Mysql_Offset
  imports Mysql_Handoff
begin

section \<open>MySQL replication offsets\<close>

text \<open>
  The durable replication offset of the MySQL source, \<^verbatim>\<open>src_stream/offset.rs\<close> with the configuration of
  \<^verbatim>\<open>src_stream/config.rs\<close>. The record keeps the transactions that are durable at the destination as a GTID
  set, the binlog position behind them, and the tables the delivery replicates. It starts at an exact
  boundary and is replaced by compare-and-exchange; a restart resumes only from it, and only if the
  server still has every transaction it misses.
\<close>

subsection \<open>Configuration\<close>

record mysql_replication_config =
  rc_server_id :: u32
  rc_max_events :: usize
  rc_max_transaction_bytes :: usize
  rc_poll_interval_ms :: u64
  rc_bootstrap_timeout_ms :: u64

datatype replication_config_error =
    Delivery_id_missing
  | Delivery_id_hashes_to_zero
  | Max_events_zero
  | Transaction_bytes_below_header
  | Transaction_bytes_above_packet usize
  | Poll_interval_zero
  | Heartbeat_overflow
  | Bootstrap_timeout_zero
  | Poll_interval_not_below_timeout

definition fnv_step :: "u32 \<Rightarrow> char \<Rightarrow> u32" where
  "fnv_step hash byte = (hash * 16777619) XOR of_nat (of_char byte)"

definition for_delivery ::
  "mysql_replication_config \<Rightarrow> string \<Rightarrow> (replication_config_error, mysql_replication_config) res" where
  "for_delivery c delivery_id =
     (if delivery_id = [] then Inl Delivery_id_missing
      else let server_id = foldl fnv_step 2166136261 delivery_id
        in if server_id = 0 then Inl Delivery_id_hashes_to_zero else Inr (c\<lparr>rc_server_id := server_id\<rparr>))"

definition heartbeat_period_nanoseconds :: "u64 \<Rightarrow> (replication_config_error, u64) res" where
  "heartbeat_period_nanoseconds poll_interval_ms =
     (if uint poll_interval_ms * 1000000 < 2 ^ 64 then Inr (poll_interval_ms * 1000000) else Inl Heartbeat_overflow)"

definition BINLOG_EVENT_HEADER_LEN :: usize where
  "BINLOG_EVENT_HEADER_LEN = 19"

definition MYSQL_CLIENT_PACKET_MAX_BYTES :: usize where
  "MYSQL_CLIENT_PACKET_MAX_BYTES = 1073741824"

definition replication_config_validate :: "mysql_replication_config \<Rightarrow> (replication_config_error, unit) res" where
  "replication_config_validate c =
     (if rc_max_events c = 0 then Inl Max_events_zero
      else if rc_max_transaction_bytes c < BINLOG_EVENT_HEADER_LEN then Inl Transaction_bytes_below_header
      else if MYSQL_CLIENT_PACKET_MAX_BYTES < rc_max_transaction_bytes c
      then Inl (Transaction_bytes_above_packet MYSQL_CLIENT_PACKET_MAX_BYTES)
      else if rc_poll_interval_ms c = 0 then Inl Poll_interval_zero
      else res_bind (heartbeat_period_nanoseconds (rc_poll_interval_ms c)) (\<lambda>_.
        if rc_bootstrap_timeout_ms c = 0 then Inl Bootstrap_timeout_zero
        else if \<not> rc_poll_interval_ms c < rc_bootstrap_timeout_ms c then Inl Poll_interval_not_below_timeout
        else Inr ()))"

lemma for_delivery_ok:
  assumes "for_delivery c d = Inr c'"
  shows "rc_server_id c' \<noteq> 0" "replication_config_validate c' = replication_config_validate c"
proof -
  obtain n where "n \<noteq> 0" "c' = c\<lparr>rc_server_id := n\<rparr>"
    using assms unfolding for_delivery_def Let_def by (simp split: if_splits)
  then show "rc_server_id c' \<noteq> 0" "replication_config_validate c' = replication_config_validate c"
    by (simp_all add: replication_config_validate_def)
qed

subsection \<open>The durable record\<close>

record replication_offset_state =
  os_version :: u8
  os_replay_identity :: string
  os_server_id :: u32
  os_source :: mysql_source_identity
  os_authoritative_tables :: "mysql_table_identity list"
  os_initial_boundary :: mysql_binlog_boundary
  os_committed_position :: mysql_binlog_position
  os_committed_gtids :: gtid_set

type_synonym offset_tracker = "replication_offset_state tracker"

datatype offset_violation =
    Config_invalid replication_config_error
  | Offset_replay_identity_empty
  | Offset_source_incomplete
  | Offset_without_tables
  | Offset_table_incomplete
  | Offset_table_repeated string
  | Offset_column_invalid string
  | Offset_key_ordinal_invalid string
  | Offset_table_without_key string
  | Offset_position_invalid position_error
  | Boundary_before_epoch
  | Offset_version u8
  | Offset_undecodable string
  | Offset_settings_differ
  | Offset_boundary_differs
  | Offset_lacks_boundary
  | Executed_lacks_committed
  | Purged_uncommitted
  | No_offset_and_no_boundary
  | Offset_claimed_by_other
  | Gtids_moved_backwards
  | Offset_conflict

datatype offset_error =
    Offset_safety offset_violation
  | Offset_storage_failed durable_error
  | Offset_encoding_failed string
  | Admission_repeats_table

definition REPLICATION_OFFSET_STATE_KEY :: string where
  "REPLICATION_OFFSET_STATE_KEY = ''mysql-replication-offset''"

definition OFFSET_STATE_VERSION :: u8 where
  "OFFSET_STATE_VERSION = 2"

definition lift_position :: "(position_error, 'a) res \<Rightarrow> (offset_violation, 'a) res" where
  "lift_position r = (case r of Inl e \<Rightarrow> Inl (Offset_position_invalid e) | Inr a \<Rightarrow> Inr a)"

definition boundary_position ::
  "'p mysql_common \<Rightarrow> mysql_binlog_boundary \<Rightarrow> (offset_violation, mysql_binlog_position) res" where
  "boundary_position mc b =
     res_bind (lift_position (parse_mysql mc (bb_gtid_executed b))) (\<lambda>_.
     if sint (bb_source_timestamp_micros b) < 0 then Inl Boundary_before_epoch
     else lift_position (binlog_position_new (as_bytes (bb_filename b)) (bb_position b)))"

fun offset_columns_loop ::
  "string \<Rightarrow> string list \<Rightarrow> u64 list \<Rightarrow> mysql_column_identity list \<Rightarrow> (offset_violation, u64 list) res" where
  "offset_columns_loop table names ordinals [] = Inr ordinals"
| "offset_columns_loop table names ordinals (c # cs) =
     (if \<not> (mci_name c \<noteq> [] \<and> mci_column_type c \<noteq> [] \<and> mci_name c \<notin> set names) then Inl (Offset_column_invalid table)
      else case mci_primary_key_ordinal c of
        None \<Rightarrow> offset_columns_loop table (mci_name c # names) ordinals cs
      | Some ordinal \<Rightarrow>
          if \<not> (0 < ordinal \<and> ordinal \<notin> set ordinals) then Inl (Offset_key_ordinal_invalid table)
          else offset_columns_loop table (mci_name c # names) (ordinal # ordinals) cs)"

fun offset_tables_loop ::
  "(string \<times> string) list \<Rightarrow> mysql_table_identity list \<Rightarrow> (offset_violation, unit) res" where
  "offset_tables_loop names [] = Inr ()"
| "offset_tables_loop names (t # ts) =
     (if \<not> (mti_database t \<noteq> [] \<and> mti_table t \<noteq> [] \<and> eq_ignore_ascii_case (mti_engine t) ''InnoDB'' \<and> mti_columns t \<noteq> [])
      then Inl Offset_table_incomplete
      else if (mti_database t, mti_table t) \<in> set names then Inl (Offset_table_repeated (mti_table t))
      else res_bind (offset_columns_loop (mti_table t) [] [] (mti_columns t)) (\<lambda>ordinals.
        if ordinals = [] then Inl (Offset_table_without_key (mti_table t))
        else offset_tables_loop ((mti_database t, mti_table t) # names) ts))"

definition validate_table_identities :: "mysql_table_identity list \<Rightarrow> (offset_violation, unit) res" where
  "validate_table_identities tables = (if tables = [] then Inl Offset_without_tables else offset_tables_loop [] tables)"

definition validate_identity ::
  "'p mysql_common \<Rightarrow> mysql_replication_config \<Rightarrow> mysql_source_identity \<Rightarrow> mysql_table_identity list \<Rightarrow>
   mysql_binlog_boundary option \<Rightarrow> string \<Rightarrow> (offset_violation, unit) res" where
  "validate_identity mc c source tables exact_start_boundary replay_identity =
     (case replication_config_validate c of
        Inl e \<Rightarrow> Inl (Config_invalid e)
      | Inr _ \<Rightarrow>
          if replay_identity = [] then Inl Offset_replay_identity_empty
          else if msi_server_uuid source = [] then Inl Offset_source_incomplete
          else res_bind (validate_table_identities tables) (\<lambda>_.
            case exact_start_boundary of
              None \<Rightarrow> Inr ()
            | Some boundary \<Rightarrow> res_bind (boundary_position mc boundary) (\<lambda>_. Inr ())))"

definition offset_decode_and_validate ::
  "'p mysql_common \<Rightarrow> replication_offset_state json_codec \<Rightarrow> u8 list \<Rightarrow> mysql_replication_config \<Rightarrow> mysql_source_identity \<Rightarrow>
   mysql_table_identity list \<Rightarrow> mysql_binlog_boundary option \<Rightarrow> string \<Rightarrow> (offset_violation, replication_offset_state) res" where
  "offset_decode_and_validate mc js payload c source tables exact_start_boundary replay_identity =
     (case js_from_slice js payload of
        Inl e \<Rightarrow> Inl (Offset_undecodable e)
      | Inr state \<Rightarrow>
          if os_version state \<noteq> OFFSET_STATE_VERSION then Inl (Offset_version (os_version state))
          else if \<not> (os_replay_identity state = replay_identity \<and> os_server_id state = rc_server_id c \<and>
                     os_source state = source \<and> os_authoritative_tables state = tables)
          then Inl Offset_settings_differ
          else if exact_start_boundary \<noteq> None \<and> exact_start_boundary \<noteq> Some (os_initial_boundary state)
          then Inl Offset_boundary_differs
          else res_bind (boundary_position mc (os_initial_boundary state)) (\<lambda>_.
               res_bind (lift_position (binlog_position_validate (os_committed_position state))) (\<lambda>_.
               res_bind (lift_position (gtid_validate mc (os_committed_gtids state))) (\<lambda>_.
               res_bind (lift_position (parse_mysql mc (bb_gtid_executed (os_initial_boundary state)))) (\<lambda>initial_gtids.
               if \<not> is_subset_of initial_gtids (os_committed_gtids state) then Inl Offset_lacks_boundary
               else Inr state)))))"

definition validate_gtid_continuity ::
  "'p mysql_common \<Rightarrow> gtid_set \<Rightarrow> gtid_set \<Rightarrow> gtid_set \<Rightarrow> (offset_violation, unit) res" where
  "validate_gtid_continuity mc committed_gtids current_executed_gtids current_purged_gtids =
     res_bind (lift_position (gtid_validate mc committed_gtids)) (\<lambda>_.
     res_bind (lift_position (gtid_validate mc current_executed_gtids)) (\<lambda>_.
     res_bind (lift_position (gtid_validate mc current_purged_gtids)) (\<lambda>_.
     if \<not> is_subset_of committed_gtids current_executed_gtids then Inl Executed_lacks_committed
     else if \<not> is_subset_of current_purged_gtids committed_gtids then Inl Purged_uncommitted
     else Inr ())))"

definition inspect_replication_membership ::
  "'p mysql_common \<Rightarrow> replication_offset_state json_codec \<Rightarrow> mysql_replication_config \<Rightarrow> mysql_source_identity \<Rightarrow> string \<Rightarrow>
   (offset_error, mysql_table_identity list option) res dprog" where
  "inspect_replication_membership mc js c source replay_identity =
     Read_key REPLICATION_OFFSET_STATE_KEY (\<lambda>read.
       case read of
         Inl e \<Rightarrow> Return (Inl (Offset_storage_failed e))
       | Inr None \<Rightarrow> Return (Inr None)
       | Inr (Some current) \<Rightarrow>
           (case js_from_slice js (dv_payload current) of
              Inl e \<Rightarrow> Return (Inl (Offset_safety (Offset_undecodable e)))
            | Inr state \<Rightarrow>
                (case res_bind (validate_identity mc c source (os_authoritative_tables state) None replay_identity) (\<lambda>_.
                        offset_decode_and_validate mc js (dv_payload current) c source (os_authoritative_tables state)
                          None replay_identity) of
                   Inl e \<Rightarrow> Return (Inl (Offset_safety e))
                 | Inr state \<Rightarrow> Return (Inr (Some (os_authoritative_tables state))))))"

definition inspect_existing_replication_offset ::
  "'p mysql_common \<Rightarrow> replication_offset_state json_codec \<Rightarrow> mysql_replication_config \<Rightarrow> mysql_source_identity \<Rightarrow>
   mysql_table_identity list \<Rightarrow> mysql_binlog_boundary option \<Rightarrow> gtid_set \<Rightarrow> gtid_set \<Rightarrow> string \<Rightarrow>
   (offset_error, mysql_binlog_position option) res dprog" where
  "inspect_existing_replication_offset mc js c source tables boundary executed purged replay_identity =
     (case validate_identity mc c source tables boundary replay_identity of
        Inl e \<Rightarrow> Return (Inl (Offset_safety e))
      | Inr _ \<Rightarrow> Read_key REPLICATION_OFFSET_STATE_KEY (\<lambda>read.
          case read of
            Inl e \<Rightarrow> Return (Inl (Offset_storage_failed e))
          | Inr None \<Rightarrow> Return (Inr None)
          | Inr (Some current) \<Rightarrow>
              (case res_bind (offset_decode_and_validate mc js (dv_payload current) c source tables boundary replay_identity)
                      (\<lambda>state. res_bind (validate_gtid_continuity mc (os_committed_gtids state) executed purged) (\<lambda>_. Inr state)) of
                 Inl e \<Rightarrow> Return (Inl (Offset_safety e))
               | Inr state \<Rightarrow> Return (Inr (Some (os_committed_position state))))))"

definition offset_create ::
  "'p mysql_common \<Rightarrow> mysql_replication_config \<Rightarrow> mysql_source_identity \<Rightarrow> mysql_table_identity list \<Rightarrow>
   mysql_binlog_boundary option \<Rightarrow> gtid_set \<Rightarrow> gtid_set \<Rightarrow> string \<Rightarrow> (offset_violation, replication_offset_state) res" where
  "offset_create mc c source tables exact_start_boundary executed purged replay_identity =
     (case exact_start_boundary of
        None \<Rightarrow> Inl No_offset_and_no_boundary
      | Some boundary \<Rightarrow>
          res_bind (boundary_position mc boundary) (\<lambda>committed_position.
          res_bind (lift_position (parse_mysql mc (bb_gtid_executed boundary))) (\<lambda>committed_gtids.
          res_bind (validate_gtid_continuity mc committed_gtids executed purged) (\<lambda>_.
          Inr \<lparr>os_version = OFFSET_STATE_VERSION, os_replay_identity = replay_identity, os_server_id = rc_server_id c,
               os_source = source, os_authoritative_tables = tables, os_initial_boundary = boundary,
               os_committed_position = committed_position, os_committed_gtids = committed_gtids\<rparr>))))"

definition offset_prepare ::
  "'p mysql_common \<Rightarrow> replication_offset_state json_codec \<Rightarrow> mysql_replication_config \<Rightarrow> mysql_source_identity \<Rightarrow>
   mysql_table_identity list \<Rightarrow> mysql_binlog_boundary option \<Rightarrow> gtid_set \<Rightarrow> gtid_set \<Rightarrow> string \<Rightarrow>
   (offset_error, offset_tracker \<times> mysql_binlog_position \<times> gtid_set) res dprog" where
  "offset_prepare mc js c source tables exact_start_boundary executed purged replay_identity =
     (case validate_identity mc c source tables exact_start_boundary replay_identity of
        Inl e \<Rightarrow> Return (Inl (Offset_safety e))
      | Inr _ \<Rightarrow> Read_key REPLICATION_OFFSET_STATE_KEY (\<lambda>read.
          case read of
            Inl e \<Rightarrow> Return (Inl (Offset_storage_failed e))
          | Inr (Some current) \<Rightarrow>
              (case res_bind (offset_decode_and_validate mc js (dv_payload current) c source tables exact_start_boundary replay_identity)
                      (\<lambda>state. res_bind (validate_gtid_continuity mc (os_committed_gtids state) executed purged) (\<lambda>_. Inr state)) of
                 Inl e \<Rightarrow> Return (Inl (Offset_safety e))
               | Inr state \<Rightarrow>
                   Return (Inr (\<lparr>tk_key = REPLICATION_OFFSET_STATE_KEY, tk_revision = dv_revision current, tk_identity = state\<rparr>,
                                os_committed_position state, os_committed_gtids state)))
          | Inr None \<Rightarrow>
              (case offset_create mc c source tables exact_start_boundary executed purged replay_identity of
                 Inl e \<Rightarrow> Return (Inl (Offset_safety e))
               | Inr state \<Rightarrow>
                   exchange_state js REPLICATION_OFFSET_STATE_KEY None state
                     (\<lambda>e. Inl (Offset_encoding_failed e)) (\<lambda>e. Inl (Offset_storage_failed e))
                     (Inl (Offset_safety Offset_claimed_by_other))
                     (\<lambda>v. Inr (\<lparr>tk_key = REPLICATION_OFFSET_STATE_KEY, tk_revision = dv_revision v, tk_identity = state\<rparr>,
                               os_committed_position state, os_committed_gtids state)))))"

fun admit_tables ::
  "mysql_table_identity list \<Rightarrow> mysql_table_identity list \<Rightarrow> (offset_error, mysql_table_identity list) res" where
  "admit_tables tables [] = Inr tables"
| "admit_tables tables (t # ts) =
     (if list_ex (\<lambda>old. mti_database old = mti_database t \<and> mti_table old = mti_table t) tables
      then Inl Admission_repeats_table else admit_tables (tables @ [t]) ts)"

definition store_admission ::
  "'p mysql_common \<Rightarrow> replication_offset_state json_codec \<Rightarrow> offset_tracker \<Rightarrow> mysql_binlog_position \<Rightarrow> gtid_set \<Rightarrow>
   mysql_table_identity list \<Rightarrow> (offset_tracker \<times> (offset_error, unit) res) dprog" where
  "store_admission mc js t committed_position committed_gtids added =
     (case res_bind (lift_position (binlog_position_validate committed_position)) (\<lambda>_.
             lift_position (gtid_validate mc committed_gtids)) of
        Inl e \<Rightarrow> Return (t, Inl (Offset_safety e))
      | Inr _ \<Rightarrow>
          if \<not> is_subset_of (os_committed_gtids (tk_identity t)) committed_gtids
          then Return (t, Inl (Offset_safety Gtids_moved_backwards))
          else if committed_position = os_committed_position (tk_identity t) \<and>
                  committed_gtids = os_committed_gtids (tk_identity t) \<and> added = []
          then Return (t, Inr ())
          else case admit_tables (os_authoritative_tables (tk_identity t)) added of
            Inl e \<Rightarrow> Return (t, Inl e)
          | Inr tables \<Rightarrow>
              (case if added = [] then Inr () else validate_table_identities tables of
                 Inl e \<Rightarrow> Return (t, Inl (Offset_safety e))
               | Inr _ \<Rightarrow>
                   let nxt = (tk_identity t)\<lparr>os_authoritative_tables := tables,
                                os_committed_position := committed_position, os_committed_gtids := committed_gtids\<rparr>
                   in exchange_state js (tk_key t) (Some (tk_revision t)) nxt
                        (\<lambda>e. (t, Inl (Offset_encoding_failed e))) (\<lambda>e. (t, Inl (Offset_storage_failed e)))
                        (t, Inl (Offset_safety Offset_conflict))
                        (\<lambda>v. (t\<lparr>tk_revision := dv_revision v, tk_identity := nxt\<rparr>, Inr ()))))"

definition offset_store ::
  "'p mysql_common \<Rightarrow> replication_offset_state json_codec \<Rightarrow> offset_tracker \<Rightarrow> mysql_binlog_position \<Rightarrow> gtid_set \<Rightarrow>
   (offset_tracker \<times> (offset_error, unit) res) dprog" where
  "offset_store mc js t committed_position committed_gtids = store_admission mc js t committed_position committed_gtids []"

subsection \<open>The protocol\<close>

definition offset_tracker_of ::
  "(offset_error, offset_tracker \<times> mysql_binlog_position \<times> gtid_set) res \<Rightarrow> offset_tracker option" where
  "offset_tracker_of r = (case r of Inl _ \<Rightarrow> None | Inr (t, _) \<Rightarrow> Some t)"

definition offset_calls ::
  "'p mysql_common \<Rightarrow> replication_offset_state json_codec \<Rightarrow> offset_tracker option \<Rightarrow> offset_tracker option dprog set" where
  "offset_calls mc js t =
     (case t of
        None \<Rightarrow>
          {dmap offset_tracker_of (offset_prepare mc js c source tables boundary executed purged replay_identity)
           | c source tables boundary executed purged replay_identity. True} \<union>
          {dmap (\<lambda>_. None) (inspect_replication_membership mc js c source replay_identity)
           | c source replay_identity. True} \<union>
          {dmap (\<lambda>_. None) (inspect_existing_replication_offset mc js c source tables boundary executed purged replay_identity)
           | c source tables boundary executed purged replay_identity. True}
      | Some t \<Rightarrow>
          {dmap (\<lambda>r. Some (fst r)) (offset_store mc js t position gtids) | position gtids. True} \<union>
          {dmap (\<lambda>r. Some (fst r)) (store_admission mc js t position gtids added) | position gtids added. True})"

text \<open>A record that may be stored, and the records that may replace it.\<close>

definition offset_ok :: "'p mysql_common \<Rightarrow> replication_offset_state \<Rightarrow> bool" where
  "offset_ok mc a \<longleftrightarrow>
     validate_table_identities (os_authoritative_tables a) = Inr () \<and>
     binlog_position_validate (os_committed_position a) = Inr () \<and>
     gtid_validate mc (os_committed_gtids a) = Inr () \<and>
     (\<exists>g. parse_mysql mc (bb_gtid_executed (os_initial_boundary a)) = Inr g \<and> gtids g \<subseteq> gtids (os_committed_gtids a))"

definition offset_settings :: "replication_offset_state \<Rightarrow> u8 \<times> string \<times> u32 \<times> mysql_source_identity \<times> mysql_binlog_boundary" where
  "offset_settings a = (os_version a, os_replay_identity a, os_server_id a, os_source a, os_initial_boundary a)"

definition offset_advances :: "'p mysql_common \<Rightarrow> replication_offset_state \<Rightarrow> replication_offset_state \<Rightarrow> bool" where
  "offset_advances mc a b \<longleftrightarrow>
     offset_settings a = offset_settings b \<and> gtids (os_committed_gtids a) \<subseteq> gtids (os_committed_gtids b) \<and>
     (\<exists>added. os_authoritative_tables b = os_authoritative_tables a @ added) \<and> offset_ok mc b"

definition offset_tracker_ok ::
  "'p mysql_common \<Rightarrow> replication_offset_state json_codec \<Rightarrow> u8 list list \<Rightarrow> offset_tracker option \<Rightarrow> bool" where
  "offset_tracker_ok mc js h t \<longleftrightarrow>
     tracker_ok js REPLICATION_OFFSET_STATE_KEY h t \<and> (\<forall>t'. t = Some t' \<longrightarrow> offset_ok mc (tk_identity t'))"

lemma lift_position_Inr [simp]: "lift_position r = Inr a \<longleftrightarrow> r = Inr a"
  by (auto simp: lift_position_def split: sum.splits)

lemma parse_mysql_valid: "parse_mysql mc v = Inr g \<Longrightarrow> gtid_validate mc g = Inr ()"
  by (auto simp: parse_mysql_def res_bind_Inr_iff gtid_validate_ok split: if_splits)

lemma binlog_position_new_validate:
  assumes "binlog_position_new f p = Inr x"
  shows "binlog_position_validate x = Inr ()"
proof -
  have x: "x = \<lparr>bp_filename = f, bp_position = ucast p\<rparr>" "f \<noteq> []" "0 \<notin> set f" "uint p < 2 ^ 32" "\<not> ucast p < (4 :: u32)"
    using assms by (auto simp: binlog_position_new_def split: if_splits)
  have "uint (ucast (ucast p :: u32) :: u64) < 2 ^ 32"
    using uint_bounded[of "ucast p :: u32"] by (simp add: unsigned_ucast_eq unsigned_take_bit_eq)
  moreover have "ucast (ucast (ucast p :: u32) :: u64) = (ucast p :: u32)"
    by (rule bit_word_eqI) (auto simp: bit_simps)
  ultimately show ?thesis using x by (simp add: binlog_position_validate_def binlog_position_new_def)
qed

lemma admit_tables_Inr: "admit_tables tables added = Inr r \<Longrightarrow> r = tables @ added"
  by (induction tables added rule: admit_tables.induct) (auto split: if_splits)

lemma validate_identity_tables:
  "validate_identity mc c source tables b replay = Inr () \<Longrightarrow> validate_table_identities tables = Inr ()"
  by (auto simp: validate_identity_def res_bind_Inr_iff split: sum.splits if_splits)

lemma offset_decode_ok:
  assumes "offset_decode_and_validate mc js p c source tables b replay = Inr a"
  shows "js_from_slice js p = Inr a" "os_authoritative_tables a = tables" "os_server_id a = rc_server_id c"
    "os_source a = source" "os_replay_identity a = replay" "\<forall>l. b = Some l \<longrightarrow> os_initial_boundary a = l"
    "validate_table_identities tables = Inr () \<Longrightarrow> offset_ok mc a"
  using assms is_subset_of_sound
  by (fastforce simp: offset_decode_and_validate_def offset_ok_def res_bind_Inr_iff split: sum.splits if_splits)+

lemma offset_create_ok:
  assumes "offset_create mc c source tables b executed purged replay = Inr a"
    and "validate_table_identities tables = Inr ()"
  shows "offset_ok mc a"
  using assms parse_mysql_valid binlog_position_new_validate
  by (auto simp: offset_create_def offset_ok_def boundary_position_def res_bind_Inr_iff split: option.splits if_splits)

lemma offset_create_fields:
  assumes "offset_create mc c source tables b executed purged replay = Inr a"
  shows "b = Some (os_initial_boundary a) \<and> parse_mysql mc (bb_gtid_executed (os_initial_boundary a)) = Inr (os_committed_gtids a) \<and>
    validate_gtid_continuity mc (os_committed_gtids a) executed purged = Inr () \<and> os_replay_identity a = replay \<and>
    os_source a = source \<and> os_server_id a = rc_server_id c \<and> os_authoritative_tables a = tables"
  using assms by (auto simp: offset_create_def res_bind_Inr_iff split: option.splits)

lemma continuity_sound:
  assumes "validate_gtid_continuity mc g executed purged = Inr ()"
  shows "gtids purged \<subseteq> gtids g" "gtids g \<subseteq> gtids executed"
  using assms is_subset_of_sound
  by (fastforce simp: validate_gtid_continuity_def res_bind_Inr_iff split: if_splits)+

lemma store_admission_keeps:
  assumes js: "json_laws js" and t: "offset_tracker_ok mc js h (Some t)"
  shows "keeps REPLICATION_OFFSET_STATE_KEY (decodes js (offset_ok mc)) (decodes2 js (offset_advances mc))
    (\<lambda>h r. offset_tracker_ok mc js h (Some (fst r))) (store_admission mc js t position g added) h"
proof -
  let ?next = "\<lambda>tables. (tk_identity t)\<lparr>os_authoritative_tables := tables, os_committed_position := position, os_committed_gtids := g\<rparr>"
  have ok: "offset_ok mc (tk_identity t)" "tk_key t = REPLICATION_OFFSET_STATE_KEY" using t by (auto simp: offset_tracker_ok_def)
  have advances: "offset_advances mc (tk_identity t) (?next tables)"
    if "binlog_position_validate position = Inr ()" "gtid_validate mc g = Inr ()"
      "is_subset_of (os_committed_gtids (tk_identity t)) g"
      "admit_tables (os_authoritative_tables (tk_identity t)) added = Inr tables"
      "(if added = [] then Inr () else validate_table_identities tables) = Inr ()" for tables
    using that ok(1) is_subset_of_sound[OF that(3)] admit_tables_Inr[OF that(4)]
    by (auto simp: offset_advances_def offset_ok_def offset_settings_def split: if_splits)
  have exchange: "keeps REPLICATION_OFFSET_STATE_KEY (decodes js (offset_ok mc)) (decodes2 js (offset_advances mc))
      (\<lambda>h r. offset_tracker_ok mc js h (Some (fst r)))
      (exchange_state js (tk_key t) (Some (tk_revision t)) (?next tables)
        (\<lambda>e. (t, Inl (Offset_encoding_failed e))) (\<lambda>e. (t, Inl (Offset_storage_failed e)))
        (t, Inl (Offset_safety Offset_conflict))
        (\<lambda>v. (t\<lparr>tk_revision := dv_revision v, tk_identity := ?next tables\<rparr>, Inr ()))) h"
    if "offset_advances mc (tk_identity t) (?next tables)" for tables
    unfolding ok(2) using t that
    by (intro exchange_state_keeps[OF js])
      (auto simp: offset_tracker_ok_def offset_advances_def intro: at_revision_extends)
  show ?thesis
    using t advances exchange
    by (auto simp: store_admission_def res_bind_Inr_iff Let_def simp del: tracker_ok_simps split: sum.splits)
qed

lemma offset_prepare_keeps:
  assumes js: "json_laws js"
  shows "keeps REPLICATION_OFFSET_STATE_KEY (decodes js (offset_ok mc)) (decodes2 js (offset_advances mc))
    (\<lambda>h r. offset_tracker_ok mc js h (offset_tracker_of r))
    (offset_prepare mc js c source tables boundary executed purged replay) h"
proof (cases "validate_identity mc c source tables boundary replay")
  case (Inr u)
  note tables = validate_identity_tables[OF Inr[unfolded unit_eq[of u]]]
  let ?decoded = "\<lambda>v. res_bind (offset_decode_and_validate mc js (dv_payload v) c source tables boundary replay)
    (\<lambda>state. res_bind (validate_gtid_continuity mc (os_committed_gtids state) executed purged) (\<lambda>_. Inr state))"
  have resume: "offset_tracker_ok mc js h' (Some \<lparr>tk_key = REPLICATION_OFFSET_STATE_KEY, tk_revision = dv_revision v, tk_identity = a\<rparr>)"
    if "hist_cell h' = Some v" "chain (decodes js (offset_ok mc)) (decodes2 js (offset_advances mc)) h'" "?decoded v = Inr a" for h' v a
    using hist_cell_at_revision[OF that(2,1)] that(3) offset_decode_ok[of mc js "dv_payload v" c source tables boundary replay a] tables
    by (auto simp: offset_tracker_ok_def res_bind_Inr_iff)
  have create: "keeps REPLICATION_OFFSET_STATE_KEY (decodes js (offset_ok mc)) (decodes2 js (offset_advances mc))
      (\<lambda>h r. offset_tracker_ok mc js h (offset_tracker_of r))
      (exchange_state js REPLICATION_OFFSET_STATE_KEY None a
         (\<lambda>e. Inl (Offset_encoding_failed e)) (\<lambda>e. Inl (Offset_storage_failed e)) (Inl (Offset_safety Offset_claimed_by_other))
         (\<lambda>v. Inr (\<lparr>tk_key = REPLICATION_OFFSET_STATE_KEY, tk_revision = dv_revision v, tk_identity = a\<rparr>,
                   os_committed_position a, os_committed_gtids a))) h'"
    if "offset_create mc c source tables boundary executed purged replay = Inr a" for a h'
    using offset_create_ok[OF that tables]
    by (intro exchange_state_keeps[OF js]) (auto simp: offset_tracker_ok_def offset_tracker_of_def)
  show ?thesis
    using Inr resume create
    by (auto simp: offset_prepare_def offset_tracker_of_def offset_tracker_ok_def simp del: tracker_ok_simps(2)
        split: option.splits sum.splits)
qed (simp add: offset_prepare_def offset_tracker_of_def offset_tracker_ok_def)

lemma offset_inspect_keeps:
  "keeps REPLICATION_OFFSET_STATE_KEY init nxt (\<lambda>h r. True) (inspect_replication_membership mc js c source replay) h"
  "keeps REPLICATION_OFFSET_STATE_KEY init nxt (\<lambda>h r. True)
     (inspect_existing_replication_offset mc js c source tables boundary executed purged replay) h"
  by (auto simp: inspect_replication_membership_def inspect_existing_replication_offset_def split: option.splits sum.splits)

interpretation mysql_offset: stored_protocol lf "lawful js" REPLICATION_OFFSET_STATE_KEY "offset_ok mc" "offset_advances mc"
  "offset_tracker_ok mc (lawful js)" "offset_calls mc (lawful js)" "\<lambda>_. False"
  for lf js mc
proof
  show "plain_key REPLICATION_OFFSET_STATE_KEY" by code_simp
  show "offset_tracker_ok mc (lawful js) h None" for h by (simp add: offset_tracker_ok_def)
next
  fix h t p
  assume "offset_tracker_ok mc (lawful js) h t" "p \<in> offset_calls mc (lawful js) t"
  moreover have "offset_tracker_ok mc (lawful js) h' None" for h' by (simp add: offset_tracker_ok_def)
  ultimately show "keeps REPLICATION_OFFSET_STATE_KEY (decodes (lawful js) (offset_ok mc))
      (decodes2 (lawful js) (offset_advances mc)) (offset_tracker_ok mc (lawful js)) p h"
    using offset_prepare_keeps[OF lawful_laws, where mc = mc] store_admission_keeps[OF lawful_laws] offset_inspect_keeps
    by (cases t) (auto simp: offset_calls_def keeps_dmap offset_store_def)
next
  fix h t h'
  assume "offset_tracker_ok mc (lawful js) h t" "extends h h'"
  then show "offset_tracker_ok mc (lawful js) h' t" by (auto simp: offset_tracker_ok_def intro: tracker_ok_extends)
qed simp

lemma offset_advances_path:
  "(offset_advances mc)\<^sup>*\<^sup>* a b \<Longrightarrow> offset_ok mc a \<Longrightarrow>
     offset_settings b = offset_settings a \<and> gtids (os_committed_gtids a) \<subseteq> gtids (os_committed_gtids b) \<and>
     (\<exists>added. os_authoritative_tables b = os_authoritative_tables a @ added) \<and> offset_ok mc b"
  by (induction rule: rtranclp_induct) (auto simp: offset_advances_def)

lemma offset_tables_loop_distinct:
  "offset_tables_loop names ts = Inr () \<Longrightarrow> distinct names \<Longrightarrow>
     distinct (map (\<lambda>t. (mti_database t, mti_table t)) ts @ names)"
  by (induction names ts rule: offset_tables_loop.induct) (auto simp: res_bind_Inr_iff split: if_splits)

subsection \<open>Properties\<close>

text \<open>
  C38 (replication offsets only grow). Let any number of executions open, inspect and advance the
  replication offset over the local files, interleaved at every storage call, with faults, crashes
  and restarts. A stored record keeps its settings and initial boundary, no committed transaction is
  ever dropped from it, and tables are only ever appended, none twice. Its GTID set is always valid and contains
  everything executed before the initial boundary.
\<close>

theorem mysql_offset_monotone:
  assumes "json_laws js" and "local_inv lf st0" and "local_cell lf st0 REPLICATION_OFFSET_STATE_KEY = None"
    and "dsys_reach (local_file_storage lf) (offset_calls mc js) st0 s"
    and "(dsys_step (local_file_storage lf) (offset_calls mc js))\<^sup>*\<^sup>* s s'"
    and "stored lf js REPLICATION_OFFSET_STATE_KEY (fst s) = Some a"
  shows "\<exists>b g. stored lf js REPLICATION_OFFSET_STATE_KEY (fst s') = Some b \<and> offset_settings b = offset_settings a \<and>
    gtids (os_committed_gtids a) \<subseteq> gtids (os_committed_gtids b) \<and> gtid_validate mc (os_committed_gtids b) = Inr () \<and>
    parse_mysql mc (bb_gtid_executed (os_initial_boundary b)) = Inr g \<and> gtids g \<subseteq> gtids (os_committed_gtids b) \<and>
    (\<exists>added. os_authoritative_tables b = os_authoritative_tables a @ added) \<and>
    distinct (map (\<lambda>t. (mti_database t, mti_table t)) (os_authoritative_tables b))"
proof -
  obtain b where b: "stored lf js REPLICATION_OFFSET_STATE_KEY (fst s') = Some b" "(offset_advances mc)\<^sup>*\<^sup>* a b"
    using mysql_offset.reach_path_stored[where lf = lf and js = js and mc = mc and s = s and s' = s' and a = a] assms by auto
  obtain i where i: "offset_ok mc i" "(offset_advances mc)\<^sup>*\<^sup>* i a"
    using mysql_offset.reach_stored[where lf = lf and js = js and mc = mc and s = s] assms by (auto simp: stored_Some)
  have "offset_ok mc a" using offset_advances_path[OF i(2,1)] by blast
  note path = offset_advances_path[OF b(2) this]
  then have "distinct (map (\<lambda>t. (mti_database t, mti_table t)) (os_authoritative_tables b))"
    using offset_tables_loop_distinct[of "[]" "os_authoritative_tables b"]
    by (auto simp: offset_ok_def validate_table_identities_def split: if_splits)
  then show ?thesis using b(1) path by (auto simp: offset_ok_def)
qed

text \<open>
  C39 (resuming leaves no gap). When a delivery opens its offset, alone and without storage faults, it resumes at the position and GTID set of
  the record that is then stored for exactly its settings and tables: the existing one, unchanged, or a new
  one at the boundary it was given. That set is a subset of the transactions the server has executed and contains all
  those it has purged, so each transaction that is missing at the destination can still be read.
\<close>

theorem mysql_resume_continuous:
  assumes "json_laws js" and "local_inv lf st"
    and "drun (local_file_storage lf)
      (offset_prepare mc js c source tables boundary executed purged replay_identity) st = (st', Inr (t, position, g))"
  shows "stored lf js REPLICATION_OFFSET_STATE_KEY st' = Some (tk_identity t) \<and>
    position = os_committed_position (tk_identity t) \<and> g = os_committed_gtids (tk_identity t) \<and>
    os_replay_identity (tk_identity t) = replay_identity \<and> os_source (tk_identity t) = source \<and>
    os_server_id (tk_identity t) = rc_server_id c \<and> os_authoritative_tables (tk_identity t) = tables \<and>
    gtids purged \<subseteq> gtids g \<and> gtids g \<subseteq> gtids executed \<and>
    (st' = st \<or>
     local_cell lf st REPLICATION_OFFSET_STATE_KEY = None \<and> boundary = Some (os_initial_boundary (tk_identity t)) \<and>
     parse_mysql mc (bb_gtid_executed (os_initial_boundary (tk_identity t))) = Inr g)"
proof -
  let ?K = REPLICATION_OFFSET_STATE_KEY
  have k: "plain_key ?K" by (rule mysql_offset.good_key)
  obtain u where u: "validate_identity mc c source tables boundary replay_identity = Inr u"
    using assms(3) by (auto simp: offset_prepare_def split: sum.splits)
  obtain st1 x where x: "ds_read (local_file_storage lf) No_fault ?K st = (st1, x)" by fastforce
  have st1: "st1 = st" "x = Inr (local_cell lf st ?K)"
    using local_files.read_law[OF assms(2) k x] assms(3) by (auto simp: offset_prepare_def u x)
  note run = assms(3)[unfolded offset_prepare_def u, simplified, unfolded x st1, simplified]
  show ?thesis
  proof (cases "local_cell lf st ?K")
    case (Some current)
    let ?d = "res_bind (offset_decode_and_validate mc js (dv_payload current) c source tables boundary replay_identity)
      (\<lambda>state. res_bind (validate_gtid_continuity mc (os_committed_gtids state) executed purged) (\<lambda>_. Inr state))"
    obtain a where d: "?d = Inr a" and a: "st' = st" "tk_identity t = a" "position = os_committed_position a" "g = os_committed_gtids a"
      using run Some by (cases ?d) auto
    have v: "offset_decode_and_validate mc js (dv_payload current) c source tables boundary replay_identity = Inr a"
      "validate_gtid_continuity mc (os_committed_gtids a) executed purged = Inr ()"
      using d by (auto simp: res_bind_Inr_iff)
    show ?thesis
      using offset_decode_ok(1-5)[OF v(1)] continuity_sound[OF v(2)] a Some by (auto simp: stored_Some)
  next
    case None
    then obtain a where c: "offset_create mc c source tables boundary executed purged replay_identity = Inr a"
      and ex: "drun (local_file_storage lf) (exchange_state js ?K None a
         (\<lambda>e. Inl (Offset_encoding_failed e)) (\<lambda>e. Inl (Offset_storage_failed e)) (Inl (Offset_safety Offset_claimed_by_other))
         (\<lambda>v. Inr (\<lparr>tk_key = ?K, tk_revision = dv_revision v, tk_identity = a\<rparr>,
                   os_committed_position a, os_committed_gtids a))) st = (st', Inr (t, position, g))"
      using run by (cases "offset_create mc c source tables boundary executed purged replay_identity") auto
    obtain v where "t = \<lparr>tk_key = ?K, tk_revision = dv_revision v, tk_identity = a\<rparr>" "local_cell lf st' ?K = Some v"
      "js_from_slice js (dv_payload v) = Inr a" "position = os_committed_position a" "g = os_committed_gtids a"
      using drun_exchange_state[OF assms(1,2) k ex] by auto
    then have "stored lf js ?K st' = Some a" "tk_identity t = a" "position = os_committed_position a" "g = os_committed_gtids a"
      by (auto simp: stored_Some)
    then show ?thesis
      using offset_create_fields[OF c] continuity_sound[of mc "os_committed_gtids a" executed purged] None by simp
  qed
qed

text \<open>A delivery that opens its offset at an empty boundary and commits four transactions.\<close>

definition example_replication_config :: mysql_replication_config where
  "example_replication_config =
     \<lparr>rc_server_id = 7, rc_max_events = 10, rc_max_transaction_bytes = 1000, rc_poll_interval_ms = 100,
      rc_bootstrap_timeout_ms = 30000\<rparr>"

definition example_offset_states :: "replication_offset_state list" where
  "example_offset_states =
     [\<lparr>os_version = OFFSET_STATE_VERSION, os_replay_identity = ''replay'', os_server_id = 7,
       os_source = example_source_identity, os_authoritative_tables = [example_table],
       os_initial_boundary = example_boundary, os_committed_position = \<lparr>bp_filename = as_bytes ''b'', bp_position = 4\<rparr>,
       os_committed_gtids = []\<rparr>,
      \<lparr>os_version = OFFSET_STATE_VERSION, os_replay_identity = ''replay'', os_server_id = 7,
       os_source = example_source_identity, os_authoritative_tables = [example_table],
       os_initial_boundary = example_boundary, os_committed_position = \<lparr>bp_filename = as_bytes ''b'', bp_position = 9\<rparr>,
       os_committed_gtids = [example_sid]\<rparr>]"

definition example_offset_json :: "replication_offset_state json_codec" where
  "example_offset_json = list_json example_offset_states"

lemma example_offset_json_laws: "json_laws example_offset_json"
  unfolding example_offset_json_def by (rule list_json_laws) (simp add: example_offset_states_def)

definition example_prepare :: "(offset_error, offset_tracker \<times> mysql_binlog_position \<times> gtid_set) res dprog" where
  "example_prepare =
     offset_prepare example_parser_common example_offset_json example_replication_config example_source_identity
       [example_table] (Some example_boundary) [example_sid] [] ''replay''"

definition example_offset_call :: "nat \<Rightarrow> offset_tracker option \<Rightarrow> offset_tracker option dprog" where
  "example_offset_call n t =
     (case t of
        None \<Rightarrow> dmap offset_tracker_of example_prepare
      | Some t \<Rightarrow>
          dmap (\<lambda>r. Some (fst r))
            (offset_store example_parser_common example_offset_json t \<lparr>bp_filename = as_bytes ''b'', bp_position = 9\<rparr>
               [example_sid]))"

lemma example_offset_call: "\<forall>n t. example_offset_call n t \<in> offset_calls example_parser_common example_offset_json t"
  by (auto simp: example_offset_call_def example_prepare_def offset_calls_def split: option.split) blast+

definition example_offset_run :: "nat \<Rightarrow> durable_state" where
  "example_offset_run n = fst (solo_run (local_file_storage example_lf) example_offset_call example_durable n)"

lemma example_offset_stored:
  "stored example_lf example_offset_json REPLICATION_OFFSET_STATE_KEY (example_offset_run 1) = Some (example_offset_states ! 0)"
  "stored example_lf example_offset_json REPLICATION_OFFSET_STATE_KEY (example_offset_run 2) = Some (example_offset_states ! 1)"
  by code_simp+

theorem mysql_offset_monotone_witness:
  "\<exists>b. stored example_lf example_offset_json REPLICATION_OFFSET_STATE_KEY (example_offset_run 2) = Some b \<and>
     gtid_validate example_parser_common (os_committed_gtids b) = Inr () \<and> os_committed_gtids b = [example_sid] \<and>
     (\<exists>added. os_authoritative_tables b = [example_table] @ added)"
proof -
  have i: "local_inv example_lf example_durable"
    "local_cell example_lf example_durable REPLICATION_OFFSET_STATE_KEY = None"
    by (simp_all add: empty_local_inv local_cell_def example_durable_def)
  have s: "os_authoritative_tables (example_offset_states ! 0) = [example_table]"
    "os_committed_gtids (example_offset_states ! 1) = [example_sid]"
    by (simp_all add: example_offset_states_def)
  obtain b g where "stored example_lf example_offset_json REPLICATION_OFFSET_STATE_KEY (example_offset_run 2) = Some b"
    "gtid_validate example_parser_common (os_committed_gtids b) = Inr ()"
    "\<exists>added. os_authoritative_tables b = [example_table] @ added"
    using mysql_offset_monotone[OF example_offset_json_laws i solo_reach[OF example_offset_call, of _ _ 1]
        solo_steps[OF example_offset_call, of 1 2]] example_offset_stored(1) s
    by (auto simp: example_offset_run_def)
  then show ?thesis using example_offset_stored(2) s by auto
qed

theorem mysql_resume_continuous_witness:
  "\<exists>st t position. drun (local_file_storage example_lf) example_prepare example_durable = (st, Inr (t, position, [])) \<and>
     stored example_lf example_offset_json REPLICATION_OFFSET_STATE_KEY st = Some (tk_identity t) \<and>
     gtids [] \<subseteq> gtids [example_sid]"
proof -
  let ?run = "drun (local_file_storage example_lf) example_prepare example_durable"
  have "case snd ?run of Inr (_, _, g) \<Rightarrow> g = [] | Inl _ \<Rightarrow> False" by code_simp
  then obtain st t position where run: "?run = (st, Inr (t, position, []))"
    by (cases ?run) (auto split: sum.splits)
  have "local_inv example_lf example_durable" by (simp add: empty_local_inv example_durable_def)
  then show ?thesis
    using mysql_resume_continuous[OF example_offset_json_laws _ run[unfolded example_prepare_def]] run by blast
qed

end
