(* ===== verification/S3_Journal.thy ===== *)
theory S3_Journal
  imports Gtid Mysql_Identity Durable_Protocol
begin

section \<open>The epoch journal of the S3 sink\<close>

text \<open>
  \<^verbatim>\<open>transferia-connector-s3/src/connectors/s3/sink/journal.rs\<close>. Before the S3 sink uploads the objects of an
  epoch it stores a manifest of them under a key derived from the object keys; when all are uploaded it marks the
  manifest closed. A replay that produces the same objects finds the closed manifest and uploads
  nothing; one that produces other payloads for the same keys fails. SHA-256 is a parameter. Both
  operations try three times; the results show that they never need the third.
\<close>

definition i64_to_string :: "i64 \<Rightarrow> string" where
  "i64_to_string w = (if sint w < 0 then ''-'' @ show_int (- sint w) else show_int (sint w))"

record manifest_object =
  mo_key :: string
  mo_payload_sha256 :: string
  mo_payload_bytes :: usize

datatype epoch_state = Epoch_open | Epoch_closed

record epoch_record =
  er_version :: u32
  er_state :: epoch_state
  er_objects :: "manifest_object list"

datatype open_disposition = Upload | AlreadyClosed

record epoch_journal =
  ej_key :: string
  ej_open :: epoch_record
  ej_open_bytes :: "u8 list"
  ej_closed_bytes :: "u8 list"

record closed_object =
  co_epoch_id :: u64
  co_key :: string
  co_payload :: "u8 list"
  co_rows :: usize

datatype journal_error =
    Journal_encoding_failed string
  | Journal_storage_failed durable_error
  | Journal_undecodable string string
  | Journal_mismatch string
  | Journal_disappeared string
  | Changed_while_opening string
  | Changed_while_closing string

definition JOURNAL_VERSION :: u32 where
  "JOURNAL_VERSION = 1"

definition hex_digest :: "(u8 list \<Rightarrow> u8 list) \<Rightarrow> u8 list \<Rightarrow> string" where
  "hex_digest sha256 bytes = concat (map hex_byte (sha256 bytes))"

definition manifest_object_of :: "(u8 list \<Rightarrow> u8 list) \<Rightarrow> closed_object \<Rightarrow> manifest_object" where
  "manifest_object_of sha256 object =
     \<lparr>mo_key = co_key object, mo_payload_sha256 = hex_digest sha256 (co_payload object),
      mo_payload_bytes = of_nat (length (co_payload object))\<rparr>"

definition journal_key :: "(u8 list \<Rightarrow> u8 list) \<Rightarrow> i64 \<Rightarrow> manifest_object list \<Rightarrow> string" where
  "journal_key sha256 partition_id objects =
     ''s3/partition-'' @ i64_to_string partition_id @ ''/epoch-'' @
     hex_digest sha256 (concat (map (\<lambda>object. as_bytes (mo_key object) @ [0]) objects))"

definition journal_new ::
  "(u8 list \<Rightarrow> u8 list) \<Rightarrow> epoch_record json_codec \<Rightarrow> i64 \<Rightarrow> closed_object list \<Rightarrow> (journal_error, epoch_journal) res" where
  "journal_new sha256 js partition_id objects =
     (let object_records = map (manifest_object_of sha256) objects;
          open = \<lparr>er_version = JOURNAL_VERSION, er_state = Epoch_open, er_objects = object_records\<rparr>
      in case js_to_vec js open of
           Inl e \<Rightarrow> Inl (Journal_encoding_failed e)
         | Inr open_bytes \<Rightarrow>
             (case js_to_vec js (open\<lparr>er_state := Epoch_closed\<rparr>) of
                Inl e \<Rightarrow> Inl (Journal_encoding_failed e)
              | Inr closed_bytes \<Rightarrow>
                  Inr \<lparr>ej_key = journal_key sha256 partition_id object_records, ej_open = open,
                       ej_open_bytes = open_bytes, ej_closed_bytes = closed_bytes\<rparr>))"

definition journal_decode_and_validate ::
  "epoch_record json_codec \<Rightarrow> epoch_journal \<Rightarrow> u8 list \<Rightarrow> (journal_error, epoch_record) res" where
  "journal_decode_and_validate js j payload =
     (case js_from_slice js payload of
        Inl e \<Rightarrow> Inl (Journal_undecodable (ej_key j) e)
      | Inr record \<Rightarrow>
          if er_version record \<noteq> JOURNAL_VERSION \<or> er_objects record \<noteq> er_objects (ej_open j)
          then Inl (Journal_mismatch (ej_key j)) else Inr record)"

primrec ensure_open_loop ::
  "epoch_record json_codec \<Rightarrow> epoch_journal \<Rightarrow> nat \<Rightarrow> (journal_error, open_disposition) res dprog" where
  "ensure_open_loop js j 0 = Return (Inl (Changed_while_opening (ej_key j)))"
| "ensure_open_loop js j (Suc n) =
     Read_key (ej_key j) (\<lambda>read.
       case read of
         Inl e \<Rightarrow> Return (Inl (Journal_storage_failed e))
       | Inr None \<Rightarrow>
           Exchange (ej_key j) None (ej_open_bytes j) (\<lambda>r.
             case r of
               Inl e \<Rightarrow> Return (Inl (Journal_storage_failed e))
             | Inr (Applied _) \<Rightarrow> Return (Inr Upload)
             | Inr (Conflict _) \<Rightarrow> ensure_open_loop js j n)
       | Inr (Some current) \<Rightarrow>
           (case journal_decode_and_validate js j (dv_payload current) of
              Inl e \<Rightarrow> Return (Inl e)
            | Inr record \<Rightarrow>
                Return (Inr (case er_state record of Epoch_open \<Rightarrow> Upload | Epoch_closed \<Rightarrow> AlreadyClosed))))"

definition ensure_open :: "epoch_record json_codec \<Rightarrow> epoch_journal \<Rightarrow> (journal_error, open_disposition) res dprog" where
  "ensure_open js j = ensure_open_loop js j 3"

primrec mark_closed_loop ::
  "epoch_record json_codec \<Rightarrow> epoch_journal \<Rightarrow> nat \<Rightarrow> (journal_error, unit) res dprog" where
  "mark_closed_loop js j 0 = Return (Inl (Changed_while_closing (ej_key j)))"
| "mark_closed_loop js j (Suc n) =
     Read_key (ej_key j) (\<lambda>read.
       case read of
         Inl e \<Rightarrow> Return (Inl (Journal_storage_failed e))
       | Inr None \<Rightarrow> Return (Inl (Journal_disappeared (ej_key j)))
       | Inr (Some current) \<Rightarrow>
           (case journal_decode_and_validate js j (dv_payload current) of
              Inl e \<Rightarrow> Return (Inl e)
            | Inr record \<Rightarrow>
                if er_state record = Epoch_closed then Return (Inr ())
                else Exchange (ej_key j) (Some (dv_revision current)) (ej_closed_bytes j) (\<lambda>r.
                  case r of
                    Inl e \<Rightarrow> Return (Inl (Journal_storage_failed e))
                  | Inr (Applied _) \<Rightarrow> Return (Inr ())
                  | Inr (Conflict _) \<Rightarrow> mark_closed_loop js j n)))"

definition mark_closed :: "epoch_record json_codec \<Rightarrow> epoch_journal \<Rightarrow> (journal_error, unit) res dprog" where
  "mark_closed js j = mark_closed_loop js j 3"

subsection \<open>Journals and their keys\<close>

definition ej_closed :: "epoch_journal \<Rightarrow> epoch_record" where
  "ej_closed j = (ej_open j)\<lparr>er_state := Epoch_closed\<rparr>"

definition journal_wf :: "epoch_record json_codec \<Rightarrow> epoch_journal \<Rightarrow> bool" where
  "journal_wf js j \<longleftrightarrow>
     er_version (ej_open j) = JOURNAL_VERSION \<and> er_state (ej_open j) = Epoch_open \<and>
     js_to_vec js (ej_open j) = Inr (ej_open_bytes j) \<and> js_to_vec js (ej_closed j) = Inr (ej_closed_bytes j)"

text \<open>What is relied on of SHA-256: a digest has 32 bytes.\<close>

definition sha256_laws :: "(u8 list \<Rightarrow> u8 list) \<Rightarrow> bool" where
  "sha256_laws sha256 \<longleftrightarrow> (\<forall>bytes. length (sha256 bytes) = 32)"

lemma journal_new_ok:
  assumes "journal_new sha256 js p objects = Inr j"
  shows "journal_wf js j" "ej_key j = journal_key sha256 p (map (manifest_object_of sha256) objects)"
    "er_objects (ej_open j) = map (manifest_object_of sha256) objects"
  using assms by (auto simp: journal_new_def Let_def journal_wf_def ej_closed_def split: sum.splits)

definition key_char :: "char \<Rightarrow> bool" where
  "key_char c \<longleftrightarrow> component_char c \<and> c \<noteq> CHR ''/'' \<and> c \<noteq> CHR ''.''"

lemma key_char_hex: "c \<in> set (hex_byte b) \<Longrightarrow> key_char c"
proof -
  have "list_all (\<lambda>n. key_char (hex_digit n)) [0 ..< 16]" by code_simp
  then have hex: "key_char (hex_digit n)" if "n < 16" for n using that by (simp add: list_all_iff)
  have "key_char (hex_digit (unat b div 16))" "key_char (hex_digit (unat b mod 16))"
    using unat_less_pow[of b] by (intro hex; simp add: less_mult_imp_div_less)+
  moreover assume "c \<in> set (hex_byte b)"
  ultimately show ?thesis by (auto simp: hex_byte_def)
qed

lemma hex_digest_chars:
  assumes "sha256_laws sha256"
  shows "length (hex_digest sha256 bs) = 64" "\<forall>c \<in> set (hex_digest sha256 bs). key_char c"
proof -
  have "length (concat (map hex_byte xs)) = 2 * length xs" for xs by (induction xs) (simp_all add: hex_byte_def)
  then show "length (hex_digest sha256 bs) = 64" using assms by (simp add: hex_digest_def sha256_laws_def)
  show "\<forall>c \<in> set (hex_digest sha256 bs). key_char c"
    using key_char_hex by (auto simp: hex_digest_def)
qed

lemma length_show_int: "0 \<le> n \<Longrightarrow> n < 10 ^ Suc k \<Longrightarrow> length (show_int n) \<le> Suc k"
proof (induction n arbitrary: k rule: show_int.induct)
  case (1 n)
  show ?case
  proof (cases "n < 10")
    case False
    then obtain k' where k: "k = Suc k'" using 1 by (cases k) auto
    have "length (show_int (n div 10)) \<le> Suc k'"
      by (rule 1(1)[OF False]) (use 1(2,3) k in auto)
    then show ?thesis using False k by (simp add: show_int.simps[of n])
  qed (simp add: show_int.simps[of n])
qed

lemma show_int_key_chars: "0 \<le> n \<Longrightarrow> \<forall>c \<in> set (show_int n). key_char c"
proof
  fix c assume "0 \<le> n" "c \<in> set (show_int n)"
  then have "is_ascii_digit c" by (rule show_int_digits)
  then have v: "48 \<le> (of_char c :: int)" "(of_char c :: int) \<le> 57"
    by (auto simp: is_ascii_digit_def digit_val_def Let_def split: if_splits)
  have "int (of_char c) = of_char c" by (rule of_nat_of_char)
  then have "48 \<le> (of_char c :: nat)" "(of_char c :: nat) \<le> 57" using v by linarith+
  moreover have "c \<noteq> CHR ''/''" "c \<noteq> CHR ''.''" using v by auto
  ultimately show "key_char c" by (simp add: key_char_def component_char_def Let_def)
qed

lemma i64_to_string_chars: "length (i64_to_string w) \<le> 20" "\<forall>c \<in> set (i64_to_string w). key_char c"
proof -
  have b: "- (2 ^ 63) \<le> sint w" "sint w < 2 ^ 63" using sint_range_size[of w] by (simp_all add: word_size)
  have "length (show_int n) \<le> 19" if "0 \<le> n" "n \<le> 2 ^ 63" for n
    using length_show_int[OF that(1), of 18] that(2) by simp
  from this[of "sint w"] this[of "- sint w"] show "length (i64_to_string w) \<le> 20"
    using b by (auto simp: i64_to_string_def)
  have "key_char CHR ''-''" by code_simp
  then show "\<forall>c \<in> set (i64_to_string w). key_char c"
    using show_int_key_chars[of "sint w"] show_int_key_chars[of "- sint w"] by (auto simp: i64_to_string_def)
qed

lemma journal_key_plain:
  assumes "sha256_laws sha256"
  shows "plain_key (journal_key sha256 p objects)"
proof -
  define n d where "n = i64_to_string p" and "d = hex_digest sha256 (concat (map (\<lambda>object. as_bytes (mo_key object) @ [0]) objects))"
  have c: "\<forall>c \<in> set n. key_char c" "\<forall>c \<in> set d. key_char c" "length n \<le> 20" "length d = 64"
    using i64_to_string_chars hex_digest_chars[OF assms] by (auto simp: n_def d_def)
  have "list_all key_char ''partition-''" "list_all key_char ''epoch-''" by code_simp+
  then have pre: "\<forall>c \<in> set ''partition-''. key_char c" "\<forall>c \<in> set ''epoch-''. key_char c" unfolding list_all_iff by blast+
  let ?parts = "[''s3'', ''partition-'' @ n, ''epoch-'' @ d]"
  have free: "\<forall>s \<in> set ?parts. CHR ''/'' \<notin> set s"
    using c(1,2) by (auto simp: key_char_def)
  have "journal_key sha256 p objects = join_with CHR ''/'' ?parts"
    by (simp add: journal_key_def n_def d_def)
  then have "split_on CHR ''/'' (journal_key sha256 p objects) = ?parts"
    using split_join[of ?parts "CHR ''/''"] free by simp
  moreover have "validate_component s = Inr () \<and> CHR ''.'' \<notin> set s" if "s \<in> set ?parts" for s
  proof -
    have "validate_component ''s3'' = Inr ()" by code_simp
    moreover have "validate_component (''partition-'' @ n) = Inr () \<and> CHR ''.'' \<notin> set (''partition-'' @ n)"
      "validate_component (''epoch-'' @ d) = Inr () \<and> CHR ''.'' \<notin> set (''epoch-'' @ d)"
      using c pre by (auto simp: validate_component_def list_all_iff key_char_def)
    ultimately show ?thesis using that by auto
  qed
  ultimately show ?thesis unfolding plain_key_def by simp
qed

subsection \<open>The protocol of one epoch\<close>

text \<open>
  A manifest is created open. It is only ever closed, with its objects unchanged and all of them durable:
  \<open>P\<close> says which objects are.
\<close>

definition journal_initial :: "epoch_record \<Rightarrow> bool" where
  "journal_initial a \<longleftrightarrow> er_version a = JOURNAL_VERSION \<and> er_state a = Epoch_open"

definition journal_closes :: "(manifest_object \<Rightarrow> bool) \<Rightarrow> epoch_record \<Rightarrow> epoch_record \<Rightarrow> bool" where
  "journal_closes P a b \<longleftrightarrow>
     er_state a = Epoch_open \<and> b = a\<lparr>er_state := Epoch_closed\<rparr> \<and> (\<forall>m \<in> set (er_objects a). P m)"

definition recorded :: "epoch_record json_codec \<Rightarrow> epoch_journal \<Rightarrow> u8 list list \<Rightarrow> bool" where
  "recorded js j h \<longleftrightarrow>
     (\<exists>p a. p \<in> set h \<and> js_from_slice js p = Inr a \<and> er_objects a = er_objects (ej_open j))"

definition closed_in :: "epoch_record json_codec \<Rightarrow> epoch_journal \<Rightarrow> u8 list list \<Rightarrow> bool" where
  "closed_in js j h \<longleftrightarrow> (\<exists>p \<in> set h. js_from_slice js p = Inr (ej_closed j))"

definition opened_ok ::
  "(manifest_object \<Rightarrow> bool) \<Rightarrow> epoch_record json_codec \<Rightarrow> epoch_journal \<Rightarrow> u8 list list \<Rightarrow>
   (journal_error, open_disposition) res \<Rightarrow> bool" where
  "opened_ok P js j h r =
     (case r of
        Inl e \<Rightarrow> e = Journal_mismatch (ej_key j) \<or> (\<exists>d. e = Journal_storage_failed d)
      | Inr Upload \<Rightarrow> recorded js j h
      | Inr AlreadyClosed \<Rightarrow> closed_in js j h \<and> (\<forall>m \<in> set (er_objects (ej_open j)). P m))"

definition marked_ok ::
  "epoch_record json_codec \<Rightarrow> epoch_journal \<Rightarrow> u8 list list \<Rightarrow> (journal_error, unit) res \<Rightarrow> bool" where
  "marked_ok js j h r = (case r of Inl e \<Rightarrow> (\<exists>d. e = Journal_storage_failed d) | Inr _ \<Rightarrow> closed_in js j h)"

lemma recorded_extends: "recorded js j h \<Longrightarrow> extends h h' \<Longrightarrow> recorded js j h'"
  by (auto simp: recorded_def extends_def)

lemma closed_in_extends: "closed_in js j h \<Longrightarrow> extends h h' \<Longrightarrow> closed_in js j h'"
  by (auto simp: closed_in_def extends_def)

lemma opened_ok_extends: "opened_ok P js j h r \<Longrightarrow> extends h h' \<Longrightarrow> opened_ok P js j h' r"
  by (auto simp: opened_ok_def intro: recorded_extends closed_in_extends split: sum.splits open_disposition.splits)

lemma marked_ok_extends: "marked_ok js j h r \<Longrightarrow> extends h h' \<Longrightarrow> marked_ok js j h' r"
  by (auto simp: marked_ok_def intro: closed_in_extends split: sum.splits)

text \<open>So a key has at most two revisions: the open manifest and the closed one.\<close>

lemma journal_history:
  assumes "chain (decodes js journal_initial) (decodes2 js (journal_closes P)) h" "h \<noteq> []"
  shows "\<exists>p a. js_from_slice js p = Inr a \<and> journal_initial a \<and>
    (h = [p] \<or> (\<exists>q. h = [p, q] \<and> js_from_slice js q = Inr (a\<lparr>er_state := Epoch_closed\<rparr>) \<and> (\<forall>m \<in> set (er_objects a). P m)))"
proof -
  have nxt: "decodes2 js (journal_closes P) (h ! i) (h ! Suc i)" if "Suc i < length h" for i
    using assms(1) that by (auto simp: chain_def)
  obtain p h1 where h: "h = p # h1" using assms(2) by (cases h) auto
  obtain a where a: "js_from_slice js p = Inr a" "journal_initial a"
    using assms h by (auto simp: chain_def decodes_def)
  show ?thesis
  proof (cases h1)
    case (Cons q h2)
    have q: "js_from_slice js q = Inr (a\<lparr>er_state := Epoch_closed\<rparr>)" "\<forall>m \<in> set (er_objects a). P m"
      using nxt[of 0] a(1) h Cons by (auto simp: decodes2_def journal_closes_def)
    have "h2 = []"
      using nxt[of 1] q(1) h Cons by (cases h2) (auto simp: decodes2_def journal_closes_def)
    then show ?thesis using a q h Cons by blast
  qed (use a h in blast)
qed

lemma hist_cell_last: "hist_cell h = Some v \<Longrightarrow> h \<noteq> [] \<and> dv_payload v = last h \<and> dv_revision v = of_nat (length h - 1)"
  by (auto simp: hist_cell_def split: if_splits)

text \<open>What reading the newest revision of a history says.\<close>

lemma journal_read:
  assumes "chain (decodes js journal_initial) (decodes2 js (journal_closes P)) h" "hist_cell h = Some v" "journal_wf js j"
  shows "(journal_decode_and_validate js j (dv_payload v) = Inl (Journal_mismatch (ej_key j)) \<and> \<not> recorded js j h) \<or>
    (journal_decode_and_validate js j (dv_payload v) = Inr (ej_open j) \<and> recorded js j h \<and> length h = 1) \<or>
    (journal_decode_and_validate js j (dv_payload v) = Inr (ej_closed j) \<and> recorded js j h \<and> closed_in js j h \<and>
       (\<forall>m \<in> set (er_objects (ej_open j)). P m))"
proof -
  have h: "h \<noteq> []" "dv_payload v = last h" using hist_cell_last[OF assms(2)] by auto
  obtain p a where a: "js_from_slice js p = Inr a" "journal_initial a"
    and o: "h = [p] \<or> (\<exists>q. h = [p, q] \<and> js_from_slice js q = Inr (a\<lparr>er_state := Epoch_closed\<rparr>) \<and> (\<forall>m \<in> set (er_objects a). P m))"
    using journal_history[OF assms(1) h(1)] by blast
  have eq: "a = ej_open j \<longleftrightarrow> er_objects a = er_objects (ej_open j)"
    using a(2) assms(3) by (auto simp: journal_initial_def journal_wf_def intro: epoch_record.equality)
  have rec: "recorded js j h \<longleftrightarrow> a = ej_open j" using o a(1) eq by (auto simp: recorded_def)
  from o show ?thesis
    using a h rec eq
    by (auto simp: journal_decode_and_validate_def journal_initial_def closed_in_def ej_closed_def)
qed

lemma ensure_open_loop_keeps:
  assumes js: "json_laws js" and wf: "journal_wf js j" and n: "1 \<le> n \<and> h \<noteq> [] \<or> 2 \<le> n"
  shows "keeps_among others (ej_key j) (decodes js journal_initial) (decodes2 js (journal_closes P)) (opened_ok P js j)
    (ensure_open_loop js j n) h"
  using n
proof (induction n arbitrary: h)
  case (Suc n)
  let ?keeps = "keeps_among others (ej_key j) (decodes js journal_initial) (decodes2 js (journal_closes P)) (opened_ok P js j)"
  have p: "js_from_slice js (ej_open_bytes j) = Inr (ej_open j)" "length (ej_open_bytes j) < 2 ^ 63"
    using wf json_lawsD[OF js] by (auto simp: journal_wf_def)
  then have i: "decodes js journal_initial (ej_open_bytes j)"
    using wf by (auto simp: decodes_def journal_initial_def journal_wf_def)
  have none: "?keeps (ensure_open_loop js j n) h'" if "h' \<noteq> []" "h = []" for h'
    using Suc that by auto
  have applied: "opened_ok P js j h' (Inr Upload)" if "hist_cell h' = Some v" "dv_payload v = ej_open_bytes j" for h' v
    using hist_cell_last[OF that(1)] that(2) p(1) by (auto simp: opened_ok_def recorded_def intro!: exI[of _ "last h'"])
  have failed: "opened_ok P js j h' (Inl (Journal_storage_failed e))" for h' e by (simp add: opened_ok_def)
  have ext: "h = []" if "extends h []" using that by (simp add: extends_def)
  have read: "opened_ok P js j h' (case journal_decode_and_validate js j (dv_payload v) of Inl e \<Rightarrow> Inl e
      | Inr record \<Rightarrow> Inr (case er_state record of Epoch_open \<Rightarrow> Upload | Epoch_closed \<Rightarrow> AlreadyClosed))"
    if "chain (decodes js journal_initial) (decodes2 js (journal_closes P)) h'" "hist_cell h' = Some v" for h' v
    using journal_read[OF that wf] wf by (auto simp: opened_ok_def journal_wf_def ej_closed_def)
  have decoded: "?keeps (case journal_decode_and_validate js j (dv_payload v) of Inl e \<Rightarrow> Return (Inl e)
      | Inr record \<Rightarrow> Return (Inr (case er_state record of Epoch_open \<Rightarrow> Upload | Epoch_closed \<Rightarrow> AlreadyClosed))) h'"
    if "chain (decodes js journal_initial) (decodes2 js (journal_closes P)) h'" "hist_cell h' = Some v" for h' v
    using read[OF that] by (auto split: sum.splits)
  show ?case
    using p(2) i none applied failed ext decoded by (auto split: option.splits)
qed simp

lemma mark_closed_loop_keeps:
  assumes js: "json_laws js" and wf: "journal_wf js j" and durable: "\<forall>m \<in> set (er_objects (ej_open j)). P m"
    and n: "1 \<le> n \<and> closed_in js j h \<or> 2 \<le> n \<and> recorded js j h"
  shows "keeps_among others (ej_key j) (decodes js journal_initial) (decodes2 js (journal_closes P)) (marked_ok js j)
    (mark_closed_loop js j n) h"
  using n
proof (induction n arbitrary: h)
  case (Suc n)
  let ?chain = "chain (decodes js journal_initial) (decodes2 js (journal_closes P))"
  let ?keeps = "keeps_among others (ej_key j) (decodes js journal_initial) (decodes2 js (journal_closes P)) (marked_ok js j)"
  have p: "js_from_slice js (ej_closed_bytes j) = Inr (ej_closed j)" "length (ej_closed_bytes j) < 2 ^ 63"
    using wf json_lawsD[OF js] by (auto simp: journal_wf_def)
  have states: "er_state (ej_open j) = Epoch_open" "er_state (ej_closed j) = Epoch_closed"
    using wf by (simp_all add: journal_wf_def ej_closed_def)
  have rec: "recorded js j h" using Suc.prems by (auto simp: closed_in_def recorded_def ej_closed_def)
  have failed: "marked_ok js j h' (Inl (Journal_storage_failed e))" for h' e by (simp add: marked_ok_def)
  have applied: "marked_ok js j h' (Inr ())" if "hist_cell h' = Some v" "dv_payload v = ej_closed_bytes j" for h' v
    using hist_cell_last[OF that(1)] that(2) p(1) by (auto simp: marked_ok_def closed_in_def intro!: bexI[of _ "last h'"])
  have close: "?keeps (Exchange (ej_key j) (Some (dv_revision v)) (ej_closed_bytes j) (\<lambda>r.
      case r of Inl e \<Rightarrow> Return (Inl (Journal_storage_failed e)) | Inr (Applied _) \<Rightarrow> Return (Inr ())
      | Inr (Conflict _) \<Rightarrow> mark_closed_loop js j n)) h'"
    if h': "extends h h'" "?chain h'" "hist_cell h' = Some v" "length h' = 1"
      "journal_decode_and_validate js j (dv_payload v) = Inr (ej_open j)" for h' v
  proof -
    have r: "at_revision h' (dv_revision v) (dv_payload v)" by (rule hist_cell_at_revision[OF h'(2,3)])
    have d: "js_from_slice js (dv_payload v) = Inr (ej_open j)"
      using h'(5) by (auto simp: journal_decode_and_validate_def split: sum.splits if_splits)
    have nxt: "decodes2 js (journal_closes P) (dv_payload v) (ej_closed_bytes j)"
      using d p(1) states durable by (auto simp: decodes2_def journal_closes_def ej_closed_def)
    obtain x where x: "h' = [x]" using h'(4) by (cases h') auto
    have conflict: "?keeps (mark_closed_loop js j n) h''"
      if h'': "extends h' h''" "?chain h''" "map_option dv_revision (hist_cell h'') \<noteq> Some (dv_revision v)" for h''
    proof -
      obtain t where t: "h'' = x # t" using h''(1) x by (auto simp: extends_def)
      have "t \<noteq> []" using h''(3) h'(3) t x by (auto simp: hist_cell_def)
      then obtain q where q: "h'' = [x, q]" "js_from_slice js q = Inr (ej_closed j)"
        using journal_history[OF h''(2)] t d h'(3) x by (auto simp: ej_closed_def hist_cell_def)
      then have "closed_in js j h''" by (simp add: closed_in_def)
      moreover have "1 \<le> n"
        using Suc.prems h'(1) x states d h'(3) by (auto simp: closed_in_def extends_def Cons_eq_append_conv hist_cell_def)
      ultimately show ?thesis by (intro Suc.IH) simp
    qed
    show ?thesis using p(2) r nxt conflict failed applied by auto
  qed
  have decoded: "?keeps (case journal_decode_and_validate js j (dv_payload v) of Inl e \<Rightarrow> Return (Inl e)
      | Inr record \<Rightarrow> if er_state record = Epoch_closed then Return (Inr ())
          else Exchange (ej_key j) (Some (dv_revision v)) (ej_closed_bytes j) (\<lambda>r.
            case r of Inl e \<Rightarrow> Return (Inl (Journal_storage_failed e)) | Inr (Applied _) \<Rightarrow> Return (Inr ())
            | Inr (Conflict _) \<Rightarrow> mark_closed_loop js j n)) h'"
    if h': "extends h h'" "?chain h'" "hist_cell h' = Some v" for h' v
    using journal_read[OF h'(2,3) wf] close[OF h'] recorded_extends[OF rec h'(1)] states
    by (auto simp: marked_ok_def simp del: keeps_among.simps(3))
  have "h' \<noteq> []" if "extends h h'" for h' using rec that by (auto simp: recorded_def extends_def)
  then show ?case using failed decoded by (auto simp del: keeps_among.simps(3) split: option.splits)
qed simp

lemma ensure_open_keeps:
  assumes "json_laws js" "journal_wf js j"
  shows "keeps_among others (ej_key j) (decodes js journal_initial) (decodes2 js (journal_closes P)) (opened_ok P js j)
    (ensure_open js j) h"
  unfolding ensure_open_def by (rule ensure_open_loop_keeps[OF assms]) simp

lemma mark_closed_keeps:
  assumes "json_laws js" "journal_wf js j" "\<forall>m \<in> set (er_objects (ej_open j)). P m" "recorded js j h"
  shows "keeps_among others (ej_key j) (decodes js journal_initial) (decodes2 js (journal_closes P)) (marked_ok js j)
    (mark_closed js j) h"
  unfolding mark_closed_def by (rule mark_closed_loop_keeps[where P = P, OF assms(1-3)]) (simp add: assms(4))

text \<open>The same, for a client that watches one key while it works on journals of any key.\<close>

lemma ensure_open_uses:
  assumes "json_laws js" "journal_wf js j"
  shows "uses (ej_key j) (ensure_open js j)"
proof -
  have "length (ej_open_bytes j) < 2 ^ 63" using json_lawsD[OF assms(1)] assms(2) by (auto simp: journal_wf_def)
  then have "uses (ej_key j) (ensure_open_loop js j n)" for n
    by (induction n) (auto split: sum.splits option.splits compare_exchange_result.splits)
  then show ?thesis by (simp add: ensure_open_def)
qed

lemma mark_closed_uses:
  assumes "json_laws js" "journal_wf js j"
  shows "uses (ej_key j) (mark_closed js j)"
proof -
  have "length (ej_closed_bytes j) < 2 ^ 63" using json_lawsD[OF assms(1)] assms(2) by (auto simp: journal_wf_def)
  then have "uses (ej_key j) (mark_closed_loop js j n)" for n
    by (induction n) (auto split: sum.splits option.splits compare_exchange_result.splits)
  then show ?thesis by (simp add: mark_closed_def)
qed

lemma ensure_open_keeps_any:
  assumes "json_laws js" "journal_wf js j" "others (ej_key j)" "chain (decodes js journal_initial) (decodes2 js (journal_closes P)) h"
  shows "keeps_among others key (decodes js journal_initial) (decodes2 js (journal_closes P))
    (\<lambda>h r. ej_key j = key \<longrightarrow> opened_ok P js j h r) (ensure_open js j) h"
proof (cases "ej_key j = key")
  case True
  then show ?thesis using ensure_open_keeps[OF assms(1,2), of others P h] by simp
next
  case False
  then show ?thesis
    using assms(3,4) by (intro keeps_uses[where k = "ej_key j"] ensure_open_uses[OF assms(1,2)]) simp_all
qed

lemma mark_closed_keeps_any:
  assumes "json_laws js" "journal_wf js j" "others (ej_key j)" "chain (decodes js journal_initial) (decodes2 js (journal_closes P)) h"
    and "\<forall>m \<in> set (er_objects (ej_open j)). P m" "ej_key j = key \<Longrightarrow> recorded js j h"
  shows "keeps_among others key (decodes js journal_initial) (decodes2 js (journal_closes P))
    (\<lambda>h r. ej_key j = key \<longrightarrow> marked_ok js j h r) (mark_closed js j) h"
proof (cases "ej_key j = key")
  case True
  then show ?thesis using mark_closed_keeps[OF assms(1,2,5) assms(6)[OF True], of others] by simp
next
  case False
  then show ?thesis
    using assms(3,4) by (intro keeps_uses[where k = "ej_key j"] mark_closed_uses[OF assms(1,2)]) simp_all
qed

text \<open>
  Any number of executions open the manifest of one key; an execution marks a manifest closed only after
  it opened it and the objects are durable.
\<close>

datatype journal_result =
    Opened epoch_journal "(journal_error, open_disposition) res"
  | Marked epoch_journal "(journal_error, unit) res"

definition journal_for ::
  "(u8 list \<Rightarrow> u8 list) \<Rightarrow> epoch_record json_codec \<Rightarrow> string \<Rightarrow> epoch_journal \<Rightarrow> bool" where
  "journal_for sha256 js key j \<longleftrightarrow> ej_key j = key \<and> (\<exists>p objects. journal_new sha256 js p objects = Inr j)"

definition epoch_calls ::
  "(u8 list \<Rightarrow> u8 list) \<Rightarrow> epoch_record json_codec \<Rightarrow> (manifest_object \<Rightarrow> bool) \<Rightarrow> string \<Rightarrow>
   journal_result option \<Rightarrow> journal_result option dprog set" where
  "epoch_calls sha256 js P key t =
     {dmap (\<lambda>r. Some (Opened j r)) (ensure_open js j) | j. journal_for sha256 js key j} \<union>
     {dmap (\<lambda>r. Some (Marked j r)) (mark_closed js j) | j.
        t = Some (Opened j (Inr Upload)) \<and> (\<forall>m \<in> set (er_objects (ej_open j)). P m)}"

definition journal_result_ok ::
  "(u8 list \<Rightarrow> u8 list) \<Rightarrow> epoch_record json_codec \<Rightarrow> (manifest_object \<Rightarrow> bool) \<Rightarrow> string \<Rightarrow> u8 list list \<Rightarrow>
   journal_result option \<Rightarrow> bool" where
  "journal_result_ok sha256 js P key h t =
     (case t of
        None \<Rightarrow> True
      | Some (Opened j r) \<Rightarrow> journal_for sha256 js key j \<and> opened_ok P js j h r
      | Some (Marked j r) \<Rightarrow> journal_for sha256 js key j \<and> marked_ok js j h r)"

definition lawful_digest :: "(u8 list \<Rightarrow> u8 list) \<Rightarrow> u8 list \<Rightarrow> u8 list" where
  "lawful_digest sha256 = (if sha256_laws sha256 then sha256 else (\<lambda>_. replicate 32 0))"

lemma lawful_digest_laws [simp]: "sha256_laws (lawful_digest sha256)"
  by (auto simp: lawful_digest_def sha256_laws_def)

lemma lawful_digest_id [simp]: "sha256_laws sha256 \<Longrightarrow> lawful_digest sha256 = sha256"
  by (simp add: lawful_digest_def)

lemma journal_for_wf: "journal_for sha256 js key j \<Longrightarrow> journal_wf js j \<and> ej_key j = key"
  using journal_new_ok(1) by (auto simp: journal_for_def)

interpretation s3_epoch: stored_protocol lf "lawful js" "journal_key (lawful_digest digest) p objects" journal_initial
  "journal_closes P" "journal_result_ok digest (lawful js) P (journal_key (lawful_digest digest) p objects)"
  "epoch_calls digest (lawful js) P (journal_key (lawful_digest digest) p objects)" "\<lambda>_. False"
  for lf js digest p objects P
proof
  let ?K = "journal_key (lawful_digest digest) p objects" and ?js = "lawful js"
  show "plain_key ?K" by (rule journal_key_plain) simp
  show "journal_result_ok digest ?js P ?K h None" for h by (simp add: journal_result_ok_def)
next
  let ?K = "journal_key (lawful_digest digest) p objects" and ?js = "lawful js"
  fix h t c
  assume t: "journal_result_ok digest ?js P ?K h t" "chain (decodes ?js journal_initial) (decodes2 ?js (journal_closes P)) h"
    and c: "c \<in> epoch_calls digest ?js P ?K t"
  have "keeps ?K (decodes ?js journal_initial) (decodes2 ?js (journal_closes P))
      (\<lambda>h r. journal_result_ok digest ?js P ?K h (Some (Opened j r))) (ensure_open ?js j) h"
    if "journal_for digest ?js ?K j" for j
    using that ensure_open_keeps[of ?js j "\<lambda>_. False" P h] journal_for_wf[OF that] by (simp add: journal_result_ok_def)
  moreover have "keeps ?K (decodes ?js journal_initial) (decodes2 ?js (journal_closes P))
      (\<lambda>h r. journal_result_ok digest ?js P ?K h (Some (Marked j r))) (mark_closed ?js j) h"
    if "t = Some (Opened j (Inr Upload))" "\<forall>m \<in> set (er_objects (ej_open j)). P m" for j
  proof -
    have j: "journal_for digest ?js ?K j" "recorded ?js j h"
      using t(1) that(1) by (auto simp: journal_result_ok_def opened_ok_def)
    then show ?thesis
      using mark_closed_keeps[of ?js j P h "\<lambda>_. False"] journal_for_wf[OF j(1)] that(2)
      by (simp add: journal_result_ok_def)
  qed
  ultimately show "keeps ?K (decodes ?js journal_initial) (decodes2 ?js (journal_closes P))
      (journal_result_ok digest ?js P ?K) c h"
    using c by (auto simp: epoch_calls_def keeps_dmap)
next
  fix h t h'
  assume "journal_result_ok digest (lawful js) P (journal_key (lawful_digest digest) p objects) h t" "extends h h'"
  then show "journal_result_ok digest (lawful js) P (journal_key (lawful_digest digest) p objects) h' t"
    by (auto simp: journal_result_ok_def intro: opened_ok_extends marked_ok_extends split: option.splits journal_result.splits)
qed simp

lemma recorded_last:
  assumes "chain (decodes js journal_initial) (decodes2 js (journal_closes P)) h" "recorded js j h"
  shows "h \<noteq> [] \<and> (\<exists>b. js_from_slice js (last h) = Inr b \<and> er_objects b = er_objects (ej_open j))"
proof -
  have "h \<noteq> []" using assms(2) by (auto simp: recorded_def)
  then show ?thesis using journal_history[OF assms(1)] assms(2) by (fastforce simp: recorded_def)
qed

lemma closed_in_last:
  assumes "chain (decodes js journal_initial) (decodes2 js (journal_closes P)) h" "closed_in js j h"
  shows "h \<noteq> [] \<and> js_from_slice js (last h) = Inr (ej_closed j)"
proof -
  have "h \<noteq> []" using assms(2) by (auto simp: closed_in_def)
  then show ?thesis
    using journal_history[OF assms(1)] assms(2) by (fastforce simp: closed_in_def journal_initial_def ej_closed_def)
qed

lemma journal_closes_path:
  "(journal_closes P)\<^sup>*\<^sup>* a b \<Longrightarrow> er_objects b = er_objects a \<and> (er_state a = Epoch_closed \<longrightarrow> b = a)"
proof (induction rule: rtranclp_induct)
  case (step y z)
  then show ?case by (cases "er_state a") (auto simp: journal_closes_def)
qed simp

subsection \<open>Properties\<close>

text \<open>
  C40 (an epoch manifest is final and tells the truth). Let any number of executions open and close
  the manifest of one key, interleaved at every storage call, with faults, crashes and restarts. The objects of a
  stored manifest never change and a closed manifest stays. An execution that is told to upload has its own objects recorded;
  one that is told that the epoch is closed has all its objects durable under exactly the keys and digests it would
  upload. Closing fails only when the storage fails: neither operation ever gives up because of concurrent changes.
\<close>

theorem s3_journal_safe:
  assumes "json_laws js" and "sha256_laws sha256" and "key = journal_key sha256 p objects"
    and "local_inv lf st0" and "local_cell lf st0 key = None"
    and "dsys_reach (local_file_storage lf) (epoch_calls sha256 js durable key) st0 s"
    and "(dsys_step (local_file_storage lf) (epoch_calls sha256 js durable key))\<^sup>*\<^sup>* s s'"
  shows "(\<forall>a. stored lf js key (fst s) = Some a \<longrightarrow>
      (\<exists>b. stored lf js key (fst s') = Some b \<and> er_objects b = er_objects a \<and> (er_state a = Epoch_closed \<longrightarrow> b = a))) \<and>
    (\<forall>i j r. snd s i = Idle (Some (Opened j r)) \<longrightarrow>
      (case r of
         Inl e \<Rightarrow> e = Journal_mismatch key \<or> (\<exists>d. e = Journal_storage_failed d)
       | Inr Upload \<Rightarrow> (\<exists>b. stored lf js key (fst s) = Some b \<and> er_objects b = er_objects (ej_open j))
       | Inr AlreadyClosed \<Rightarrow>
           stored lf js key (fst s) = Some (ej_closed j) \<and> (\<forall>m \<in> set (er_objects (ej_open j)). durable m))) \<and>
    (\<forall>i j r. snd s i = Idle (Some (Marked j r)) \<longrightarrow>
      (case r of Inl e \<Rightarrow> (\<exists>d. e = Journal_storage_failed d) | Inr _ \<Rightarrow> stored lf js key (fst s) = Some (ej_closed j)))"
proof (intro conjI allI impI)
  fix a assume "stored lf js key (fst s) = Some a"
  then obtain b where "stored lf js key (fst s') = Some b" "(journal_closes durable)\<^sup>*\<^sup>* a b"
    using s3_epoch.reach_path_stored[where lf = lf and js = js and digest = sha256 and p = p and objects = objects
        and P = durable and s = s and s' = s' and a = a] assms by auto
  then show "\<exists>b. stored lf js key (fst s') = Some b \<and> er_objects b = er_objects a \<and> (er_state a = Epoch_closed \<longrightarrow> b = a)"
    using journal_closes_path by blast
next
  note idle = s3_epoch.reach_idle[where lf = lf and js = js and digest = sha256 and p = p and objects = objects
      and P = durable and s = s]
  {
    fix i j r assume "snd s i = Idle (Some (Opened j r))"
    then obtain h where h: "chain (decodes js journal_initial) (decodes2 js (journal_closes durable)) h"
      "local_cell lf (fst s) key = hist_cell h" "ej_key j = key" "opened_ok durable js j h r"
      using idle[of st0 i] assms by (auto simp: journal_result_ok_def journal_for_def)
    have cell: "stored lf js key (fst s) = Some b" if "js_from_slice js (last h) = Inr b" "h \<noteq> []" for b
      using h(2) that by (simp add: stored_Some hist_cell_def)
    show "case r of
         Inl e \<Rightarrow> e = Journal_mismatch key \<or> (\<exists>d. e = Journal_storage_failed d)
       | Inr Upload \<Rightarrow> (\<exists>b. stored lf js key (fst s) = Some b \<and> er_objects b = er_objects (ej_open j))
       | Inr AlreadyClosed \<Rightarrow>
           stored lf js key (fst s) = Some (ej_closed j) \<and> (\<forall>m \<in> set (er_objects (ej_open j)). durable m)"
      using h(3,4) cell recorded_last[OF h(1), of j] closed_in_last[OF h(1), of j]
      by (auto simp: opened_ok_def split: sum.splits open_disposition.splits)
  next
    fix i j r assume "snd s i = Idle (Some (Marked j r))"
    then obtain h where h: "chain (decodes js journal_initial) (decodes2 js (journal_closes durable)) h"
      "local_cell lf (fst s) key = hist_cell h" "marked_ok js j h r"
      using idle[of st0 i] assms by (auto simp: journal_result_ok_def)
    have cell: "stored lf js key (fst s) = Some b" if "js_from_slice js (last h) = Inr b" "h \<noteq> []" for b
      using h(2) that by (simp add: stored_Some hist_cell_def)
    show "case r of Inl e \<Rightarrow> (\<exists>d. e = Journal_storage_failed d) | Inr _ \<Rightarrow> stored lf js key (fst s) = Some (ej_closed j)"
      using h(3) cell closed_in_last[OF h(1), of j]
      by (auto simp: marked_ok_def split: sum.splits)
  }
qed

text \<open>An execution that opens an epoch of one object and closes it.\<close>

definition example_digest :: "u8 list \<Rightarrow> u8 list" where
  "example_digest bytes = replicate 32 (of_nat (length bytes))"

definition example_epoch_objects :: "manifest_object list" where
  "example_epoch_objects =
     map (manifest_object_of example_digest)
       [\<lparr>co_epoch_id = 0, co_key = ''t/p/topic+1+7.json'', co_payload = [1, 2], co_rows = 2\<rparr>]"

definition example_epoch_record :: "epoch_state \<Rightarrow> epoch_record" where
  "example_epoch_record state =
     \<lparr>er_version = JOURNAL_VERSION, er_state = state, er_objects = example_epoch_objects\<rparr>"

definition example_journal_json :: "epoch_record json_codec" where
  "example_journal_json = list_json [example_epoch_record Epoch_open, example_epoch_record Epoch_closed]"

definition example_journal :: epoch_journal where
  "example_journal =
     \<lparr>ej_key = journal_key example_digest 1 example_epoch_objects, ej_open = example_epoch_record Epoch_open,
      ej_open_bytes = [], ej_closed_bytes = [1]\<rparr>"

definition example_epoch_call :: "nat \<Rightarrow> journal_result option \<Rightarrow> journal_result option dprog" where
  "example_epoch_call n t =
     (if t = Some (Opened example_journal (Inr Upload))
      then dmap (\<lambda>r. Some (Marked example_journal r)) (mark_closed example_journal_json example_journal)
      else dmap (\<lambda>r. Some (Opened example_journal r)) (ensure_open example_journal_json example_journal))"

lemma example_journal_for: "journal_for example_digest example_journal_json (ej_key example_journal) example_journal"
proof -
  have "journal_new example_digest example_journal_json 1
      [\<lparr>co_epoch_id = 0, co_key = ''t/p/topic+1+7.json'', co_payload = [1, 2], co_rows = 2\<rparr>] = Inr example_journal"
    by code_simp
  then show ?thesis unfolding journal_for_def by blast
qed

lemma example_epoch_call:
  "\<forall>n t. example_epoch_call n t \<in> epoch_calls example_digest example_journal_json (\<lambda>_. True) (ej_key example_journal) t"
  using example_journal_for by (auto simp: example_epoch_call_def epoch_calls_def)

theorem s3_journal_safe_witness:
  "stored example_lf example_journal_json (ej_key example_journal)
     (fst (solo_run (local_file_storage example_lf) example_epoch_call example_durable 2)) = Some (ej_closed example_journal)"
proof -
  have js: "json_laws example_journal_json"
    unfolding example_journal_json_def by (rule list_json_laws) simp
  have digest: "sha256_laws example_digest" by (simp add: sha256_laws_def example_digest_def)
  have key: "ej_key example_journal = journal_key example_digest 1 example_epoch_objects" by (simp add: example_journal_def)
  have i: "local_inv example_lf example_durable" "local_cell example_lf example_durable (ej_key example_journal) = None"
    by (simp_all add: empty_local_inv local_cell_def example_durable_def)
  have r: "snd (solo_run (local_file_storage example_lf) example_epoch_call example_durable 2) = Some (Marked example_journal (Inr ()))"
    by code_simp
  show ?thesis
    using s3_journal_safe[OF js digest key i solo_reach[OF example_epoch_call, of _ _ 2] rtranclp.rtrancl_refl] r
    by (auto simp: solo_state_def dest!: spec[of _ 0])
qed

end
