(* ===== verification/S3_Sink.thy ===== *)
theory S3_Sink
  imports Delivery_Tracker Retry S3_Journal
begin

section \<open>Buffers, epochs and uploads of the S3 sink\<close>

text \<open>
  The operations of \<^verbatim>\<open>transferia-connector-s3/src/connectors/s3/sink/actor.rs\<close> and \<^verbatim>\<open>object_key.rs\<close>. The sink puts
  the rows of deliveries into object buffers, one per table and partition path. The buffers of an epoch are closed together:
  they become objects, their manifest is opened in the epoch journal and the objects are uploaded. When all objects
  of an epoch are durable the journal is closed, and the rows of the epoch are completed in the
  delivery tracker. An epoch whose manifest is already closed is completed without an upload.

  An output batch is given by what the sink computes from it: its projected encoder, its routes and
  the bound on its routing strings. The path parser of \<^verbatim>\<open>object_store\<close>, the unstable sort, SHA-256 and the
  JSON codec are parameters (\<open>s3_libs\<close>). Memory reservations are their sizes. \<open>placed_row\<close> is what a theorem
  says about a row: the epoch it was put in and the bytes that were written for it.
\<close>

subsection \<open>Data\<close>

record row_route =
  rr_partition_path :: string
  rr_topic :: string
  rr_partition :: i64
  rr_offset :: i64
  rr_message_index :: u64
  rr_record_time_ms :: "i64 option"

type_synonym buffer_key = "string \<times> string"

record object_buffer =
  ob_topic :: string
  ob_source_partition :: i64
  ob_start_offset :: i64
  ob_rows :: usize
  ob_payload :: "u8 list"

record epoch =
  ep_buffers :: "(buffer_key, object_buffer) btree"
  ep_delivery_rows :: "(delivery_id \<times> usize) list"
  ep_reservations :: "usize list"
  ep_retained_bytes :: usize
  ep_record_time_base_ms :: "i64 option"
  ep_last_main_partition :: "string option"
  ep_first_seen :: "nat option"

definition epoch_default :: epoch where
  "epoch_default =
     \<lparr>ep_buffers = bt_empty, ep_delivery_rows = [], ep_reservations = [], ep_retained_bytes = 0,
      ep_record_time_base_ms = None, ep_last_main_partition = None, ep_first_seen = None\<rparr>"

record closed_epoch =
  ce_remaining_objects :: usize
  ce_delivery_rows :: "(delivery_id \<times> usize) list"
  ce_reservations :: "usize list"
  ce_journal :: epoch_journal
  ce_journal_closed :: bool

record routed_row =
  rw_output_index :: nat
  rw_row_index :: nat
  rw_table :: string
  rw_is_dlq :: bool
  rw_route :: row_route

type_synonym json_batch_encoder = "nat \<Rightarrow> (string, u8 list) res"

record pending_delivery =
  pd_delivery_id :: delivery_id
  pd_rows :: "routed_row list"
  pd_encoders :: "json_batch_encoder list"
  pd_next_row :: nat
  pd_input_reservations :: "usize list"
  pd_route_reservations :: "usize list"

record s3_output =
  so_table :: string
  so_is_dlq :: bool
  so_rows :: usize
  so_memory :: usize
  so_encoder :: "(string, json_batch_encoder) res"
  so_routes :: "(string, row_route list) res"
  so_route_strings_bound :: "(string, usize) res"

record s3_delivery =
  sd_id :: delivery_id
  sd_outputs :: "s3_output list"
  sd_source_messages :: u64

record placed_row =
  pr_epoch :: u64
  pr_delivery :: delivery_id
  pr_row :: routed_row
  pr_bytes :: "u8 list"

datatype partition_path_change = Rotate | KeepEpoch

record rotation_config =
  rot_max_rows :: usize
  rot_max_bytes :: usize
  rot_record_time_interval :: "duration option"
  rot_wall_clock_interval :: "duration option"
  rot_on_partition_path_change :: partition_path_change

record buffering_config =
  buf_max_epoch_buffers :: usize
  buf_max_pending_upload_objects :: usize
  buf_max_buffered_bytes :: usize
  buf_max_epoch_bytes :: "usize option"

record s3_actor_config =
  ac_prefix :: string
  ac_rotation :: rotation_config
  ac_buffering :: buffering_config
  ac_max_in_flight_objects :: usize

record s3_sink =
  sk_config :: s3_actor_config
  sk_keep_system_columns :: bool
  sk_expected_partition_id :: i64
  sk_discovery_keeps_system_columns :: bool
  sk_epoch :: epoch
  sk_ready :: "closed_object list"
  sk_closed_epochs :: "(u64, closed_epoch) btree"
  sk_next_epoch_id :: u64
  sk_progress :: delivery_tracker
  sk_buffered_bytes :: usize
  sk_epoch_byte_limit :: usize
  sk_in_flight_objects :: usize
  sk_memory_barrier_epoch :: "u64 option"

record s3_libs =
  sl_sha256 :: "u8 list \<Rightarrow> u8 list"
  sl_json :: "epoch_record json_codec"
  sl_path_part :: "string \<Rightarrow> (string, unit) res"
  sl_path :: "string \<Rightarrow> (string, string) res"
  sl_sort :: "routed_row list \<Rightarrow> routed_row list"

datatype object_key_error =
    Component_empty string
  | Component_invalid string string string
  | Object_key_too_long nat
  | Object_key_invalid string string
  | Object_key_not_normalized

datatype s3_error =
    Partition_mismatch i64 i64
  | Projection_mismatch
  | Output_rejected string
  | Routing_failed string
  | Accept_failed tracker_error
  | Row_encoding_failed string
  | Object_key_failed object_key_error
  | Manifest_failed journal_error
  | Journal_failed string journal_error
  | Upload_failed string
  | Upload_task_failed
  | Event_receiver_closed
  | Encoder_index_out_of_range
  | Complete_failed tracker_error
  | Replayed_bytes_underflow
  | In_flight_underflow
  | Bytes_underflow
  | Missing_epoch_progress u64
  | Epoch_progress_underflow
  | Completed_epoch_disappeared u64
  | Closing_epoch_disappeared u64
  | Stopped_with_incomplete_progress

definition default_max_epoch_bytes :: usize where
  "default_max_epoch_bytes = 128 * 1024 * 1024"

definition s3_sink_new :: "s3_actor_config \<Rightarrow> bool \<Rightarrow> i64 \<Rightarrow> bool \<Rightarrow> s3_sink" where
  "s3_sink_new config keep_system_columns expected_partition_id discovery_keeps =
     \<lparr>sk_config = config, sk_keep_system_columns = keep_system_columns,
      sk_expected_partition_id = expected_partition_id, sk_discovery_keeps_system_columns = discovery_keeps,
      sk_epoch = epoch_default, sk_ready = [], sk_closed_epochs = bt_empty, sk_next_epoch_id = 0,
      sk_progress = tracker_new, sk_buffered_bytes = 0,
      sk_epoch_byte_limit =
        (case buf_max_epoch_bytes (ac_buffering config) of None \<Rightarrow> default_max_epoch_bytes | Some n \<Rightarrow> n),
      sk_in_flight_objects = 0, sk_memory_barrier_epoch = None\<rparr>"

subsection \<open>Object keys\<close>

definition MAX_OBJECT_KEY_BYTES :: nat where
  "MAX_OBJECT_KEY_BYTES = 1024"

definition validate_path_component :: "s3_libs \<Rightarrow> string \<Rightarrow> string \<Rightarrow> (object_key_error, unit) res" where
  "validate_path_component libs label component =
     (if component = [] then Inl (Component_empty label)
      else case sl_path_part libs component of
             Inl e \<Rightarrow> Inl (Component_invalid label component e) | Inr _ \<Rightarrow> Inr ())"

definition object_key_parse :: "s3_libs \<Rightarrow> string \<Rightarrow> (object_key_error, string) res" where
  "object_key_parse libs key =
     (if MAX_OBJECT_KEY_BYTES < length key then Inl (Object_key_too_long (length key))
      else case sl_path libs key of
             Inl e \<Rightarrow> Inl (Object_key_invalid key e)
           | Inr parsed \<Rightarrow> if parsed \<noteq> key then Inl Object_key_not_normalized else Inr key)"

definition for_json_object ::
  "s3_libs \<Rightarrow> string \<Rightarrow> string \<Rightarrow> string \<Rightarrow> string \<Rightarrow> i64 \<Rightarrow> i64 \<Rightarrow> (object_key_error, string) res" where
  "for_json_object libs prefix table partition_path topic source_partition start_offset =
     res_bind (validate_path_component libs ''source topic'' topic) (\<lambda>_.
       let filename = topic @ ''+'' @ i64_to_string source_partition @ ''+'' @ i64_to_string start_offset @ ''.json'';
           key = (if prefix = [] then table @ ''/'' @ partition_path @ ''/'' @ filename
                  else prefix @ ''/'' @ table @ ''/'' @ partition_path @ ''/'' @ filename)
       in object_key_parse libs key)"

subsection \<open>Preparing a delivery\<close>

definition ROUTE_RETAINED_OVERHEAD_BYTES :: usize where
  "ROUTE_RETAINED_OVERHEAD_BYTES = 128"

definition routed_row_retained_bytes :: "routed_row \<Rightarrow> usize \<Rightarrow> usize" where
  "routed_row_retained_bytes row serialized_bytes =
     saturating_add (saturating_add (saturating_add
       (saturating_add serialized_bytes ROUTE_RETAINED_OVERHEAD_BYTES)
       (of_nat (length (rw_table row))))
       (of_nat (length (rr_topic (rw_route row)))))
       (of_nat (length (rr_partition_path (rw_route row))))"

definition routed_row_key :: "routed_row \<Rightarrow> string \<times> int \<times> int \<times> u64 \<times> bool" where
  "routed_row_key row =
     (rr_topic (rw_route row), sint (rr_partition (rw_route row)), sint (rr_offset (rw_route row)),
      rr_message_index (rw_route row), rw_is_dlq row)"

fun route_rows ::
  "i64 \<Rightarrow> nat \<Rightarrow> s3_output \<Rightarrow> nat \<Rightarrow> row_route list \<Rightarrow> (s3_error, routed_row list) res" where
  "route_rows expected output_index output row_index [] = Inr []"
| "route_rows expected output_index output row_index (route # routes) =
     (if rr_partition route \<noteq> expected then Inl (Partition_mismatch expected (rr_partition route))
      else res_bind (route_rows expected output_index output (Suc row_index) routes) (\<lambda>rows.
        Inr (\<lparr>rw_output_index = output_index, rw_row_index = row_index, rw_table = so_table output,
              rw_is_dlq = so_is_dlq output, rw_route = route\<rparr> # rows)))"

fun route_outputs :: "i64 \<Rightarrow> nat \<Rightarrow> s3_output list \<Rightarrow> (s3_error, routed_row list) res" where
  "route_outputs expected output_index [] = Inr []"
| "route_outputs expected output_index (output # outputs) =
     (case so_routes output of
        Inl e \<Rightarrow> Inl (Routing_failed e)
      | Inr routes \<Rightarrow>
          res_bind (route_rows expected output_index output 0 routes) (\<lambda>rows.
            res_bind (route_outputs expected (Suc output_index) outputs) (\<lambda>others. Inr (rows @ others))))"

definition route_delivery :: "s3_libs \<Rightarrow> i64 \<Rightarrow> s3_delivery \<Rightarrow> (s3_error, routed_row list) res" where
  "route_delivery libs expected delivery =
     res_bind (route_outputs expected 0 (sd_outputs delivery)) (\<lambda>rows.
       Inr (if successively (\<lambda>left right. routed_row_key left \<le> routed_row_key right) rows then rows
            else sl_sort libs rows))"

fun delivery_encoders :: "s3_output list \<Rightarrow> (s3_error, json_batch_encoder list) res" where
  "delivery_encoders [] = Inr []"
| "delivery_encoders (output # outputs) =
     (case so_encoder output of
        Inl e \<Rightarrow> Inl (Output_rejected e)
      | Inr encoder \<Rightarrow> res_bind (delivery_encoders outputs) (\<lambda>encoders. Inr (encoder # encoders)))"

fun route_bound :: "usize \<Rightarrow> s3_output list \<Rightarrow> (s3_error, usize) res" where
  "route_bound bytes [] = Inr bytes"
| "route_bound bytes (output # outputs) =
     (case so_route_strings_bound output of
        Inl e \<Rightarrow> Inl (Routing_failed e)
      | Inr strings \<Rightarrow>
          route_bound
            (saturating_add
               (saturating_add bytes
                  (saturating_mul (so_rows output)
                     (saturating_add ROUTE_RETAINED_OVERHEAD_BYTES (of_nat (length (so_table output))))))
               strings)
            outputs)"

definition route_reservations :: "usize \<Rightarrow> usize \<Rightarrow> usize list" where
  "route_reservations bound bytes =
     (if bound = 0 then [] else if bytes \<le> bound then [bytes] else [bound, bytes - bound])"

definition prepare_delivery ::
  "s3_libs \<Rightarrow> s3_delivery \<Rightarrow> s3_sink \<Rightarrow> (s3_error, s3_sink \<times> pending_delivery) res" where
  "prepare_delivery libs delivery s =
     (if sk_keep_system_columns s \<noteq> sk_discovery_keeps_system_columns s then Inl Projection_mismatch
      else
        res_bind (delivery_encoders (sd_outputs delivery)) (\<lambda>encoders.
        res_bind (route_bound 0 (sd_outputs delivery)) (\<lambda>bound.
        res_bind (route_delivery libs (sk_expected_partition_id s) delivery) (\<lambda>rows.
          let bytes = fold (\<lambda>row bytes. saturating_add bytes (routed_row_retained_bytes row 0)) rows 0
          in case accept (sd_id delivery) (of_nat (length rows)) (sd_source_messages delivery) (sk_progress s) of
               Inl e \<Rightarrow> Inl (Accept_failed e)
             | Inr progress \<Rightarrow>
                 Inr (s\<lparr>sk_progress := progress\<rparr>,
                      \<lparr>pd_delivery_id = sd_id delivery, pd_rows = rows, pd_encoders = encoders, pd_next_row = 0,
                       pd_input_reservations = map so_memory (sd_outputs delivery),
                       pd_route_reservations = route_reservations bound bytes\<rparr>)))))"

subsection \<open>Completing objects and epochs\<close>

fun complete_rows ::
  "(delivery_id \<times> usize) list \<Rightarrow> delivery_tracker \<Rightarrow> (tracker_error, delivery_tracker) res" where
  "complete_rows [] progress = Inr progress"
| "complete_rows ((delivery_id, rows) # others) progress =
     res_bind (complete delivery_id rows progress) (complete_rows others)"

definition finalize_epoch :: "u64 \<Rightarrow> s3_sink \<Rightarrow> (s3_error, s3_sink) res" where
  "finalize_epoch epoch_id s =
     (case bt_get (sk_closed_epochs s) epoch_id of
        None \<Rightarrow> Inl (Completed_epoch_disappeared epoch_id)
      | Some epoch \<Rightarrow>
          (case complete_rows (ce_delivery_rows epoch) (sk_progress s) of
             Inl e \<Rightarrow> Inl (Complete_failed e)
           | Inr progress \<Rightarrow>
               Inr (s\<lparr>sk_closed_epochs := bt_remove epoch_id (sk_closed_epochs s), sk_progress := progress\<rparr>)))"

definition complete_durable_object :: "closed_object \<Rightarrow> s3_sink \<Rightarrow> (s3_error, s3_sink) res" where
  "complete_durable_object object s =
     (case bt_get (sk_closed_epochs s) (co_epoch_id object) of
        None \<Rightarrow> Inl (Missing_epoch_progress (co_epoch_id object))
      | Some epoch \<Rightarrow>
          (case checked_sub (ce_remaining_objects epoch) 1 of
             None \<Rightarrow> Inl Epoch_progress_underflow
           | Some left \<Rightarrow>
               let s = s\<lparr>sk_closed_epochs :=
                           bt_insert (co_epoch_id object) (epoch\<lparr>ce_remaining_objects := left\<rparr>) (sk_closed_epochs s)\<rparr>
               in if left = 0 \<and> ce_journal_closed epoch then finalize_epoch (co_epoch_id object) s else Inr s))"

definition complete_upload :: "closed_object \<Rightarrow> (string, unit) res \<Rightarrow> s3_sink \<Rightarrow> (s3_error, s3_sink) res" where
  "complete_upload object result s =
     (case checked_sub (sk_in_flight_objects s) 1 of
        None \<Rightarrow> Inl In_flight_underflow
      | Some in_flight \<Rightarrow>
          (case result of
             Inl e \<Rightarrow> Inl (Upload_failed e)
           | Inr _ \<Rightarrow>
               (case checked_sub (sk_buffered_bytes s) (of_nat (length (co_payload object))) of
                  None \<Rightarrow> Inl Bytes_underflow
                | Some buffered \<Rightarrow>
                    complete_durable_object object
                      (s\<lparr>sk_in_flight_objects := in_flight, sk_buffered_bytes := buffered\<rparr>))))"

fun complete_replayed :: "closed_object list \<Rightarrow> s3_sink \<Rightarrow> (s3_error, s3_sink) res" where
  "complete_replayed [] s = Inr s"
| "complete_replayed (object # objects) s =
     (case checked_sub (sk_buffered_bytes s) (of_nat (length (co_payload object))) of
        None \<Rightarrow> Inl Replayed_bytes_underflow
      | Some buffered \<Rightarrow>
          res_bind (complete_durable_object object (s\<lparr>sk_buffered_bytes := buffered\<rparr>)) (complete_replayed objects))"

definition close_completed_epoch_journal ::
  "s3_libs \<Rightarrow> s3_sink \<Rightarrow> (s3_error, s3_sink \<times> bool) res dprog" where
  "close_completed_epoch_journal libs s =
     (case find (\<lambda>(_, epoch). ce_remaining_objects epoch = 0 \<and> \<not> ce_journal_closed epoch) (sk_closed_epochs s) of
        None \<Rightarrow> Return (Inr (s, False))
      | Some (epoch_id, epoch) \<Rightarrow>
          dmap (\<lambda>r.
            case r of
              Inl e \<Rightarrow> Inl (Journal_failed (ej_key (ce_journal epoch)) e)
            | Inr _ \<Rightarrow>
                (case bt_get (sk_closed_epochs s) epoch_id of
                   None \<Rightarrow> Inl (Closing_epoch_disappeared epoch_id)
                 | Some epoch \<Rightarrow>
                     res_bind
                       (finalize_epoch epoch_id
                         (s\<lparr>sk_closed_epochs :=
                              bt_insert epoch_id (epoch\<lparr>ce_journal_closed := True\<rparr>) (sk_closed_epochs s)\<rparr>))
                       (\<lambda>s. Inr (s, True))))
            (mark_closed (sl_json libs) (ce_journal epoch)))"

subsection \<open>Closing an epoch\<close>

fun close_objects ::
  "s3_libs \<Rightarrow> string \<Rightarrow> u64 \<Rightarrow> (buffer_key, object_buffer) btree \<Rightarrow> (object_key_error, closed_object list) res" where
  "close_objects libs prefix epoch_id [] = Inr []"
| "close_objects libs prefix epoch_id (((table, partition_path), buffer) # buffers) =
     res_bind
       (for_json_object libs prefix table partition_path (ob_topic buffer) (ob_source_partition buffer)
          (ob_start_offset buffer)) (\<lambda>key.
     res_bind (close_objects libs prefix epoch_id buffers) (\<lambda>objects.
       Inr (\<lparr>co_epoch_id = epoch_id, co_key = key, co_payload = ob_payload buffer, co_rows = ob_rows buffer\<rparr> # objects)))"

definition install_epoch ::
  "u64 \<Rightarrow> epoch \<Rightarrow> closed_object list \<Rightarrow> epoch_journal \<Rightarrow> open_disposition \<Rightarrow> s3_sink \<Rightarrow> (s3_error, s3_sink) res" where
  "install_epoch epoch_id epoch objects journal disposition s =
     (let s = s\<lparr>sk_closed_epochs :=
                  bt_insert epoch_id
                    \<lparr>ce_remaining_objects = of_nat (length (ep_buffers epoch)), ce_delivery_rows = ep_delivery_rows epoch,
                     ce_reservations = ep_reservations epoch, ce_journal = journal,
                     ce_journal_closed = (disposition = AlreadyClosed)\<rparr>
                    (sk_closed_epochs s)\<rparr>
      in case disposition of
           Upload \<Rightarrow> Inr (s\<lparr>sk_ready := sk_ready s @ objects\<rparr>)
         | AlreadyClosed \<Rightarrow> complete_replayed objects s)"

definition close_epoch :: "s3_libs \<Rightarrow> s3_sink \<Rightarrow> (s3_error, s3_sink) res dprog" where
  "close_epoch libs s =
     (if ep_buffers (sk_epoch s) = [] then Return (Inr s)
      else
        let epoch = sk_epoch s;
            epoch_id = sk_next_epoch_id s;
            s = s\<lparr>sk_epoch := epoch_default, sk_next_epoch_id := saturating_add epoch_id 1\<rparr>
        in case close_objects libs (ac_prefix (sk_config s)) epoch_id (ep_buffers epoch) of
             Inl e \<Rightarrow> Return (Inl (Object_key_failed e))
           | Inr objects \<Rightarrow>
               (case journal_new (sl_sha256 libs) (sl_json libs) (sk_expected_partition_id s) objects of
                  Inl e \<Rightarrow> Return (Inl (Manifest_failed e))
                | Inr journal \<Rightarrow>
                    dmap (\<lambda>r.
                      case r of
                        Inl e \<Rightarrow> Inl (Journal_failed (ej_key journal) e)
                      | Inr disposition \<Rightarrow> install_epoch epoch_id epoch objects journal disposition s)
                      (ensure_open (sl_json libs) journal)))"

subsection \<open>Putting rows into the epoch\<close>

definition put_buffer ::
  "routed_row \<Rightarrow> u8 list \<Rightarrow> (buffer_key, object_buffer) btree \<Rightarrow> object_buffer" where
  "put_buffer row bytes buffers =
     (let route = rw_route row;
          buffer =
            (case bt_get buffers (rw_table row, rr_partition_path route) of
               Some buffer \<Rightarrow> buffer
             | None \<Rightarrow> \<lparr>ob_topic = rr_topic route, ob_source_partition = rr_partition route,
                        ob_start_offset = rr_offset route, ob_rows = 0, ob_payload = []\<rparr>)
      in buffer\<lparr>ob_start_offset :=
                  (if sint (rr_offset route) < sint (ob_start_offset buffer) then rr_offset route
                   else ob_start_offset buffer),
                ob_rows := saturating_add (ob_rows buffer) 1,
                ob_payload := ob_payload buffer @ bytes\<rparr>)"

definition put_row ::
  "routed_row \<Rightarrow> u8 list \<Rightarrow> (buffer_key, object_buffer) btree \<Rightarrow> (buffer_key, object_buffer) btree" where
  "put_row row bytes buffers =
     bt_insert (rw_table row, rr_partition_path (rw_route row)) (put_buffer row bytes buffers) buffers"

text \<open>
  The loop over the rows of a group. It counts the retained and the serialized bytes, and notes whether a
  buffer reached a limit of the rotation.
\<close>

fun put_rows ::
  "rotation_config \<Rightarrow> json_batch_encoder list \<Rightarrow> routed_row list \<Rightarrow> (buffer_key, object_buffer) btree \<Rightarrow>
   bool \<Rightarrow> usize \<Rightarrow> usize \<Rightarrow>
   (s3_error, (buffer_key, object_buffer) btree \<times> bool \<times> usize \<times> usize \<times> u8 list list) res" where
  "put_rows rotation encoders [] buffers limit retained serialized = Inr (buffers, limit, retained, serialized, [])"
| "put_rows rotation encoders (row # rows) buffers limit retained serialized =
     (if length encoders \<le> rw_output_index row then Inl Encoder_index_out_of_range
      else case (encoders ! rw_output_index row) (rw_row_index row) of
        Inl e \<Rightarrow> Inl (Row_encoding_failed e)
      | Inr bytes \<Rightarrow>
          let buffer = put_buffer row bytes buffers;
              row_bytes = of_nat (length bytes)
          in res_bind
               (put_rows rotation encoders rows (put_row row bytes buffers)
                  (limit \<or> rot_max_rows rotation \<le> ob_rows buffer \<or>
                   rot_max_bytes rotation \<le> of_nat (length (ob_payload buffer)))
                  (saturating_add retained (routed_row_retained_bytes row row_bytes))
                  (saturating_add serialized row_bytes))
               (\<lambda>(buffers, limit, retained, serialized, written).
                 Inr (buffers, limit, retained, serialized, bytes # written)))"

definition first_record_time_ms :: "routed_row list \<Rightarrow> i64 option" where
  "first_record_time_ms rows =
     (case find (\<lambda>row. rr_record_time_ms (rw_route row) \<noteq> None) rows of
        None \<Rightarrow> None | Some row \<Rightarrow> rr_record_time_ms (rw_route row))"

definition partition_changed :: "rotation_config \<Rightarrow> epoch \<Rightarrow> routed_row list \<Rightarrow> bool" where
  "partition_changed rotation epoch rows =
     (rot_on_partition_path_change rotation = Rotate \<and>
      (case find (\<lambda>row. \<not> rw_is_dlq row) rows of
         None \<Rightarrow> False
       | Some row \<Rightarrow>
           (case ep_last_main_partition epoch of
              None \<Rightarrow> False | Some previous \<Rightarrow> previous \<noteq> rr_partition_path (rw_route row))))"

definition as_millis :: "duration \<Rightarrow> nat" where
  "as_millis d = unat (secs d) * 1000 + unat (nanos d) div 1000000"

definition saturating_sub_i64 :: "i64 \<Rightarrow> i64 \<Rightarrow> int" where
  "saturating_sub_i64 a b = max (- (2 ^ 63)) (min (2 ^ 63 - 1) (sint a - sint b))"

definition record_time_rotated :: "rotation_config \<Rightarrow> epoch \<Rightarrow> routed_row list \<Rightarrow> bool" where
  "record_time_rotated rotation epoch rows =
     (case rot_record_time_interval rotation of
        None \<Rightarrow> False
      | Some interval \<Rightarrow>
          (case (first_record_time_ms rows, ep_record_time_base_ms epoch) of
             (Some current, Some base) \<Rightarrow>
               min (int (as_millis interval)) (2 ^ 63 - 1) \<le> saturating_sub_i64 current base
           | _ \<Rightarrow> False))"

definition begin_group :: "nat \<Rightarrow> routed_row list \<Rightarrow> epoch \<Rightarrow> epoch" where
  "begin_group now rows epoch =
     (let epoch =
            (if ep_first_seen epoch = None
             then epoch\<lparr>ep_first_seen := Some now, ep_record_time_base_ms := first_record_time_ms rows\<rparr> else epoch)
      in case find (\<lambda>row. \<not> rw_is_dlq row) (rev rows) of
           None \<Rightarrow> epoch
         | Some main \<Rightarrow> epoch\<lparr>ep_last_main_partition := Some (rr_partition_path (rw_route main))\<rparr>)"

definition add_delivery_rows :: "delivery_id \<Rightarrow> usize \<Rightarrow> (delivery_id \<times> usize) list \<Rightarrow> (delivery_id \<times> usize) list" where
  "add_delivery_rows delivery_id rows counts =
     (if counts \<noteq> [] \<and> fst (last counts) = delivery_id
      then butlast counts @ [(delivery_id, snd (last counts) + rows)]
      else counts @ [(delivery_id, rows)])"

definition put_group ::
  "nat \<Rightarrow> routed_row list \<Rightarrow> json_batch_encoder list \<Rightarrow> delivery_id \<Rightarrow> s3_sink \<Rightarrow>
   (s3_error, s3_sink \<times> bool \<times> u8 list list) res" where
  "put_group now rows encoders delivery_id s =
     (let epoch = begin_group now rows (sk_epoch s)
      in res_bind (put_rows (ac_rotation (sk_config s)) encoders rows (ep_buffers epoch) False 0 0)
           (\<lambda>(buffers, object_limit_reached, retained_bytes, serialized_bytes, written).
             let epoch =
                   epoch\<lparr>ep_buffers := buffers,
                         ep_reservations :=
                           (if 0 < retained_bytes then ep_reservations epoch @ [retained_bytes] else ep_reservations epoch),
                         ep_retained_bytes := saturating_add (ep_retained_bytes epoch) retained_bytes,
                         ep_delivery_rows :=
                           add_delivery_rows delivery_id (of_nat (length rows)) (ep_delivery_rows epoch)\<rparr>;
                 budget_reached =
                   (buf_max_epoch_buffers (ac_buffering (sk_config s)) < of_nat (length buffers) \<or>
                    sk_epoch_byte_limit s \<le> ep_retained_bytes epoch)
             in Inr (s\<lparr>sk_epoch := epoch, sk_buffered_bytes := saturating_add (sk_buffered_bytes s) serialized_bytes\<rparr>,
                     object_limit_reached \<or> budget_reached, written)))"

definition accept_message_group ::
  "s3_libs \<Rightarrow> nat \<Rightarrow> routed_row list \<Rightarrow> json_batch_encoder list \<Rightarrow> delivery_id \<Rightarrow> s3_sink \<Rightarrow>
   (s3_error, s3_sink \<times> placed_row list) res dprog" where
  "accept_message_group libs now rows encoders delivery_id s =
     dbind
       (if partition_changed (ac_rotation (sk_config s)) (sk_epoch s) rows \<or>
           record_time_rotated (ac_rotation (sk_config s)) (sk_epoch s) rows
        then close_epoch libs s else Return (Inr s))
       (\<lambda>rotated.
         case rotated of
           Inl e \<Rightarrow> Return (Inl e)
         | Inr s \<Rightarrow>
             (case put_group now rows encoders delivery_id s of
                Inl e \<Rightarrow> Return (Inl e)
              | Inr (s', full, written) \<Rightarrow>
                  let placed =
                        map2 (\<lambda>row bytes. \<lparr>pr_epoch = sk_next_epoch_id s, pr_delivery = delivery_id, pr_row = row,
                                          pr_bytes = bytes\<rparr>) rows written
                  in dmap (map_sum id (\<lambda>s. (s, placed))) (if full then close_epoch libs s' else Return (Inr s'))))"

definition group_end :: "routed_row list \<Rightarrow> nat \<Rightarrow> nat" where
  "group_end rows start =
     (let same = (\<lambda>row.
            rr_topic (rw_route row) = rr_topic (rw_route (rows ! start)) \<and>
            rr_partition (rw_route row) = rr_partition (rw_route (rows ! start)) \<and>
            rr_offset (rw_route row) = rr_offset (rw_route (rows ! start)))
      in Suc start + length (takeWhile same (drop (Suc start) rows)))"

definition accept_next_message_group ::
  "s3_libs \<Rightarrow> nat \<Rightarrow> bool \<Rightarrow> pending_delivery \<Rightarrow> s3_sink \<Rightarrow>
   (s3_error, s3_sink \<times> pending_delivery \<times> placed_row list) res dprog" where
  "accept_next_message_group libs now transform_pressured pending s =
     (let start = pd_next_row pending
      in if start < length (pd_rows pending)
         then
           let stop = group_end (pd_rows pending) start
           in dmap (map_sum id (\<lambda>(s', placed).
                  (s'\<lparr>sk_memory_barrier_epoch :=
                        (if sk_next_epoch_id s' \<noteq> sk_next_epoch_id s \<and> transform_pressured
                         then Some (saturating_sub (sk_next_epoch_id s') 1) else None)\<rparr>,
                   pending\<lparr>pd_next_row := stop\<rparr>, placed)))
                (accept_message_group libs now (take (stop - start) (drop start (pd_rows pending)))
                   (pd_encoders pending) (pd_delivery_id pending) s)
         else Return (Inr (s, pending, [])))"

end
