(* ===== verification/S3_Accounting.thy ===== *)
theory S3_Accounting
  imports S3_Sink "HOL-Library.Multiset"
begin

section \<open>What the S3 sink accounts for\<close>

text \<open>
  The invariant of the S3 sink and that every operation of \<^verbatim>\<open>S3_Sink\<close> keeps it. It relates the state of the
  sink to the rows placed so far: the buffers of the open epoch are the rows placed in it; each closed epoch has
  the manifest of its rows, and each of its objects is waiting, being uploaded, or durable; a finished epoch is durable; the
  byte and object counters are exact; and what the tracker still expects of a delivery are its rows in unfinished epochs and
  the rows not placed yet. So none of the errors that guard the accounting is ever returned.
\<close>

subsection \<open>Rows and buffers\<close>

definition epoch_rows :: "u64 \<Rightarrow> placed_row list \<Rightarrow> placed_row list" where
  "epoch_rows e ps = filter (\<lambda>p. pr_epoch p = e) ps"

definition buffers_of :: "placed_row list \<Rightarrow> (buffer_key, object_buffer) btree" where
  "buffers_of ps = fold (\<lambda>p. put_row (pr_row p) (pr_bytes p)) ps bt_empty"

definition bytes_of :: "placed_row list \<Rightarrow> nat" where
  "bytes_of ps = sum_list (map (length \<circ> pr_bytes) ps)"

definition row_key :: "routed_row \<Rightarrow> buffer_key" where
  "row_key row = (rw_table row, rr_partition_path (rw_route row))"

lemma buffers_of_snoc [simp]:
  "buffers_of [] = bt_empty" "buffers_of (ps @ qs) = fold (\<lambda>p. put_row (pr_row p) (pr_bytes p)) qs (buffers_of ps)"
  by (simp_all add: buffers_of_def)

lemma bt_wf_put_rows: "bt_wf b \<Longrightarrow> bt_wf (fold (\<lambda>p. put_row (pr_row p) (pr_bytes p)) ps b)"
  by (induction ps arbitrary: b) (simp_all add: put_row_def)

lemma bt_wf_buffers_of [simp]: "bt_wf (buffers_of ps)"
  by (simp add: buffers_of_def bt_wf_put_rows bt_empty_def)

definition buffer_bytes :: "(buffer_key, object_buffer) btree \<Rightarrow> nat" where
  "buffer_bytes b = bt_sum (length \<circ> ob_payload) b"

lemma buffer_bytes_put:
  assumes "bt_wf b"
  shows "buffer_bytes (put_row row bytes b) = buffer_bytes b + length bytes"
proof (cases "bt_get b (row_key row)")
  case None
  then show ?thesis
    by (simp add: buffer_bytes_def put_row_def row_key_def[symmetric] bt_sum_insert_new put_buffer_def Let_def)
next
  case (Some w)
  have "bt_sum (length \<circ> ob_payload) (bt_insert (row_key row) (put_buffer row bytes b) b) + length (ob_payload w) =
      length (ob_payload (put_buffer row bytes b)) + bt_sum (length \<circ> ob_payload) b"
    using bt_sum_insert_old[OF assms Some, of "length \<circ> ob_payload"] by simp
  then show ?thesis
    using Some by (simp add: buffer_bytes_def put_row_def row_key_def[symmetric] put_buffer_def Let_def)
qed

lemma buffer_bytes_put_rows:
  "bt_wf b \<Longrightarrow> buffer_bytes (fold (\<lambda>p. put_row (pr_row p) (pr_bytes p)) ps b) = buffer_bytes b + bytes_of ps"
proof (induction ps arbitrary: b)
  case (Cons p ps)
  moreover have "bt_wf (put_row (pr_row p) (pr_bytes p) b)" using Cons.prems by (simp add: put_row_def)
  ultimately show ?case by (simp add: bytes_of_def buffer_bytes_put)
qed (simp add: bytes_of_def)

lemma buffer_bytes_of [simp]: "buffer_bytes (buffers_of ps) = bytes_of ps"
  by (simp add: buffers_of_def buffer_bytes_put_rows bt_empty_def) (simp add: buffer_bytes_def)

text \<open>Each placed row is in the buffer of its key, as one piece of the payload.\<close>

definition infix_of :: "'a list \<Rightarrow> 'a list \<Rightarrow> bool" where
  "infix_of xs ys \<longleftrightarrow> (\<exists>before after. ys = before @ xs @ after)"

lemma infix_of_append: "infix_of xs ys \<Longrightarrow> infix_of xs (ys @ zs)"
  unfolding infix_of_def by (metis append.assoc)

lemma put_rows_keeps_infix:
  assumes "bt_get b k = Some buf" "infix_of bytes (ob_payload buf)"
  shows "\<exists>buf'. bt_get (fold (\<lambda>p. put_row (pr_row p) (pr_bytes p)) ps b) k = Some buf' \<and> infix_of bytes (ob_payload buf')"
  using assms
proof (induction ps arbitrary: b buf)
  case (Cons p ps)
  have "\<exists>buf'. bt_get (put_row (pr_row p) (pr_bytes p) b) k = Some buf' \<and> infix_of bytes (ob_payload buf')"
  proof (cases "k = row_key (pr_row p)")
    case True
    then show ?thesis
      using Cons.prems by (auto simp: put_row_def row_key_def[symmetric] put_buffer_def Let_def intro: infix_of_append)
  qed (use Cons.prems in \<open>simp add: put_row_def row_key_def[symmetric]\<close>)
  then show ?case using Cons.IH by auto
qed auto

lemma placed_in_buffer:
  assumes "p \<in> set ps"
  shows "\<exists>buf. bt_get (buffers_of ps) (row_key (pr_row p)) = Some buf \<and> infix_of (pr_bytes p) (ob_payload buf)"
proof -
  obtain xs ys where ps: "ps = xs @ p # ys" using assms by (meson split_list)
  have "\<exists>buf. bt_get (put_row (pr_row p) (pr_bytes p) (buffers_of xs)) (row_key (pr_row p)) = Some buf \<and>
      infix_of (pr_bytes p) (ob_payload buf)"
    by (simp add: put_row_def row_key_def[symmetric] put_buffer_def Let_def infix_of_def)
      (metis append_Nil2)
  then show ?thesis using put_rows_keeps_infix ps by fastforce
qed

lemma buffers_of_empty: "buffers_of ps = [] \<longleftrightarrow> ps = []"
  using placed_in_buffer[of "hd ps" ps] by (cases ps) (auto simp: bt_empty_def)

subsection \<open>Objects of an epoch\<close>

definition epoch_objects ::
  "s3_libs \<Rightarrow> string \<Rightarrow> placed_row list \<Rightarrow> u64 \<Rightarrow> (object_key_error, closed_object list) res" where
  "epoch_objects libs prefix ps e = close_objects libs prefix e (buffers_of (epoch_rows e ps))"

lemma close_objects_Cons:
  assumes "close_objects libs prefix e (((t, path), buf) # b) = Inr objs"
  shows "\<exists>key rest. close_objects libs prefix e b = Inr rest \<and>
    for_json_object libs prefix t path (ob_topic buf) (ob_source_partition buf) (ob_start_offset buf) = Inr key \<and>
    objs = \<lparr>co_epoch_id = e, co_key = key, co_payload = ob_payload buf, co_rows = ob_rows buf\<rparr> # rest"
  using assms by (auto simp: res_bind_Inr_iff)

lemma close_objects_ok:
  assumes "close_objects libs prefix e b = Inr objs"
  shows "length objs = length b \<and> (\<forall>o' \<in> set objs. co_epoch_id o' = e) \<and>
    sum_list (map (length \<circ> co_payload) objs) = buffer_bytes b \<and>
    (\<forall>t path buf. ((t, path), buf) \<in> set b \<longrightarrow> (\<exists>o' \<in> set objs. co_payload o' = ob_payload buf \<and>
       for_json_object libs prefix t path (ob_topic buf) (ob_source_partition buf) (ob_start_offset buf) = Inr (co_key o')))"
  using assms
proof (induction b arbitrary: objs)
  case (Cons x b)
  obtain t path buf where x: "x = ((t, path), buf)" by (metis prod.collapse)
  obtain key rest where r: "close_objects libs prefix e b = Inr rest"
    "for_json_object libs prefix t path (ob_topic buf) (ob_source_partition buf) (ob_start_offset buf) = Inr key"
    "objs = \<lparr>co_epoch_id = e, co_key = key, co_payload = ob_payload buf, co_rows = ob_rows buf\<rparr> # rest"
    using close_objects_Cons Cons.prems x by blast
  then show ?case using Cons.IH[OF r(1)] x by (auto simp: buffer_bytes_def)
qed (simp add: buffer_bytes_def)

lemma epoch_objects_row:
  assumes "epoch_objects libs prefix ps e = Inr objs" "p \<in> set ps" "pr_epoch p = e"
  shows "\<exists>o' \<in> set objs. infix_of (pr_bytes p) (co_payload o') \<and>
    (\<exists>topic part off. for_json_object libs prefix (rw_table (pr_row p)) (rr_partition_path (rw_route (pr_row p)))
       topic part off = Inr (co_key o'))"
proof -
  have "p \<in> set (epoch_rows e ps)" using assms(2,3) by (simp add: epoch_rows_def)
  then obtain buf where b: "bt_get (buffers_of (epoch_rows e ps)) (row_key (pr_row p)) = Some buf"
    "infix_of (pr_bytes p) (ob_payload buf)" using placed_in_buffer by blast
  then have "(row_key (pr_row p), buf) \<in> set (buffers_of (epoch_rows e ps))" by (simp add: bt_get_Some_mem)
  then show ?thesis
    using close_objects_ok[OF assms(1)[unfolded epoch_objects_def]] b(2) unfolding row_key_def by metis
qed

subsection \<open>Rows of deliveries\<close>

definition count_rows :: "(delivery_id \<times> usize) list \<Rightarrow> delivery_id \<Rightarrow> nat" where
  "count_rows counts d = sum_list (map (\<lambda>(d', n). if d' = d then unat n else 0) counts)"

definition delivery_count :: "delivery_id \<Rightarrow> placed_row list \<Rightarrow> nat" where
  "delivery_count d ps = length (filter (\<lambda>p. pr_delivery p = d) ps)"

definition rows_match :: "(delivery_id \<times> usize) list \<Rightarrow> placed_row list \<Rightarrow> bool" where
  "rows_match counts ps \<longleftrightarrow> (\<forall>d. count_rows counts d = delivery_count d ps) \<and> 0 \<notin> snd ` set counts"

lemma count_rows_simps [simp]:
  "count_rows [] d = 0"
  "count_rows ((d', n) # counts) d = (if d' = d then unat n else 0) + count_rows counts d"
  "count_rows (counts @ counts') d = count_rows counts d + count_rows counts' d"
  by (simp_all add: count_rows_def)

lemma delivery_count_simps [simp]:
  "delivery_count d [] = 0"
  "delivery_count d (p # ps) = (if pr_delivery p = d then 1 else 0) + delivery_count d ps"
  "delivery_count d (ps @ qs) = delivery_count d ps + delivery_count d qs"
  by (simp_all add: delivery_count_def)

lemma delivery_count_le: "delivery_count d ps \<le> length ps"
  by (simp add: delivery_count_def)

lemma rows_match_add:
  assumes "rows_match counts ps" "\<forall>p \<in> set qs. pr_delivery p = i" "qs \<noteq> []" "length ps + length qs < 2 ^ 64"
  shows "rows_match (add_delivery_rows i (of_nat (length qs)) counts) (ps @ qs)"
proof -
  let ?n = "of_nat (length qs) :: usize"
  have n: "unat ?n = length qs" using assms(4) by (intro of_nat_small) simp
  have qs: "delivery_count d qs = (if d = i then length qs else 0)" for d
    using assms(2) by (auto simp: delivery_count_def filter_id_conv intro!: arg_cong[of _ _ length])
  show ?thesis
  proof (cases "counts \<noteq> [] \<and> fst (last counts) = i")
    case True
    then obtain cs m where c: "counts = cs @ [(i, m)]" by (metis append_butlast_last_id prod.collapse)
    have "unat m \<le> length ps"
      using assms(1) delivery_count_le[of i ps] c by (auto simp: rows_match_def dest: spec[of _ i])
    then have u: "unat (m + ?n) = unat m + length qs" using n assms(4) by (simp add: unat_add_exact)
    then have "m + ?n \<noteq> 0" using assms(3) by (metis add_is_0 length_0_conv unat_0)
    moreover have "count_rows (add_delivery_rows i ?n counts) d = delivery_count d (ps @ qs)" for d
      using assms(1) c u qs by (auto simp: rows_match_def add_delivery_rows_def dest: spec[of _ d])
    ultimately show ?thesis
      using assms(1) c by (auto simp: rows_match_def add_delivery_rows_def)
  next
    case False
    have "?n \<noteq> 0" using n assms(3) by (metis length_0_conv unat_0)
    then show ?thesis using False assms(1) n qs by (auto simp: rows_match_def add_delivery_rows_def)
  qed
qed

text \<open>What the tracker still expects of a delivery.\<close>

definition expected :: "delivery_tracker \<Rightarrow> delivery_id \<Rightarrow> nat" where
  "expected t d = (case bt_get (entries t) d of None \<Rightarrow> 0 | Some st \<Rightarrow> unat (remaining st))"

lemma checked_sub_le:
  assumes "unat b \<le> unat a"
  shows "\<exists>c. checked_sub a b = Some c \<and> unat a = unat b + unat c"
  using assms checked_sub_eq_None[of a b] checked_sub_eq_Some[of a b] by (cases "checked_sub a b") auto

lemma complete_expected:
  assumes "unat n \<le> expected t i" "n \<noteq> 0" "tracker_inv t"
  shows "\<exists>t'. complete i n t = Inr t' \<and> tracker_inv t' \<and> next_received t' = next_received t \<and> next_commit t' = next_commit t \<and>
    (\<forall>d. expected t' d = expected t d - (if d = i then unat n else 0))"
proof -
  have "unat n \<noteq> 0" using assms(2) by (simp add: unat_eq_zero)
  then obtain st where st: "bt_get (entries t) i = Some st" using assms(1) by (auto simp: expected_def split: option.splits)
  then obtain r where r: "checked_sub (remaining st) n = Some r" "unat (remaining st) = unat n + unat r"
    using assms(1) checked_sub_le[of n "remaining st"] by (auto simp: expected_def)
  let ?t = "t\<lparr>entries := bt_insert i (st\<lparr>remaining := r\<rparr>) (entries t)\<rparr>"
  have c: "complete i n t = Inr ?t" using st r(1) by (simp add: complete_def)
  show ?thesis
    using complete_refines(1)[OF assms(3) c] c st r(2) by (auto simp: expected_def)
qed

lemma complete_rows_expected:
  assumes "\<forall>d. count_rows counts d \<le> expected t d" "0 \<notin> snd ` set counts" "tracker_inv t"
  shows "\<exists>t'. complete_rows counts t = Inr t' \<and> tracker_inv t' \<and> next_received t' = next_received t \<and>
    next_commit t' = next_commit t \<and> (\<forall>d. expected t' d = expected t d - count_rows counts d)"
  using assms
proof (induction counts arbitrary: t)
  case (Cons c counts)
  obtain i n where c: "c = (i, n)" by (cases c)
  have "unat n \<le> expected t i" using Cons.prems(1) c by (auto dest: spec[of _ i])
  then obtain t1 where t1: "complete i n t = Inr t1" "tracker_inv t1" "next_received t1 = next_received t"
    "next_commit t1 = next_commit t" "\<forall>d. expected t1 d = expected t d - (if d = i then unat n else 0)"
    using complete_expected[of n t i] Cons.prems c by auto
  have "count_rows counts d \<le> expected t1 d" for d
    using Cons.prems(1)[rule_format, of d] t1(5) c by (auto split: if_splits)
  then obtain t' where "complete_rows counts t1 = Inr t'" "tracker_inv t'" "next_received t' = next_received t"
    "next_commit t' = next_commit t" "\<forall>d. expected t' d = expected t1 d - count_rows counts d"
    using Cons.IH[of t1] Cons.prems t1 by auto
  then show ?case using t1 c by auto
qed simp

lemma accept_expected:
  assumes "tracker_inv t" "accept i (of_nat n) m t = Inr t'" "i \<noteq> - 1" "n < 2 ^ 64"
  shows "tracker_inv t'" "i = next_received t" "next_received t' = delivery_id_next i" "next_commit t' = next_commit t"
    "expected t' d = (if d = i then n else expected t d)"
  using accept_refines(1)[OF assms(1,2,3)] assms(2,4)
  by (auto simp: accept_def expected_def of_nat_small split: if_splits)

lemma expected_outstanding:
  assumes "tracker_inv t"
  shows "expected t d = outstanding (tracker_abs t) (unat d)"
proof -
  have "consecutive (unat (next_commit t)) (entries t)" using assms by (simp add: tracker_inv_alt)
  then show ?thesis
    by (auto simp: expected_def consecutive_get outstanding_def tracker_abs_def)
qed

lemma take_expected:
  assumes "tracker_inv t" "take_committed t = (t', c)"
  shows "tracker_inv t'" "expected t' d = expected t d" "next_received t' = next_received t"
    "c = None \<Longrightarrow> next_commit t' = next_commit t"
    "c = Some x \<Longrightarrow> unat (next_commit t') = Suc (unat (through x))"
    "(\<forall>d. expected t d = 0) \<Longrightarrow> tracker_is_empty t'" "next_commit t \<le> next_commit t'"
proof -
  note r = take_committed_refines[OF assms]
  show inv: "tracker_inv t'" by (rule r(1))
  show "expected t' d = expected t d"
    by (simp add: expected_outstanding[OF inv] expected_outstanding[OF assms(1)] r(2) outstanding_take)
  have total: "unat (next_received t) = fst (tracker_abs t) + length (snd (tracker_abs t))" if "tracker_inv t" for t
    using that by (simp add: tracker_inv_alt tracker_abs_def)
  have "length (takeWhile P xs) + length (dropWhile P xs) = length xs" for P and xs :: "(nat \<times> nat) list"
    by (metis length_append takeWhile_dropWhile_id)
  then have "unat (next_received t') = unat (next_received t)"
    using r(2) total[OF assms(1)] total[OF inv] by (simp add: spec_take_def)
  then show "next_received t' = next_received t" by (simp add: word_unat_eq_iff)
  have nc: "unat (next_commit t') = fst (tracker_abs t) + length (spec_taken (tracker_abs t))"
    using r(2) by (simp add: tracker_abs_def spec_take_def spec_taken_def)
  show "c = None \<Longrightarrow> next_commit t' = next_commit t"
    using r(3) nc by (simp add: word_unat_eq_iff tracker_abs_def)
  show "c = Some x \<Longrightarrow> unat (next_commit t') = Suc (unat (through x))" using r(4)[of x] nc by simp
  show "next_commit t \<le> next_commit t'" using nc by (simp add: word_le_nat_alt tracker_abs_def)
  assume zero: "\<forall>d. expected t d = 0"
  have "fst e = 0" if mem: "e \<in> set (snd (tracker_abs t))" for e
  proof -
    obtain k where k: "k < length (snd (tracker_abs t))" "e = snd (tracker_abs t) ! k" using mem by (auto simp: in_set_conv_nth)
    let ?d = "of_nat (fst (tracker_abs t) + k) :: u64"
    have "fst (tracker_abs t) + k < 2 ^ 64" using k(1) total[OF assms(1)] unat_less_pow[of "next_received t"] by simp
    then have "unat ?d = fst (tracker_abs t) + k" by (intro of_nat_small) simp
    then have "outstanding (tracker_abs t) (unat ?d) = fst e" using k by (simp add: outstanding_def)
    then show ?thesis using zero expected_outstanding[OF assms(1), of ?d] by simp
  qed
  then have "snd (tracker_abs t') = []" using r(2) by (simp add: spec_take_def dropWhile_eq_Nil_conv)
  then show "tracker_is_empty t'" by (simp add: tracker_is_empty_def tracker_abs_def)
qed

subsection \<open>The books of the sink\<close>

text \<open>
  \<open>uploaded\<close> are the keys and payloads the object store has accepted. An object of a manifest is in the store when
  an object with its key, digest and length was accepted.
\<close>

definition in_store :: "(u8 list \<Rightarrow> u8 list) \<Rightarrow> (string \<times> u8 list) set \<Rightarrow> manifest_object \<Rightarrow> bool" where
  "in_store sha256 uploaded m \<longleftrightarrow>
     (\<exists>payload. (mo_key m, payload) \<in> uploaded \<and> hex_digest sha256 payload = mo_payload_sha256 m \<and>
        of_nat (length payload) = mo_payload_bytes m)"

lemma in_storeI: "(co_key o', co_payload o') \<in> uploaded \<Longrightarrow> in_store sha256 uploaded (manifest_object_of sha256 o')"
  by (auto simp: in_store_def manifest_object_of_def)

definition closed_epoch_ok ::
  "s3_libs \<Rightarrow> (string \<times> u8 list) set \<Rightarrow> string \<Rightarrow> i64 \<Rightarrow> placed_row list \<Rightarrow> closed_object multiset \<Rightarrow> u64 \<Rightarrow> closed_epoch \<Rightarrow> bool" where
  "closed_epoch_ok libs uploaded prefix part ps waiting e epoch \<longleftrightarrow>
     \<not> ce_journal_closed epoch \<and> rows_match (ce_delivery_rows epoch) (epoch_rows e ps) \<and>
     unat (ce_remaining_objects epoch) = size (filter_mset (\<lambda>o'. co_epoch_id o' = e) waiting) \<and>
     (\<exists>objects. epoch_objects libs prefix ps e = Inr objects \<and>
        journal_new (sl_sha256 libs) (sl_json libs) part objects = Inr (ce_journal epoch) \<and>
        (\<forall>o' \<in> set objects. o' \<in># waiting \<or> (co_key o', co_payload o') \<in> uploaded))"

text \<open>A finished epoch is durable; what is known only of the epochs with one journal key is said of that key.\<close>

definition finished_ok ::
  "s3_libs \<Rightarrow> (string \<times> u8 list) set \<Rightarrow> string \<Rightarrow> string \<Rightarrow> i64 \<Rightarrow> placed_row list \<Rightarrow> u64 \<Rightarrow> bool" where
  "finished_ok libs uploaded key prefix part ps e \<longleftrightarrow>
     (\<exists>objects. epoch_objects libs prefix ps e = Inr objects \<and>
        (journal_key (sl_sha256 libs) part (map (manifest_object_of (sl_sha256 libs)) objects) = key \<longrightarrow>
           (\<forall>o' \<in> set objects. in_store (sl_sha256 libs) uploaded (manifest_object_of (sl_sha256 libs) o'))))"

definition unfinished :: "u64 \<Rightarrow> (u64, closed_epoch) btree \<Rightarrow> placed_row list \<Rightarrow> placed_row list" where
  "unfinished nid closed ps = filter (\<lambda>p. pr_epoch p = nid \<or> pr_epoch p \<in> fst ` set closed) ps"

definition books ::
  "s3_libs \<Rightarrow> (string \<times> u8 list) set \<Rightarrow> string \<Rightarrow> string \<Rightarrow> i64 \<Rightarrow> u64 \<Rightarrow> (buffer_key, object_buffer) btree \<Rightarrow>
   (delivery_id \<times> usize) list \<Rightarrow> (u64, closed_epoch) btree \<Rightarrow> closed_object multiset \<Rightarrow> usize \<Rightarrow> delivery_tracker \<Rightarrow>
   placed_row list \<Rightarrow> (delivery_id \<Rightarrow> nat) \<Rightarrow> bool" where
  "books libs uploaded key prefix part nid buffers counts closed waiting buffered progress ps pending \<longleftrightarrow>
     length ps < 2 ^ 63 \<and> bytes_of ps < 2 ^ 64 \<and> bt_wf closed \<and>
     (\<forall>e epoch. bt_get closed e = Some epoch \<longrightarrow> e < nid \<and> closed_epoch_ok libs uploaded prefix part ps waiting e epoch) \<and>
     (\<forall>o' \<in># waiting. bt_get closed (co_epoch_id o') \<noteq> None) \<and>
     (\<forall>e < nid. bt_get closed e = None \<longrightarrow> finished_ok libs uploaded key prefix part ps e) \<and>
     (\<forall>e < nid. epoch_rows e ps \<noteq> []) \<and> (\<forall>p \<in> set ps. pr_epoch p \<le> nid) \<and>
     buffers = buffers_of (epoch_rows nid ps) \<and> rows_match counts (epoch_rows nid ps) \<and>
     unat buffered = bytes_of (epoch_rows nid ps) + sum_mset (image_mset (length \<circ> co_payload) waiting) \<and>
     unat buffered \<le> bytes_of ps \<and>
     tracker_inv progress \<and> (\<forall>d. expected progress d = delivery_count d (unfinished nid closed ps) + pending d)"

lemma booksD:
  assumes "books libs uploaded key prefix part nid buffers counts closed waiting buffered progress ps pending"
  shows "bt_get closed e = Some epoch \<Longrightarrow> e < nid" "bt_get closed e = Some epoch \<Longrightarrow> e \<noteq> nid"
    "bt_get closed e = Some epoch \<Longrightarrow> closed_epoch_ok libs uploaded prefix part ps waiting e epoch"
    "e < nid \<Longrightarrow> bt_get closed e = None \<Longrightarrow> finished_ok libs uploaded key prefix part ps e"
    "\<forall>e < nid. epoch_rows e ps \<noteq> []" "length ps < 2 ^ 63" "bytes_of ps < 2 ^ 64" "bt_wf closed"
    "tracker_inv progress" "expected progress d = delivery_count d (unfinished nid closed ps) + pending d"
    "buffers = buffers_of (epoch_rows nid ps)" "rows_match counts (epoch_rows nid ps)"
    "unat buffered = bytes_of (epoch_rows nid ps) + sum_mset (image_mset (length \<circ> co_payload) waiting)"
    "unat buffered \<le> bytes_of ps" "o' \<in># waiting \<Longrightarrow> \<exists>epoch. bt_get closed (co_epoch_id o') = Some epoch"
    "p \<in> set ps \<Longrightarrow> pr_epoch p \<le> nid"
  using assms unfolding books_def by blast+

lemma booksI:
  assumes "length ps < 2 ^ 63" "bytes_of ps < 2 ^ 64" "bt_wf closed"
    and "\<And>e epoch. bt_get closed e = Some epoch \<Longrightarrow> e < nid \<and> closed_epoch_ok libs uploaded prefix part ps waiting e epoch"
    and "\<And>o'. o' \<in># waiting \<Longrightarrow> bt_get closed (co_epoch_id o') \<noteq> None"
    and "\<And>e. e < nid \<Longrightarrow> bt_get closed e = None \<Longrightarrow> finished_ok libs uploaded key prefix part ps e"
    and "\<And>e. e < nid \<Longrightarrow> epoch_rows e ps \<noteq> []" "\<And>p. p \<in> set ps \<Longrightarrow> pr_epoch p \<le> nid"
    and "buffers = buffers_of (epoch_rows nid ps)" "rows_match counts (epoch_rows nid ps)"
    and "unat buffered = bytes_of (epoch_rows nid ps) + sum_mset (image_mset (length \<circ> co_payload) waiting)"
    and "unat buffered \<le> bytes_of ps" "tracker_inv progress"
    and "\<And>d. expected progress d = delivery_count d (unfinished nid closed ps) + pending d"
  shows "books libs uploaded key prefix part nid buffers counts closed waiting buffered progress ps pending"
  using assms unfolding books_def by blast

lemma books_fresh:
  assumes "books libs uploaded key prefix part nid buffers counts closed waiting buffered progress ps pending"
  shows "bt_get closed nid = None"
  using booksD(2)[OF assms, of nid] by (cases "bt_get closed nid") auto

lemma epoch_rows_simps [simp]:
  "epoch_rows e [] = []"
  "epoch_rows e (p # ps) = (if pr_epoch p = e then p # epoch_rows e ps else epoch_rows e ps)"
  "epoch_rows e (ps @ qs) = epoch_rows e ps @ epoch_rows e qs"
  by (simp_all add: epoch_rows_def)

lemma bytes_of_simps [simp]:
  "bytes_of [] = 0" "bytes_of (p # ps) = length (pr_bytes p) + bytes_of ps" "bytes_of (ps @ qs) = bytes_of ps + bytes_of qs"
  by (simp_all add: bytes_of_def)

lemma bytes_of_epoch_le: "bytes_of (epoch_rows e ps) \<le> bytes_of ps"
  by (induction ps) auto

text \<open>Each epoch has a row, so there are fewer epochs than rows.\<close>

lemma epochs_le_rows:
  assumes "\<forall>e < nid. epoch_rows e ps \<noteq> []"
  shows "unat nid \<le> length ps"
proof -
  have "{e. e < nid} \<subseteq> pr_epoch ` set ps"
  proof
    fix e assume "e \<in> {e. e < nid}"
    then have "epoch_rows e ps \<noteq> []" using assms by simp
    then show "e \<in> pr_epoch ` set ps" by (auto simp: epoch_rows_def filter_empty_conv)
  qed
  then have "card {e. e < nid} \<le> card (pr_epoch ` set ps)" by (simp add: card_mono)
  also have "\<dots> \<le> length ps" by (metis card_image_le card_length finite_set le_trans)
  finally have "card {e. e < nid} \<le> length ps" .
  moreover have "unat ` {e. e < nid} = {..< unat nid}"
  proof (intro set_eqI iffI)
    fix n assume "n \<in> {..< unat nid}"
    then have "n < unat nid" "n < 2 ^ 64" using unat_less_pow[of nid] by auto
    then show "n \<in> unat ` {e. e < nid}"
      by (intro image_eqI[of _ _ "of_nat n"]) (auto simp: word_less_nat_alt of_nat_small)
  qed (auto simp: word_less_nat_alt)
  then have "card {e. e < nid} = unat nid"
    by (metis card_image card_lessThan inj_on_def word_unat_eq_iff)
  ultimately show ?thesis by simp
qed

lemma next_epoch_less:
  assumes "\<forall>e < nid. epoch_rows e ps \<noteq> []" "length ps < 2 ^ 63"
  shows "unat (saturating_add nid 1) = Suc (unat nid)" "e < saturating_add nid 1 \<longleftrightarrow> e < nid \<or> e = nid"
proof -
  show u: "unat (saturating_add nid 1) = Suc (unat nid)"
    using epochs_le_rows[OF assms(1)] assms(2) by (simp add: unat_saturating_add)
  show "e < saturating_add nid 1 \<longleftrightarrow> e < nid \<or> e = nid"
    using u by (auto simp: word_less_nat_alt less_Suc_eq word_unat_eq_iff)
qed

lemma epoch_rows_other: "\<forall>q \<in> set qs. pr_epoch q = nid \<Longrightarrow> e \<noteq> nid \<Longrightarrow> epoch_rows e qs = []"
  by (auto simp: epoch_rows_def filter_empty_conv)

lemma epoch_rows_all: "\<forall>q \<in> set qs. pr_epoch q = nid \<Longrightarrow> epoch_rows nid qs = qs"
  by (simp add: epoch_rows_def filter_id_conv)

lemma delivery_count_same: "\<forall>q \<in> set qs. pr_delivery q = i \<Longrightarrow> delivery_count d qs = (if d = i then length qs else 0)"
  by (induction qs) auto

lemma epoch_ok_put:
  assumes "\<forall>q \<in> set qs. pr_epoch q = nid" "e \<noteq> nid"
  shows "closed_epoch_ok libs uploaded prefix part (ps @ qs) waiting e epoch = closed_epoch_ok libs uploaded prefix part ps waiting e epoch"
    "finished_ok libs uploaded key prefix part (ps @ qs) e = finished_ok libs uploaded key prefix part ps e"
  using epoch_rows_other[OF assms] by (simp_all add: closed_epoch_ok_def finished_ok_def epoch_objects_def)

lemma books_put:
  assumes b: "books libs uploaded key prefix part nid buffers counts closed waiting buffered progress ps pending"
    and qs: "\<forall>q \<in> set qs. pr_epoch q = nid \<and> pr_delivery q = i" "qs \<noteq> []" "length qs \<le> pending i"
    and lim: "length (ps @ qs) < 2 ^ 63" "bytes_of (ps @ qs) < 2 ^ 64" "unat serialized = bytes_of qs"
  shows "books libs uploaded key prefix part nid (fold (\<lambda>p. put_row (pr_row p) (pr_bytes p)) qs buffers)
    (add_delivery_rows i (of_nat (length qs)) counts) closed waiting (saturating_add buffered serialized) progress
    (ps @ qs) (pending(i := pending i - length qs))"
proof -
  have e: "\<forall>q \<in> set qs. pr_epoch q = nid" "\<forall>q \<in> set qs. pr_delivery q = i" using qs(1) by auto
  have own: "epoch_rows nid qs = qs" using epoch_rows_all[OF e(1)] .
  have m: "rows_match (add_delivery_rows i (of_nat (length qs)) counts) (epoch_rows nid ps @ qs)"
  proof (rule rows_match_add[OF _ e(2) qs(2)])
    show "rows_match counts (epoch_rows nid ps)" using b by (simp add: books_def)
    have "length (epoch_rows nid ps) \<le> length ps" by (simp add: epoch_rows_def)
    then show "length (epoch_rows nid ps) + length qs < 2 ^ 64" using lim(1) by simp
  qed
  have sat: "unat (saturating_add buffered serialized) = unat buffered + bytes_of qs" "unat buffered \<le> bytes_of ps"
    using b lim by (auto simp: books_def unat_saturating_add)
  have u: "unfinished nid closed (ps @ qs) = unfinished nid closed ps @ qs"
    using e(1) by (auto simp: unfinished_def filter_id_conv)
  have rows: "epoch_rows x (ps @ qs) \<noteq> []" if "epoch_rows x ps \<noteq> []" for x using that by simp
  have x: "expected progress d = delivery_count d (unfinished nid closed ps) + pending d" for d
    using b by (simp add: books_def)
  have "expected progress d = delivery_count d (unfinished nid closed (ps @ qs)) + (pending(i := pending i - length qs)) d" for d
    using x[of d] qs(3) by (simp add: u delivery_count_same[OF e(2)])
  moreover have "e < nid \<and> closed_epoch_ok libs uploaded prefix part (ps @ qs) waiting e epoch" if "bt_get closed e = Some epoch" for e epoch
    using booksD(1-3)[OF b that] epoch_ok_put(1)[OF e(1)] by simp
  moreover have "finished_ok libs uploaded key prefix part (ps @ qs) e" if "e < nid" "bt_get closed e = None" for e
    using booksD(4)[OF b that] epoch_ok_put(2)[OF e(1), of e] that by auto
  moreover have "\<forall>p \<in> set (ps @ qs). pr_epoch p \<le> nid" using b e(1) by (auto simp: books_def)
  ultimately show ?thesis
    using b lim m sat own rows unfolding books_def by simp
qed

lemma length_put_row: "length (put_row row bytes b) \<le> Suc (length b)"
proof -
  have "length (bt_insert k v m) \<le> Suc (length m)" for k :: buffer_key and v :: object_buffer and m
    by (induction k v m rule: bt_insert.induct) auto
  then show ?thesis by (simp add: put_row_def)
qed

lemma length_buffers_of: "length (buffers_of ps) \<le> length ps"
proof -
  have "length (fold (\<lambda>p. put_row (pr_row p) (pr_bytes p)) ps b) \<le> length ps + length b" for b
  proof (induction ps arbitrary: b)
    case (Cons p ps)
    show ?case using Cons[of "put_row (pr_row p) (pr_bytes p) b"] length_put_row[of "pr_row p" "pr_bytes p" b] by simp
  qed simp
  from this[of "[]"] show ?thesis by (simp add: buffers_of_def bt_empty_def)
qed

lemma bt_insert_keys_eq: "fst ` set (bt_insert k v m) = insert k (fst ` set m)"
  by simp

lemma bt_get_keys: "bt_get m k \<noteq> None \<longleftrightarrow> k \<in> fst ` set m"
  by (simp add: bt_get_None)

lemma books_open:
  assumes b: "books libs uploaded key prefix part nid buffers counts closed waiting buffered progress ps pending"
    and ne: "buffers \<noteq> []" and objs: "close_objects libs prefix nid buffers = Inr objects"
    and j: "journal_new (sl_sha256 libs) (sl_json libs) part objects = Inr journal"
  shows "books libs uploaded key prefix part (saturating_add nid 1) [] []
    (bt_insert nid \<lparr>ce_remaining_objects = of_nat (length buffers), ce_delivery_rows = counts, ce_reservations = reservations,
       ce_journal = journal, ce_journal_closed = False\<rparr> closed)
    (waiting + mset objects) buffered progress ps pending"
    (is "books _ _ _ _ _ ?nid _ _ ?closed ?waiting _ _ _ _")
proof -
  note D = booksD[OF b]
  note less = next_epoch_less[OF D(5,6)]
  have bufs: "buffers = buffers_of (epoch_rows nid ps)" by (rule D(11))
  have o: "length objects = length buffers" "\<forall>o' \<in> set objects. co_epoch_id o' = nid"
    "sum_list (map (length \<circ> co_payload) objects) = bytes_of (epoch_rows nid ps)"
    using close_objects_ok[OF objs] bufs by auto
  have eo: "epoch_objects libs prefix ps nid = Inr objects" using objs bufs by (simp add: epoch_objects_def)
  have empty: "epoch_rows ?nid ps = []"
  proof -
    have "pr_epoch p \<noteq> ?nid" if "p \<in> set ps" for p using D(16)[OF that] less(1) by (auto simp: word_le_nat_alt)
    then show ?thesis by (auto simp: epoch_rows_def filter_empty_conv)
  qed
  have rows: "epoch_rows nid ps \<noteq> []" using ne bufs by (auto simp: buffers_of_empty[symmetric])
  have fq: "filter_mset (\<lambda>o'. co_epoch_id o' = nid) waiting = {#}"
    using D(15) books_fresh[OF b] by (fastforce simp: filter_mset_eq_mempty_iff)
  have fo: "filter_mset (\<lambda>o'. co_epoch_id o' = nid) (mset objects) = mset objects"
    using o(2) by (simp add: mset_filter[symmetric] filter_id_conv del: mset_filter)
  have fo': "filter_mset (\<lambda>o'. co_epoch_id o' = e) (mset objects) = {#}" if "e \<noteq> nid" for e
    using o(2) that by (auto simp: filter_mset_eq_mempty_iff)
  have "length (epoch_rows nid ps) \<le> length ps" by (simp add: epoch_rows_def)
  then have "length buffers < 2 ^ 64" using length_buffers_of[of "epoch_rows nid ps"] D(6) bufs by simp
  then have size: "unat (of_nat (length buffers) :: usize) = length objects" using o(1) by (simp add: of_nat_small)
  have closed: "e < ?nid \<and> closed_epoch_ok libs uploaded prefix part ps ?waiting e epoch" if "bt_get ?closed e = Some epoch" for e epoch
  proof (cases "e = nid")
    case True
    then show ?thesis
      using that D(12) size fq fo eo j less(2) by (auto simp: closed_epoch_ok_def)
  next
    case False
    then have "bt_get closed e = Some epoch" using that by simp
    then show ?thesis
      using D(1,3)[of e epoch] fo'[OF False] less(2) by (auto simp: closed_epoch_ok_def)
  qed
  have finished: "finished_ok libs uploaded key prefix part ps e" if "e < ?nid" "bt_get ?closed e = None" for e
    using that D(4)[of e] less(2) by (auto split: if_splits)
  have waiting: "\<forall>o' \<in># ?waiting. bt_get ?closed (co_epoch_id o') \<noteq> None"
    using D(15) o(2) by auto
  have unf: "unfinished ?nid ?closed ps = unfinished nid closed ps"
    using empty by (auto simp: unfinished_def epoch_rows_def filter_empty_conv intro!: filter_cong)
  show ?thesis
  proof (rule booksI)
    show "bt_wf ?closed" using D(8) by simp
    show "epoch_rows e ps \<noteq> []" if "e < ?nid" for e using that less(2) D(5) rows by auto
    show "pr_epoch p \<le> ?nid" if "p \<in> set ps" for p using D(16)[OF that] less(1) by (simp add: word_le_nat_alt)
    show "unat buffered = bytes_of (epoch_rows ?nid ps) + sum_mset (image_mset (length \<circ> co_payload) ?waiting)"
      using D(13) o(3) empty by (simp add: sum_mset_sum_list[symmetric])
    show "expected progress d = delivery_count d (unfinished ?nid ?closed ps) + pending d" for d using D(10) unf by simp
  qed (use D(6,7,9,14) closed finished waiting empty in \<open>auto simp: bt_empty_def rows_match_def\<close>)
qed

lemma unfinished_split:
  assumes "e = nid \<or> e \<in> fst ` set closed"
    and "\<And>p. p \<in> set ps \<Longrightarrow> (pr_epoch p = nid' \<or> pr_epoch p \<in> fst ` set closed') \<longleftrightarrow>
      (pr_epoch p = nid \<or> pr_epoch p \<in> fst ` set closed) \<and> pr_epoch p \<noteq> e"
  shows "delivery_count d (unfinished nid closed ps) = delivery_count d (unfinished nid' closed' ps) + delivery_count d (epoch_rows e ps)"
  using assms(2)
proof (induction ps)
  case (Cons p ps)
  then show ?case using assms(1) by (auto simp: unfinished_def)
qed (simp add: unfinished_def)

lemma books_complete_rows:
  assumes "rows_match counts (epoch_rows e ps)" "tracker_inv progress"
    and "\<And>d. expected progress d = delivery_count d u + delivery_count d (epoch_rows e ps) + pending d"
  shows "\<exists>progress'. complete_rows counts progress = Inr progress' \<and> tracker_inv progress' \<and>
    next_received progress' = next_received progress \<and> next_commit progress' = next_commit progress \<and>
    (\<forall>d. expected progress' d = delivery_count d u + pending d)"
proof -
  have "count_rows counts d \<le> expected progress d" for d using assms(1,3) by (simp add: rows_match_def)
  then obtain progress' where "complete_rows counts progress = Inr progress'" "tracker_inv progress'"
    "next_received progress' = next_received progress" "next_commit progress' = next_commit progress"
    "\<forall>d. expected progress' d = expected progress d - count_rows counts d"
    using complete_rows_expected[of counts progress] assms(1,2) by (auto simp: rows_match_def)
  then show ?thesis using assms(1,3) by (auto simp: rows_match_def)
qed

lemma none_waiting:
  assumes "closed_epoch_ok libs uploaded prefix part ps waiting e epoch" "ce_remaining_objects epoch = 0" "o' \<in># waiting"
  shows "co_epoch_id o' \<noteq> e"
  using assms by (auto simp: closed_epoch_ok_def)

lemma books_finish:
  assumes b: "books libs uploaded key prefix part nid buffers counts closed waiting buffered progress ps pending"
    and e: "bt_get closed e = Some epoch" "ce_remaining_objects epoch = 0"
  shows "\<exists>progress'. complete_rows (ce_delivery_rows epoch) progress = Inr progress' \<and>
    next_received progress' = next_received progress \<and> next_commit progress' = next_commit progress \<and>
    books libs uploaded key prefix part nid buffers counts (bt_remove e closed) waiting buffered progress' ps pending"
proof -
  note D = booksD[OF b]
  have ok: "closed_epoch_ok libs uploaded prefix part ps waiting e epoch" by (rule D(3)[OF e(1)])
  have none: "co_epoch_id o' \<noteq> e" if "o' \<in># waiting" for o'
    by (rule none_waiting[OF ok e(2) that])
  have keys: "fst ` set (bt_remove e closed) = fst ` set closed - {e}"
    by (intro set_eqI) (simp add: Diff_iff bt_get_keys[symmetric] D(8) del: image_iff)
  have x: "expected progress d = delivery_count d (unfinished nid (bt_remove e closed) ps) + delivery_count d (epoch_rows e ps) + pending d" for d
    using D(10)[of d] unfinished_split[of e nid closed ps nid "bt_remove e closed" d] keys e(1) D(2)[OF e(1)]
    by (auto simp: bt_get_keys[symmetric])
  have "rows_match (ce_delivery_rows epoch) (epoch_rows e ps)" using ok by (simp add: closed_epoch_ok_def)
  then obtain progress' where p: "complete_rows (ce_delivery_rows epoch) progress = Inr progress'" "tracker_inv progress'"
    "next_received progress' = next_received progress" "next_commit progress' = next_commit progress"
    "\<forall>d. expected progress' d = delivery_count d (unfinished nid (bt_remove e closed) ps) + pending d"
    using books_complete_rows[OF _ D(9) x] by blast
  obtain objects where objs: "epoch_objects libs prefix ps e = Inr objects" "\<forall>o' \<in> set objects. o' \<in># waiting \<or> (co_key o', co_payload o') \<in> uploaded"
    using ok by (auto simp: closed_epoch_ok_def)
  have "co_epoch_id o' = e" if "o' \<in> set objects" for o'
    using close_objects_ok[OF objs(1)[unfolded epoch_objects_def]] that by blast
  then have "(co_key o', co_payload o') \<in> uploaded" if "o' \<in> set objects" for o' using objs(2) none that by blast
  then have fin: "finished_ok libs uploaded key prefix part ps e" using objs(1) in_storeI by (auto simp: finished_ok_def)
  have "books libs uploaded key prefix part nid buffers counts (bt_remove e closed) waiting buffered progress' ps pending"
  proof (rule booksI)
    show "bt_get (bt_remove e closed) (co_epoch_id o') \<noteq> None" if "o' \<in># waiting" for o'
      using D(15)[OF that] none[OF that] D(8) by auto
    show "finished_ok libs uploaded key prefix part ps x" if "x < nid" "bt_get (bt_remove e closed) x = None" for x
      using that D(4)[of x] D(8) fin by (auto split: if_splits)
    show "x < nid \<and> closed_epoch_ok libs uploaded prefix part ps waiting x epoch" if "bt_get (bt_remove e closed) x = Some epoch" for x epoch
      using that D(1,3)[of x epoch] D(8) by (auto split: if_splits)
  qed (use D(5-8,11-14,16) p in auto)
  then show ?thesis using p by blast
qed

lemma books_replay:
  assumes b: "books libs uploaded key prefix part nid buffers counts closed waiting buffered progress ps pending"
    and ne: "buffers \<noteq> []" and objs: "close_objects libs prefix nid buffers = Inr objects"
    and durable: "journal_key (sl_sha256 libs) part (map (manifest_object_of (sl_sha256 libs)) objects) = key \<Longrightarrow>
      \<forall>o' \<in> set objects. in_store (sl_sha256 libs) uploaded (manifest_object_of (sl_sha256 libs) o')"
    and buf: "unat buffered = unat buffered' + buffer_bytes buffers"
  shows "\<exists>progress'. complete_rows counts progress = Inr progress' \<and>
    next_received progress' = next_received progress \<and> next_commit progress' = next_commit progress \<and>
    books libs uploaded key prefix part (saturating_add nid 1) [] [] closed waiting buffered' progress' ps pending"
    (is "\<exists>progress'. _ \<and> _ \<and> _ \<and> books _ _ _ _ _ ?nid _ _ _ _ _ _ _ _")
proof -
  note D = booksD[OF b]
  note less = next_epoch_less[OF D(5,6)]
  have eo: "epoch_objects libs prefix ps nid = Inr objects" using objs D(11) by (simp add: epoch_objects_def)
  have fresh: "pr_epoch p \<noteq> ?nid" if "p \<in> set ps" for p using D(16)[OF that] less(1) by (auto simp: word_le_nat_alt)
  then have empty: "epoch_rows ?nid ps = []" by (auto simp: epoch_rows_def filter_empty_conv)
  have rows: "epoch_rows nid ps \<noteq> []" using ne D(11) by (auto simp: buffers_of_empty[symmetric])
  have nk: "nid \<notin> fst ` set closed" using books_fresh[OF b] by (simp add: bt_get_None)
  have x: "expected progress d = delivery_count d (unfinished ?nid closed ps) + delivery_count d (epoch_rows nid ps) + pending d" for d
    using D(10)[of d] unfinished_split[of nid nid closed ps ?nid closed d] fresh nk by auto
  obtain progress' where p: "complete_rows counts progress = Inr progress'" "tracker_inv progress'"
    "next_received progress' = next_received progress" "next_commit progress' = next_commit progress"
    "\<forall>d. expected progress' d = delivery_count d (unfinished ?nid closed ps) + pending d"
    using books_complete_rows[OF D(12,9) x] by auto
  have "books libs uploaded key prefix part ?nid [] [] closed waiting buffered' progress' ps pending"
  proof (rule booksI)
    show "e < ?nid \<and> closed_epoch_ok libs uploaded prefix part ps waiting e epoch" if "bt_get closed e = Some epoch" for e epoch
      using D(1,3)[OF that] less(2) by simp
    show "finished_ok libs uploaded key prefix part ps e" if "e < ?nid" "bt_get closed e = None" for e
      using that D(4) less(2) eo durable by (auto simp: finished_ok_def)
    show "epoch_rows e ps \<noteq> []" if "e < ?nid" for e using that less(2) D(5) rows by auto
    show "pr_epoch p \<le> ?nid" if "p \<in> set ps" for p using D(16)[OF that] less(1) by (simp add: word_le_nat_alt)
    show "unat buffered' = bytes_of (epoch_rows ?nid ps) + sum_mset (image_mset (length \<circ> co_payload) waiting)"
      using D(11,13) buf empty by simp
    show "unat buffered' \<le> bytes_of ps" using D(14) buf by simp
  qed (use D(6-8,15) p empty in \<open>auto simp: bt_empty_def rows_match_def\<close>)
  then show ?thesis using p by blast
qed

lemma books_uploaded:
  assumes b: "books libs uploaded key prefix part nid buffers counts closed waiting buffered progress ps pending"
    and o: "o' \<in># waiting" "(co_key o', co_payload o') \<in> uploaded"
  shows "\<exists>epoch left buffered'. bt_get closed (co_epoch_id o') = Some epoch \<and> \<not> ce_journal_closed epoch \<and>
    checked_sub (ce_remaining_objects epoch) 1 = Some left \<and>
    checked_sub buffered (of_nat (length (co_payload o'))) = Some buffered' \<and>
    books libs uploaded key prefix part nid buffers counts
      (bt_insert (co_epoch_id o') (epoch\<lparr>ce_remaining_objects := left\<rparr>) closed) (waiting - {#o'#}) buffered' progress ps pending"
proof -
  note D = booksD[OF b]
  let ?e = "co_epoch_id o'" and ?n = "length (co_payload o')"
  obtain epoch where e: "bt_get closed ?e = Some epoch" using D(15)[OF o(1)] by blast
  have ok: "closed_epoch_ok libs uploaded prefix part ps waiting ?e epoch" by (rule D(3)[OF e])
  obtain rest where w: "waiting = add_mset o' rest" using o(1) by (meson mset_add)
  have r: "unat (ce_remaining_objects epoch) = Suc (size (filter_mset (\<lambda>x. co_epoch_id x = ?e) rest))"
    using ok w by (simp add: closed_epoch_ok_def)
  then obtain left where left: "checked_sub (ce_remaining_objects epoch) 1 = Some left"
    "unat left = size (filter_mset (\<lambda>x. co_epoch_id x = ?e) rest)"
    using checked_sub_le[of 1 "ce_remaining_objects epoch"] by auto
  have n: "?n \<le> unat buffered" using D(13) w by simp
  then have un: "unat (of_nat ?n :: usize) = ?n" using unat_less_pow[of buffered] by (intro of_nat_small) simp
  then obtain buffered' where buf: "checked_sub buffered (of_nat ?n) = Some buffered'" "unat buffered = ?n + unat buffered'"
    using n checked_sub_le[of "of_nat ?n" buffered] by auto
  let ?closed = "bt_insert ?e (epoch\<lparr>ce_remaining_objects := left\<rparr>) closed"
  have keys: "fst ` set ?closed = fst ` set closed" using e by (auto simp: bt_get_keys[symmetric])
  have "books libs uploaded key prefix part nid buffers counts ?closed rest buffered' progress ps pending"
  proof (rule booksI)
    show "x < nid \<and> closed_epoch_ok libs uploaded prefix part ps rest x y" if "bt_get ?closed x = Some y" for x y
    proof (cases "x = ?e")
      case True
      then have y: "y = epoch\<lparr>ce_remaining_objects := left\<rparr>" using that by simp
      show ?thesis
        using ok D(1)[OF e] left(2) o(2) w y True by (auto simp: closed_epoch_ok_def)
    next
      case False
      then have x: "bt_get closed x = Some y" using that by simp
      show ?thesis
        using D(1,3)[OF x] w False o(2) by (auto simp: closed_epoch_ok_def)
    qed
    show "bt_get ?closed (co_epoch_id x) \<noteq> None" if "x \<in># rest" for x using D(15)[of x] w that by auto
    show "finished_ok libs uploaded key prefix part ps x" if "x < nid" "bt_get ?closed x = None" for x
      using D(4)[of x] that by (auto split: if_splits)
    show "unat buffered' = bytes_of (epoch_rows nid ps) + sum_mset (image_mset (length \<circ> co_payload) rest)"
      using D(13) w buf(2) by simp
    show "unat buffered' \<le> bytes_of ps" using D(14) buf(2) by simp
    show "expected progress d = delivery_count d (unfinished nid ?closed ps) + pending d" for d
      using D(10)[of d] keys by (simp add: unfinished_def)
  qed (use D(5-9,11,12,16) in auto)
  then show ?thesis using e ok left(1) buf(1) w by (auto simp: closed_epoch_ok_def)
qed

subsection \<open>Every operation keeps the books\<close>

definition sink_ok ::
  "s3_libs \<Rightarrow> (string \<times> u8 list) set \<Rightarrow> string \<Rightarrow> s3_sink \<Rightarrow> closed_object list \<Rightarrow> placed_row list \<Rightarrow>
   (delivery_id \<Rightarrow> nat) \<Rightarrow> bool" where
  "sink_ok libs uploaded key s uploads ps pending \<longleftrightarrow>
     books libs uploaded key (ac_prefix (sk_config s)) (sk_expected_partition_id s) (sk_next_epoch_id s)
       (ep_buffers (sk_epoch s)) (ep_delivery_rows (sk_epoch s)) (sk_closed_epochs s) (mset (sk_ready s) + mset uploads)
       (sk_buffered_bytes s) (sk_progress s) ps pending \<and>
     unat (sk_in_flight_objects s) = length uploads"

text \<open>What no operation changes, apart from accepting a delivery and reporting commits.\<close>

definition kept :: "s3_sink \<Rightarrow> s3_sink \<Rightarrow> bool" where
  "kept s s' \<longleftrightarrow>
     sk_config s' = sk_config s \<and> sk_expected_partition_id s' = sk_expected_partition_id s \<and>
     next_received (sk_progress s') = next_received (sk_progress s) \<and>
     next_commit (sk_progress s') = next_commit (sk_progress s)"

lemma kept_refl [simp]: "kept s s"
  by (simp add: kept_def)

lemma kept_trans [trans]: "kept s s' \<Longrightarrow> kept s' s'' \<Longrightarrow> kept s s''"
  by (simp add: kept_def)

lemma bt_remove_insert: "bt_wf m \<Longrightarrow> bt_remove k (bt_insert k v m) = bt_remove k m"
  by (rule bt_eqI) simp_all

text \<open>The journals of the epochs being uploaded.\<close>

definition open_journals :: "s3_sink \<Rightarrow> epoch_journal set" where
  "open_journals s = (\<lambda>e. ce_journal (snd e)) ` set (sk_closed_epochs s)"

lemma open_journals_remove:
  "(\<lambda>e. ce_journal (snd e)) ` set (bt_remove k m) \<subseteq> (\<lambda>e. ce_journal (snd e)) ` set m"
  by (auto dest: bt_remove_mem)

lemma open_journals_insert:
  "(\<lambda>e. ce_journal (snd e)) ` set (bt_insert k v m) \<subseteq> insert (ce_journal v) ((\<lambda>e. ce_journal (snd e)) ` set m)"
  by (auto dest!: bt_insert_mem)

lemma open_journals_get: "bt_get m k = Some v \<Longrightarrow> ce_journal v \<in> (\<lambda>e. ce_journal (snd e)) ` set m"
  by (force dest: bt_get_Some_mem)

lemma finalize_closed_ok:
  assumes ok: "sink_ok libs uploaded key s uploads ps pending"
    and e: "bt_get (sk_closed_epochs s) e = Some epoch" "ce_remaining_objects epoch = 0"
  shows "\<exists>s'. finalize_epoch e (s\<lparr>sk_closed_epochs := bt_insert e (epoch\<lparr>ce_journal_closed := True\<rparr>) (sk_closed_epochs s)\<rparr>) = Inr s' \<and>
    sink_ok libs uploaded key s' uploads ps pending \<and> kept s s' \<and> open_journals s' \<subseteq> open_journals s"
proof -
  let ?b = "books libs uploaded key (ac_prefix (sk_config s)) (sk_expected_partition_id s) (sk_next_epoch_id s)
       (ep_buffers (sk_epoch s)) (ep_delivery_rows (sk_epoch s))"
  have b: "?b (sk_closed_epochs s) (mset (sk_ready s) + mset uploads) (sk_buffered_bytes s) (sk_progress s) ps pending"
    using ok by (simp add: sink_ok_def)
  obtain p where p: "complete_rows (ce_delivery_rows epoch) (sk_progress s) = Inr p"
    "next_received p = next_received (sk_progress s)" "next_commit p = next_commit (sk_progress s)"
    "?b (bt_remove e (sk_closed_epochs s)) (mset (sk_ready s) + mset uploads) (sk_buffered_bytes s) p ps pending"
    using books_finish[OF b e] by blast
  then show ?thesis
    using ok booksD(8)[OF b] open_journals_remove
    by (simp add: finalize_epoch_def bt_remove_insert sink_ok_def kept_def open_journals_def)
qed

lemma complete_upload_ok:
  assumes ok: "sink_ok libs uploaded key s uploads ps pending"
    and o: "o' \<in> set uploads" "(co_key o', co_payload o') \<in> uploaded"
  shows "\<exists>s'. complete_upload o' (Inr ()) s = Inr s' \<and> sink_ok libs uploaded key s' (remove1 o' uploads) ps pending \<and> kept s s' \<and>
    open_journals s' \<subseteq> open_journals s"
proof -
  let ?b = "books libs uploaded key (ac_prefix (sk_config s)) (sk_expected_partition_id s) (sk_next_epoch_id s)
       (ep_buffers (sk_epoch s)) (ep_delivery_rows (sk_epoch s))"
  have b: "?b (sk_closed_epochs s) (mset (sk_ready s) + mset uploads) (sk_buffered_bytes s) (sk_progress s) ps pending"
    and n: "unat (sk_in_flight_objects s) = length uploads"
    using ok by (simp_all add: sink_ok_def)
  have len: "length uploads = Suc (length (remove1 o' uploads))"
    using o(1) by (simp add: length_remove1) (metis Suc_pred length_pos_if_in_set)
  then obtain m where m: "checked_sub (sk_in_flight_objects s) 1 = Some m" "unat m = length (remove1 o' uploads)"
    using checked_sub_le[of 1 "sk_in_flight_objects s"] n by auto
  have w: "mset (sk_ready s) + mset (remove1 o' uploads) = mset (sk_ready s) + mset uploads - {#o'#}"
    using o(1) by simp
  obtain epoch left buffered' where u: "bt_get (sk_closed_epochs s) (co_epoch_id o') = Some epoch" "\<not> ce_journal_closed epoch"
    "checked_sub (ce_remaining_objects epoch) 1 = Some left"
    "checked_sub (sk_buffered_bytes s) (of_nat (length (co_payload o'))) = Some buffered'"
    "?b (bt_insert (co_epoch_id o') (epoch\<lparr>ce_remaining_objects := left\<rparr>) (sk_closed_epochs s))
       (mset (sk_ready s) + mset (remove1 o' uploads)) buffered' (sk_progress s) ps pending"
    using books_uploaded[OF b _ o(2)] o(1) w by auto
  moreover have "(\<lambda>e. ce_journal (snd e)) ` set (bt_insert (co_epoch_id o') (epoch\<lparr>ce_remaining_objects := left\<rparr>) (sk_closed_epochs s)) \<subseteq>
      (\<lambda>e. ce_journal (snd e)) ` set (sk_closed_epochs s)"
    using open_journals_insert[of "co_epoch_id o'" "epoch\<lparr>ce_remaining_objects := left\<rparr>" "sk_closed_epochs s"]
      open_journals_get[OF u(1)] by (simp add: insert_absorb)
  ultimately show ?thesis
    using m by (simp add: complete_upload_def complete_durable_object_def Let_def sink_ok_def kept_def open_journals_def)
qed

lemma complete_upload_failed:
  assumes "sink_ok libs uploaded key s uploads ps pending" "o' \<in> set uploads"
  shows "complete_upload o' (Inl e) s = Inl (Upload_failed e)"
proof -
  have "1 \<le> unat (sk_in_flight_objects s)"
    using assms by (auto simp: sink_ok_def Suc_le_eq length_pos_if_in_set)
  then show ?thesis using checked_sub_le[of 1 "sk_in_flight_objects s"] by (auto simp: complete_upload_def)
qed

text \<open>Completing all objects of an epoch that was closed before finishes the epoch.\<close>

lemma complete_replayed_eq:
  assumes "objects \<noteq> []" "\<forall>o' \<in> set objects. co_epoch_id o' = e"
    and "bt_get (sk_closed_epochs s) e = Some epoch" "ce_journal_closed epoch" "bt_wf (sk_closed_epochs s)"
    and "unat (ce_remaining_objects epoch) = length objects"
    and "unat (sk_buffered_bytes s) = unat buffered' + sum_list (map (length \<circ> co_payload) objects)"
  shows "complete_replayed objects s =
    (case complete_rows (ce_delivery_rows epoch) (sk_progress s) of
       Inl x \<Rightarrow> Inl (Complete_failed x)
     | Inr p \<Rightarrow> Inr (s\<lparr>sk_closed_epochs := bt_remove e (sk_closed_epochs s), sk_progress := p, sk_buffered_bytes := buffered'\<rparr>))"
  using assms
proof (induction objects arbitrary: s epoch)
  case (Cons o' objects)
  let ?n = "length (co_payload o')"
  have "?n \<le> unat (sk_buffered_bytes s)" using Cons.prems(7) by simp
  moreover from this have "unat (of_nat ?n :: usize) = ?n"
    using unat_less_pow[of "sk_buffered_bytes s"] by (intro of_nat_small) simp
  ultimately obtain b where b: "checked_sub (sk_buffered_bytes s) (of_nat ?n) = Some b" "unat (sk_buffered_bytes s) = ?n + unat b"
    using checked_sub_le[of "of_nat ?n" "sk_buffered_bytes s"] by auto
  obtain r where r: "checked_sub (ce_remaining_objects epoch) 1 = Some r" "unat r = length objects"
    using checked_sub_le[of 1 "ce_remaining_objects epoch"] Cons.prems(6) by auto
  let ?s = "s\<lparr>sk_buffered_bytes := b, sk_closed_epochs := bt_insert e (epoch\<lparr>ce_remaining_objects := r\<rparr>) (sk_closed_epochs s)\<rparr>"
  show ?case
  proof (cases "objects = []")
    case True
    then have "r = 0" "b = buffered'" using r(2) b(2) Cons.prems(7) by (simp_all add: unat_eq_zero[symmetric] word_unat_eq_iff)
    then show ?thesis
      using Cons.prems b(1) r(1) True
      by (auto simp: complete_durable_object_def Let_def finalize_epoch_def bt_remove_insert res_bind_def split: sum.splits)
  next
    case False
    then have "r \<noteq> 0" using r(2) by (auto simp: unat_eq_zero[symmetric])
    then have "complete_replayed (o' # objects) s = complete_replayed objects ?s"
      using Cons.prems b(1) r(1) by (simp add: complete_durable_object_def Let_def res_bind_def)
    moreover have "complete_replayed objects ?s =
        (case complete_rows (ce_delivery_rows (epoch\<lparr>ce_remaining_objects := r\<rparr>)) (sk_progress ?s) of
           Inl x \<Rightarrow> Inl (Complete_failed x)
         | Inr p \<Rightarrow> Inr (?s\<lparr>sk_closed_epochs := bt_remove e (sk_closed_epochs ?s), sk_progress := p, sk_buffered_bytes := buffered'\<rparr>))"
      by (rule Cons.IH) (use Cons.prems False b(2) r(2) in auto)
    ultimately show ?thesis using Cons.prems(5) by (simp add: bt_remove_insert split: sum.split)
  qed
qed simp

lemma bt_remove_absent: "bt_get m k = None \<Longrightarrow> bt_remove k m = m"
  by (induction k m rule: bt_remove.induct) (auto split: if_splits)

lemma install_epoch_ok:
  assumes ok: "sink_ok libs uploaded key s uploads ps pending" and ne: "ep_buffers (sk_epoch s) \<noteq> []"
    and objs: "close_objects libs (ac_prefix (sk_config s)) (sk_next_epoch_id s) (ep_buffers (sk_epoch s)) = Inr objects"
    and j: "journal_new (sl_sha256 libs) (sl_json libs) (sk_expected_partition_id s) objects = Inr journal"
    and durable: "disposition = AlreadyClosed \<Longrightarrow> ej_key journal = key \<Longrightarrow>
      \<forall>m \<in> set (er_objects (ej_open journal)). in_store (sl_sha256 libs) uploaded m"
  shows "\<exists>s'. install_epoch (sk_next_epoch_id s) (sk_epoch s) objects journal disposition
      (s\<lparr>sk_epoch := epoch_default, sk_next_epoch_id := saturating_add (sk_next_epoch_id s) 1\<rparr>) = Inr s' \<and>
    sink_ok libs uploaded key s' uploads ps pending \<and> kept s s' \<and>
    open_journals s' \<subseteq> open_journals s \<union> {j. j = journal \<and> disposition = Upload}"
proof -
  let ?b = "\<lambda>nid buffers counts. books libs uploaded key (ac_prefix (sk_config s)) (sk_expected_partition_id s) nid buffers counts"
  let ?nid = "sk_next_epoch_id s"
  have b: "?b ?nid (ep_buffers (sk_epoch s)) (ep_delivery_rows (sk_epoch s)) (sk_closed_epochs s)
      (mset (sk_ready s) + mset uploads) (sk_buffered_bytes s) (sk_progress s) ps pending"
    and n: "unat (sk_in_flight_objects s) = length uploads"
    using ok by (simp_all add: sink_ok_def)
  have bw: "bt_wf (sk_closed_epochs s)" "bt_get (sk_closed_epochs s) ?nid = None" using booksD(8)[OF b] books_fresh[OF b] by auto
  have default: "ep_buffers epoch_default = []" "ep_delivery_rows epoch_default = []"
    by (simp_all add: epoch_default_def bt_empty_def)
  show ?thesis
  proof (cases disposition)
    case Upload
    let ?epoch = "\<lparr>ce_remaining_objects = of_nat (length (ep_buffers (sk_epoch s))), ce_delivery_rows = ep_delivery_rows (sk_epoch s),
      ce_reservations = ep_reservations (sk_epoch s), ce_journal = journal, ce_journal_closed = False\<rparr>"
    let ?s = "s\<lparr>sk_epoch := epoch_default, sk_next_epoch_id := saturating_add ?nid 1,
      sk_closed_epochs := bt_insert ?nid ?epoch (sk_closed_epochs s), sk_ready := sk_ready s @ objects\<rparr>"
    have w: "mset (sk_ready s) + mset objects + mset uploads = mset (sk_ready s) + mset uploads + mset objects" by simp
    have "sink_ok libs uploaded key ?s uploads ps pending"
      using books_open[OF b ne objs j, of "ep_reservations (sk_epoch s)"] n default by (simp add: sink_ok_def w)
    moreover have "open_journals ?s \<subseteq> open_journals s \<union> {j. j = journal \<and> disposition = Upload}"
      using open_journals_insert[of ?nid ?epoch "sk_closed_epochs s"] Upload by (auto simp: open_journals_def)
    ultimately show ?thesis
      using Upload by (simp add: install_epoch_def kept_def)
  next
    case AlreadyClosed
    note new = journal_new_ok[OF j]
    have o: "length objects = length (ep_buffers (sk_epoch s))" "\<forall>o' \<in> set objects. co_epoch_id o' = ?nid"
      "sum_list (map (length \<circ> co_payload) objects) = buffer_bytes (ep_buffers (sk_epoch s))"
      using close_objects_ok[OF objs] by auto
    have bytes: "buffer_bytes (ep_buffers (sk_epoch s)) \<le> unat (sk_buffered_bytes s)"
      using booksD(11,13)[OF b] by simp
    then have "unat (of_nat (buffer_bytes (ep_buffers (sk_epoch s))) :: usize) = buffer_bytes (ep_buffers (sk_epoch s))"
      using unat_less_pow[of "sk_buffered_bytes s"] by (intro of_nat_small) simp
    then obtain buffered' :: usize where "unat (sk_buffered_bytes s) = buffer_bytes (ep_buffers (sk_epoch s)) + unat buffered'"
      using checked_sub_le[of "of_nat (buffer_bytes (ep_buffers (sk_epoch s)))" "sk_buffered_bytes s"] bytes by metis
    then have buf: "unat (sk_buffered_bytes s) = unat buffered' + buffer_bytes (ep_buffers (sk_epoch s))" by simp
    have store: "\<forall>o' \<in> set objects. in_store (sl_sha256 libs) uploaded (manifest_object_of (sl_sha256 libs) o')"
      if "journal_key (sl_sha256 libs) (sk_expected_partition_id s) (map (manifest_object_of (sl_sha256 libs)) objects) = key"
      using durable[OF AlreadyClosed] new(2,3) that by simp
    obtain p where p: "complete_rows (ep_delivery_rows (sk_epoch s)) (sk_progress s) = Inr p"
      "next_received p = next_received (sk_progress s)" "next_commit p = next_commit (sk_progress s)"
      "?b (saturating_add ?nid 1) [] [] (sk_closed_epochs s) (mset (sk_ready s) + mset uploads) buffered' p ps pending"
      using books_replay[OF b ne objs store buf] by blast
    let ?epoch = "\<lparr>ce_remaining_objects = of_nat (length (ep_buffers (sk_epoch s))), ce_delivery_rows = ep_delivery_rows (sk_epoch s),
      ce_reservations = ep_reservations (sk_epoch s), ce_journal = journal, ce_journal_closed = True\<rparr>"
    let ?s = "s\<lparr>sk_epoch := epoch_default, sk_next_epoch_id := saturating_add ?nid 1,
      sk_closed_epochs := bt_insert ?nid ?epoch (sk_closed_epochs s)\<rparr>"
    have "length (epoch_rows ?nid ps) \<le> length ps" by (simp add: epoch_rows_def)
    then have "length (ep_buffers (sk_epoch s)) < 2 ^ 64"
      using length_buffers_of[of "epoch_rows ?nid ps"] booksD(6,11)[OF b] by simp
    then have "unat (of_nat (length (ep_buffers (sk_epoch s))) :: usize) = length objects" using o(1) by (simp add: of_nat_small)
    moreover have "objects \<noteq> []" using ne o(1) by auto
    ultimately have "complete_replayed objects ?s =
        Inr (?s\<lparr>sk_closed_epochs := bt_remove ?nid (sk_closed_epochs ?s), sk_progress := p, sk_buffered_bytes := buffered'\<rparr>)"
      using complete_replayed_eq[of objects ?nid ?s ?epoch buffered'] o buf bw(1) p(1) by simp
    then show ?thesis
      using AlreadyClosed p n default bw
      by (auto simp: install_epoch_def Let_def sink_ok_def kept_def open_journals_def bt_remove_insert bt_remove_absent)
  qed
qed

subsection \<open>Operations that use the journal\<close>

text \<open>
  Errors that come from outside the sink: its input, the object store, the journal. Of the journal of one
  key it is known that it only reports a mismatch or a failure of the storage.
\<close>

definition journal_keys :: "s3_libs \<Rightarrow> string \<Rightarrow> bool" where
  "journal_keys libs k \<longleftrightarrow> (\<exists>part objects. k = journal_key (sl_sha256 libs) part objects)"

fun external :: "s3_libs \<Rightarrow> string \<Rightarrow> s3_error \<Rightarrow> bool" where
  "external libs key (Journal_failed k e) =
     (journal_keys libs k \<and> (k = key \<longrightarrow> e = Journal_mismatch k \<or> (\<exists>d. e = Journal_storage_failed d)))"
| "external libs key Encoder_index_out_of_range = False"
| "external libs key (Complete_failed e) = False"
| "external libs key Replayed_bytes_underflow = False"
| "external libs key In_flight_underflow = False"
| "external libs key Bytes_underflow = False"
| "external libs key (Missing_epoch_progress e) = False"
| "external libs key Epoch_progress_underflow = False"
| "external libs key (Completed_epoch_disappeared e) = False"
| "external libs key (Closing_epoch_disappeared e) = False"
| "external libs key Stopped_with_incomplete_progress = False"
| "external libs key _ = True"

definition journals_recorded :: "epoch_record json_codec \<Rightarrow> string \<Rightarrow> u8 list list \<Rightarrow> s3_sink \<Rightarrow> bool" where
  "journals_recorded js key h s \<longleftrightarrow> (\<forall>j \<in> open_journals s. ej_key j = key \<longrightarrow> recorded js j h)"

text \<open>The protocol of a journal key, with the objects of the store.\<close>

abbreviation s3_keeps ::
  "s3_libs \<Rightarrow> (string \<times> u8 list) set \<Rightarrow> string \<Rightarrow> (u8 list list \<Rightarrow> 'r \<Rightarrow> bool) \<Rightarrow> 'r dprog \<Rightarrow> u8 list list \<Rightarrow> bool" where
  "s3_keeps libs uploaded key \<equiv>
     keeps_among (journal_keys libs) key (decodes (sl_json libs) journal_initial)
       (decodes2 (sl_json libs) (journal_closes (in_store (sl_sha256 libs) uploaded)))"

abbreviation s3_chain :: "s3_libs \<Rightarrow> (string \<times> u8 list) set \<Rightarrow> u8 list list \<Rightarrow> bool" where
  "s3_chain libs uploaded \<equiv>
     chain (decodes (sl_json libs) journal_initial)
       (decodes2 (sl_json libs) (journal_closes (in_store (sl_sha256 libs) uploaded)))"

definition s3_post ::
  "s3_libs \<Rightarrow> (string \<times> u8 list) set \<Rightarrow> string \<Rightarrow> s3_sink \<Rightarrow> closed_object list \<Rightarrow> placed_row list \<Rightarrow> (delivery_id \<Rightarrow> nat) \<Rightarrow>
   u8 list list \<Rightarrow> (s3_error, s3_sink) res \<Rightarrow> bool" where
  "s3_post libs uploaded key s uploads ps pending h r =
     (case r of
        Inl e \<Rightarrow> external libs key e
      | Inr s' \<Rightarrow> sink_ok libs uploaded key s' uploads ps pending \<and> kept s s' \<and> journals_recorded (sl_json libs) key h s')"

lemma journals_recorded_extends: "journals_recorded js key h s \<Longrightarrow> extends h h' \<Longrightarrow> journals_recorded js key h' s"
  by (auto simp: journals_recorded_def intro: recorded_extends)

lemma journals_recorded_mono: "journals_recorded js key h s \<Longrightarrow> open_journals s' \<subseteq> open_journals s \<Longrightarrow> journals_recorded js key h s'"
  by (auto simp: journals_recorded_def)

lemma journal_new_key: "journal_new (sl_sha256 libs) js part objects = Inr j \<Longrightarrow> journal_keys libs (ej_key j)"
  using journal_new_ok(2) by (auto simp: journal_keys_def)

lemma close_epoch_keeps:
  assumes js: "json_laws (sl_json libs)" and ok: "sink_ok libs uploaded key s uploads ps pending"
    and rec: "journals_recorded (sl_json libs) key h s" and chain: "s3_chain libs uploaded h"
  shows "s3_keeps libs uploaded key (s3_post libs uploaded key s uploads ps pending) (close_epoch libs s) h"
proof (cases "ep_buffers (sk_epoch s) = []")
  case True
  then show ?thesis using ok rec by (simp add: close_epoch_def s3_post_def)
next
  case ne: False
  let ?objs = "close_objects libs (ac_prefix (sk_config s)) (sk_next_epoch_id s) (ep_buffers (sk_epoch s))"
  show ?thesis
  proof (cases ?objs)
    case (Inl e)
    then show ?thesis using ne by (simp add: close_epoch_def Let_def s3_post_def)
  next
    case objs: (Inr objects)
    let ?new = "journal_new (sl_sha256 libs) (sl_json libs) (sk_expected_partition_id s) objects"
    show ?thesis
    proof (cases ?new)
      case (Inl e)
      then show ?thesis using ne objs by (simp add: close_epoch_def Let_def s3_post_def)
    next
      case j: (Inr journal)
      let ?s = "s\<lparr>sk_epoch := epoch_default, sk_next_epoch_id := saturating_add (sk_next_epoch_id s) 1\<rparr>"
      let ?finish = "\<lambda>r. case r of Inl e \<Rightarrow> Inl (Journal_failed (ej_key journal) e)
        | Inr disposition \<Rightarrow> install_epoch (sk_next_epoch_id s) (sk_epoch s) objects journal disposition ?s"
      have eq: "close_epoch libs s = dmap ?finish (ensure_open (sl_json libs) journal)"
        using ne objs j by (simp add: close_epoch_def Let_def)
      have fin: "s3_post libs uploaded key s uploads ps pending h' (?finish r)"
        if h': "extends h h'" "ej_key journal = key \<longrightarrow> opened_ok (in_store (sl_sha256 libs) uploaded) (sl_json libs) journal h' r" for h' r
      proof (cases r)
        case (Inl e)
        then show ?thesis using h'(2) journal_new_key[OF j] by (auto simp: s3_post_def opened_ok_def)
      next
        case (Inr d)
        have "\<forall>m \<in> set (er_objects (ej_open journal)). in_store (sl_sha256 libs) uploaded m"
          if "d = AlreadyClosed" "ej_key journal = key" using h'(2) Inr that by (simp add: opened_ok_def)
        then obtain s' where s': "install_epoch (sk_next_epoch_id s) (sk_epoch s) objects journal d ?s = Inr s'"
          "sink_ok libs uploaded key s' uploads ps pending" "kept s s'"
          "open_journals s' \<subseteq> open_journals s \<union> {j. j = journal \<and> d = Upload}"
          using install_epoch_ok[OF ok ne objs j, of d] by blast
        have "recorded (sl_json libs) journal h'" if "d = Upload" "ej_key journal = key"
          using h'(2) Inr that by (simp add: opened_ok_def)
        then have "journals_recorded (sl_json libs) key h' s'"
          using journals_recorded_extends[OF rec h'(1)] s'(4) by (fastforce simp: journals_recorded_def)
        then show ?thesis using s' Inr by (simp add: s3_post_def)
      qed
      have "s3_keeps libs uploaded key (\<lambda>h r. ej_key journal = key \<longrightarrow>
          opened_ok (in_store (sl_sha256 libs) uploaded) (sl_json libs) journal h r) (ensure_open (sl_json libs) journal) h"
        using journal_new_ok(1)[OF j] journal_new_key[OF j] by (intro ensure_open_keeps_any js chain)
      then show ?thesis
        unfolding eq keeps_dmap by (rule keeps_mono[OF _ chain]) (rule fin)
    qed
  qed
qed

lemma closed_epoch_durable:
  assumes ok: "sink_ok libs uploaded key s uploads ps pending"
    and e: "bt_get (sk_closed_epochs s) e = Some epoch" "ce_remaining_objects epoch = 0"
  shows "journal_wf (sl_json libs) (ce_journal epoch)" "journal_keys libs (ej_key (ce_journal epoch))"
    "\<forall>m \<in> set (er_objects (ej_open (ce_journal epoch))). in_store (sl_sha256 libs) uploaded m" "\<not> ce_journal_closed epoch"
proof -
  let ?w = "mset (sk_ready s) + mset uploads"
  have c: "closed_epoch_ok libs uploaded (ac_prefix (sk_config s)) (sk_expected_partition_id s) ps ?w e epoch"
    using booksD(3)[OF _ e(1)] ok unfolding sink_ok_def by blast
  obtain objects where objs: "epoch_objects libs (ac_prefix (sk_config s)) ps e = Inr objects"
    "journal_new (sl_sha256 libs) (sl_json libs) (sk_expected_partition_id s) objects = Inr (ce_journal epoch)"
    "\<forall>o' \<in> set objects. o' \<in># ?w \<or> (co_key o', co_payload o') \<in> uploaded"
    using c by (auto simp: closed_epoch_ok_def)
  have none: "co_epoch_id o' \<noteq> e" if "o' \<in># ?w" for o'
    by (rule none_waiting[OF c e(2) that])
  have "co_epoch_id o' = e" if "o' \<in> set objects" for o'
    using close_objects_ok[OF objs(1)[unfolded epoch_objects_def]] that by blast
  then have "(co_key o', co_payload o') \<in> uploaded" if "o' \<in> set objects" for o' using objs(3) none that by blast
  then show "\<forall>m \<in> set (er_objects (ej_open (ce_journal epoch))). in_store (sl_sha256 libs) uploaded m"
    using journal_new_ok(3)[OF objs(2)] in_storeI by auto
  show "journal_wf (sl_json libs) (ce_journal epoch)" "journal_keys libs (ej_key (ce_journal epoch))" "\<not> ce_journal_closed epoch"
    using journal_new_ok(1)[OF objs(2)] journal_new_key[OF objs(2)] c by (auto simp: closed_epoch_ok_def)
qed

definition close_post ::
  "s3_libs \<Rightarrow> (string \<times> u8 list) set \<Rightarrow> string \<Rightarrow> s3_sink \<Rightarrow> closed_object list \<Rightarrow> placed_row list \<Rightarrow> (delivery_id \<Rightarrow> nat) \<Rightarrow>
   u8 list list \<Rightarrow> (s3_error, s3_sink \<times> bool) res \<Rightarrow> bool" where
  "close_post libs uploaded key s uploads ps pending h r =
     (case r of
        Inl e \<Rightarrow> external libs key e
      | Inr (s', found) \<Rightarrow> s3_post libs uploaded key s uploads ps pending h (Inr s') \<and>
          (\<not> found \<longrightarrow> s' = s \<and> (\<forall>(e, epoch) \<in> set (sk_closed_epochs s). ce_remaining_objects epoch \<noteq> 0)))"

lemma close_completed_keeps:
  assumes js: "json_laws (sl_json libs)" and ok: "sink_ok libs uploaded key s uploads ps pending"
    and rec: "journals_recorded (sl_json libs) key h s" and chain: "s3_chain libs uploaded h"
  shows "s3_keeps libs uploaded key (close_post libs uploaded key s uploads ps pending) (close_completed_epoch_journal libs s) h"
proof (cases "find (\<lambda>(_, epoch). ce_remaining_objects epoch = 0 \<and> \<not> ce_journal_closed epoch) (sk_closed_epochs s)")
  case None
  have wf: "bt_wf (sk_closed_epochs s)" using ok booksD(8) unfolding sink_ok_def by blast
  have "ce_remaining_objects epoch \<noteq> 0" if "(e, epoch) \<in> set (sk_closed_epochs s)" for e epoch
    using None closed_epoch_durable(4)[OF ok, of e epoch] that bt_get_mem_iff[OF wf, of e epoch] by (auto simp: find_None_iff)
  then show ?thesis
    using None ok rec by (auto simp: close_completed_epoch_journal_def close_post_def s3_post_def)
next
  case (Some x)
  obtain e epoch where x: "x = (e, epoch)" by (cases x)
  have wf: "bt_wf (sk_closed_epochs s)" using ok booksD(8) unfolding sink_ok_def by blast
  have e: "bt_get (sk_closed_epochs s) e = Some epoch" "ce_remaining_objects epoch = 0"
    using Some x bt_get_mem_iff[OF wf, of e epoch] by (auto simp: find_Some_iff in_set_conv_nth)
  note dur = closed_epoch_durable[OF ok e]
  let ?finish = "\<lambda>r. case r of Inl x \<Rightarrow> Inl (Journal_failed (ej_key (ce_journal epoch)) x)
    | Inr _ \<Rightarrow> res_bind (finalize_epoch e
        (s\<lparr>sk_closed_epochs := bt_insert e (epoch\<lparr>ce_journal_closed := True\<rparr>) (sk_closed_epochs s)\<rparr>)) (\<lambda>s. Inr (s, True))"
  have eq: "close_completed_epoch_journal libs s = dmap ?finish (mark_closed (sl_json libs) (ce_journal epoch))"
    using Some x e(1) by (simp add: close_completed_epoch_journal_def)
  obtain s' where s': "finalize_epoch e (s\<lparr>sk_closed_epochs := bt_insert e (epoch\<lparr>ce_journal_closed := True\<rparr>) (sk_closed_epochs s)\<rparr>) = Inr s'"
    "sink_ok libs uploaded key s' uploads ps pending" "kept s s'" "open_journals s' \<subseteq> open_journals s"
    using finalize_closed_ok[OF ok e] by blast
  have fin: "close_post libs uploaded key s uploads ps pending h' (?finish r)"
    if h': "extends h h'" "ej_key (ce_journal epoch) = key \<longrightarrow> marked_ok (sl_json libs) (ce_journal epoch) h' r" for h' r
    using s' h' dur(2) journals_recorded_mono[OF journals_recorded_extends[OF rec h'(1)] s'(4)]
    by (cases r) (auto simp: close_post_def s3_post_def marked_ok_def)
  have "ce_journal epoch \<in> open_journals s" using open_journals_get[OF e(1)] by (simp add: open_journals_def)
  then have "s3_keeps libs uploaded key (\<lambda>h r. ej_key (ce_journal epoch) = key \<longrightarrow> marked_ok (sl_json libs) (ce_journal epoch) h r)
      (mark_closed (sl_json libs) (ce_journal epoch)) h"
    using dur rec by (intro mark_closed_keeps_any js chain) (auto simp: journals_recorded_def)
  then show ?thesis
    unfolding eq keeps_dmap by (rule keeps_mono[OF _ chain]) (rule fin)
qed

text \<open>The bytes the encoders write for rows, and what it means that rows were placed.\<close>

definition row_bytes :: "json_batch_encoder list \<Rightarrow> routed_row \<Rightarrow> nat" where
  "row_bytes encoders row =
     (case (encoders ! rw_output_index row) (rw_row_index row) of Inl _ \<Rightarrow> 0 | Inr bytes \<Rightarrow> length bytes)"

definition rows_bytes :: "json_batch_encoder list \<Rightarrow> routed_row list \<Rightarrow> nat" where
  "rows_bytes encoders rows = sum_list (map (row_bytes encoders) rows)"

definition placed_ok :: "json_batch_encoder list \<Rightarrow> delivery_id \<Rightarrow> routed_row list \<Rightarrow> placed_row list \<Rightarrow> bool" where
  "placed_ok encoders i rows placed \<longleftrightarrow>
     map pr_row placed = rows \<and>
     (\<forall>p \<in> set placed. pr_delivery p = i \<and> rw_output_index (pr_row p) < length encoders \<and>
        (encoders ! rw_output_index (pr_row p)) (rw_row_index (pr_row p)) = Inr (pr_bytes p))"

lemma put_rows_error:
  "put_rows rotation encoders rows b limit retained serialized = Inl e \<Longrightarrow>
   \<forall>row \<in> set rows. rw_output_index row < length encoders \<Longrightarrow> \<exists>x. e = Row_encoding_failed x"
proof (induction rows arbitrary: b limit retained serialized)
  case (Cons row rows)
  show ?case
  proof (cases "(encoders ! rw_output_index row) (rw_row_index row)")
    case (Inr bytes)
    then obtain b1 limit1 retained1 serialized1 where
      "put_rows rotation encoders rows b1 limit1 retained1 serialized1 = Inl e"
      using Cons.prems by (auto simp: Let_def res_bind_def split: sum.splits if_splits)
    then show ?thesis using Cons.IH Cons.prems(2) by simp
  qed (use Cons.prems in auto)
qed simp

lemma put_rows_ok:
  assumes "put_rows rotation encoders rows b limit retained serialized = Inr (b', limit', retained', serialized', written)"
  shows "length written = length rows \<and> b' = fold (\<lambda>(row, bytes). put_row row bytes) (zip rows written) b \<and>
    sum_list (map length written) = rows_bytes encoders rows \<and>
    (unat serialized + rows_bytes encoders rows < 2 ^ 64 \<longrightarrow> unat serialized' = unat serialized + rows_bytes encoders rows) \<and>
    (\<forall>(row, bytes) \<in> set (zip rows written). rw_output_index row < length encoders \<and>
       (encoders ! rw_output_index row) (rw_row_index row) = Inr bytes)"
  using assms
proof (induction rows arbitrary: b limit retained serialized written)
  case (Cons row rows)
  obtain bytes where i: "rw_output_index row < length encoders" "(encoders ! rw_output_index row) (rw_row_index row) = Inr bytes"
    using Cons.prems by (auto simp: not_le split: if_splits sum.splits)
  let ?ser = "saturating_add serialized (of_nat (length bytes))"
  obtain limit1 retained1 ws where ws: "written = bytes # ws"
    "put_rows rotation encoders rows (put_row row bytes b) limit1 retained1 ?ser = Inr (b', limit', retained', serialized', ws)"
    using Cons.prems i by (auto simp: Let_def res_bind_Inr_iff)
  have n: "rows_bytes encoders (row # rows) = length bytes + rows_bytes encoders rows"
    using i(2) by (simp add: rows_bytes_def row_bytes_def)
  have ser: "unat ?ser = unat serialized + length bytes" if "unat serialized + rows_bytes encoders (row # rows) < 2 ^ 64"
  proof -
    have "unat (of_nat (length bytes) :: usize) = length bytes" using that n by (intro of_nat_small) simp
    then show ?thesis using that n by (simp add: unat_saturating_add)
  qed
  show ?case using Cons.IH[OF ws(2)] ws(1) i ser n by auto
qed (simp add: rows_bytes_def)

lemma begin_group_fields [simp]:
  "ep_buffers (begin_group now rows epoch) = ep_buffers epoch"
  "ep_delivery_rows (begin_group now rows epoch) = ep_delivery_rows epoch"
  by (auto simp: begin_group_def Let_def split: option.splits)

lemma put_group_ok:
  assumes ok: "sink_ok libs uploaded key s uploads ps pending"
    and rows: "rows \<noteq> []" "length rows \<le> pending i" "\<forall>row \<in> set rows. rw_output_index row < length encoders"
    and lim: "length ps + length rows < 2 ^ 63" "bytes_of ps + rows_bytes encoders rows < 2 ^ 64"
  shows "case put_group now rows encoders i s of
      Inl e \<Rightarrow> external libs key e
    | Inr (s', full, written) \<Rightarrow>
        let placed = map2 (\<lambda>row bytes. \<lparr>pr_epoch = sk_next_epoch_id s, pr_delivery = i, pr_row = row, pr_bytes = bytes\<rparr>) rows written
        in sink_ok libs uploaded key s' uploads (ps @ placed) (pending(i := pending i - length rows)) \<and> kept s s' \<and>
           open_journals s' = open_journals s \<and> placed_ok encoders i rows placed"
proof (cases "put_rows (ac_rotation (sk_config s)) encoders rows (ep_buffers (sk_epoch s)) False 0 0")
  case (Inl e)
  then show ?thesis using put_rows_error[OF Inl rows(3)] by (auto simp: put_group_def)
next
  case (Inr r)
  obtain b limit retained serialized written where r: "r = (b, limit, retained, serialized, written)" by (metis prod.collapse)
  let ?f = "\<lambda>row bytes. \<lparr>pr_epoch = sk_next_epoch_id s, pr_delivery = i, pr_row = row, pr_bytes = bytes\<rparr>"
  let ?placed = "map2 ?f rows written"
  have p: "length written = length rows" "b = fold (\<lambda>(row, bytes). put_row row bytes) (zip rows written) (ep_buffers (sk_epoch s))"
    "sum_list (map length written) = rows_bytes encoders rows" "unat serialized = rows_bytes encoders rows"
    "\<forall>(row, bytes) \<in> set (zip rows written). rw_output_index row < length encoders \<and>
       (encoders ! rw_output_index row) (rw_row_index row) = Inr bytes"
    using put_rows_ok[OF Inr[unfolded r]] lim(2) by auto
  have placed: "length ?placed = length rows" "map pr_row ?placed = rows" "map pr_bytes ?placed = written"
    using p(1) by (simp_all add: comp_def case_prod_unfold)
  have "bytes_of ?placed = rows_bytes encoders rows"
    unfolding bytes_of_def using p(3) placed(3) by (metis map_map)
  moreover have "fold (\<lambda>p. put_row (pr_row p) (pr_bytes p)) ?placed x = fold (\<lambda>(row, bytes). put_row row bytes) (zip rows written) x" for x
    by (simp add: fold_map comp_def case_prod_unfold)
  moreover have "\<forall>q \<in> set ?placed. pr_epoch q = sk_next_epoch_id s \<and> pr_delivery q = i" by auto
  moreover have "?placed \<noteq> []" using rows(1) placed(1) by auto
  ultimately have "books libs uploaded key (ac_prefix (sk_config s)) (sk_expected_partition_id s) (sk_next_epoch_id s) b
      (add_delivery_rows i (of_nat (length rows)) (ep_delivery_rows (sk_epoch s))) (sk_closed_epochs s) (mset (sk_ready s) + mset uploads)
      (saturating_add (sk_buffered_bytes s) serialized) (sk_progress s) (ps @ ?placed) (pending(i := pending i - length rows))"
    using books_put[of libs uploaded key "ac_prefix (sk_config s)" "sk_expected_partition_id s" "sk_next_epoch_id s"
        "ep_buffers (sk_epoch s)" "ep_delivery_rows (sk_epoch s)" "sk_closed_epochs s" "mset (sk_ready s) + mset uploads"
        "sk_buffered_bytes s" "sk_progress s" ps pending ?placed i serialized] ok rows(2) lim p placed(1)
    by (simp add: sink_ok_def)
  moreover have "placed_ok encoders i rows ?placed" using p(5) placed(2) by (auto simp: placed_ok_def)
  ultimately show ?thesis
    using ok Inr r by (simp add: put_group_def Let_def sink_ok_def kept_def open_journals_def)
qed

text \<open>A group of rows, with the epoch closed before it, after it or not at all.\<close>

definition group_post ::
  "s3_libs \<Rightarrow> (string \<times> u8 list) set \<Rightarrow> string \<Rightarrow> s3_sink \<Rightarrow> closed_object list \<Rightarrow> placed_row list \<Rightarrow> (delivery_id \<Rightarrow> nat) \<Rightarrow>
   json_batch_encoder list \<Rightarrow> delivery_id \<Rightarrow> routed_row list \<Rightarrow> u8 list list \<Rightarrow> (s3_error, s3_sink \<times> placed_row list) res \<Rightarrow> bool" where
  "group_post libs uploaded key s uploads ps pending encoders i rows h r =
     (case r of
        Inl e \<Rightarrow> external libs key e
      | Inr (s', placed) \<Rightarrow>
          s3_post libs uploaded key s uploads (ps @ placed) (pending(i := pending i - length rows)) h (Inr s') \<and>
          placed_ok encoders i rows placed)"

lemma s3_postD:
  assumes "s3_post libs uploaded key s uploads ps pending h (Inr s')"
  shows "sink_ok libs uploaded key s' uploads ps pending" "kept s s'" "journals_recorded (sl_json libs) key h s'"
  using assms by (simp_all add: s3_post_def)

lemma s3_post_trans:
  "s3_post libs uploaded key s' uploads ps pending h r \<Longrightarrow> kept s s' \<Longrightarrow> s3_post libs uploaded key s uploads ps pending h r"
  by (auto simp: s3_post_def intro: kept_trans split: sum.splits)

lemma accept_message_group_keeps:
  assumes js: "json_laws (sl_json libs)" and ok: "sink_ok libs uploaded key s uploads ps pending"
    and rec: "journals_recorded (sl_json libs) key h s" and chain: "s3_chain libs uploaded h"
    and rows: "rows \<noteq> []" "length rows \<le> pending i" "\<forall>row \<in> set rows. rw_output_index row < length encoders"
    and lim: "length ps + length rows < 2 ^ 63" "bytes_of ps + rows_bytes encoders rows < 2 ^ 64"
  shows "s3_keeps libs uploaded key (group_post libs uploaded key s uploads ps pending encoders i rows)
    (accept_message_group libs now rows encoders i s) h"
proof -
  let ?pend = "pending(i := pending i - length rows)"
  let ?place = "\<lambda>s written. map2 (\<lambda>row bytes. \<lparr>pr_epoch = sk_next_epoch_id s, pr_delivery = i, pr_row = row, pr_bytes = bytes\<rparr>) rows written"
  let ?rest = "\<lambda>rotated. case rotated of Inl e \<Rightarrow> Return (Inl e)
    | Inr s \<Rightarrow> (case put_group now rows encoders i s of Inl e \<Rightarrow> Return (Inl e)
        | Inr (s', full, written) \<Rightarrow> let placed = ?place s written in
            dmap (map_sum id (\<lambda>s. (s, placed))) (if full then close_epoch libs s' else Return (Inr s')))"
  let ?first = "if partition_changed (ac_rotation (sk_config s)) (sk_epoch s) rows \<or>
           record_time_rotated (ac_rotation (sk_config s)) (sk_epoch s) rows
        then close_epoch libs s else Return (Inr s)"
  have first: "s3_keeps libs uploaded key (s3_post libs uploaded key s uploads ps pending) ?first h"
    using close_epoch_keeps[OF js ok rec chain] ok rec by (auto simp: s3_post_def)
  have rest: "s3_keeps libs uploaded key (group_post libs uploaded key s uploads ps pending encoders i rows) (?rest r) h'"
    if r: "s3_post libs uploaded key s uploads ps pending h' r" and chain': "s3_chain libs uploaded h'" for h' r
  proof (cases r)
    case (Inl e)
    then show ?thesis using r by (simp add: s3_post_def group_post_def)
  next
    case s1: (Inr s1)
    note ok1 = s3_postD[OF r[unfolded s1]]
    note put = put_group_ok[OF ok1(1) rows lim, of now]
    show ?thesis
    proof (cases "put_group now rows encoders i s1")
      case (Inl e)
      then show ?thesis using put s1 by (simp add: group_post_def)
    next
      case (Inr x)
      obtain s2 full written where x: "x = (s2, full, written)" by (metis prod.collapse)
      let ?placed = "?place s1 written"
      have ok2: "sink_ok libs uploaded key s2 uploads (ps @ ?placed) ?pend" "kept s1 s2"
        "journals_recorded (sl_json libs) key h' s2" "placed_ok encoders i rows ?placed"
        using put Inr x ok1(3) by (simp_all add: Let_def journals_recorded_def)
      have "s3_keeps libs uploaded key (s3_post libs uploaded key s2 uploads (ps @ ?placed) ?pend)
          (if full then close_epoch libs s2 else Return (Inr s2)) h'"
        using close_epoch_keeps[OF js ok2(1,3) chain'] ok2 by (auto simp: s3_post_def)
      then have "s3_keeps libs uploaded key (\<lambda>h r. group_post libs uploaded key s uploads ps pending encoders i rows h
            (map_sum id (\<lambda>s. (s, ?placed)) r)) (if full then close_epoch libs s2 else Return (Inr s2)) h'"
      proof (rule keeps_mono[OF _ chain'])
        fix h2 r2 assume "extends h' h2" and r2: "s3_post libs uploaded key s2 uploads (ps @ ?placed) ?pend h2 r2"
        show "group_post libs uploaded key s uploads ps pending encoders i rows h2 (map_sum id (\<lambda>s. (s, ?placed)) r2)"
        proof (cases r2)
          case (Inl e)
          then show ?thesis using r2 by (simp add: s3_post_def group_post_def)
        next
          case (Inr s3)
          then show ?thesis using s3_post_trans[OF r2 kept_trans[OF ok1(2) ok2(2)]] ok2(4) by (simp add: group_post_def)
        qed
      qed
      then show ?thesis using s1 Inr x by (simp add: Let_def keeps_dmap)
    qed
  qed
  show ?thesis
    unfolding accept_message_group_def keeps_dbind using first by (rule keeps_mono[OF _ chain]) (rule rest)
qed

subsection \<open>Deliveries\<close>

text \<open>The rows of the delivery in hand that are not placed yet.\<close>

definition waiting_rows :: "pending_delivery option \<Rightarrow> delivery_id \<Rightarrow> nat" where
  "waiting_rows p = (case p of None \<Rightarrow> (\<lambda>_. 0) | Some p \<Rightarrow> (\<lambda>_. 0)(pd_delivery_id p := length (pd_rows p) - pd_next_row p))"

text \<open>A delivery in hand has rows left, its encoders, and fits the counters of the sink.\<close>

definition pending_ok :: "placed_row list \<Rightarrow> pending_delivery \<Rightarrow> bool" where
  "pending_ok ps p \<longleftrightarrow>
     pd_next_row p < length (pd_rows p) \<and> (\<forall>row \<in> set (pd_rows p). rw_output_index row < length (pd_encoders p)) \<and>
     length ps + length (drop (pd_next_row p) (pd_rows p)) < 2 ^ 63 \<and>
     bytes_of ps + rows_bytes (pd_encoders p) (drop (pd_next_row p) (pd_rows p)) < 2 ^ 64"

definition next_group :: "pending_delivery \<Rightarrow> routed_row list" where
  "next_group p = (let start = pd_next_row p in take (group_end (pd_rows p) start - start) (drop start (pd_rows p)))"

definition next_post ::
  "s3_libs \<Rightarrow> (string \<times> u8 list) set \<Rightarrow> string \<Rightarrow> s3_sink \<Rightarrow> closed_object list \<Rightarrow> placed_row list \<Rightarrow> pending_delivery \<Rightarrow>
   u8 list list \<Rightarrow> (s3_error, s3_sink \<times> pending_delivery \<times> placed_row list) res \<Rightarrow> bool" where
  "next_post libs uploaded key s uploads ps p h r =
     (case r of
        Inl e \<Rightarrow> external libs key e
      | Inr (s', p', placed) \<Rightarrow>
          s3_post libs uploaded key s uploads (ps @ placed) (waiting_rows (Some p')) h (Inr s') \<and>
          p' = p\<lparr>pd_next_row := group_end (pd_rows p) (pd_next_row p)\<rparr> \<and>
          placed_ok (pd_encoders p) (pd_delivery_id p) (next_group p) placed)"

lemma group_end_bounds:
  assumes "start < length rows"
  shows "start < group_end rows start" "group_end rows start \<le> length rows"
proof -
  have "length (takeWhile f (drop (Suc start) rows)) \<le> length (drop (Suc start) rows)" for f
    by (rule length_takeWhile_le)
  then have "Suc start + length (takeWhile f (drop (Suc start) rows)) \<le> length rows" for f
    using assms by (metis Suc_leI add_le_cancel_left le_add_diff_inverse length_drop)
  then show "group_end rows start \<le> length rows" unfolding group_end_def Let_def by blast
qed (simp add: group_end_def Let_def)

lemma rows_bytes_append: "rows_bytes encoders (xs @ ys) = rows_bytes encoders xs + rows_bytes encoders ys"
  by (simp add: rows_bytes_def)

lemma next_group_split:
  assumes "pd_next_row p < length (pd_rows p)"
  shows "drop (pd_next_row p) (pd_rows p) = next_group p @ drop (group_end (pd_rows p) (pd_next_row p)) (pd_rows p)"
    "take (group_end (pd_rows p) (pd_next_row p)) (pd_rows p) = take (pd_next_row p) (pd_rows p) @ next_group p"
    "length (next_group p) = group_end (pd_rows p) (pd_next_row p) - pd_next_row p" "next_group p \<noteq> []"
proof -
  note b = group_end_bounds[OF assms]
  let ?s = "pd_next_row p" and ?e = "group_end (pd_rows p) (pd_next_row p)"
  have e: "?e = ?s + (?e - ?s)" using b by simp
  have rest: "drop ?e (pd_rows p) = drop (?e - ?s) (drop ?s (pd_rows p))" using b by simp
  show "drop ?s (pd_rows p) = next_group p @ drop ?e (pd_rows p)"
    unfolding next_group_def Let_def rest append_take_drop_id ..
  show "take ?e (pd_rows p) = take ?s (pd_rows p) @ next_group p"
    unfolding next_group_def Let_def using take_add[of ?s "?e - ?s" "pd_rows p"] e by simp
  show len: "length (next_group p) = ?e - ?s" using b by (simp add: next_group_def Let_def)
  show "next_group p \<noteq> []" using len b(1) by auto
qed

lemma accept_next_keeps:
  assumes js: "json_laws (sl_json libs)" and ok: "sink_ok libs uploaded key s uploads ps (waiting_rows (Some p))"
    and rec: "journals_recorded (sl_json libs) key h s" and chain: "s3_chain libs uploaded h" and p: "pending_ok ps p"
  shows "s3_keeps libs uploaded key (next_post libs uploaded key s uploads ps p)
    (accept_next_message_group libs now pressured p s) h"
proof -
  let ?i = "pd_delivery_id p" and ?e = "group_end (pd_rows p) (pd_next_row p)" and ?p = "p\<lparr>pd_next_row := group_end (pd_rows p) (pd_next_row p)\<rparr>"
  have lt: "pd_next_row p < length (pd_rows p)" using p by (simp add: pending_ok_def)
  note g = next_group_split[OF lt] and b = group_end_bounds[OF lt]
  let ?finish = "map_sum id (\<lambda>(s', placed).
      (s'\<lparr>sk_memory_barrier_epoch := (if sk_next_epoch_id s' \<noteq> sk_next_epoch_id s \<and> pressured
          then Some (saturating_sub (sk_next_epoch_id s') 1) else None)\<rparr>, ?p, placed))"
  have eq: "accept_next_message_group libs now pressured p s =
      dmap ?finish (accept_message_group libs now (next_group p) (pd_encoders p) ?i s)"
    using lt by (simp add: accept_next_message_group_def next_group_def Let_def)
  have "set (next_group p) \<subseteq> set (pd_rows p)"
    unfolding next_group_def Let_def using set_take_subset set_drop_subset by (metis subset_trans)
  then have rows: "\<forall>row \<in> set (next_group p). rw_output_index row < length (pd_encoders p)"
    using p by (auto simp: pending_ok_def)
  have le: "length (next_group p) \<le> waiting_rows (Some p) ?i" using g(3) b by (simp add: waiting_rows_def)
  have lim: "length ps + length (next_group p) < 2 ^ 63" "bytes_of ps + rows_bytes (pd_encoders p) (next_group p) < 2 ^ 64"
    using p g(1) by (simp_all add: pending_ok_def rows_bytes_append)
  have w: "(waiting_rows (Some p))(?i := waiting_rows (Some p) ?i - length (next_group p)) = waiting_rows (Some ?p)"
    using g(3) b by (auto simp: waiting_rows_def)
  have "s3_keeps libs uploaded key (group_post libs uploaded key s uploads ps (waiting_rows (Some p)) (pd_encoders p) ?i (next_group p))
      (accept_message_group libs now (next_group p) (pd_encoders p) ?i s) h"
    by (rule accept_message_group_keeps[OF js ok rec chain g(4) le rows lim])
  then show ?thesis
    unfolding eq keeps_dmap
  proof (rule keeps_mono[OF _ chain])
    fix h' r
    assume "group_post libs uploaded key s uploads ps (waiting_rows (Some p)) (pd_encoders p) ?i (next_group p) h' r"
    then show "next_post libs uploaded key s uploads ps p h' (?finish r)"
      unfolding group_post_def w
      by (auto simp: next_post_def s3_post_def sink_ok_def kept_def journals_recorded_def open_journals_def split: sum.splits)
  qed
qed

lemma route_rows_index:
  "route_rows part k output n routes = Inr rows \<Longrightarrow> row \<in> set rows \<Longrightarrow> rw_output_index row = k"
  by (induction routes arbitrary: n rows) (auto simp: res_bind_Inr_iff split: if_splits)

lemma route_outputs_index:
  "route_outputs part k outputs = Inr rows \<Longrightarrow> row \<in> set rows \<Longrightarrow> rw_output_index row < k + length outputs"
proof (induction outputs arbitrary: k rows)
  case (Cons out outputs)
  then show ?case
    by (fastforce simp: res_bind_Inr_iff dest: route_rows_index split: sum.splits)
qed simp

lemma delivery_encoders_length: "delivery_encoders outputs = Inr encoders \<Longrightarrow> length encoders = length outputs"
  by (induction outputs arbitrary: encoders) (auto simp: res_bind_Inr_iff split: sum.splits)

text \<open>The documented contract of a sort: it permutes its input.\<close>

definition sort_laws :: "s3_libs \<Rightarrow> bool" where
  "sort_laws libs \<longleftrightarrow> (\<forall>rows. mset (sl_sort libs rows) = mset rows)"

lemma route_delivery_ok:
  assumes "sort_laws libs" "route_delivery libs part delivery = Inr rows"
  shows "\<exists>routed. route_outputs part 0 (sd_outputs delivery) = Inr routed \<and> mset rows = mset routed"
  using assms by (auto simp: route_delivery_def res_bind_Inr_iff sort_laws_def split: if_splits)

lemma prepare_delivery_InrD:
  assumes prep: "prepare_delivery libs delivery s = Inr (s', p)"
  shows "\<exists>progress.
    accept (sd_id delivery) (of_nat (length (pd_rows p))) (sd_source_messages delivery) (sk_progress s) = Inr progress \<and>
    s' = s\<lparr>sk_progress := progress\<rparr> \<and> pd_delivery_id p = sd_id delivery \<and> pd_next_row p = 0 \<and>
    route_delivery libs (sk_expected_partition_id s) delivery = Inr (pd_rows p) \<and>
    delivery_encoders (sd_outputs delivery) = Inr (pd_encoders p)"
proof -
  obtain encoders bound rows where e: "delivery_encoders (sd_outputs delivery) = Inr encoders"
    "route_bound 0 (sd_outputs delivery) = Inr bound" "route_delivery libs (sk_expected_partition_id s) delivery = Inr rows"
    using prep by (auto simp: prepare_delivery_def Let_def res_bind_Inr_iff split: if_splits)
  obtain progress where a: "accept (sd_id delivery) (of_nat (length rows)) (sd_source_messages delivery) (sk_progress s) = Inr progress"
    using prep e by (auto simp: prepare_delivery_def Let_def split: if_splits sum.splits)
  then show ?thesis using prep e by (auto simp: prepare_delivery_def Let_def split: if_splits)
qed

lemma prepare_delivery_ok:
  assumes ok: "sink_ok libs uploaded key s uploads ps (\<lambda>_. 0)" and sort: "sort_laws libs"
    and prep: "prepare_delivery libs delivery s = Inr (s', p)" and id: "sd_id delivery \<noteq> - 1"
    and fits: "length ps + length (pd_rows p) < 2 ^ 63" "bytes_of ps + rows_bytes (pd_encoders p) (pd_rows p) < 2 ^ 64"
  shows "sink_ok libs uploaded key s' uploads ps (waiting_rows (Some p))" "open_journals s' = open_journals s"
    "sk_config s' = sk_config s" "sk_expected_partition_id s' = sk_expected_partition_id s"
    "sd_id delivery = next_received (sk_progress s)" "next_received (sk_progress s') = delivery_id_next (sd_id delivery)"
    "next_commit (sk_progress s') = next_commit (sk_progress s)" "pd_delivery_id p = sd_id delivery" "pd_next_row p = 0"
    "route_delivery libs (sk_expected_partition_id s) delivery = Inr (pd_rows p)"
    "delivery_encoders (sd_outputs delivery) = Inr (pd_encoders p)" "pd_rows p \<noteq> [] \<Longrightarrow> pending_ok ps p"
proof -
  obtain progress where pr: "accept (sd_id delivery) (of_nat (length (pd_rows p))) (sd_source_messages delivery) (sk_progress s) = Inr progress"
    and s': "s' = s\<lparr>sk_progress := progress\<rparr>" and p: "pd_delivery_id p = sd_id delivery" "pd_next_row p = 0"
      "route_delivery libs (sk_expected_partition_id s) delivery = Inr (pd_rows p)"
      "delivery_encoders (sd_outputs delivery) = Inr (pd_encoders p)" using prepare_delivery_InrD[OF prep] by blast
  let ?pr = "sk_progress s"
  have b: "books libs uploaded key (ac_prefix (sk_config s)) (sk_expected_partition_id s) (sk_next_epoch_id s)
       (ep_buffers (sk_epoch s)) (ep_delivery_rows (sk_epoch s)) (sk_closed_epochs s) (mset (sk_ready s) + mset uploads)
       (sk_buffered_bytes s) ?pr ps (\<lambda>_. 0)" using ok by (simp add: sink_ok_def)
  have inv: "tracker_inv ?pr" using booksD(9)[OF b] .
  have n: "length (pd_rows p) < 2 ^ 64" using fits(1) by simp
  note a = accept_expected[OF inv pr id n]
  have "outstanding (tracker_abs ?pr) (unat (sd_id delivery)) = 0"
    using inv a(2) by (simp add: tracker_inv_alt outstanding_def tracker_abs_def)
  then have "expected ?pr (sd_id delivery) = 0" by (simp add: expected_outstanding[OF inv])
  then have "expected progress d = delivery_count d (unfinished (sk_next_epoch_id s) (sk_closed_epochs s) ps) + waiting_rows (Some p) d" for d
    using a(5)[of d] booksD(10)[OF b, of d] p(1,2) by (auto simp: waiting_rows_def)
  then show "sink_ok libs uploaded key s' uploads ps (waiting_rows (Some p))"
    using ok a(1) s' by (simp add: sink_ok_def books_def)
  show "open_journals s' = open_journals s" "sk_config s' = sk_config s" "sk_expected_partition_id s' = sk_expected_partition_id s"
    using s' by (simp_all add: open_journals_def)
  show "sd_id delivery = next_received ?pr" "next_received (sk_progress s') = delivery_id_next (sd_id delivery)"
    "next_commit (sk_progress s') = next_commit ?pr" using a s' by simp_all
  show "pd_delivery_id p = sd_id delivery" "pd_next_row p = 0"
      "route_delivery libs (sk_expected_partition_id s) delivery = Inr (pd_rows p)"
      "delivery_encoders (sd_outputs delivery) = Inr (pd_encoders p)" by (fact p)+
  obtain routed where r: "route_outputs (sk_expected_partition_id s) 0 (sd_outputs delivery) = Inr routed"
    "mset (pd_rows p) = mset routed" using route_delivery_ok[OF sort p(3)] by blast
  have "rw_output_index row < length (pd_encoders p)" if "row \<in> set (pd_rows p)" for row
    using route_outputs_index[OF r(1), of row] that mset_eq_setD[OF r(2)] delivery_encoders_length[OF p(4)] by simp
  then show "pd_rows p \<noteq> [] \<Longrightarrow> pending_ok ps p" using p(2) fits by (simp add: pending_ok_def)
qed

end
