(* ===== verification/S3_Actor.thy ===== *)
theory S3_Actor
  imports S3_Accounting
begin

section \<open>The loop of the S3 sink\<close>

text \<open>
  \<^verbatim>\<open>run_actor\<close> of \<^verbatim>\<open>sink/actor.rs\<close>. A session is one call of it: the sink, the running uploads, the delivery in hand and
  what was sent to the event channel. An iteration of the loop is three calls. At \<open>Loop_top\<close> it reports commits. At \<open>Loop_body\<close> it closes a
  journal, closes the last epoch, starts uploads, ends, or takes a group of rows of the delivery in hand. At \<open>Loop_select\<close>
  it waits for an event. What the source receives from outside (the channels, the clock, the memory
  pressure and the results of uploads) is an argument. Gauges, counters and log lines are left out.

  \<open>ss_accepted\<close> and \<open>ss_placed\<close> say what happened, for the theorems: the deliveries the session accepted and the
  rows it put into buffers.
\<close>

subsection \<open>State\<close>

datatype actor_pc =
    Loop_top
  | Loop_body
  | Loop_select
  | Stopped_cancelled
  | Stopped_drained
  | Stopped_failed s3_error

record s3_session =
  ss_sink :: s3_sink
  ss_uploads :: "closed_object list"
  ss_input_closed :: bool
  ss_pending :: "pending_delivery option"
  ss_events :: "delivery_id list"
  ss_pc :: actor_pc
  ss_accepted :: "s3_delivery list"
  ss_placed :: "placed_row list"

record s3_inputs =
  in_receiver_closed :: bool
  in_now :: nat
  in_transform_pressured :: bool
  in_transform_pressured_after :: bool

datatype s3_event =
    Ev_cancelled
  | Ev_upload nat "(string, unit) res"
  | Ev_upload_lost
  | Ev_delivery "s3_delivery option"
  | Ev_wall_clock

text \<open>A drained sink can run again; its history goes on.\<close>

definition update_discovery :: "bool \<Rightarrow> s3_sink \<Rightarrow> s3_sink" where
  "update_discovery discovery_keeps s = s\<lparr>sk_discovery_keeps_system_columns := discovery_keeps\<rparr>"

definition run_actor_start :: "s3_sink \<Rightarrow> delivery_id list \<Rightarrow> s3_delivery list \<Rightarrow> placed_row list \<Rightarrow> s3_session" where
  "run_actor_start s events accepted placed =
     \<lparr>ss_sink = s, ss_uploads = [], ss_input_closed = False, ss_pending = None, ss_events = events, ss_pc = Loop_top,
      ss_accepted = accepted, ss_placed = placed\<rparr>"

text \<open>The end of the loop: the uploads are cancelled and drained.\<close>

definition run_actor_stop :: "actor_pc \<Rightarrow> s3_session \<Rightarrow> s3_session" where
  "run_actor_stop pc t =
     t\<lparr>ss_pc := pc, ss_uploads := [], ss_sink := (ss_sink t)\<lparr>sk_in_flight_objects := 0\<rparr>\<rparr>"

subsection \<open>Operations\<close>

definition emit_committed :: "bool \<Rightarrow> s3_session \<Rightarrow> (s3_error, s3_session) res" where
  "emit_committed receiver_closed t =
     (let (progress, committed) = take_committed (sk_progress (ss_sink t));
          t = t\<lparr>ss_sink := (ss_sink t)\<lparr>sk_progress := progress\<rparr>\<rparr>
      in case committed of
           None \<Rightarrow> Inr t
         | Some c \<Rightarrow>
             if receiver_closed then Inl Event_receiver_closed else Inr (t\<lparr>ss_events := ss_events t @ [through c]\<rparr>))"

definition start_upload :: "s3_session \<Rightarrow> s3_session option" where
  "start_upload t =
     (case sk_ready (ss_sink t) of
        [] \<Rightarrow> None
      | object # ready \<Rightarrow>
          Some (t\<lparr>ss_sink := (ss_sink t)\<lparr>sk_ready := ready,
                                      sk_in_flight_objects := saturating_add (sk_in_flight_objects (ss_sink t)) 1\<rparr>,
                  ss_uploads := ss_uploads t @ [object]\<rparr>))"

function start_uploads :: "s3_session \<Rightarrow> s3_session" where
  "start_uploads t =
     (if sk_in_flight_objects (ss_sink t) < ac_max_in_flight_objects (sk_config (ss_sink t))
      then case start_upload t of None \<Rightarrow> t | Some t \<Rightarrow> start_uploads t
      else t)"
  by pat_completeness auto
termination
  by (relation "measure (\<lambda>t. length (sk_ready (ss_sink t)))") (auto simp: start_upload_def split: list.splits)

declare start_uploads.simps [simp del]

definition pending_upload_objects :: "s3_sink \<Rightarrow> usize" where
  "pending_upload_objects s = saturating_add (of_nat (length (sk_ready s))) (sk_in_flight_objects s)"

definition below_live_limits :: "s3_sink \<Rightarrow> bool" where
  "below_live_limits s =
     (sk_buffered_bytes s < buf_max_buffered_bytes (ac_buffering (sk_config s)) \<and>
      pending_upload_objects s < buf_max_pending_upload_objects (ac_buffering (sk_config s)))"

definition clear_memory_barrier :: "bool \<Rightarrow> s3_sink \<Rightarrow> s3_sink" where
  "clear_memory_barrier transform_pressured s =
     (case sk_memory_barrier_epoch s of
        None \<Rightarrow> s
      | Some epoch_id \<Rightarrow>
          if \<not> transform_pressured \<or> \<not> bt_contains_key (sk_closed_epochs s) epoch_id
          then s\<lparr>sk_memory_barrier_epoch := None\<rparr> else s)"

definition wall_clock_deadline :: "s3_sink \<Rightarrow> nat option" where
  "wall_clock_deadline s =
     (case (rot_wall_clock_interval (ac_rotation (sk_config s)), ep_first_seen (sk_epoch s)) of
        (Some interval, Some started) \<Rightarrow> Some (started + unat (secs interval) * 1000000000 + unat (nanos interval))
      | _ \<Rightarrow> None)"

definition finish_drained :: "bool \<Rightarrow> s3_session \<Rightarrow> (s3_error, s3_session) res" where
  "finish_drained receiver_closed t =
     res_bind (emit_committed receiver_closed t) (\<lambda>t.
       Inr (run_actor_stop
              (if \<not> tracker_is_empty (sk_progress (ss_sink t)) \<or> sk_closed_epochs (ss_sink t) \<noteq> []
               then Stopped_failed Stopped_with_incomplete_progress else Stopped_drained) t))"

definition resume_pending ::
  "s3_libs \<Rightarrow> s3_inputs \<Rightarrow> pending_delivery \<Rightarrow> s3_session \<Rightarrow> (s3_error, s3_session) res dprog" where
  "resume_pending libs io pending t =
     dmap (map_sum id (\<lambda>(s, pending, placed).
         t\<lparr>ss_sink := s,
           ss_pending := (if pd_next_row pending = length (pd_rows pending) then None else Some pending),
           ss_placed := ss_placed t @ placed, ss_pc := Loop_top\<rparr>))
       (accept_next_message_group libs (in_now io) (in_transform_pressured_after io) pending (ss_sink t))"

subsection \<open>The calls of an iteration\<close>

definition loop_top :: "s3_inputs \<Rightarrow> s3_session \<Rightarrow> (s3_error, s3_session) res" where
  "loop_top io t = res_bind (emit_committed (in_receiver_closed io) t) (\<lambda>t. Inr (t\<lparr>ss_pc := Loop_body\<rparr>))"

definition loop_body :: "s3_libs \<Rightarrow> s3_inputs \<Rightarrow> s3_session \<Rightarrow> (s3_error, s3_session) res dprog" where
  "loop_body libs io t =
     dbind (close_completed_epoch_journal libs (ss_sink t)) (\<lambda>r.
       case r of
         Inl e \<Rightarrow> Return (Inl e)
       | Inr (s, found) \<Rightarrow>
           let t = t\<lparr>ss_sink := s\<rparr>;
               drained = (ss_input_closed t \<and> ss_pending t = None)
           in if found then Return (Inr (t\<lparr>ss_pc := Loop_top\<rparr>))
              else if drained \<and> ep_buffers (sk_epoch s) \<noteq> []
              then dmap (map_sum id (\<lambda>s. t\<lparr>ss_sink := s, ss_pc := Loop_top\<rparr>)) (close_epoch libs s)
              else
                let t = start_uploads t
                in if drained \<and> ss_uploads t = [] \<and> sk_ready (ss_sink t) = []
                   then Return (finish_drained (in_receiver_closed io) t)
                   else
                     let s = clear_memory_barrier (in_transform_pressured io) (ss_sink t);
                         t = t\<lparr>ss_sink := s\<rparr>
                     in case ss_pending t of
                          Some pending \<Rightarrow>
                            if below_live_limits s \<and> sk_memory_barrier_epoch s = None
                            then resume_pending libs io pending t
                            else Return (Inr (t\<lparr>ss_pc := Loop_select\<rparr>))
                        | None \<Rightarrow> Return (Inr (t\<lparr>ss_pc := Loop_select\<rparr>)))"

definition can_accept :: "s3_session \<Rightarrow> bool" where
  "can_accept t =
     (ss_pending t = None \<and> \<not> ss_input_closed t \<and> sk_memory_barrier_epoch (ss_sink t) = None \<and>
      below_live_limits (ss_sink t))"

definition event_enabled :: "s3_inputs \<Rightarrow> s3_event \<Rightarrow> s3_session \<Rightarrow> bool" where
  "event_enabled io event t =
     (case event of
        Ev_cancelled \<Rightarrow> True
      | Ev_upload n _ \<Rightarrow> n < length (ss_uploads t)
      | Ev_upload_lost \<Rightarrow> ss_uploads t \<noteq> []
      | Ev_delivery _ \<Rightarrow> can_accept t
      | Ev_wall_clock \<Rightarrow>
          (case (ss_pending t, wall_clock_deadline (ss_sink t)) of
             (None, Some deadline) \<Rightarrow> deadline \<le> in_now io | _ \<Rightarrow> False))"

definition loop_select :: "s3_libs \<Rightarrow> s3_event \<Rightarrow> s3_session \<Rightarrow> (s3_error, s3_session) res dprog" where
  "loop_select libs event t =
     (case event of
        Ev_cancelled \<Rightarrow> Return (Inr (run_actor_stop Stopped_cancelled t))
      | Ev_upload n result \<Rightarrow>
          (let object = ss_uploads t ! n
           in Return (res_bind (complete_upload object result (ss_sink t)) (\<lambda>s.
                Inr (t\<lparr>ss_sink := s, ss_uploads := remove1 object (ss_uploads t), ss_pc := Loop_top\<rparr>))))
      | Ev_upload_lost \<Rightarrow> Return (Inl Upload_task_failed)
      | Ev_delivery None \<Rightarrow> Return (Inr (t\<lparr>ss_input_closed := True, ss_pc := Loop_top\<rparr>))
      | Ev_delivery (Some delivery) \<Rightarrow>
          Return (res_bind (prepare_delivery libs delivery (ss_sink t)) (\<lambda>(s, prepared).
            Inr (t\<lparr>ss_sink := s, ss_pending := (if pd_rows prepared = [] then None else Some prepared),
                   ss_accepted := ss_accepted t @ [delivery], ss_pc := Loop_top\<rparr>)))
      | Ev_wall_clock \<Rightarrow> dmap (map_sum id (\<lambda>s. t\<lparr>ss_sink := s, ss_pc := Loop_top\<rparr>)) (close_epoch libs (ss_sink t)))"

text \<open>An error ends the loop.\<close>

definition or_failed :: "s3_session \<Rightarrow> (s3_error, s3_session) res \<Rightarrow> s3_session option" where
  "or_failed t r = Some (case r of Inl e \<Rightarrow> run_actor_stop (Stopped_failed e) t | Inr t \<Rightarrow> t)"

text \<open>
  The events the outside world may deliver. An upload reports success only for an object the store accepted. Ids
  stay below the last one, and the rows and bytes of a session fit the counters.
\<close>

definition delivery_fits :: "s3_libs \<Rightarrow> s3_session \<Rightarrow> s3_delivery \<Rightarrow> bool" where
  "delivery_fits libs t delivery =
     (sd_id delivery \<noteq> - 1 \<and>
      (case (route_delivery libs (sk_expected_partition_id (ss_sink t)) delivery, delivery_encoders (sd_outputs delivery)) of
         (Inr rows, Inr encoders) \<Rightarrow>
           length (ss_placed t) + length rows < 2 ^ 63 \<and> bytes_of (ss_placed t) + rows_bytes encoders rows < 2 ^ 64
       | _ \<Rightarrow> True))"

definition event_possible :: "s3_libs \<Rightarrow> (string \<times> u8 list) set \<Rightarrow> s3_event \<Rightarrow> s3_session \<Rightarrow> bool" where
  "event_possible libs uploaded event t =
     (case event of
        Ev_upload n (Inr _) \<Rightarrow> (co_key (ss_uploads t ! n), co_payload (ss_uploads t ! n)) \<in> uploaded
      | Ev_delivery (Some delivery) \<Rightarrow> delivery_fits libs t delivery
      | _ \<Rightarrow> True)"

text \<open>The calls of a process: a new session, or the next call of the running one.\<close>

definition s3_calls :: "s3_libs \<Rightarrow> (string \<times> u8 list) set \<Rightarrow> s3_session option \<Rightarrow> s3_session option dprog set" where
  "s3_calls libs uploaded x =
     (let start = {Return (Some (run_actor_start (s3_sink_new config keep part discovery) [] [] []))
                   | config keep part discovery. True}
      in case x of
           None \<Rightarrow> start
         | Some t \<Rightarrow>
             (case ss_pc t of
                Loop_top \<Rightarrow> {Return (or_failed t (loop_top io t)) | io. True}
              | Loop_body \<Rightarrow> {dmap (or_failed t) (loop_body libs io t) | io. True}
              | Loop_select \<Rightarrow>
                  {dmap (or_failed t) (loop_select libs event t)
                   | io event. event_enabled io event t \<and> event_possible libs uploaded event t}
              | Stopped_drained \<Rightarrow>
                  start \<union>
                  {Return (Some (run_actor_start (update_discovery discovery (ss_sink t)) (ss_events t) (ss_accepted t) (ss_placed t)))
                   | discovery. True}
              | _ \<Rightarrow> start))"

subsection \<open>The invariant of a session\<close>

definition placed_of :: "delivery_id \<Rightarrow> placed_row list \<Rightarrow> placed_row list" where
  "placed_of i ps = filter (\<lambda>p. pr_delivery p = i) ps"

text \<open>What was placed of an accepted delivery: all rows, or those before the next one of the delivery in hand.\<close>

definition accepted_ok ::
  "s3_libs \<Rightarrow> i64 \<Rightarrow> placed_row list \<Rightarrow> pending_delivery option \<Rightarrow> s3_delivery \<Rightarrow> bool" where
  "accepted_ok libs part ps pending d \<longleftrightarrow>
     (\<exists>rows encoders. route_delivery libs part d = Inr rows \<and> delivery_encoders (sd_outputs d) = Inr encoders \<and>
        (case pending of
           Some p \<Rightarrow>
             if pd_delivery_id p = sd_id d
             then pd_rows p = rows \<and> pd_encoders p = encoders \<and>
                  placed_ok encoders (sd_id d) (take (pd_next_row p) rows) (placed_of (sd_id d) ps)
             else placed_ok encoders (sd_id d) rows (placed_of (sd_id d) ps)
         | None \<Rightarrow> placed_ok encoders (sd_id d) rows (placed_of (sd_id d) ps)))"

definition history_ok ::
  "s3_libs \<Rightarrow> i64 \<Rightarrow> placed_row list \<Rightarrow> pending_delivery option \<Rightarrow> s3_delivery list \<Rightarrow> delivery_id \<Rightarrow> bool" where
  "history_ok libs part ps pending accepted received \<longleftrightarrow>
     (\<forall>p. pending = Some p \<longrightarrow> pending_ok ps p \<and> pd_delivery_id p < received) \<and>
     (\<forall>d \<in> set accepted. accepted_ok libs part ps pending d \<and> sd_id d \<noteq> 0 \<and> sd_id d < received) \<and>
     (\<forall>q \<in> set ps. pr_delivery q < received)"

definition events_ok :: "delivery_id list \<Rightarrow> delivery_id \<Rightarrow> bool" where
  "events_ok events commit \<longleftrightarrow>
     (events = [] \<and> commit = 1 \<or> events \<noteq> [] \<and> unat commit = Suc (unat (last events))) \<and> (\<forall>e \<in> set events. e < commit)"

definition live_ok :: "s3_libs \<Rightarrow> (string \<times> u8 list) set \<Rightarrow> string \<Rightarrow> u8 list list \<Rightarrow> s3_session \<Rightarrow> bool" where
  "live_ok libs uploaded key h t \<longleftrightarrow>
     sink_ok libs uploaded key (ss_sink t) (ss_uploads t) (ss_placed t) (waiting_rows (ss_pending t)) \<and>
     journals_recorded (sl_json libs) key h (ss_sink t) \<and>
     history_ok libs (sk_expected_partition_id (ss_sink t)) (ss_placed t) (ss_pending t) (ss_accepted t)
       (next_received (sk_progress (ss_sink t))) \<and>
     events_ok (ss_events t) (next_commit (sk_progress (ss_sink t)))"

text \<open>A delivery is finished when all its rows were placed and the epochs they are in are durable.\<close>

definition delivery_finished ::
  "s3_libs \<Rightarrow> (string \<times> u8 list) set \<Rightarrow> string \<Rightarrow> string \<Rightarrow> i64 \<Rightarrow> placed_row list \<Rightarrow> s3_delivery \<Rightarrow> bool" where
  "delivery_finished libs uploaded key prefix part ps d \<longleftrightarrow>
     accepted_ok libs part ps None d \<and>
     (\<forall>p \<in> set ps. pr_delivery p = sd_id d \<longrightarrow> finished_ok libs uploaded key prefix part ps (pr_epoch p))"

definition reported_ok :: "s3_libs \<Rightarrow> (string \<times> u8 list) set \<Rightarrow> string \<Rightarrow> s3_session \<Rightarrow> bool" where
  "reported_ok libs uploaded key t \<longleftrightarrow>
     (\<forall>d \<in> set (ss_accepted t). \<forall>e \<in> set (ss_events t). sd_id d \<le> e \<longrightarrow>
        delivery_finished libs uploaded key (ac_prefix (sk_config (ss_sink t))) (sk_expected_partition_id (ss_sink t)) (ss_placed t) d)"

definition session_ok :: "s3_libs \<Rightarrow> (string \<times> u8 list) set \<Rightarrow> string \<Rightarrow> u8 list list \<Rightarrow> s3_session option \<Rightarrow> bool" where
  "session_ok libs uploaded key h x \<longleftrightarrow>
     (case x of
        None \<Rightarrow> True
      | Some t \<Rightarrow>
          reported_ok libs uploaded key t \<and>
          (case ss_pc t of
             Stopped_cancelled \<Rightarrow> True
           | Stopped_drained \<Rightarrow>
               (\<forall>d \<in> set (ss_accepted t). \<exists>e \<in> set (ss_events t). sd_id d \<le> e) \<and>
               live_ok libs uploaded key h t \<and> ss_uploads t = [] \<and> ss_pending t = None
           | Stopped_failed e \<Rightarrow> external libs key e
           | _ \<Rightarrow> live_ok libs uploaded key h t))"

lemma live_reported:
  assumes "live_ok libs uploaded key h t"
  shows "reported_ok libs uploaded key t"
  unfolding reported_ok_def
proof (intro ballI impI)
  fix d e assume d: "d \<in> set (ss_accepted t)" "e \<in> set (ss_events t)" "sd_id d \<le> e"
  let ?s = "ss_sink t" and ?ps = "ss_placed t"
  have b: "books libs uploaded key (ac_prefix (sk_config ?s)) (sk_expected_partition_id ?s) (sk_next_epoch_id ?s)
       (ep_buffers (sk_epoch ?s)) (ep_delivery_rows (sk_epoch ?s)) (sk_closed_epochs ?s) (mset (sk_ready ?s) + mset (ss_uploads t))
       (sk_buffered_bytes ?s) (sk_progress ?s) ?ps (waiting_rows (ss_pending t))"
    using assms by (simp add: live_ok_def sink_ok_def)
  have "sd_id d < next_commit (sk_progress ?s)" using assms d by (fastforce simp: live_ok_def events_ok_def)
  then have "expected (sk_progress ?s) (sd_id d) = 0"
    by (simp add: expected_outstanding[OF booksD(9)[OF b]] outstanding_def tracker_abs_def word_less_nat_alt)
  then have zero: "delivery_count (sd_id d) (unfinished (sk_next_epoch_id ?s) (sk_closed_epochs ?s) ?ps) = 0"
    "waiting_rows (ss_pending t) (sd_id d) = 0" using booksD(10)[OF b, of "sd_id d"] by simp_all
  have "accepted_ok libs (sk_expected_partition_id ?s) ?ps None d"
  proof (cases "ss_pending t")
    case (Some p)
    then have "pd_delivery_id p \<noteq> sd_id d" using zero(2) assms by (auto simp: waiting_rows_def live_ok_def history_ok_def pending_ok_def)
    then show ?thesis using assms d(1) Some by (auto simp: live_ok_def history_ok_def accepted_ok_def)
  qed (use assms d(1) in \<open>auto simp: live_ok_def history_ok_def\<close>)
  moreover have "finished_ok libs uploaded key (ac_prefix (sk_config ?s)) (sk_expected_partition_id ?s) ?ps (pr_epoch p)"
    if p: "p \<in> set ?ps" "pr_delivery p = sd_id d" for p
  proof (rule booksD(4)[OF b])
    have n: "pr_epoch p \<noteq> sk_next_epoch_id ?s \<and> pr_epoch p \<notin> fst ` set (sk_closed_epochs ?s)"
      using zero(1) p by (auto simp: delivery_count_def unfinished_def filter_empty_conv)
    then show "pr_epoch p < sk_next_epoch_id ?s" using booksD(16)[OF b p(1)] by (simp add: order_less_le)
    show "bt_get (sk_closed_epochs ?s) (pr_epoch p) = None" using n bt_get_keys[of "sk_closed_epochs ?s" "pr_epoch p"] by simp
  qed
  ultimately show "delivery_finished libs uploaded key (ac_prefix (sk_config ?s)) (sk_expected_partition_id ?s) ?ps d"
    by (simp add: delivery_finished_def)
qed

lemma session_live: "ss_pc t \<in> {Loop_top, Loop_body, Loop_select} \<Longrightarrow>
  session_ok libs uploaded key h (Some t) = live_ok libs uploaded key h t"
  by (auto simp: session_ok_def dest: live_reported)

lemma reported_stop [simp]: "reported_ok libs uploaded key (run_actor_stop pc t) = reported_ok libs uploaded key t"
  by (simp add: reported_ok_def run_actor_stop_def)

lemma session_failed:
  "live_ok libs uploaded key h t \<Longrightarrow> external libs key e \<Longrightarrow> session_ok libs uploaded key h' (or_failed t (Inl e))"
  by (simp add: session_ok_def or_failed_def live_reported) (simp add: run_actor_stop_def)

lemma live_start: "live_ok libs uploaded key h (run_actor_start (s3_sink_new config keep part discovery) [] [] [])"
proof -
  have "books libs uploaded key prefix part 0 [] [] [] {#} 0 tracker_new [] (\<lambda>_. 0)" for prefix
    by (rule booksI) (auto simp: tracker_new_inv buffers_of_def epoch_rows_def bytes_of_def rows_match_def expected_outstanding[OF tracker_new_inv(1)]
      outstanding_def unfinished_def bt_empty_def)
  then show ?thesis
    by (simp add: live_ok_def run_actor_start_def s3_sink_new_def sink_ok_def waiting_rows_def epoch_default_def bt_empty_def
      journals_recorded_def open_journals_def history_ok_def events_ok_def tracker_new_def)
qed

lemma live_update:
  assumes "live_ok libs uploaded key h t"
    and "s3_post libs uploaded key (ss_sink t) uploads (ss_placed t) (waiting_rows (ss_pending t)) h' (Inr s')"
  shows "live_ok libs uploaded key h' (t\<lparr>ss_sink := s', ss_uploads := uploads, ss_pc := pc\<rparr>)"
  using assms s3_postD[OF assms(2)] by (simp add: live_ok_def kept_def)

lemma live_fields:
  "live_ok libs uploaded key h (t\<lparr>ss_pc := pc\<rparr>) = live_ok libs uploaded key h t"
  "live_ok libs uploaded key h (t\<lparr>ss_input_closed := x\<rparr>) = live_ok libs uploaded key h t"
  "reported_ok libs uploaded key (t\<lparr>ss_pc := pc\<rparr>) = reported_ok libs uploaded key t"
  by (simp_all add: live_ok_def reported_ok_def)

lemma emit_ok:
  assumes "live_ok libs uploaded key h t"
  shows "case emit_committed closed t of
      Inl e \<Rightarrow> e = Event_receiver_closed
    | Inr t' \<Rightarrow> live_ok libs uploaded key h t' \<and> ss_accepted t' = ss_accepted t \<and>
        ss_uploads t' = ss_uploads t \<and> ss_pending t' = ss_pending t \<and>
        ss_sink t' = (ss_sink t)\<lparr>sk_progress := sk_progress (ss_sink t')\<rparr> \<and>
        ((\<forall>d. expected (sk_progress (ss_sink t)) d = 0) \<longrightarrow> tracker_is_empty (sk_progress (ss_sink t')))"
proof -
  obtain progress c where tk: "take_committed (sk_progress (ss_sink t)) = (progress, c)" by fastforce
  let ?s = "ss_sink t"
  have inv: "tracker_inv (sk_progress ?s)" using assms booksD(9) unfolding live_ok_def sink_ok_def by blast
  note r = take_expected[OF inv tk]
  have s: "sink_ok libs uploaded key (?s\<lparr>sk_progress := progress\<rparr>) (ss_uploads t) (ss_placed t) (waiting_rows (ss_pending t))"
    using assms r(1,2) by (simp add: live_ok_def sink_ok_def books_def)
  have ev: "events_ok (ss_events t) (next_commit (sk_progress ?s))" using assms by (simp add: live_ok_def)
  have "events_ok (ss_events t @ [through x]) (next_commit progress)" if "c = Some x" for x
  proof -
    have "through x < next_commit progress" using r(5)[OF that] by (simp add: word_less_nat_alt)
    then show ?thesis using ev r(5)[OF that] r(7) by (auto simp: events_ok_def intro: order_less_le_trans)
  qed
  then have live: "live_ok libs uploaded key h (t\<lparr>ss_sink := ?s\<lparr>sk_progress := progress\<rparr>,
      ss_events := (case c of None \<Rightarrow> ss_events t | Some x \<Rightarrow> ss_events t @ [through x])\<rparr>)"
    using assms s r(3,4) ev by (cases c) (simp_all add: live_ok_def journals_recorded_def open_journals_def)
  show ?thesis
    using live r(6) tk by (cases c) (simp_all add: emit_committed_def Let_def)
qed

lemma start_uploads_eq:
  "\<exists>r n u. start_uploads t = t\<lparr>ss_sink := (ss_sink t)\<lparr>sk_ready := r, sk_in_flight_objects := n\<rparr>, ss_uploads := u\<rparr> \<and>
     mset r + mset u = mset (sk_ready (ss_sink t)) + mset (ss_uploads t) \<and>
     (unat (sk_in_flight_objects (ss_sink t)) = length (ss_uploads t) \<longrightarrow> unat n = length u)"
proof (induction t rule: start_uploads.induct)
  case (1 t)
  let ?s = "ss_sink t"
  have same: ?case if "start_uploads t = t"
  proof -
    have "start_uploads t = t\<lparr>ss_sink := ?s\<lparr>sk_ready := sk_ready ?s, sk_in_flight_objects := sk_in_flight_objects ?s\<rparr>, ss_uploads := ss_uploads t\<rparr>"
      using that by simp
    then show ?thesis by blast
  qed
  show ?case
  proof (cases "sk_in_flight_objects ?s < ac_max_in_flight_objects (sk_config ?s)")
    case lt: True
    show ?thesis
    proof (cases "sk_ready ?s")
      case (Cons x ready)
      let ?t = "t\<lparr>ss_sink := ?s\<lparr>sk_ready := ready, sk_in_flight_objects := saturating_add (sk_in_flight_objects ?s) 1\<rparr>,
                  ss_uploads := ss_uploads t @ [x]\<rparr>"
      have st: "start_upload t = Some ?t" using Cons by (simp add: start_upload_def)
      have "unat (sk_in_flight_objects ?s) < 2 ^ 64 - 1"
        using lt unat_less_pow[of "ac_max_in_flight_objects (sk_config ?s)"] by (simp add: word_less_nat_alt)
      then have n: "unat (saturating_add (sk_in_flight_objects ?s) 1) = Suc (unat (sk_in_flight_objects ?s))"
        by (simp add: unat_saturating_add)
      have eq: "start_uploads t = start_uploads ?t" using lt st by (simp add: start_uploads.simps[of t])
      show ?thesis unfolding eq using 1[OF lt st] n Cons by auto
    qed (rule same, simp add: start_uploads.simps[of t] start_upload_def)
  qed (rule same, simp add: start_uploads.simps[of t])
qed

lemma start_uploads_live:
  assumes "live_ok libs uploaded key h t"
  shows "live_ok libs uploaded key h (start_uploads t)" "ss_pending (start_uploads t) = ss_pending t"
    "ss_input_closed (start_uploads t) = ss_input_closed t" "ep_buffers (sk_epoch (ss_sink (start_uploads t))) = ep_buffers (sk_epoch (ss_sink t))"
    "sk_closed_epochs (ss_sink (start_uploads t)) = sk_closed_epochs (ss_sink t)" "ss_accepted (start_uploads t) = ss_accepted t"
proof -
  obtain r n u where e: "start_uploads t = t\<lparr>ss_sink := (ss_sink t)\<lparr>sk_ready := r, sk_in_flight_objects := n\<rparr>, ss_uploads := u\<rparr>"
     "mset r + mset u = mset (sk_ready (ss_sink t)) + mset (ss_uploads t)"
     "unat (sk_in_flight_objects (ss_sink t)) = length (ss_uploads t) \<longrightarrow> unat n = length u"
    using start_uploads_eq[of t] by blast
  show "live_ok libs uploaded key h (start_uploads t)"
    using assms e by (simp add: live_ok_def sink_ok_def journals_recorded_def open_journals_def)
qed (use start_uploads_eq[of t] in auto)

subsection \<open>Every call keeps the invariant\<close>

lemma placed_ok_append:
  "placed_ok encoders i rows placed \<Longrightarrow> placed_ok encoders i rows' placed' \<Longrightarrow> placed_ok encoders i (rows @ rows') (placed @ placed')"
  by (auto simp: placed_ok_def)

lemma placed_ok_size:
  assumes "placed_ok encoders i rows placed"
  shows "length placed = length rows" "bytes_of placed = rows_bytes encoders rows"
proof -
  have rows: "rows = map pr_row placed" using assms by (auto simp: placed_ok_def)
  then show "length placed = length rows" by simp
  show "bytes_of placed = rows_bytes encoders rows"
    unfolding bytes_of_def rows_bytes_def rows map_map
    by (intro arg_cong[of _ _ sum_list] map_cong refl) (use assms in \<open>auto simp: placed_ok_def row_bytes_def\<close>)
qed

lemma placed_of_simps [simp]:
  "placed_of i (ps @ qs) = placed_of i ps @ placed_of i qs"
  "placed_ok encoders j rows placed \<Longrightarrow> placed_of i placed = (if i = j then placed else [])"
  by (auto simp: placed_of_def placed_ok_def filter_empty_conv intro: filter_True)

lemma history_group:
  assumes hist: "history_ok libs part ps (Some p) accepted received"
    and placed: "placed_ok (pd_encoders p) (pd_delivery_id p) (next_group p) placed"
  shows "history_ok libs part (ps @ placed)
    (if group_end (pd_rows p) (pd_next_row p) = length (pd_rows p) then None
     else Some (p\<lparr>pd_next_row := group_end (pd_rows p) (pd_next_row p)\<rparr>)) accepted received"
    (is "history_ok _ _ _ ?p' _ _")
proof -
  let ?e = "group_end (pd_rows p) (pd_next_row p)"
  have p: "pending_ok ps p" "pd_delivery_id p < received" using hist by (simp_all add: history_ok_def)
  then have p3: "pd_next_row p < length (pd_rows p)" by (simp add: pending_ok_def)
  note g = next_group_split[OF p3] and b = group_end_bounds[OF p3] and size = placed_ok_size[OF placed]
  have "pending_ok (ps @ placed) (p\<lparr>pd_next_row := ?e\<rparr>)" if "?e \<noteq> length (pd_rows p)"
    using p(1) b that size g(1,3) by (simp add: pending_ok_def rows_bytes_append)
  moreover have "accepted_ok libs part (ps @ placed) ?p' d" if mem: "d \<in> set accepted" for d
  proof (cases "pd_delivery_id p = sd_id d")
    case True
    have "accepted_ok libs part ps (Some p) d" using hist mem by (simp add: history_ok_def)
    then obtain rows encoders where r: "route_delivery libs part d = Inr rows" "delivery_encoders (sd_outputs d) = Inr encoders"
      "pd_rows p = rows" "pd_encoders p = encoders"
      "placed_ok encoders (sd_id d) (take (pd_next_row p) rows) (placed_of (sd_id d) ps)"
      using True by (auto simp: accepted_ok_def)
    have "placed_ok encoders (sd_id d) (take ?e rows) (placed_of (sd_id d) (ps @ placed))"
      using placed_ok_append[OF r(5), of "next_group p" placed] placed g(2) True r(3,4) by simp
    then show ?thesis using r True by (auto simp: accepted_ok_def)
  next
    case False
    then show ?thesis
      using hist mem placed by (auto simp: history_ok_def accepted_ok_def)
  qed
  moreover have "pr_delivery q < received" if "q \<in> set placed" for q using placed that p(2) by (auto simp: placed_ok_def)
  ultimately show ?thesis using hist by (auto simp: history_ok_def)
qed

lemma history_accept:
  assumes hist: "history_ok libs part ps None accepted received"
    and d: "sd_id d = received" "received \<noteq> 0" "received \<noteq> - 1"
    and p: "pd_delivery_id p = received" "pd_next_row p = 0" "route_delivery libs part d = Inr (pd_rows p)"
      "delivery_encoders (sd_outputs d) = Inr (pd_encoders p)" "pd_rows p \<noteq> [] \<Longrightarrow> pending_ok ps p"
  shows "history_ok libs part ps (if pd_rows p = [] then None else Some p) (accepted @ [d]) (delivery_id_next received)"
    (is "history_ok _ _ _ ?p _ _")
proof -
  have lt: "received < delivery_id_next received" using delivery_id_next_unat[OF d(3)] by (simp add: word_less_nat_alt)
  have "placed_of received ps = []" using hist by (auto simp: history_ok_def placed_of_def filter_empty_conv)
  then have new: "accepted_ok libs part ps ?p d" using d(1) p by (auto simp: accepted_ok_def placed_ok_def)
  have old: "accepted_ok libs part ps ?p d'" if "d' \<in> set accepted" for d'
  proof -
    have "pd_delivery_id p \<noteq> sd_id d'" using hist that p(1) by (auto simp: history_ok_def)
    then show ?thesis using hist that by (auto simp: history_ok_def accepted_ok_def)
  qed
  have "x < delivery_id_next received" if "x < received" for x using that lt by (rule less_trans)
  then show ?thesis using hist lt d p(1,5) new old unfolding history_ok_def by auto
qed

lemma drained_idle:
  assumes live: "live_ok libs uploaded key h t" and none: "ss_pending t = None" "ss_uploads t = []" "sk_ready (ss_sink t) = []"
    and empty: "ep_buffers (sk_epoch (ss_sink t)) = []" "\<forall>(e, epoch) \<in> set (sk_closed_epochs (ss_sink t)). ce_remaining_objects epoch \<noteq> 0"
  shows "sk_closed_epochs (ss_sink t) = []" "\<forall>d. expected (sk_progress (ss_sink t)) d = 0"
proof -
  let ?s = "ss_sink t"
  have b: "books libs uploaded key (ac_prefix (sk_config ?s)) (sk_expected_partition_id ?s) (sk_next_epoch_id ?s)
       (ep_buffers (sk_epoch ?s)) (ep_delivery_rows (sk_epoch ?s)) (sk_closed_epochs ?s) {#}
       (sk_buffered_bytes ?s) (sk_progress ?s) (ss_placed t) (\<lambda>_. 0)"
    using live none by (simp add: live_ok_def sink_ok_def waiting_rows_def)
  have "False" if mem: "(e, epoch) \<in> set (sk_closed_epochs ?s)" for e epoch
  proof -
    have "bt_get (sk_closed_epochs ?s) e = Some epoch" using bt_get_mem_iff[OF booksD(8)[OF b]] mem by simp
    then have "unat (ce_remaining_objects epoch) = 0" using booksD(3)[OF b] by (simp add: closed_epoch_ok_def)
    then show False using empty(2) mem by (auto simp: unat_eq_zero)
  qed
  then show closed: "sk_closed_epochs ?s = []" by (cases "sk_closed_epochs ?s") auto
  have "epoch_rows (sk_next_epoch_id ?s) (ss_placed t) = []" using booksD(11)[OF b] empty(1) buffers_of_empty by metis
  then have "unfinished (sk_next_epoch_id ?s) (sk_closed_epochs ?s) (ss_placed t) = []"
    using closed by (simp add: unfinished_def epoch_rows_def)
  then show "\<forall>d. expected (sk_progress ?s) d = 0" using booksD(10)[OF b] by simp
qed

lemma all_committed:
  assumes live: "live_ok libs uploaded key h t" and empty: "tracker_is_empty (sk_progress (ss_sink t))" and d: "d \<in> set (ss_accepted t)"
  shows "\<exists>e \<in> set (ss_events t). sd_id d \<le> e"
proof -
  let ?pr = "sk_progress (ss_sink t)"
  have "tracker_inv ?pr" using live booksD(9) unfolding live_ok_def sink_ok_def by blast
  then have "unat (next_received ?pr) = unat (next_commit ?pr)" using empty by (simp add: tracker_inv_alt tracker_is_empty_def)
  then have id: "unat (sd_id d) < unat (next_commit ?pr)" "unat (sd_id d) \<noteq> 0"
    using live d by (auto simp: live_ok_def history_ok_def word_less_nat_alt unat_eq_zero)
  then have "ss_events t \<noteq> []" "unat (next_commit ?pr) = Suc (unat (last (ss_events t)))"
    using live by (auto simp: live_ok_def events_ok_def)
  then show ?thesis using id(1) by (intro bexI[of _ "last (ss_events t)"]) (auto simp: word_le_nat_alt)
qed

lemma finish_drained_ok:
  assumes t0: "live_ok libs uploaded key h t0" and t: "live_ok libs uploaded key h t"
    and idle: "sk_closed_epochs (ss_sink t) = []" "\<forall>d. expected (sk_progress (ss_sink t)) d = 0"
    and none: "ss_uploads t = []" "ss_pending t = None"
  shows "session_ok libs uploaded key h (or_failed t0 (finish_drained closed t))"
proof (cases "emit_committed closed t")
  case (Inl e)
  then have "e = Event_receiver_closed" using emit_ok[OF t, of closed] by simp
  then show ?thesis using Inl session_failed[OF t0] by (simp add: finish_drained_def)
next
  case (Inr t')
  then have t': "live_ok libs uploaded key h t'" "ss_sink t' = (ss_sink t)\<lparr>sk_progress := sk_progress (ss_sink t')\<rparr>"
    "tracker_is_empty (sk_progress (ss_sink t'))" "ss_uploads t' = []" "ss_pending t' = None"
    using emit_ok[OF t, of closed] idle(2) none by simp_all
  have "sk_closed_epochs (ss_sink t') = []" by (subst t'(2)) (simp add: idle(1))
  then have "or_failed t0 (finish_drained closed t) = Some (run_actor_stop Stopped_drained t')"
    using Inr t'(3) by (simp add: finish_drained_def or_failed_def)
  moreover have "ss_pc (run_actor_stop Stopped_drained t') = Stopped_drained"
    "ss_accepted (run_actor_stop Stopped_drained t') = ss_accepted t'" "ss_events (run_actor_stop Stopped_drained t') = ss_events t'"
    by (simp_all add: run_actor_stop_def)
  moreover have "run_actor_stop Stopped_drained t' = t'\<lparr>ss_pc := Stopped_drained\<rparr>"
    using t'(1,4) by (simp add: run_actor_stop_def live_ok_def sink_ok_def unat_eq_zero)
  ultimately show ?thesis
    using live_reported[OF t'(1)] all_committed[OF t'(1,3)] t' by (simp add: session_ok_def live_fields)
qed

lemma resume_keeps:
  assumes js: "json_laws (sl_json libs)" and t0: "live_ok libs uploaded key h t0" and t: "live_ok libs uploaded key h t"
    and p: "ss_pending t = Some p" and chain: "s3_chain libs uploaded h"
  shows "s3_keeps libs uploaded key (\<lambda>h r. session_ok libs uploaded key h (or_failed t0 r)) (resume_pending libs io p t) h"
proof -
  let ?s = "ss_sink t" and ?e = "group_end (pd_rows p) (pd_next_row p)"
  have hist: "history_ok libs (sk_expected_partition_id ?s) (ss_placed t) (Some p) (ss_accepted t) (next_received (sk_progress ?s))"
    using t p by (simp add: live_ok_def)
  then have ok: "sink_ok libs uploaded key ?s (ss_uploads t) (ss_placed t) (waiting_rows (Some p))"
    "journals_recorded (sl_json libs) key h ?s" "pending_ok (ss_placed t) p"
    using t p by (simp_all add: live_ok_def history_ok_def)
  show ?thesis
    unfolding resume_pending_def keeps_dmap
  proof (rule keeps_mono[OF accept_next_keeps[OF js ok(1,2) chain ok(3)] chain])
    fix h' r
    assume r: "next_post libs uploaded key ?s (ss_uploads t) (ss_placed t) p h' r"
    show "session_ok libs uploaded key h' (or_failed t0 (map_sum id (\<lambda>(s, pending, placed).
         t\<lparr>ss_sink := s, ss_pending := (if pd_next_row pending = length (pd_rows pending) then None else Some pending),
           ss_placed := ss_placed t @ placed, ss_pc := Loop_top\<rparr>) r))"
    proof (cases r)
      case (Inl e)
      then show ?thesis using r session_failed[OF t0] by (simp add: next_post_def)
    next
      case (Inr x)
      obtain s' placed where x: "x = (s', p\<lparr>pd_next_row := ?e\<rparr>, placed)"
        "s3_post libs uploaded key ?s (ss_uploads t) (ss_placed t @ placed) (waiting_rows (Some (p\<lparr>pd_next_row := ?e\<rparr>))) h' (Inr s')"
        "placed_ok (pd_encoders p) (pd_delivery_id p) (next_group p) placed"
        using r Inr by (auto simp: next_post_def)
      let ?p' = "if ?e = length (pd_rows p) then None else Some (p\<lparr>pd_next_row := ?e\<rparr>)"
      have "waiting_rows (Some (p\<lparr>pd_next_row := ?e\<rparr>)) = waiting_rows ?p'" by (auto simp: waiting_rows_def)
      then have "live_ok libs uploaded key h'
          (t\<lparr>ss_sink := s', ss_pending := ?p', ss_placed := ss_placed t @ placed, ss_pc := Loop_top\<rparr>)"
        using s3_postD[OF x(2)] history_group[OF hist x(3)] t by (simp add: live_ok_def kept_def)
      then show ?thesis using Inr x(1) by (simp add: or_failed_def session_live)
    qed
  qed
qed

lemma live_barrier:
  "live_ok libs uploaded key h t \<Longrightarrow> live_ok libs uploaded key h (t\<lparr>ss_sink := clear_memory_barrier pressured (ss_sink t)\<rparr>)"
  by (auto simp: clear_memory_barrier_def live_ok_def sink_ok_def journals_recorded_def open_journals_def split: option.splits)

lemma loop_top_ok:
  assumes "live_ok libs uploaded key h t"
  shows "session_ok libs uploaded key h (or_failed t (loop_top io t))"
  using emit_ok[OF assms, of "in_receiver_closed io"] session_failed[OF assms, of Event_receiver_closed]
  by (cases "emit_committed (in_receiver_closed io) t") (simp_all add: loop_top_def or_failed_def session_live live_fields)

lemma close_epoch_live:
  assumes js: "json_laws (sl_json libs)" and t0: "live_ok libs uploaded key h t0" and t: "live_ok libs uploaded key h t"
    and chain: "s3_chain libs uploaded h"
  shows "s3_keeps libs uploaded key (\<lambda>h r. session_ok libs uploaded key h (or_failed t0 r))
    (dmap (map_sum id (\<lambda>s. t\<lparr>ss_sink := s, ss_pc := Loop_top\<rparr>)) (close_epoch libs (ss_sink t))) h"
proof -
  have ok: "sink_ok libs uploaded key (ss_sink t) (ss_uploads t) (ss_placed t) (waiting_rows (ss_pending t))"
    "journals_recorded (sl_json libs) key h (ss_sink t)" using t by (simp_all add: live_ok_def)
  show ?thesis
    unfolding keeps_dmap
  proof (rule keeps_mono[OF close_epoch_keeps[OF js ok chain] chain])
    fix h' r assume r: "s3_post libs uploaded key (ss_sink t) (ss_uploads t) (ss_placed t) (waiting_rows (ss_pending t)) h' r"
    show "session_ok libs uploaded key h' (or_failed t0 (map_sum id (\<lambda>s. t\<lparr>ss_sink := s, ss_pc := Loop_top\<rparr>) r))"
    proof (cases r)
      case (Inl e)
      then show ?thesis using r session_failed[OF t0] by (simp add: s3_post_def)
    next
      case (Inr s')
      then show ?thesis using live_update[OF t r[unfolded Inr], of Loop_top] by (simp add: or_failed_def session_live)
    qed
  qed
qed

lemma prepare_delivery_external: "prepare_delivery libs d s = Inl e \<Longrightarrow> external libs key e"
proof -
  have rows: "route_rows part k out n routes = Inl e \<Longrightarrow> external libs key e" for part k out n routes
    by (induction routes arbitrary: n) (auto simp: res_bind_def split: if_splits sum.splits)
  have outputs: "route_outputs part k outputs = Inl e \<Longrightarrow> external libs key e" for part k outputs
    by (induction outputs arbitrary: k) (auto simp: res_bind_def dest: rows split: sum.splits)
  have encoders: "delivery_encoders outputs = Inl e \<Longrightarrow> external libs key e" for outputs
    by (induction outputs) (auto simp: res_bind_def split: sum.splits)
  have bound: "route_bound b outputs = Inl e \<Longrightarrow> external libs key e" for b outputs
    by (induction outputs arbitrary: b) (auto split: sum.splits)
  show "prepare_delivery libs d s = Inl e \<Longrightarrow> external libs key e"
    by (auto simp: prepare_delivery_def route_delivery_def Let_def res_bind_def dest: outputs encoders bound split: if_splits sum.splits)
qed

lemma live_extends: "live_ok libs uploaded key h t \<Longrightarrow> extends h h' \<Longrightarrow> live_ok libs uploaded key h' t"
  by (auto simp: live_ok_def intro: journals_recorded_extends)

lemma session_extends: "session_ok libs uploaded key h x \<Longrightarrow> extends h h' \<Longrightarrow> session_ok libs uploaded key h' x"
  by (auto simp: session_ok_def intro: live_extends split: option.splits actor_pc.splits)

lemma loop_body_keeps:
  assumes js: "json_laws (sl_json libs)" and t: "live_ok libs uploaded key h t" and chain: "s3_chain libs uploaded h"
  shows "s3_keeps libs uploaded key (\<lambda>h r. session_ok libs uploaded key h (or_failed t r)) (loop_body libs io t) h"
proof -
  let ?s = "ss_sink t"
  have ok: "sink_ok libs uploaded key ?s (ss_uploads t) (ss_placed t) (waiting_rows (ss_pending t))"
    "journals_recorded (sl_json libs) key h ?s" using t by (simp_all add: live_ok_def)
  show ?thesis
    unfolding loop_body_def keeps_dbind
  proof (rule keeps_mono[OF close_completed_keeps[OF js ok chain] chain], goal_cases)
    case (1 h' r)
    note t' = live_extends[OF t 1(1)]
    show ?case
    proof (cases r)
      case (Inl e)
      then show ?thesis using 1(3) session_failed[OF t'] by (simp add: close_post_def)
    next
      case (Inr x)
      obtain s' found where x: "x = (s', found)" by (cases x)
      note r = 1(3)[unfolded Inr x close_post_def, simplified]
      have live: "live_ok libs uploaded key h' (t\<lparr>ss_sink := s', ss_pc := Loop_top\<rparr>)"
        using live_update[OF t r[THEN conjunct1], of Loop_top] by simp
      then have live': "live_ok libs uploaded key h' (t\<lparr>ss_sink := s'\<rparr>)" by (simp add: live_ok_def)
      show ?thesis
      proof (cases found)
        case True
        then show ?thesis using Inr x live by (simp add: or_failed_def session_live)
      next
        case False
        then have s': "s' = ?s" "\<forall>(e, epoch) \<in> set (sk_closed_epochs ?s). ce_remaining_objects epoch \<noteq> 0" using r by auto
        have tt: "t\<lparr>ss_sink := ?s\<rparr> = t" by simp
        let ?t = "start_uploads t"
        note up = start_uploads_live[OF t']
        let ?b = "?t\<lparr>ss_sink := clear_memory_barrier (in_transform_pressured io) (ss_sink ?t)\<rparr>"
        have b: "live_ok libs uploaded key h' ?b" by (rule live_barrier[OF up(1)])
        have sel: "session_ok libs uploaded key h' (or_failed t (Inr (?b\<lparr>ss_pc := Loop_select\<rparr>)))"
          using b by (simp add: or_failed_def session_live live_fields)
        have fin: "session_ok libs uploaded key h' (or_failed t (finish_drained (in_receiver_closed io) ?t))"
          if "ss_pending t = None" "ss_uploads ?t = []" "sk_ready (ss_sink ?t) = []" "ep_buffers (sk_epoch ?s) = []"
          using that up s'(2) by (intro finish_drained_ok t' up(1) drained_idle[OF up(1)]) simp_all
        have clo: "s3_keeps libs uploaded key (\<lambda>h r. session_ok libs uploaded key h (or_failed t r))
            (dmap (map_sum id (\<lambda>s. t\<lparr>ss_sink := s, ss_pc := Loop_top\<rparr>)) (close_epoch libs ?s)) h'"
          by (rule close_epoch_live[OF js t' t' 1(2)])
        have res: "s3_keeps libs uploaded key (\<lambda>h r. session_ok libs uploaded key h (or_failed t r)) (resume_pending libs io p ?b) h'"
          if "ss_pending t = Some p" for p
          by (rule resume_keeps[OF js t' b _ 1(2)]) (simp add: up that)
        show ?thesis
          unfolding Inr x sum.case prod.case s'(1) Let_def tt
          using False sel fin clo res up(2) by (auto split: option.splits)
      qed
    qed
  qed
qed

lemma delivery_live:
  assumes t: "live_ok libs uploaded key h t" and sort: "sort_laws libs" and none: "ss_pending t = None"
    and fits: "delivery_fits libs t d" and prep: "prepare_delivery libs d (ss_sink t) = Inr (s', p)"
  shows "live_ok libs uploaded key h (t\<lparr>ss_sink := s', ss_pending := (if pd_rows p = [] then None else Some p),
      ss_accepted := ss_accepted t @ [d], ss_pc := pc\<rparr>)"
proof -
  let ?s = "ss_sink t"
  have ok: "sink_ok libs uploaded key ?s (ss_uploads t) (ss_placed t) (\<lambda>_. 0)"
    and hist: "history_ok libs (sk_expected_partition_id ?s) (ss_placed t) None (ss_accepted t) (next_received (sk_progress ?s))"
    using t none by (simp_all add: live_ok_def waiting_rows_def)
  have id: "sd_id d \<noteq> - 1" using fits by (simp add: delivery_fits_def)
  have rt: "route_delivery libs (sk_expected_partition_id ?s) d = Inr (pd_rows p)" "delivery_encoders (sd_outputs d) = Inr (pd_encoders p)"
    using prepare_delivery_InrD[OF prep] by blast+
  have lim: "length (ss_placed t) + length (pd_rows p) < 2 ^ 63"
    "bytes_of (ss_placed t) + rows_bytes (pd_encoders p) (pd_rows p) < 2 ^ 64"
    using fits rt by (simp_all add: delivery_fits_def)
  note p = prepare_delivery_ok[OF ok sort prep id lim]
  have "tracker_inv (sk_progress ?s)" using ok booksD(9) unfolding sink_ok_def by blast
  then have "unat (next_commit (sk_progress ?s)) \<le> unat (next_received (sk_progress ?s))" by (simp add: tracker_inv_alt)
  moreover have "unat (next_commit (sk_progress ?s)) \<noteq> 0" using t by (auto simp: live_ok_def events_ok_def)
  ultimately have "next_received (sk_progress ?s) \<noteq> 0" by auto
  then have "history_ok libs (sk_expected_partition_id ?s) (ss_placed t) (if pd_rows p = [] then None else Some p) (ss_accepted t @ [d])
      (delivery_id_next (next_received (sk_progress ?s)))"
    using p id by (intro history_accept[OF hist]) simp_all
  moreover have "waiting_rows (Some p) = waiting_rows (if pd_rows p = [] then None else Some p)" by (auto simp: waiting_rows_def)
  ultimately show ?thesis
    using t p by (simp add: live_ok_def journals_recorded_def)
qed

lemma loop_select_keeps:
  assumes js: "json_laws (sl_json libs)" and sort: "sort_laws libs" and t: "live_ok libs uploaded key h t"
    and chain: "s3_chain libs uploaded h" and ev: "event_enabled io event t" "event_possible libs uploaded event t"
  shows "s3_keeps libs uploaded key (\<lambda>h r. session_ok libs uploaded key h (or_failed t r)) (loop_select libs event t) h"
proof (cases event)
  case Ev_cancelled
  have "session_ok libs uploaded key h (Some (run_actor_stop Stopped_cancelled t))"
    using live_reported[OF t] by (simp add: session_ok_def) (simp add: run_actor_stop_def)
  then show ?thesis using Ev_cancelled by (simp add: loop_select_def or_failed_def)
next
  case (Ev_upload n result)
  let ?o = "ss_uploads t ! n"
  have ok: "sink_ok libs uploaded key (ss_sink t) (ss_uploads t) (ss_placed t) (waiting_rows (ss_pending t))"
    "journals_recorded (sl_json libs) key h (ss_sink t)" using t by (simp_all add: live_ok_def)
  have mem: "?o \<in> set (ss_uploads t)" using ev(1) Ev_upload by (simp add: event_enabled_def)
  show ?thesis
  proof (cases result)
    case (Inl e)
    then show ?thesis
      using Ev_upload complete_upload_failed[OF ok(1) mem] session_failed[OF t] by (simp add: loop_select_def Let_def)
  next
    case (Inr u)
    then have "(co_key ?o, co_payload ?o) \<in> uploaded" using ev(2) Ev_upload by (simp add: event_possible_def)
    then obtain s' where s': "complete_upload ?o (Inr ()) (ss_sink t) = Inr s'"
      "sink_ok libs uploaded key s' (remove1 ?o (ss_uploads t)) (ss_placed t) (waiting_rows (ss_pending t))" "kept (ss_sink t) s'"
      "open_journals s' \<subseteq> open_journals (ss_sink t)" using complete_upload_ok[OF ok(1) mem] by blast
    then have "s3_post libs uploaded key (ss_sink t) (remove1 ?o (ss_uploads t)) (ss_placed t) (waiting_rows (ss_pending t)) h (Inr s')"
      using journals_recorded_mono[OF ok(2)] by (simp add: s3_post_def)
    then show ?thesis
      using live_update[OF t, of "remove1 ?o (ss_uploads t)" h s' Loop_top] Ev_upload Inr s'(1)
      by (simp add: loop_select_def Let_def or_failed_def session_live)
  qed
next
  case Ev_upload_lost
  then show ?thesis using session_failed[OF t] by (simp add: loop_select_def)
next
  case (Ev_delivery d)
  show ?thesis
  proof (cases d)
    case None
    then show ?thesis using Ev_delivery t by (simp add: loop_select_def or_failed_def session_live live_ok_def)
  next
    case (Some delivery)
    show ?thesis
    proof (cases "prepare_delivery libs delivery (ss_sink t)")
      case (Inl e)
      then have "external libs key e" by (rule prepare_delivery_external)
      then show ?thesis using Ev_delivery Some Inl session_failed[OF t] by (simp add: loop_select_def)
    next
      case (Inr x)
      obtain s' p where x: "x = (s', p)" by (cases x)
      have "live_ok libs uploaded key h (t\<lparr>ss_sink := s', ss_pending := (if pd_rows p = [] then None else Some p),
          ss_accepted := ss_accepted t @ [delivery], ss_pc := Loop_top\<rparr>)"
        using ev Ev_delivery Some Inr x
        by (intro delivery_live[OF t sort]) (simp_all add: event_enabled_def event_possible_def can_accept_def)
      then show ?thesis using Ev_delivery Some Inr x by (simp add: loop_select_def or_failed_def session_live)
    qed
  qed
next
  case Ev_wall_clock
  then show ?thesis using close_epoch_live[OF js t t chain] by (simp add: loop_select_def)
qed

lemma s3_calls_keep:
  assumes js: "json_laws (sl_json libs)" and sort: "sort_laws libs" and x: "session_ok libs uploaded key h x"
    and chain: "s3_chain libs uploaded h" and p: "p \<in> s3_calls libs uploaded x"
  shows "s3_keeps libs uploaded key (session_ok libs uploaded key) p h"
proof -
  have start: "s3_keeps libs uploaded key (session_ok libs uploaded key)
      (Return (Some (run_actor_start (s3_sink_new config keep part discovery) [] [] []))) h" for config keep part discovery
    using live_start[of libs uploaded key h] session_live[of "run_actor_start (s3_sink_new config keep part discovery) [] [] []"]
    by (simp add: run_actor_start_def)
  show ?thesis
  proof (cases x)
    case None
    then show ?thesis using p start by (auto simp: s3_calls_def)
  next
    case (Some t)
    have live: "live_ok libs uploaded key h t" if "ss_pc t \<in> {Loop_top, Loop_body, Loop_select}"
      using x Some session_live[OF that] by simp
    show ?thesis
    proof (cases "ss_pc t")
      case Loop_top
      then show ?thesis using p Some loop_top_ok[OF live] by (auto simp: s3_calls_def)
    next
      case Loop_body
      then show ?thesis using p Some loop_body_keeps[OF js live chain] by (auto simp: s3_calls_def keeps_dmap)
    next
      case Loop_select
      then show ?thesis using p Some loop_select_keeps[OF js sort live chain] by (auto simp: s3_calls_def keeps_dmap)
    next
      case Stopped_drained
      then have t: "live_ok libs uploaded key h t" "ss_uploads t = []" "ss_pending t = None" using x Some by (simp_all add: session_ok_def)
      have "live_ok libs uploaded key h
          (run_actor_start (update_discovery discovery (ss_sink t)) (ss_events t) (ss_accepted t) (ss_placed t))" for discovery
        using t by (simp add: live_ok_def run_actor_start_def update_discovery_def sink_ok_def journals_recorded_def open_journals_def)
      then have "session_ok libs uploaded key h
          (Some (run_actor_start (update_discovery discovery (ss_sink t)) (ss_events t) (ss_accepted t) (ss_placed t)))" for discovery
        by (subst session_live) (simp_all add: run_actor_start_def)
      then show ?thesis using p Some start Stopped_drained by (auto simp: s3_calls_def)
    qed (use p Some start in \<open>auto simp: s3_calls_def\<close>)
  qed
qed

subsection \<open>The system of all sessions\<close>

text \<open>
  Any number of processes run sessions over one durable storage. Every key of an epoch journal is a cell of the protocol,
  and the other journals are its other keys.
\<close>

definition s3_laws :: "s3_libs \<Rightarrow> bool" where
  "s3_laws libs \<longleftrightarrow> sha256_laws (sl_sha256 libs) \<and> json_laws (sl_json libs) \<and> sort_laws libs"

definition lawful_libs :: "s3_libs \<Rightarrow> s3_libs" where
  "lawful_libs libs =
     (if s3_laws libs then libs
      else libs\<lparr>sl_sha256 := lawful_digest (sl_sha256 libs), sl_json := lawful (sl_json libs), sl_sort := (\<lambda>rows. rows)\<rparr>)"

lemma lawful_libs_laws: "s3_laws (lawful_libs libs)" "s3_laws libs \<Longrightarrow> lawful_libs libs = libs"
  by (simp_all add: lawful_libs_def s3_laws_def sort_laws_def)

interpretation s3_actor: stored_protocol lf "sl_json (lawful_libs libs)" "journal_key (sl_sha256 (lawful_libs libs)) p objects"
  journal_initial "journal_closes (in_store (sl_sha256 (lawful_libs libs)) uploaded)"
  "session_ok (lawful_libs libs) uploaded (journal_key (sl_sha256 (lawful_libs libs)) p objects)"
  "s3_calls (lawful_libs libs) uploaded" "journal_keys (lawful_libs libs)"
  for lf libs p objects uploaded
proof
  have sha: "sha256_laws (sl_sha256 (lawful_libs libs))" and js: "json_laws (sl_json (lawful_libs libs))"
    and sort: "sort_laws (lawful_libs libs)" using lawful_libs_laws(1)[of libs] by (simp_all add: s3_laws_def)
  let ?K = "journal_key (sl_sha256 (lawful_libs libs)) p objects"
  show "plain_key ?K" by (rule journal_key_plain[OF sha])
  show "journal_keys (lawful_libs libs) k \<Longrightarrow> plain_key k" for k
    using journal_key_plain[OF sha] by (auto simp: journal_keys_def)
  show "session_ok (lawful_libs libs) uploaded ?K h None" for h by (simp add: session_ok_def)
  show "s3_keeps (lawful_libs libs) uploaded ?K (session_ok (lawful_libs libs) uploaded ?K) c h"
    if "session_ok (lawful_libs libs) uploaded ?K h x" "s3_chain (lawful_libs libs) uploaded h" "c \<in> s3_calls (lawful_libs libs) uploaded x" for h x c
    by (rule s3_calls_keep[OF js sort that])
qed (rule session_extends)

lemma session_reach:
  assumes laws: "s3_laws libs" and st0: "local_inv lf st0" "\<forall>k. journal_keys libs k \<longrightarrow> local_cell lf st0 k = None"
    and reach: "dsys_reach (local_file_storage lf) (s3_calls libs uploaded) st0 s" "snd s i = Idle x"
    and key: "journal_keys libs key"
  shows "\<exists>h. session_ok libs uploaded key h x"
proof -
  obtain p objects where k: "key = journal_key (sl_sha256 libs) p objects" using key by (auto simp: journal_keys_def)
  show ?thesis
    using s3_actor.reach_idle[where lf = lf and libs = libs and p = p and objects = objects and uploaded = uploaded and s = s
        and i = i and t = x, unfolded lawful_libs_laws(2)[OF laws], OF reach(1) st0(1) _ reach(2)] st0(2) key k
    by auto
qed

lemma route_rows_complete:
  "route_rows part k out n routes = Inr rows \<Longrightarrow> j < length routes \<Longrightarrow>
   \<lparr>rw_output_index = k, rw_row_index = n + j, rw_table = so_table out, rw_is_dlq = so_is_dlq out, rw_route = routes ! j\<rparr> \<in> set rows"
proof (induction routes arbitrary: n rows j)
  case (Cons route routes)
  obtain rest where rest: "route_rows part k out (Suc n) routes = Inr rest"
    "rows = \<lparr>rw_output_index = k, rw_row_index = n, rw_table = so_table out, rw_is_dlq = so_is_dlq out, rw_route = route\<rparr> # rest"
    using Cons.prems(1) by (auto simp: res_bind_Inr_iff split: if_splits)
  then show ?case using Cons.IH[OF rest(1)] Cons.prems(2) by (cases j) auto
qed simp

lemma route_outputs_complete:
  "route_outputs part k outputs = Inr rows \<Longrightarrow> n < length outputs \<Longrightarrow>
   \<exists>routes. so_routes (outputs ! n) = Inr routes \<and> (\<forall>j < length routes.
     \<lparr>rw_output_index = k + n, rw_row_index = j, rw_table = so_table (outputs ! n), rw_is_dlq = so_is_dlq (outputs ! n),
      rw_route = routes ! j\<rparr> \<in> set rows)"
proof (induction outputs arbitrary: k rows n)
  case (Cons out outputs)
  obtain routes rows1 rows2 where r: "so_routes out = Inr routes" "route_rows part k out 0 routes = Inr rows1"
    "route_outputs part (Suc k) outputs = Inr rows2" "rows = rows1 @ rows2"
    using Cons.prems(1) by (auto simp: res_bind_Inr_iff split: sum.splits)
  show ?case
  proof (cases n)
    case 0
    then show ?thesis using r route_rows_complete[OF r(2)] by auto
  next
    case (Suc m)
    then show ?thesis using Cons.IH[OF r(3), of m] Cons.prems(2) r(4) by auto
  qed
qed simp

lemma delivery_encoders_nth:
  "delivery_encoders outputs = Inr encoders \<Longrightarrow> n < length outputs \<Longrightarrow> so_encoder (outputs ! n) = Inr (encoders ! n)"
proof (induction outputs arbitrary: encoders n)
  case (Cons out outputs)
  then show ?case by (cases n) (auto simp: res_bind_Inr_iff split: sum.splits)
qed simp

text \<open>
  What a commit promises. The bytes of a row are in the payload of an object of its table and partition path, and the
  store accepted an object with that key, digest and length.
\<close>

definition row_stored :: "s3_libs \<Rightarrow> (string \<times> u8 list) set \<Rightarrow> string \<Rightarrow> string \<Rightarrow> string \<Rightarrow> u8 list \<Rightarrow> bool" where
  "row_stored libs uploaded prefix table partition_path bytes \<longleftrightarrow>
     (\<exists>topic source_partition start_offset key payload stored.
        for_json_object libs prefix table partition_path topic source_partition start_offset = Inr key \<and>
        infix_of bytes payload \<and> (key, stored) \<in> uploaded \<and>
        hex_digest (sl_sha256 libs) stored = hex_digest (sl_sha256 libs) payload \<and>
        (of_nat (length stored) :: u64) = of_nat (length payload))"

definition delivery_stored :: "s3_libs \<Rightarrow> (string \<times> u8 list) set \<Rightarrow> string \<Rightarrow> s3_delivery \<Rightarrow> bool" where
  "delivery_stored libs uploaded prefix d \<longleftrightarrow>
     (\<forall>output \<in> set (sd_outputs d). \<exists>routes encoder.
        so_routes output = Inr routes \<and> so_encoder output = Inr encoder \<and>
        (\<forall>j < length routes. \<exists>bytes. encoder j = Inr bytes \<and>
           row_stored libs uploaded prefix (so_table output) (rr_partition_path (routes ! j)) bytes))"

lemma placed_stored:
  assumes fin: "\<And>key. journal_keys libs key \<Longrightarrow> finished_ok libs uploaded key prefix part ps (pr_epoch p)" and p: "p \<in> set ps"
  shows "row_stored libs uploaded prefix (rw_table (pr_row p)) (rr_partition_path (rw_route (pr_row p))) (pr_bytes p)"
proof -
  obtain objects where objs: "epoch_objects libs prefix ps (pr_epoch p) = Inr objects"
    using fin[of "journal_key (sl_sha256 libs) part []"] by (auto simp: finished_ok_def journal_keys_def)
  let ?K = "journal_key (sl_sha256 libs) part (map (manifest_object_of (sl_sha256 libs)) objects)"
  have store: "\<forall>o' \<in> set objects. in_store (sl_sha256 libs) uploaded (manifest_object_of (sl_sha256 libs) o')"
    using fin[of ?K] objs by (auto simp: finished_ok_def journal_keys_def)
  show ?thesis
    using epoch_objects_row[OF objs p] store
    by (fastforce simp: row_stored_def in_store_def manifest_object_of_def)
qed

lemma finished_stored:
  assumes sort: "sort_laws libs" and fin: "\<And>key. journal_keys libs key \<Longrightarrow> delivery_finished libs uploaded key prefix part ps d"
  shows "delivery_stored libs uploaded prefix d"
proof -
  have "journal_keys libs (journal_key (sl_sha256 libs) part [])" by (auto simp: journal_keys_def)
  then have "accepted_ok libs part ps None d" using fin by (simp add: delivery_finished_def)
  then obtain rows encoders where r: "route_delivery libs part d = Inr rows" "delivery_encoders (sd_outputs d) = Inr encoders"
    "placed_ok encoders (sd_id d) rows (placed_of (sd_id d) ps)" by (auto simp: accepted_ok_def)
  obtain routed where routed: "route_outputs part 0 (sd_outputs d) = Inr routed" "set rows = set routed"
    using route_delivery_ok[OF sort r(1)] mset_eq_setD by blast
  have stored: "\<exists>bytes. (encoders ! rw_output_index row) (rw_row_index row) = Inr bytes \<and>
      row_stored libs uploaded prefix (rw_table row) (rr_partition_path (rw_route row)) bytes" if row: "row \<in> set routed" for row
  proof -
    have "row \<in> pr_row ` set (placed_of (sd_id d) ps)" using r(3) row routed(2) by (force simp: placed_ok_def)
    then obtain p where p: "p \<in> set ps" "pr_delivery p = sd_id d" "pr_row p = row"
      "(encoders ! rw_output_index row) (rw_row_index row) = Inr (pr_bytes p)"
      using r(3) by (auto simp: placed_ok_def placed_of_def)
    have "finished_ok libs uploaded key prefix part ps (pr_epoch p)" if "journal_keys libs key" for key
      using fin[OF that] p by (simp add: delivery_finished_def)
    then have "row_stored libs uploaded prefix (rw_table (pr_row p)) (rr_partition_path (rw_route (pr_row p))) (pr_bytes p)"
      by (rule placed_stored[OF _ p(1)])
    then show ?thesis using p(3,4) by auto
  qed
  show ?thesis
    unfolding delivery_stored_def
  proof
    fix x assume "x \<in> set (sd_outputs d)"
    then obtain n where n: "n < length (sd_outputs d)" "x = sd_outputs d ! n" by (auto simp: in_set_conv_nth)
    obtain routes where routes: "so_routes x = Inr routes" "\<forall>j < length routes.
     \<lparr>rw_output_index = n, rw_row_index = j, rw_table = so_table x, rw_is_dlq = so_is_dlq x, rw_route = routes ! j\<rparr> \<in> set routed"
      using route_outputs_complete[OF routed(1) n(1)] n(2) by auto
    have "\<exists>bytes. (encoders ! n) j = Inr bytes \<and> row_stored libs uploaded prefix (so_table x) (rr_partition_path (routes ! j)) bytes"
      if "j < length routes" for j using stored[OF routes(2)[rule_format, OF that]] by simp
    then show "\<exists>routes encoder. so_routes x = Inr routes \<and> so_encoder x = Inr encoder \<and> (\<forall>j < length routes. \<exists>bytes. encoder j = Inr bytes \<and>
           row_stored libs uploaded prefix (so_table x) (rr_partition_path (routes ! j)) bytes)"
      using routes(1) delivery_encoders_nth[OF r(2) n(1)] n(2) by blast
  qed
qed

text \<open>The errors that come from outside: configuration, input, the object store, the durable storage or a closed channel.\<close>

fun outside_failure :: "s3_error \<Rightarrow> bool" where
  "outside_failure (Journal_failed k e) = (e = Journal_mismatch k \<or> (\<exists>d. e = Journal_storage_failed d))"
| "outside_failure e =
     (case e of
        Encoder_index_out_of_range \<Rightarrow> False | Complete_failed _ \<Rightarrow> False | Replayed_bytes_underflow \<Rightarrow> False
      | In_flight_underflow \<Rightarrow> False | Bytes_underflow \<Rightarrow> False | Missing_epoch_progress _ \<Rightarrow> False
      | Epoch_progress_underflow \<Rightarrow> False | Completed_epoch_disappeared _ \<Rightarrow> False
      | Closing_epoch_disappeared _ \<Rightarrow> False | Stopped_with_incomplete_progress \<Rightarrow> False | _ \<Rightarrow> True)"

lemma external_outside:
  assumes "\<And>key. journal_keys libs key \<Longrightarrow> external libs key e"
  shows "outside_failure e"
proof -
  have ex: "external libs (journal_key (sl_sha256 libs) 0 []) e" using assms by (auto simp: journal_keys_def)
  show ?thesis
  proof (cases e)
    case (Journal_failed k x)
    then show ?thesis using ex assms[of k] by simp
  qed (use ex in auto)
qed

lemma committed_stored:
  assumes "s3_laws libs" and "local_inv lf st0" and "\<forall>k. journal_keys libs k \<longrightarrow> local_cell lf st0 k = None"
    and "dsys_reach (local_file_storage lf) (s3_calls libs uploaded) st0 s" and "snd s i = Idle (Some t)"
    and "e \<in> set (ss_events t)" and "d \<in> set (ss_accepted t)" and "sd_id d \<le> e"
  shows "delivery_stored libs uploaded (ac_prefix (sk_config (ss_sink t))) d"
proof (rule finished_stored)
  show "sort_laws libs" using assms(1) by (simp add: s3_laws_def)
  show "delivery_finished libs uploaded key (ac_prefix (sk_config (ss_sink t))) (sk_expected_partition_id (ss_sink t)) (ss_placed t) d"
    if "journal_keys libs key" for key
    using session_reach[OF assms(1-5) that] assms(6-8) by (auto simp: session_ok_def reported_ok_def)
qed

subsection \<open>A concrete run\<close>

text \<open>One delivery of two rows: its object is uploaded, the epoch is closed, the delivery is committed and the sink drains.\<close>

definition example_s3_libs :: s3_libs where
  "example_s3_libs =
     \<lparr>sl_sha256 = example_digest, sl_json = example_journal_json, sl_path_part = (\<lambda>_. Inr ()), sl_path = Inr,
      sl_sort = sort_key routed_row_key\<rparr>"

definition example_s3_config :: s3_actor_config where
  "example_s3_config =
     \<lparr>ac_prefix = [],
      ac_rotation = \<lparr>rot_max_rows = 2, rot_max_bytes = 1000, rot_record_time_interval = None, rot_wall_clock_interval = None,
                     rot_on_partition_path_change = Rotate\<rparr>,
      ac_buffering = \<lparr>buf_max_epoch_buffers = 10, buf_max_pending_upload_objects = 10, buf_max_buffered_bytes = 1000,
                      buf_max_epoch_bytes = None\<rparr>,
      ac_max_in_flight_objects = 2\<rparr>"

definition example_s3_delivery :: s3_delivery where
  "example_s3_delivery =
     (let route = \<lparr>rr_partition_path = ''p'', rr_topic = ''topic'', rr_partition = 1, rr_offset = 7, rr_message_index = 0,
                   rr_record_time_ms = None\<rparr>
      in \<lparr>sd_id = 1,
          sd_outputs =
            [\<lparr>so_table = ''t'', so_is_dlq = False, so_rows = 2, so_memory = 100,
              so_encoder = Inr (\<lambda>row. Inr [if row = 0 then 1 else 2]), so_routes = Inr [route, route],
              so_route_strings_bound = Inr 100\<rparr>],
          sd_source_messages = 1\<rparr>)"

definition example_uploaded :: "(string \<times> u8 list) set" where
  "example_uploaded = {(''t/p/topic+1+7.json'', [1, 2])}"

definition example_s3_inputs :: s3_inputs where
  "example_s3_inputs =
     \<lparr>in_receiver_closed = False, in_now = 0, in_transform_pressured = False, in_transform_pressured_after = False\<rparr>"

definition example_s3_event :: "s3_session \<Rightarrow> s3_event" where
  "example_s3_event t =
     (if ss_uploads t \<noteq> []
      then if (co_key (hd (ss_uploads t)), co_payload (hd (ss_uploads t))) \<in> example_uploaded then Ev_upload 0 (Inr ()) else Ev_cancelled
      else if \<not> can_accept t then Ev_cancelled
      else if ss_accepted t = [] \<and> ss_placed t = [] \<and> sk_expected_partition_id (ss_sink t) = 1
      then Ev_delivery (Some example_s3_delivery) else Ev_delivery None)"

definition example_s3_call :: "nat \<Rightarrow> s3_session option \<Rightarrow> s3_session option dprog" where
  "example_s3_call n x =
     (let start = Return (Some (run_actor_start (s3_sink_new example_s3_config True 1 True) [] [] []))
      in case x of
           None \<Rightarrow> start
         | Some t \<Rightarrow>
             (case ss_pc t of
                Loop_top \<Rightarrow> Return (or_failed t (loop_top example_s3_inputs t))
              | Loop_body \<Rightarrow> dmap (or_failed t) (loop_body example_s3_libs example_s3_inputs t)
              | Loop_select \<Rightarrow> dmap (or_failed t) (loop_select example_s3_libs (example_s3_event t) t)
              | _ \<Rightarrow> start))"

lemma example_s3_laws: "s3_laws example_s3_libs"
proof -
  have "json_laws example_journal_json" unfolding example_journal_json_def by (rule list_json_laws) simp
  then show ?thesis by (simp add: s3_laws_def example_s3_libs_def sort_laws_def sha256_laws_def example_digest_def)
qed

lemma example_delivery_fits:
  "ss_placed t = [] \<Longrightarrow> sk_expected_partition_id (ss_sink t) = 1 \<Longrightarrow> delivery_fits example_s3_libs t example_s3_delivery"
  by (simp add: delivery_fits_def example_s3_delivery_def Let_def route_delivery_def routed_row_key_def rows_bytes_def row_bytes_def bytes_of_def)

lemma example_s3_event_ok:
  "event_enabled example_s3_inputs (example_s3_event t) t \<and> event_possible example_s3_libs example_uploaded (example_s3_event t) t"
  using example_delivery_fits[of t]
  by (cases "ss_uploads t") (auto simp: example_s3_event_def event_enabled_def event_possible_def)

lemma example_s3_call: "\<forall>n x. example_s3_call n x \<in> s3_calls example_s3_libs example_uploaded x"
  using example_s3_event_ok by (auto simp: example_s3_call_def s3_calls_def Let_def split: option.splits actor_pc.splits)

definition example_s3_run :: "nat \<Rightarrow> s3_session option" where
  "example_s3_run n = snd (solo_run (local_file_storage example_lf) example_s3_call example_durable n)"

lemma example_s3_reach:
  "dsys_reach (local_file_storage example_lf) (s3_calls example_s3_libs example_uploaded) example_durable
     (solo_state (local_file_storage example_lf) example_s3_call example_durable n)"
  "snd (solo_state (local_file_storage example_lf) example_s3_call example_durable n) 0 = Idle (example_s3_run n)"
  by (rule solo_reach[OF example_s3_call]) (simp add: solo_state_def example_s3_run_def)

lemma example_s3_start:
  "local_inv example_lf example_durable" "\<forall>k. journal_keys example_s3_libs k \<longrightarrow> local_cell example_lf example_durable k = None"
  by (simp_all add: empty_local_inv local_cell_def example_durable_def)

lemma example_s3_committed:
  "map_option (\<lambda>t. (ss_pc t, ss_events t, map sd_id (ss_accepted t), ac_prefix (sk_config (ss_sink t)))) (example_s3_run 12) =
     Some (Loop_body, [1], [1], [])"
  by code_simp

lemma example_s3_drained:
  "map_option (\<lambda>t. (ss_pc t, ss_events t, map sd_id (ss_accepted t), ac_prefix (sk_config (ss_sink t)))) (example_s3_run 16) =
     Some (Stopped_drained, [1], [1], [])"
  by code_simp

subsection \<open>Properties\<close>

text \<open>
  C3 (a commit of the S3 sink is durable). Let any number of sinks run sessions of any configuration over one
  durable storage, interleaved at every storage call, with faults, crashes and restarts, and let \<open>uploaded\<close> contain
  the objects whose upload has reported success. When a session has reported a commit, every row of every
  output of every delivery up to it is stored: its encoded bytes are part of the payload of an object of its table and partition
  path, and an object with that key, digest and length was uploaded.
\<close>

theorem s3_commits_durable:
  assumes "s3_laws libs" and "local_inv lf st0" and "\<forall>k. journal_keys libs k \<longrightarrow> local_cell lf st0 k = None"
    and "dsys_reach (local_file_storage lf) (s3_calls libs uploaded) st0 s" and "snd s i = Idle (Some t)"
    and "e \<in> set (ss_events t)" and "d \<in> set (ss_accepted t)" and "sd_id d \<le> e"
  shows "delivery_stored libs uploaded (ac_prefix (sk_config (ss_sink t))) d"
  by (rule committed_stored[OF assms])

theorem s3_commits_durable_witness:
  "\<exists>t d. example_s3_run 12 = Some t \<and> ss_events t = [1] \<and> ss_accepted t = [d] \<and> sd_id d = 1 \<and>
     delivery_stored example_s3_libs example_uploaded [] d"
proof -
  obtain t d where t: "example_s3_run 12 = Some t" "ss_events t = [1]" "ss_accepted t = [d]" "sd_id d = 1"
    "ac_prefix (sk_config (ss_sink t)) = []" using example_s3_committed by auto
  have "delivery_stored example_s3_libs example_uploaded [] d"
    using s3_commits_durable[OF example_s3_laws example_s3_start example_s3_reach(1)[of 12] example_s3_reach(2)[of 12, unfolded t(1)], of 1 d] t
    by simp
  then show ?thesis using t by blast
qed

text \<open>
  C5 (the S3 sink drains completely and never fails by itself). In the same system, a session that ends because its input is
  closed has committed every delivery it accepted, and all their rows are stored. A session that fails does so because
  of its configuration or input, the object store, the durable storage, another writer of the same manifest, or a closed
  channel: no counter underflows, no epoch disappears, and a drained sink never finds its progress incomplete.
\<close>

theorem s3_drains_or_fails_outside:
  assumes "s3_laws libs" and "local_inv lf st0" and "\<forall>k. journal_keys libs k \<longrightarrow> local_cell lf st0 k = None"
    and "dsys_reach (local_file_storage lf) (s3_calls libs uploaded) st0 s" and "snd s i = Idle (Some t)"
  shows "case ss_pc t of
      Stopped_drained \<Rightarrow> \<forall>d \<in> set (ss_accepted t). (\<exists>e \<in> set (ss_events t). sd_id d \<le> e) \<and>
        delivery_stored libs uploaded (ac_prefix (sk_config (ss_sink t))) d
    | Stopped_failed e \<Rightarrow> outside_failure e
    | _ \<Rightarrow> True"
proof (cases "ss_pc t")
  case Stopped_drained
  have "journal_keys libs (journal_key (sl_sha256 libs) 0 [])" by (auto simp: journal_keys_def)
  then have "\<exists>e \<in> set (ss_events t). sd_id d \<le> e" if "d \<in> set (ss_accepted t)" for d
    using session_reach[OF assms] Stopped_drained that by (fastforce simp: session_ok_def)
  then show ?thesis using Stopped_drained committed_stored[OF assms] by fastforce
next
  case (Stopped_failed e)
  have "external libs key e" if "journal_keys libs key" for key
    using session_reach[OF assms that] Stopped_failed by (auto simp: session_ok_def)
  then have "outside_failure e" by (rule external_outside)
  then show ?thesis using Stopped_failed by simp
qed simp_all

theorem s3_drains_or_fails_outside_witness:
  "\<exists>t d. example_s3_run 16 = Some t \<and> ss_pc t = Stopped_drained \<and> ss_accepted t = [d] \<and> sd_id d = 1 \<and>
     delivery_stored example_s3_libs example_uploaded [] d"
proof -
  obtain t d where t: "example_s3_run 16 = Some t" "ss_pc t = Stopped_drained" "ss_accepted t = [d]" "sd_id d = 1"
    "ac_prefix (sk_config (ss_sink t)) = []" using example_s3_drained by auto
  have "delivery_stored example_s3_libs example_uploaded [] d"
    using s3_drains_or_fails_outside[OF example_s3_laws example_s3_start example_s3_reach(1)[of 16] example_s3_reach(2)[of 16, unfolded t(1)]] t
    by simp
  then show ?thesis using t by blast
qed

end
