(* ===== verification/Spec2Isabelle.thy ===== *)
theory Spec2Isabelle
  imports Retry Pipeline_System Admission Record_Batches Semantics Pg_Handoff Mysql_Offset S3_Actor
begin

text \<open>
  \<^bold>\<open>Transferia: verification of the data-transfer core\<close>

  Transferia copies and replicates data between databases, streams and object stores. A delivery reads
  partitions of a source, parses messages into Arrow batches, runs middlewares and hands the batches
  to a sink; when the sink reports a batch durable, the source offset is committed. Connectors keep
  what they need for a restart in durable storage. This development models the parts of that path
  that decide what is delivered, committed, counted, retried and resumed, and proves them correct.
  Paths below are relative to \<^verbatim>\<open>src/crates\<close>.

  \<^bold>\<open>Parts and theories\<close>

  \<^item> Shared: \<^verbatim>\<open>Prelude\<close> (Rust integers as words with checked and saturating arithmetic, results
    as sums with the error left, loops with early return, splitting text), \<^verbatim>\<open>BTree_Map\<close> (\<^verbatim>\<open>BTreeMap\<close> as a
    sorted association list behind the locale \<open>ordered_map\<close>), \<^verbatim>\<open>Decimal_Text\<close> (formatting and parsing integers).
  \<^item> Partition pipeline (\<^verbatim>\<open>transferia-pipeline/src/lib.rs\<close>, \<^verbatim>\<open>row_count.rs\<close>, \<^verbatim>\<open>transferia-core/src/memory.rs\<close>,
    \<^verbatim>\<open>transferia-delivery-contracts/src/delivery_tracker.rs\<close>): \<^verbatim>\<open>Delivery_Tracker\<close> has the tracker that
    turns unit completions in any order into commits in order and refines it to a queue;
    \<^verbatim>\<open>Row_Counts\<close> the output totals; \<^verbatim>\<open>Pipeline_Memory\<close> the admission budget as atomic steps of any number of
    tasks; \<^verbatim>\<open>Pipeline\<close> the reader task as a state machine and the parser task as a function;
    \<^verbatim>\<open>Pipeline_System\<close> their composition with a sink over bounded channels; \<^verbatim>\<open>Admission\<close> the task of
    \<^verbatim>\<open>transferia-pipeline/src/admission.rs\<close> that runs the sink in sessions while datasets appear at run time.
  \<^item> Failures (\<^verbatim>\<open>transferia-core/src/failure.rs\<close>, \<^verbatim>\<open>transferia-delivery-contracts/src/retry.rs\<close>): \<^verbatim>\<open>Failure\<close>
    decides which failure of the tasks a run reports; \<^verbatim>\<open>Retry\<close> has the jittered delay.
  \<^item> Data (\<^verbatim>\<open>transferia-core/src/data\<close>, \<^verbatim>\<open>transferia-core/src/delivery.rs\<close>): \<^verbatim>\<open>Schema\<close> has columns, their Arrow
    metadata and system columns; \<^verbatim>\<open>Delivery_Discovery\<close> partition dealing and the validation of batches and
    stored projections; \<^verbatim>\<open>Changelog\<close> the projection and collapsing of change events; \<^verbatim>\<open>Column_Mask\<close> the
    masks of changed columns built by the PostgreSQL and MySQL sources; \<^verbatim>\<open>Record_Batches\<close> compaction and splitting.
  \<^item> Configuration (\<^verbatim>\<open>transferia-delivery-contracts/src/semantics.rs\<close>): \<^verbatim>\<open>Semantics\<close> accepts or rejects a
    source and sink pair and states the guarantee it gets.
  \<^item> Durable state (\<^verbatim>\<open>transferia-registry/src/durable.rs\<close>): \<^verbatim>\<open>Durable\<close> has the file format and the
    compare-and-exchange over a file system whose calls can fail or stop midway, behind the locale
    \<open>durable_storage_laws\<close>; \<^verbatim>\<open>Durable_Protocol\<close> runs any number of clients over it, interleaved at
    every storage call, with faults and crashes, behind the locales \<open>durable_protocol\<close> and \<open>stored_protocol\<close>.
  \<^item> Clients of durable state: \<^verbatim>\<open>Handoff_Phases\<close> has what the snapshot-to-stream hand-offs share;
    \<^verbatim>\<open>Pg_Handoff\<close> and \<^verbatim>\<open>Mysql_Handoff\<close> are those of \<^verbatim>\<open>transferia-connector-postgres\<close> and
    \<^verbatim>\<open>transferia-connector-mysql\<close> (\<^verbatim>\<open>src_batch_and_stream/phase.rs\<close> with the identities it stores);
    \<^verbatim>\<open>Mysql_Offset\<close> is the replication offset of the stream (\<^verbatim>\<open>src_stream/offset.rs\<close>).
  \<^item> MySQL values: \<^verbatim>\<open>Gtid\<close> (\<^verbatim>\<open>src_stream/position.rs\<close>), \<^verbatim>\<open>Mysql_Identity\<close> (\<^verbatim>\<open>src_stream/identity.rs\<close>) and
    \<^verbatim>\<open>Mysql_Metadata\<close> (column metadata of \<^verbatim>\<open>src_batch/connector.rs\<close>).
  \<^item> S3 sink (\<^verbatim>\<open>transferia-connector-s3/src/connectors/s3/sink\<close>): \<^verbatim>\<open>S3_Journal\<close> is the durable manifest of an epoch
    (\<^verbatim>\<open>journal.rs\<close>); \<^verbatim>\<open>S3_Sink\<close> has the operations of \<^verbatim>\<open>actor.rs\<close> and \<^verbatim>\<open>object_key.rs\<close> on buffers, epochs and uploads;
    \<^verbatim>\<open>S3_Accounting\<close> their invariant; \<^verbatim>\<open>S3_Actor\<close> the loop of \<^verbatim>\<open>run_actor\<close>, run by any number of sinks over one durable storage.

  \<^bold>\<open>How code corresponds to definitions\<close>

  Structs are records, enums are datatypes, one definition stands for one function and is named after it;
  loops are recursive functions named after the function they are in. \<^verbatim>\<open>Result\<close> is a sum whose left side
  names the error by constructor, with the values the message is formatted from. Mutable state is
  passed and returned. Asynchronous tasks are step relations (\<open>reader_step\<close>, \<open>mem_step\<close>, \<open>sys_step\<close>,
  \<open>dsys_step\<close>, \<open>admission_step\<close>) so that every interleaving is covered. A \<^verbatim>\<open>String\<close> is the list of its UTF-8 bytes. Code
  outside the repository is an argument of the definitions: Arrow kernels, \<^verbatim>\<open>serde_json\<close>, the GTID parser
  of \<^verbatim>\<open>mysql_common\<close>, the hash functions; sources, sinks, parsers and middlewares are arguments of the
  pipeline. What is relied on of them is a named predicate (\<open>arrow_laws\<close>, \<open>json_laws\<close>,
  \<open>mysql_common_laws\<close>, \<open>s3_laws\<close>), and a witness instantiates it.

  \<^bold>\<open>What the lemmas show\<close>

  The end-to-end properties in this theory say that no offset is committed before the sink has made the
  data durable, that a drained source is completely delivered, and that the tasks never violate each
  other's protocol. \<^verbatim>\<open>Admission\<close> shows that a new dataset waits for everything before it, and that afterwards a
  sink that counts with \<^verbatim>\<open>DeliveryTracker\<close> refuses the next delivery, because the id of the announcement never
  reached it. The component properties say that the tracker commits exactly once and
  loses nothing, that row and memory accounting is exact under every interleaving and that no
  waiter is forgotten, that changelogs collapse to what replaying them gives, that accepted batches are the discovered
  ones, that configurations are accepted exactly under the documented conditions, that durable
  values are replaced atomically, that the hand-offs and positions
  stored by the connectors only move forward, that a closed S3 manifest means durable objects, that a commit
  of the S3 sink means that its rows are in uploaded objects, and that the S3 sink fails only for reasons outside of it.

  \<^bold>\<open>Bounds\<close>

  \<^verbatim>\<open>usize\<close> is 64 bits wide. Delivery ids are taken below \<^verbatim>\<open>u64::MAX\<close>, where the id of the code saturates.
  Buffers are shorter than \<^verbatim>\<open>isize::MAX\<close> bytes, which the language guarantees. A session of the S3 sink takes
  fewer than 2^63 rows and 2^64 encoded bytes, so that its counters are exact. The member parser of
  \<^verbatim>\<open>Mysql_Metadata\<close> is a partial function and proved to return; no definition takes fuel.

  \<^bold>\<open>Not modelled\<close>

  Loss of power, which can undo file writes that were not flushed: files survive the death of processes only.
  Wire protocols, SQL and clients of the external systems; the supervisor that starts and restarts
  tasks (the decisions on their results are \<^verbatim>\<open>Failure\<close>); JSON, Avro, protobuf and Parquet conversion, which call
  libraries for every value; DataFusion plans; the control plane, its HTTP service and the web
  interface; the speed test, which measures wall-clock time; vendored libraries. Log and metric output and
  the wording of error messages are left out everywhere.
\<close>

section \<open>End-to-end properties of a partition pipeline\<close>

text \<open>
  C1 (end-to-end durability). In every reachable state of reader, parser and sink the deliveries ever
  made split into a committed prefix and the reader's ledger. The commits that succeeded at the source
  carried exactly the markers of the prefix, in order, and the sink has accepted every delivery of the prefix and
  completed all of its units: no source offset is committed before its data is durable in the sink.
\<close>

theorem pipeline_commits_only_durable_data:
  assumes "sys_reach read_batch commit_offsets env s"
  shows "\<exists>done. sy_hist s = done @ ledger (sy_reader s) \<and>
    committed_markers (sy_reader s) = ledger_markers done \<and>
    (\<forall>e \<in> set done. (\<exists>u k. Op_accept (ce_id e) u k \<in> set (sy_ops s)) \<and>
       completed_units (unat (ce_id e)) (sy_ops s) = accepted_units (unat (ce_id e)) (sy_ops s))"
proof -
  obtain "done" m where inv: "sys_inv_at s done m"
    using sys_reach_inv[OF assms] by (auto simp: sys_inv_def)
  then show ?thesis
    using sys_done_durable[OF inv] by (intro exI[of _ "done"]) (auto simp: sys_inv_at_def Let_def)
qed

theorem pipeline_commits_only_durable_data_witness:
  "\<exists>s e. example_sys 11 = Some s \<and> committed_markers (sy_reader s) = [7] \<and> sy_hist s = [e] \<and>
     completed_units (unat (ce_id e)) (sy_ops s) = accepted_units (unat (ce_id e)) (sy_ops s)"
proof -
  obtain s where s: "example_sys 11 = Some s" "rd_log (rd_core (sy_reader s)) = [[7]]"
    "sy_hist s = [\<lparr>ce_id = 1, ce_marker = Some 7\<rparr>]"
    using example_sys_result by auto
  obtain "done" where d: "sy_hist s = done @ ledger (sy_reader s)"
    "committed_markers (sy_reader s) = ledger_markers done"
    "\<forall>e \<in> set done. completed_units (unat (ce_id e)) (sy_ops s) = accepted_units (unat (ce_id e)) (sy_ops s)"
    using pipeline_commits_only_durable_data[OF example_sys_reach[OF s(1)]] by blast
  have "done = [\<lparr>ce_id = 1, ce_marker = Some 7\<rparr>]"
    using d(1,2) s(2,3) by (cases "done") (auto simp: append_eq_Cons_conv)
  then show ?thesis using s d(3) by auto
qed

text \<open>
  C2 (drained means delivered). When the reader reports that the finite source is drained, its ledger is
  empty, the source has been handed the marker of every delivery ever made, nothing is left in the
  channels, and every delivery has been accepted and completed by the sink.
\<close>

theorem pipeline_drained_is_delivered:
  assumes "sys_reach read_batch commit_offsets env s"
    and "rd_phase (sy_reader s) = Completed FiniteSourceDrained"
  shows "ledger (sy_reader s) = [] \<and> committed_markers (sy_reader s) = ledger_markers (sy_hist s) \<and>
    sy_in s = [] \<and> sy_out s = [] \<and>
    (\<forall>e \<in> set (sy_hist s). (\<exists>u k. Op_accept (ce_id e) u k \<in> set (sy_ops s)) \<and>
       completed_units (unat (ce_id e)) (sy_ops s) = accepted_units (unat (ce_id e)) (sy_ops s))"
proof -
  obtain "done" m where inv: "sys_inv_at s done m"
    using sys_reach_inv[OF assms(1)] by (auto simp: sys_inv_def)
  then have I: "ledger (sy_reader s) = []" "sy_hist s = done" "committed_markers (sy_reader s) = ledger_markers done"
    "map (unat \<circ> ce_id) done = [1 ..< m]" "Suc (length done) \<le> unat (next_commit (sy_tracker s))"
    "map unat (in_flight s) = [unat (next_received (sy_tracker s)) ..< m]" "tracker_inv (sy_tracker s)" "1 \<le> m"
    using assms(2) by (auto simp: sys_inv_at_def Let_def)
  have "Suc (length done) = m" using arg_cong[OF I(4), of length] I(8) by simp
  moreover have "unat (next_commit (sy_tracker s)) \<le> unat (next_received (sy_tracker s))"
    using I(7) by (simp add: tracker_inv_alt)
  ultimately have "in_flight s = []" using I(5,6) by simp
  then show ?thesis
    using I sys_done_durable[OF inv] by (auto simp: in_flight_def)
qed

theorem pipeline_drained_is_delivered_witness:
  "\<exists>s. example_sys 11 = Some s \<and> rd_phase (sy_reader s) = Completed FiniteSourceDrained \<and>
     length (sy_hist s) = 1 \<and> committed_markers (sy_reader s) = ledger_markers (sy_hist s) \<and> sy_out s = []"
proof -
  obtain s where s: "example_sys 11 = Some s" "rd_phase (sy_reader s) = Completed FiniteSourceDrained"
    "length (sy_hist s) = 1"
    using example_sys_result by auto
  show ?thesis
    using s pipeline_drained_is_delivered[OF example_sys_reach[OF s(1)] s(2)] by blast
qed

text \<open>
  C4 (the components respect each other's protocol). While the reader runs, the next completion event
  names a delivery of the reader's ledger, so the "unknown delivery" failure cannot occur, and the
  next delivery the sink receives has the id its tracker expects, so an order violation cannot occur.
\<close>

theorem pipeline_no_protocol_violation:
  assumes "sys_reach read_batch commit_offsets env s"
  shows "(live (rd_phase (sy_reader s)) \<longrightarrow> sy_events s \<noteq> [] \<longrightarrow>
      valid_range (ledger (sy_reader s)) (hd (sy_events s))) \<and>
    (sy_out s \<noteq> [] \<longrightarrow>
      (\<exists>t. accept (dl_id (hd (sy_out s))) units msgs (sy_tracker s) = Inr t))"
proof -
  obtain "done" m where inv: "sys_inv_at s done m"
    using sys_reach_inv[OF assms] by (auto simp: sys_inv_def)
  show ?thesis
    using sys_inv_event_valid[OF inv] sys_inv_next_delivery[OF inv]
    by (auto simp: accept_def)
qed

theorem pipeline_no_protocol_violation_witness:
  "\<exists>s. example_sys 10 = Some s \<and> sy_events s = [1] \<and> valid_range (ledger (sy_reader s)) 1"
proof -
  obtain s where s: "example_sys 10 = Some s" "sy_events s = [1]" "live (rd_phase (sy_reader s))"
    using example_sys_before_commit by auto
  show ?thesis
    using s pipeline_no_protocol_violation[OF example_sys_reach[OF s(1)]] by auto
qed

end
